(* ===== verification/Prelude.thy ===== *)
theory Prelude
  imports Main "HOL-Library.Word" "HOL-Library.Monad_Syntax" "HOL-Library.Multiset"
begin

unbundle bit_operations_syntax

text \<open>
  What the component theories share: the machine integers of the C code, byte buffers with
  bounds-checked little-endian loads and stores, the byte swaps behind \<open>htons\<close>, \<open>htonl\<close>
  and \<open>rte_cpu_to_be_16/32\<close> on a little-endian host, and generic lemmas on them.

  Undefined behaviour of the C code (a null dereference, an access outside a buffer, a read of
  an uninitialised variable, a function that ends without the value its caller uses) is the
  value \<open>None\<close> of the option monad, so that every such place is a branch of the model.
\<close>

type_synonym u8 = "8 word"
type_synonym u16 = "16 word"
type_synonym u32 = "32 word"
type_synonym u64 = "64 word"
type_synonym bytes = "u8 list"

named_theorems buf_simps \<open>evaluation of loads from stored buffers\<close>
named_theorems ub_elims \<open>inversion of computations that are defined\<close>

section \<open>The option monad\<close>

definition guard :: "bool \<Rightarrow> unit option" where
  "guard b = (if b then Some () else None)"

lemma guard_eq_Some [simp]: "guard b = Some u \<longleftrightarrow> b"
  by (simp add: guard_def)

lemma guard_simps [simp]: "guard True = Some ()" "guard False = None"
  by (simp_all add: guard_def)

lemma bind_SomeE [ub_elims]:
  assumes "Option.bind m f = Some y"
  obtains x where "m = Some x" and "f x = Some y"
  using assms by (cases m) auto

section \<open>Loop counters\<close>

lemma unat_inc:
  fixes i pos :: "'a::len word"
  assumes "i < pos"
  shows "unat (i + 1) = Suc (unat i)"
proof -
  have "Suc (unat i) \<le> unat pos"
    using assms by (simp add: word_less_nat_alt Suc_le_eq)
  also have "\<dots> < 2 ^ LENGTH('a)" by (rule unsigned_less)
  finally show ?thesis by (simp add: unat_word_ariths unat_1)
qed

lemma inc_le_bound:
  fixes i pos :: "'a::len word"
  shows "i < pos \<Longrightarrow> i + 1 \<le> pos"
  by (simp add: word_le_nat_alt unat_inc Suc_le_eq word_less_nat_alt)

section \<open>Little-endian words in byte buffers\<close>

lemma word8_and_ff [simp]: "a AND 0xff = a" for a :: u8
  using take_bit_word_eq_self [of 8 a] by (simp add: take_bit_eq_mask mask_eq_exp_minus_1)

fun le_bytes :: "nat \<Rightarrow> 'a::len word \<Rightarrow> bytes" where
  "le_bytes 0 w = []"
| "le_bytes (Suc n) w = ucast w # le_bytes n (drop_bit 8 w)"

fun un_le :: "bytes \<Rightarrow> 'a::len word" where
  "un_le [] = 0"
| "un_le (b # bs) = ucast b OR push_bit 8 (un_le bs)"

lemma length_le_bytes [simp]: "length (le_bytes n w) = n"
  by (induction n arbitrary: w) auto

lemma un_le_le_bytes: "un_le (le_bytes n w) = take_bit (8 * n) w"
proof (induction n arbitrary: w)
  case 0
  show ?case by simp
next
  case (Suc n)
  show ?case
    by (rule bit_word_eqI)
      (auto simp: Suc.IH bit_or_iff bit_push_bit_iff bit_take_bit_iff bit_drop_bit_eq
        bit_ucast_iff not_le not_less)
qed

lemma un_le_le_bytes_full [simp]:
  fixes w :: "'a::len word"
  assumes "LENGTH('a) \<le> 8 * n"
  shows "un_le (le_bytes n w) = w"
  using assms by (simp add: un_le_le_bytes take_bit_word_eq_self)

definition rdn :: "bytes \<Rightarrow> nat \<Rightarrow> nat \<Rightarrow> bytes option" where
  "rdn b p n = (if p + n \<le> length b then Some (take n (drop p b)) else None)"

definition wrn :: "bytes \<Rightarrow> nat \<Rightarrow> bytes \<Rightarrow> bytes option" where
  "wrn b p xs = (if p + length xs \<le> length b
     then Some (take p b @ xs @ drop (p + length xs) b) else None)"

definition rd8 :: "bytes \<Rightarrow> nat \<Rightarrow> u8 option" where
  "rd8 b p = (if p < length b then Some (b ! p) else None)"

definition rd16 :: "bytes \<Rightarrow> nat \<Rightarrow> u16 option" where
  "rd16 b p = map_option un_le (rdn b p 2)"

definition rd32 :: "bytes \<Rightarrow> nat \<Rightarrow> u32 option" where
  "rd32 b p = map_option un_le (rdn b p 4)"

definition rd64 :: "bytes \<Rightarrow> nat \<Rightarrow> u64 option" where
  "rd64 b p = map_option un_le (rdn b p 8)"

definition wr8 :: "bytes \<Rightarrow> nat \<Rightarrow> u8 \<Rightarrow> bytes option" where
  "wr8 b p w = wrn b p [w]"

definition wr16 :: "bytes \<Rightarrow> nat \<Rightarrow> u16 \<Rightarrow> bytes option" where
  "wr16 b p w = wrn b p (le_bytes 2 w)"

definition wr32 :: "bytes \<Rightarrow> nat \<Rightarrow> u32 \<Rightarrow> bytes option" where
  "wr32 b p w = wrn b p (le_bytes 4 w)"

definition wr64 :: "bytes \<Rightarrow> nat \<Rightarrow> u64 \<Rightarrow> bytes option" where
  "wr64 b p w = wrn b p (le_bytes 8 w)"

lemma wrn_SomeI: "p + length xs \<le> length b \<Longrightarrow> \<exists>b'. wrn b p xs = Some b'"
  by (simp add: wrn_def)

lemma wrn_length: "wrn b p xs = Some b' \<Longrightarrow> length b' = length b"
  by (auto simp: wrn_def split: if_splits)

lemma wrn_in_bounds: "wrn b p xs = Some b' \<Longrightarrow> p + length xs \<le> length b"
  by (auto simp: wrn_def split: if_splits)

lemma wr_lengths:
  "wr8 b p w8 = Some b' \<Longrightarrow> length b' = length b"
  "wr16 b p w16 = Some b' \<Longrightarrow> length b' = length b"
  "wr32 b p w32 = Some b' \<Longrightarrow> length b' = length b"
  "wr64 b p w64 = Some b' \<Longrightarrow> length b' = length b"
  by (auto simp: wr8_def wr16_def wr32_def wr64_def dest: wrn_length)

lemma wrn_total: "p + length xs \<le> length b \<Longrightarrow>
  wrn b p xs = Some (take p b @ xs @ drop (p + length xs) b)"
  by (simp add: wrn_def)

text \<open>A load of the range just written gives what was written; a load of a disjoint range
  gives what was there before.\<close>

lemma rdn_wrn_same:
  "wrn b p xs = Some b' \<Longrightarrow> n = length xs \<Longrightarrow> rdn b' p n = Some xs"
  by (auto simp: wrn_def rdn_def split: if_splits)

lemma rdn_wrn_other:
  assumes "wrn b p xs = Some b'" and "q + n \<le> p \<or> p + length xs \<le> q"
  shows "rdn b' q n = rdn b q n"
proof -
  from assms(1) have b': "b' = take p b @ xs @ drop (p + length xs) b"
    and le: "p + length xs \<le> length b"
    by (auto simp: wrn_def split: if_splits)
  from assms(2) show ?thesis
  proof
    assume "q + n \<le> p"
    with le show ?thesis
      by (auto simp: b' rdn_def min_def take_drop)
  next
    assume *: "p + length xs \<le> q"
    have "drop q b' = drop q b"
      using le * by (simp add: b' min_def)
    moreover have "length b' = length b"
      using le by (simp add: b')
    ultimately show ?thesis by (simp add: rdn_def)
  qed
qed

lemma rd8_rdn: "rd8 b p = map_option hd (rdn b p 1)"
  by (auto simp: rd8_def rdn_def hd_drop_conv_nth take_Suc hd_append)

lemmas rd_defs = rd16_def rd32_def rd64_def rd8_rdn
lemmas wr_defs = wr8_def wr16_def wr32_def wr64_def

lemma rd_wr_same [buf_simps]:
  "wr8 b p w8 = Some b' \<Longrightarrow> rd8 b' p = Some w8"
  "wr16 b p w16 = Some b' \<Longrightarrow> rd16 b' p = Some w16"
  "wr32 b p w32 = Some b' \<Longrightarrow> rd32 b' p = Some w32"
  "wr64 b p w64 = Some b' \<Longrightarrow> rd64 b' p = Some w64"
  by (simp_all add: rd_defs wr_defs rdn_wrn_same del: le_bytes.simps)

section \<open>Stores as total updates\<close>

text \<open>A chain of stores that are all in bounds is a nest of \<open>put\<close>; the rules below read a
  field back through it, deciding overlaps by arithmetic on the offsets.\<close>

definition slice :: "bytes \<Rightarrow> nat \<Rightarrow> nat \<Rightarrow> bytes" where
  "slice b q n = take n (drop q b)"

definition put :: "bytes \<Rightarrow> nat \<Rightarrow> bytes \<Rightarrow> bytes" where
  "put b p xs = (case wrn b p xs of Some b' \<Rightarrow> b' | None \<Rightarrow> b)"

definition get8 :: "bytes \<Rightarrow> nat \<Rightarrow> u8" where
  "get8 b q = un_le (slice b q 1)"

definition get16 :: "bytes \<Rightarrow> nat \<Rightarrow> u16" where
  "get16 b q = un_le (slice b q 2)"

definition get32 :: "bytes \<Rightarrow> nat \<Rightarrow> u32" where
  "get32 b q = un_le (slice b q 4)"

definition get64 :: "bytes \<Rightarrow> nat \<Rightarrow> u64" where
  "get64 b q = un_le (slice b q 8)"

lemma wrn_put [buf_simps]:
  "wrn b p xs = (if p + length xs \<le> length b then Some (put b p xs) else None)"
  by (simp add: put_def wrn_def)

lemma length_put [simp]: "length (put b p xs) = length b"
  by (auto simp: put_def wrn_def)

lemma rdn_slice [buf_simps]:
  "rdn b q n = (if q + n \<le> length b then Some (slice b q n) else None)"
  by (simp add: rdn_def slice_def)

lemma length_slice [simp]: "length (slice b q n) = min n (length b - q)"
  by (simp add: slice_def)

lemma slice_put_same [buf_simps]:
  "p + length xs \<le> length b \<Longrightarrow> n = length xs \<Longrightarrow> slice (put b p xs) p n = xs"
  using rdn_wrn_same [of b p xs "put b p xs" n] by (simp add: buf_simps split: if_splits)

lemma slice_put_other [buf_simps]:
  assumes "q + n \<le> p \<or> p + length xs \<le> q"
  shows "slice (put b p xs) q n = slice b q n"
proof (cases "p + length xs \<le> length b")
  case True
  then have "put b p xs = take p b @ xs @ drop (p + length xs) b"
    by (simp add: put_def wrn_def)
  with True assms show ?thesis
    by (auto simp: slice_def take_drop min_def)
next
  case False
  then show ?thesis by (simp add: put_def wrn_def)
qed

lemma get_put_same [buf_simps]:
  "p + 1 \<le> length b \<Longrightarrow> get8 (put b p [w8]) p = w8"
  "p + 2 \<le> length b \<Longrightarrow> get16 (put b p (le_bytes 2 w16)) p = w16"
  "p + 4 \<le> length b \<Longrightarrow> get32 (put b p (le_bytes 4 w32)) p = w32"
  "p + 8 \<le> length b \<Longrightarrow> get64 (put b p (le_bytes 8 w64)) p = w64"
  by (simp_all add: get8_def get16_def get32_def get64_def slice_put_same)

lemma get_put_other [buf_simps]:
  "q + 1 \<le> p \<or> p + length xs \<le> q \<Longrightarrow> get8 (put b p xs) q = get8 b q"
  "q + 2 \<le> p \<or> p + length xs \<le> q \<Longrightarrow> get16 (put b p xs) q = get16 b q"
  "q + 4 \<le> p \<or> p + length xs \<le> q \<Longrightarrow> get32 (put b p xs) q = get32 b q"
  "q + 8 \<le> p \<or> p + length xs \<le> q \<Longrightarrow> get64 (put b p xs) q = get64 b q"
  by (simp_all add: get8_def get16_def get32_def get64_def slice_put_other)

lemma slice_split: "slice b q (m + n) = slice b q m @ slice b (q + m) n"
  by (simp add: slice_def take_add add.commute)

text \<open>Reading a part of a block that was stored at once.\<close>

named_theorems within_simps \<open>fields of a stored block\<close>

lemma slice_put_within [within_simps]:
  assumes "p \<le> q" and "q + n \<le> p + length xs" and "p + length xs \<le> length b"
  shows "slice (put b p xs) q n = slice xs (q - p) n"
proof -
  have "put b p xs = take p b @ xs @ drop (p + length xs) b"
    using assms(3) by (simp add: put_def wrn_def)
  then show ?thesis
    using assms by (simp add: slice_def)
qed

lemma get_put_within [within_simps]:
  "p \<le> q \<Longrightarrow> q + 1 \<le> p + length xs \<Longrightarrow> p + length xs \<le> length b \<Longrightarrow>
   get8 (put b p xs) q = get8 xs (q - p)"
  "p \<le> q \<Longrightarrow> q + 2 \<le> p + length xs \<Longrightarrow> p + length xs \<le> length b \<Longrightarrow>
   get16 (put b p xs) q = get16 xs (q - p)"
  "p \<le> q \<Longrightarrow> q + 4 \<le> p + length xs \<Longrightarrow> p + length xs \<le> length b \<Longrightarrow>
   get32 (put b p xs) q = get32 xs (q - p)"
  "p \<le> q \<Longrightarrow> q + 8 \<le> p + length xs \<Longrightarrow> p + length xs \<le> length b \<Longrightarrow>
   get64 (put b p xs) q = get64 xs (q - p)"
  by (simp_all add: get8_def get16_def get32_def get64_def slice_put_within)

lemma slice_append [within_simps]:
  "k + n \<le> length xs \<Longrightarrow> slice (xs @ ys) k n = slice xs k n"
  "length xs \<le> k \<Longrightarrow> slice (xs @ ys) k n = slice ys (k - length xs) n"
  by (simp_all add: slice_def)

lemma get_append [within_simps]:
  "k + 1 \<le> length xs \<Longrightarrow> get8 (xs @ ys) k = get8 xs k"
  "length xs \<le> k \<Longrightarrow> get8 (xs @ ys) k = get8 ys (k - length xs)"
  "k + 2 \<le> length xs \<Longrightarrow> get16 (xs @ ys) k = get16 xs k"
  "length xs \<le> k \<Longrightarrow> get16 (xs @ ys) k = get16 ys (k - length xs)"
  "k + 4 \<le> length xs \<Longrightarrow> get32 (xs @ ys) k = get32 xs k"
  "length xs \<le> k \<Longrightarrow> get32 (xs @ ys) k = get32 ys (k - length xs)"
  "k + 8 \<le> length xs \<Longrightarrow> get64 (xs @ ys) k = get64 xs k"
  "length xs \<le> k \<Longrightarrow> get64 (xs @ ys) k = get64 ys (k - length xs)"
  by (simp_all add: get8_def get16_def get32_def get64_def slice_append)

lemma slice_full [within_simps]: "n = length xs \<Longrightarrow> slice xs 0 n = xs"
  by (simp add: slice_def)

lemma get_le_bytes [within_simps]:
  "get16 (le_bytes 2 w16) 0 = w16" "get32 (le_bytes 4 w32) 0 = w32"
  "get64 (le_bytes 8 w64) 0 = w64"
  by (simp_all add: get16_def get32_def get64_def slice_def)

lemma get8_nth: "q < length b \<Longrightarrow> get8 b q = b ! q"
  by (simp add: get8_def slice_def take_Suc hd_drop_conv_nth)

lemma get8_Cons [within_simps]: "get8 (x # xs) k = (if k = 0 then x else get8 xs (k - 1))"
  by (cases k) (simp_all add: get8_def slice_def un_le.simps)

lemma get_Cons [within_simps]:
  "0 < k \<Longrightarrow> get16 (x # xs) k = get16 xs (k - 1)"
  "0 < k \<Longrightarrow> get32 (x # xs) k = get32 xs (k - 1)"
  "0 < k \<Longrightarrow> get64 (x # xs) k = get64 xs (k - 1)"
  "0 < k \<Longrightarrow> slice (x # xs) k n = slice xs (k - 1) n"
  by (simp_all add: get16_def get32_def get64_def slice_def drop_Cons')

lemma rd_get [buf_simps]:
  "rd8 b q = (if q + 1 \<le> length b then Some (get8 b q) else None)"
  "rd16 b q = (if q + 2 \<le> length b then Some (get16 b q) else None)"
  "rd32 b q = (if q + 4 \<le> length b then Some (get32 b q) else None)"
  "rd64 b q = (if q + 8 \<le> length b then Some (get64 b q) else None)"
  by (simp_all add: rd8_def get8_nth rd16_def rd32_def rd64_def rdn_slice
      get16_def get32_def get64_def Suc_le_eq)

lemma wr_put [buf_simps]:
  "wr8 b p w8 = (if p + 1 \<le> length b then Some (put b p [w8]) else None)"
  "wr16 b p w16 = (if p + 2 \<le> length b then Some (put b p (le_bytes 2 w16)) else None)"
  "wr32 b p w32 = (if p + 4 \<le> length b then Some (put b p (le_bytes 4 w32)) else None)"
  "wr64 b p w64 = (if p + 8 \<le> length b then Some (put b p (le_bytes 8 w64)) else None)"
  by (simp_all add: wr_defs wrn_put)

declare le_bytes.simps [simp del] un_le.simps [simp del]

section \<open>Byte swaps\<close>

lemma le_bytes_un_le:
  "8 * length bs \<le> LENGTH('a::len) \<Longrightarrow> le_bytes (length bs) (un_le bs :: 'a word) = bs"
proof (induction bs)
  case Nil
  show ?case by (simp add: le_bytes.simps)
next
  case (Cons b bs)
  have "ucast (ucast b OR push_bit 8 (un_le bs :: 'a word)) = b"
    by (rule bit_word_eqI) (use Cons.prems in \<open>auto simp: bit_simps\<close>)
  moreover have "un_le bs = take_bit (8 * length bs) (un_le bs :: 'a word)"
    using Cons.IH Cons.prems un_le_le_bytes [of "length bs" "un_le bs :: 'a word"] by simp
  then have "drop_bit 8 (ucast b OR push_bit 8 (un_le bs :: 'a word)) = un_le bs"
    using Cons.prems
    by - (rule bit_word_eqI, (subst (asm) bit_eq_iff, auto simp: bit_simps dest: bit_imp_le_length))
  ultimately show ?case
    using Cons by (simp add: le_bytes.simps un_le.simps)
qed

lemma le_bytes_get:
  "q + 2 \<le> length b \<Longrightarrow> le_bytes 2 (get16 b q) = slice b q 2"
  "q + 4 \<le> length b \<Longrightarrow> le_bytes 4 (get32 b q) = slice b q 4"
proof -
  assume "q + 2 \<le> length b"
  then have "length (slice b q 2) = 2" by simp
  with le_bytes_un_le [of "slice b q 2", where 'a = 16]
  show "le_bytes 2 (get16 b q) = slice b q 2" by (simp add: get16_def del: length_slice)
next
  assume "q + 4 \<le> length b"
  then have "length (slice b q 4) = 4" by simp
  with le_bytes_un_le [of "slice b q 4", where 'a = 32]
  show "le_bytes 4 (get32 b q) = slice b q 4" by (simp add: get32_def del: length_slice)
qed

lemma le_bytes_inject [simp]:
  fixes v w :: u32 and x y :: u16
  shows "le_bytes 4 v = le_bytes 4 w \<longleftrightarrow> v = w" "le_bytes 2 x = le_bytes 2 y \<longleftrightarrow> x = y"
proof -
  have "un_le (le_bytes 4 v) = v" "un_le (le_bytes 4 w) = w"
    "un_le (le_bytes 2 x) = x" "un_le (le_bytes 2 y) = y" by simp_all
  then show "le_bytes 4 v = le_bytes 4 w \<longleftrightarrow> v = w" "le_bytes 2 x = le_bytes 2 y \<longleftrightarrow> x = y"
    by metis+
qed

text \<open>The swap reads the bytes of the word in the other order.\<close>

definition bswap16 :: "u16 \<Rightarrow> u16" where
  "bswap16 w = un_le (rev (le_bytes 2 w))"

definition bswap32 :: "u32 \<Rightarrow> u32" where
  "bswap32 w = un_le (rev (le_bytes 4 w))"

lemma bswap_bswap [simp]:
  "bswap16 (bswap16 w) = w"
  "bswap32 (bswap32 v) = v"
  using le_bytes_un_le [of "rev (le_bytes 2 w)", where 'a = 16]
    le_bytes_un_le [of "rev (le_bytes 4 v)", where 'a = 32]
  by (simp_all add: bswap16_def bswap32_def)

lemma bswap_inject [simp]:
  "bswap16 w = bswap16 w' \<longleftrightarrow> w = w'"
  "bswap32 v = bswap32 v' \<longleftrightarrow> v = v'"
  by (metis bswap_bswap)+

lemma le_bytes_bswap:
  "le_bytes 2 (bswap16 w) = rev (le_bytes 2 w)"
  "le_bytes 4 (bswap32 v) = rev (le_bytes 4 v)"
  using le_bytes_un_le [of "rev (le_bytes 2 w)", where 'a = 16]
    le_bytes_un_le [of "rev (le_bytes 4 v)", where 'a = 32]
  by (simp_all add: bswap16_def bswap32_def)

lemma le_bytes_numeral:
  "le_bytes 2 w = [ucast w, ucast (drop_bit 8 w)]"
  "le_bytes 4 w = [ucast w, ucast (drop_bit 8 w), ucast (drop_bit 16 w), ucast (drop_bit 24 w)]"
  by (simp_all add: eval_nat_numeral le_bytes.simps)

lemma bswap16_or: "bswap16 w = push_bit 8 w OR drop_bit 8 w"
proof (rule bit_word_eqI)
  fix n assume "n < LENGTH(16)"
  then show "bit (bswap16 w) n = bit (push_bit 8 w OR drop_bit 8 w) n"
   by (auto simp: bswap16_def le_bytes_numeral un_le.simps bit_simps not_le dest: bit_imp_le_length)
qed
lemma uint_bswap16: "uint (bswap16 w) = uint w mod 256 * 256 + uint w div 256"
proof -
  have "push_bit 8 w AND drop_bit 8 w = 0"
    by (rule bit_word_eqI) (auto simp: bit_simps dest: bit_imp_le_length)
  then have "push_bit 8 w OR drop_bit 8 w = push_bit 8 w + drop_bit 8 w"
    using word_plus_and_or [of "push_bit 8 w" "drop_bit 8 w"] by simp
  moreover have "uint w < 65536" "0 \<le> uint w" using uint_bounded [of w] by simp_all
  then have "uint w div 256 < 256" "0 \<le> uint w div 256" "uint w mod 256 \<le> 255" "0 \<le> uint w mod 256"
    by (simp_all add: pos_imp_zdiv_nonneg_iff, presburger?)
  moreover have "uint (push_bit 8 w) = uint w mod 256 * 256"
    using mod_mult_mult2 [of "uint w" 256 256]
    by (simp only: unsigned_push_bit_eq) (simp add: push_bit_eq_mult take_bit_eq_mod)
  moreover have "uint (drop_bit 8 w) = uint w div 256"
    using \<open>uint w < 65536\<close> by (simp only: unsigned_drop_bit_eq) (simp add: drop_bit_eq_div take_bit_eq_mod)
  ultimately show ?thesis
    by (simp only: bswap16_or uint_word_ariths mod_pos_pos_trivial) simp
qed

lemma bswap16_add4:
  assumes "uint (n :: u16) mod 256 < 252"
  shows "bswap16 (n + 4) = bswap16 n + 1024"
proof -
  have b: "0 \<le> uint n" "uint n < 65536" using uint_bounded [of n] by simp_all
  define q r where "q = uint n div 256" and "r = uint n mod 256"
  have qr: "uint n = 256 * q + r" "0 \<le> r" "r < 256" by (simp_all add: q_def r_def)
  have q: "0 \<le> q" "q < 256" using b qr by auto
  have "uint (n + 4) = 256 * q + (r + 4)"
    using b qr assms q by (simp add: uint_word_ariths mod_pos_pos_trivial r_def [symmetric])
  moreover from this have "uint (n + 4) div 256 = q" "uint (n + 4) mod 256 = r + 4"
    using qr assms by (auto simp: r_def [symmetric] )
  ultimately have "uint (bswap16 (n + 4)) = (r + 4) * 256 + q"
     by (simp only: uint_bswap16)
  moreover have "uint (bswap16 n) = r * 256 + q" by (simp add: uint_bswap16 q_def r_def)
  ultimately show ?thesis using qr q assms
    by (simp add: word_uint_eq_iff uint_word_ariths mod_pos_pos_trivial r_def [symmetric])
qed

lemma unat_get16:
  assumes "q + 2 \<le> length b"
  shows "unat (get16 b q) = unat (get8 b q) + 256 * unat (get8 b (q + 1))"
proof -
  let ?x = "get8 b q" and ?y = "get8 b (q + 1)"
  have "slice b q 2 = [?x, ?y]"
    using assms by (intro nth_equalityI) (auto simp: slice_def get8_nth nth_Cons split: nat.splits)
  then have "get16 b q = ucast ?x OR push_bit 8 (ucast ?y)"
    by (simp add: get16_def un_le.simps)
  also have "\<dots> = ucast ?x + push_bit 8 (ucast ?y)"
  proof -
    have "(ucast ?x :: u16) AND push_bit 8 (ucast ?y) = 0"
      by (rule bit_word_eqI) (auto simp: bit_simps dest: bit_imp_le_length)
    then show ?thesis
      using word_plus_and_or [of "ucast ?x :: u16" "push_bit 8 (ucast ?y)"] by simp
  qed
  finally have eq: "get16 b q = ucast ?x + 256 * ucast ?y"
    by (simp add: push_bit_eq_mult)
  have "unat ?x < 256" "unat ?y < 256"
    using unsigned_less [of ?x] unsigned_less [of ?y] by simp_all
  then show ?thesis
    unfolding eq by (simp add: unat_word_ariths unsigned_ucast_eq take_bit_nat_eq_self)
qed

end
