(* ===== verification/Nid_Table.thy ===== *)
theory Nid_Table
  imports Prelude
begin

text \<open>
  The resource manager's path table: \<open>nid_t\<close>, \<open>struct nid_ip_nid_ip_nid\<close> and the static
  array \<open>nid_ip_nid_ip_nid_array\<close> of \<open>RM/wenxingbeng.c\<close>, the comparison of node
  identifiers, the alignment of the table with the host's own identifier at start-up, and the
  two functions of \<open>RM/main.c\<close> that read and update the table for a neighbour.
\<close>

section \<open>Node identifiers and their comparison\<close>

datatype nid = Nid (nid_bytes: bytes)

definition wf_nid :: "nid \<Rightarrow> bool" where
  "wf_nid n \<longleftrightarrow> length (nid_bytes n) = 16"

text \<open>The loop of \<open>compare_nid\<close>: the first differing byte decides.\<close>

fun compare_bytes :: "bytes \<Rightarrow> bytes \<Rightarrow> int" where
  "compare_bytes (x # xs) (y # ys) =
     (if x < y then -1 else if y < x then 1 else compare_bytes xs ys)"
| "compare_bytes [] [] = 0"
| "compare_bytes [] (y # ys) = -1"
| "compare_bytes (x # xs) [] = 1"

definition compare_nid :: "nid \<Rightarrow> nid \<Rightarrow> int" where
  "compare_nid a b = compare_bytes (nid_bytes a) (nid_bytes b)"

lemma compare_bytes_0 [simp]: "compare_bytes xs ys = 0 \<longleftrightarrow> xs = ys"
  by (induction xs ys rule: compare_bytes.induct) auto

lemma compare_nid_0 [simp]: "compare_nid a b = 0 \<longleftrightarrow> a = b"
  by (cases a; cases b) (simp add: compare_nid_def)

lemma compare_nid_self [simp]: "compare_nid a a = 0"
  by simp

lemma compare_bytes_antisym: "compare_bytes ys xs = - compare_bytes xs ys"
  by (induction xs ys rule: compare_bytes.induct) auto

lemma compare_bytes_range: "compare_bytes xs ys \<in> {-1, 0, 1}"
  by (induction xs ys rule: compare_bytes.induct) auto

lemma compare_bytes_trans:
  "compare_bytes xs ys \<le> 0 \<Longrightarrow> compare_bytes ys zs \<le> 0 \<Longrightarrow> compare_bytes xs zs \<le> 0"
  by (induction xs ys arbitrary: zs rule: compare_bytes.induct)
    (case_tac zs; force split: if_splits)+

text \<open>The comparison is the linear order of the identifiers, so the library's order
  reasoning applies to them.\<close>

instantiation nid :: linorder
begin

definition less_eq_nid :: "nid \<Rightarrow> nid \<Rightarrow> bool" where
  "a \<le> b \<longleftrightarrow> compare_nid a b \<le> 0"

definition less_nid :: "nid \<Rightarrow> nid \<Rightarrow> bool" where
  "(a :: nid) < b \<longleftrightarrow> compare_nid a b < 0"

instance
proof
  fix a b c :: nid
  have anti: "compare_nid b a = - compare_nid a b" for a b
    by (simp add: compare_nid_def compare_bytes_antisym [of "nid_bytes b"])
  show "a < b \<longleftrightarrow> a \<le> b \<and> \<not> b \<le> a"
    using anti [of b a] by (auto simp: less_eq_nid_def less_nid_def)
  show "a \<le> a"
    by (simp add: less_eq_nid_def)
  show "a \<le> b \<Longrightarrow> b \<le> c \<Longrightarrow> a \<le> c"
    unfolding less_eq_nid_def compare_nid_def by (rule compare_bytes_trans)
  show "a = b" if "a \<le> b" and "b \<le> a"
  proof -
    from that anti [of b a] have "compare_nid a b = 0"
      by (simp add: less_eq_nid_def)
    then show ?thesis by simp
  qed
  show "a \<le> b \<or> b \<le> a"
    using anti [of b a] by (auto simp: less_eq_nid_def)
qed

end

text \<open>\<open>compare_nid\<close> orders the node identifiers lexicographically byte by byte: it
  answers zero exactly on equal identifiers, it changes sign when its arguments are swapped,
  and a negative answer is transitive, so comparing with the result \<open>\<le> 0\<close> is a linear order.\<close>

theorem compare_nid_linear_order:
  "compare_nid a b \<in> {-1, 0, 1} \<and> (compare_nid a b = 0 \<longleftrightarrow> a = b)
    \<and> compare_nid b a = - compare_nid a b
    \<and> (compare_nid a b \<le> 0 \<and> compare_nid b c \<le> 0 \<longrightarrow> compare_nid a c \<le> 0)
    \<and> (\<forall>p x y xs ys. a = Nid (p @ x # xs) \<and> b = Nid (p @ y # ys) \<and> x < y
        \<longrightarrow> compare_nid a b = -1)"
proof -
  have "compare_bytes (p @ x # xs) (p @ y # ys) = -1" if "x < y" for p x y xs ys
    using that by (induction p) auto
  moreover have "compare_nid a b \<le> 0 \<and> compare_nid b c \<le> 0 \<longrightarrow> compare_nid a c \<le> 0"
    unfolding compare_nid_def by (blast intro: compare_bytes_trans)
  ultimately show ?thesis
    using compare_bytes_range [of "nid_bytes a" "nid_bytes b"]
      compare_bytes_antisym [of "nid_bytes b" "nid_bytes a"]
    by (auto simp: compare_nid_def nid.expand)
qed

theorem compare_nid_linear_order_witness:
  "compare_nid (Nid [0, 1]) (Nid [0, 2]) \<le> 0 \<and> compare_nid (Nid [0, 1]) (Nid [3, 0]) \<le> 0"
proof -
  have "compare_nid (Nid [0, 1]) (Nid [0, 2]) \<le> 0 \<and> compare_nid (Nid [0, 2]) (Nid [3, 0]) \<le> 0"
    by (simp add: compare_nid_def)
  then show ?thesis
    using compare_nid_linear_order [of "Nid [0, 1]" "Nid [0, 2]" "Nid [3, 0]"] by blast
qed

section \<open>The path table\<close>

text \<open>\<open>struct nid_ip_nid_ip_nid\<close>: an inter-domain path from \<open>eid1\<close> (leaving through
  \<open>ip1\<close>) to \<open>eid2\<close> (entered through \<open>ip2\<close>), with its path identifier.\<close>

record path_entry =
  eid1 :: nid
  ip1 :: u32
  path_pid :: u32
  ip2 :: u32
  eid2 :: nid

definition IPv4 :: "u32 \<Rightarrow> u32 \<Rightarrow> u32 \<Rightarrow> u32 \<Rightarrow> u32" where
  "IPv4 a b c d = push_bit 24 (a AND 0xff) OR push_bit 16 (b AND 0xff)
     OR push_bit 8 (c AND 0xff) OR (d AND 0xff)"

definition PID :: "u32 \<Rightarrow> u32 \<Rightarrow> u32 \<Rightarrow> u32 \<Rightarrow> u32" where
  "PID a b c d = push_bit 24 (a AND 0xff) OR push_bit 16 (b AND 0xff)
     OR push_bit 8 (c AND 0xff) OR (d AND 0xff)"

definition host_nid :: nid where
  "host_nid = Nid [0,0,0,0,0,0,0,0,0,0,0,0,0,0,0,1]"

text \<open>The table of this router as the source declares it: one path to a neighbour that
  carries the same identifier as the host.\<close>

definition nid_ip_nid_ip_nid_array :: "path_entry list" where
  "nid_ip_nid_ip_nid_array =
     [\<lparr>eid1 = Nid [0,0,0,0,0,0,0,0,0,0,0,0,0,0,0,1], ip1 = IPv4 192 168 1 3,
       path_pid = PID 0x50 0x49 0x44 0x32, ip2 = IPv4 192 168 3 2,
       eid2 = Nid [0,0,0,0,0,0,0,0,0,0,0,0,0,0,0,1]\<rparr>]"

text \<open>\<open>aligment_configure\<close>: an entry that has the host at its far end is turned round. The
  copy loop writes the old near identifier to the far end and \<open>HOST_NID\<close> to the near end.\<close>

definition align_entry :: "nid \<Rightarrow> path_entry \<Rightarrow> path_entry" where
  "align_entry h e =
     (if compare_nid h (eid1 e) = 0 \<or> compare_nid h (eid2 e) = 0 then
        if compare_nid h (eid1 e) \<noteq> 0 then
          e\<lparr>ip1 := ip2 e, ip2 := ip1 e, eid2 := eid1 e, eid1 := h\<rparr>
        else e
      else e)"

definition aligment_configure :: "nid \<Rightarrow> path_entry list \<Rightarrow> path_entry list" where
  "aligment_configure h tab = map (align_entry h) tab"

text \<open>The undirected link an entry stands for.\<close>

definition link_of :: "path_entry \<Rightarrow> (nid \<times> u32) set \<times> u32" where
  "link_of e = ({(eid1 e, ip1 e), (eid2 e, ip2 e)}, path_pid e)"

lemma align_entry_eid1: "eid1 (align_entry h e) = h \<longleftrightarrow> eid1 e = h \<or> eid2 e = h"
  by (auto simp: align_entry_def)

lemma align_entry_link: "link_of (align_entry h e) = link_of e"
  by (auto simp: align_entry_def link_of_def)

lemma align_entry_idem [simp]: "align_entry h (align_entry h e) = align_entry h e"
  by (auto simp: align_entry_def)

text \<open>After the start-up alignment every path of the table that touches this host leaves
  from it (the host is the near end), every entry still denotes the same undirected link with
  the same path identifier, entries that do not touch the host are unchanged, and aligning a
  second time changes nothing.\<close>

theorem aligment_configure_correct:
  "length (aligment_configure h tab) = length tab
    \<and> (\<forall>i < length tab.
        (let e = tab ! i; e' = aligment_configure h tab ! i
         in (eid1 e = h \<or> eid2 e = h \<longrightarrow> eid1 e' = h)
            \<and> (eid1 e \<noteq> h \<and> eid2 e \<noteq> h \<longrightarrow> e' = e)
            \<and> link_of e' = link_of e))
    \<and> aligment_configure h (aligment_configure h tab) = aligment_configure h tab"
  by (auto simp: aligment_configure_def align_entry_eid1 align_entry_link Let_def)
    (auto simp: align_entry_def)

theorem aligment_configure_correct_witness:
  "eid1 (aligment_configure (Nid [7]) [\<lparr>eid1 = Nid [3], ip1 = 1, path_pid = 9, ip2 = 2,
      eid2 = Nid [7]\<rparr>] ! 0) = Nid [7]"
  using aligment_configure_correct [of "Nid [7]" "[\<lparr>eid1 = Nid [3], ip1 = 1, path_pid = 9,
      ip2 = 2, eid2 = Nid [7]\<rparr>]"]
  by (simp add: Let_def)

section \<open>Reading and updating the table for one neighbour\<close>

definition to_neighbour :: "nid \<Rightarrow> nid \<Rightarrow> path_entry \<Rightarrow> bool" where
  "to_neighbour h n e \<longleftrightarrow> compare_nid h (eid1 e) = 0 \<and> compare_nid n (eid2 e) = 0"

text \<open>\<open>find_ip_or_pid(AS, type)\<close>: type 0 asks for the outgoing address, type 1 for the path
  identifier, both of the first matching entry and in network order. A loop that finds nothing,
  or another type, falls off the end of the function: its value is undefined.\<close>

fun find_ip_or_pid :: "nid \<Rightarrow> path_entry list \<Rightarrow> nid \<Rightarrow> int \<Rightarrow> u32 option" where
  "find_ip_or_pid h [] n ty = None"
| "find_ip_or_pid h (e # tab) n ty =
     (if to_neighbour h n e \<and> ty = 0 then Some (bswap32 (ip1 e))
      else if to_neighbour h n e \<and> ty = 1 then Some (bswap32 (path_pid e))
      else find_ip_or_pid h tab n ty)"

text \<open>\<open>update_nid_ip_nid_ip_nid(AS)\<close>: the path identifiers negotiated with a neighbour are
  handed out, in order, to the entries that lead to it. The code keeps the number of rows in 8 bits (\<open>number\<close>,
  computed from the size of the array); the table is fixed at compile time and has far fewer than 256 rows, so that the loop
  runs over all of it.\<close>

fun update_paths :: "nid \<Rightarrow> nid \<Rightarrow> u32 list \<Rightarrow> nat \<Rightarrow> path_entry list \<Rightarrow> path_entry list option"
where
  "update_paths h n pids k [] = Some []"
| "update_paths h n pids k (e # tab) =
     (if to_neighbour h n e then
        do { guard (k < length pids);
             tab' \<leftarrow> update_paths h n pids (Suc k) tab;
             Some (e\<lparr>path_pid := pids ! k\<rparr> # tab') }
      else do { tab' \<leftarrow> update_paths h n pids k tab; Some (e # tab') })"

definition paths_to :: "nid \<Rightarrow> nid \<Rightarrow> path_entry list \<Rightarrow> u32 list" where
  "paths_to h n tab = map path_pid (filter (to_neighbour h n) tab)"

lemma paths_to_simps [simp]:
  "paths_to h n [] = []"
  "paths_to h n (e # tab) =
     (if to_neighbour h n e then path_pid e # paths_to h n tab else paths_to h n tab)"
  by (simp_all add: paths_to_def)

lemma to_neighbour_iff: "to_neighbour h n e \<longleftrightarrow> eid1 e = h \<and> eid2 e = n"
  by (auto simp: to_neighbour_def)

lemma to_neighbour_update [simp]:
  "to_neighbour h n (e\<lparr>path_pid := p\<rparr>) = to_neighbour h n e"
  by (simp add: to_neighbour_def)

lemma update_paths_defined:
  "k + length (paths_to h n tab) \<le> length pids \<Longrightarrow>
   \<exists>tab'. update_paths h n pids k tab = Some tab'"
proof (induction tab arbitrary: k)
  case Nil
  show ?case by simp
next
  case (Cons e tab)
  then show ?case
    by (cases "to_neighbour h n e") (auto simp: bind_eq_Some_conv)
qed

lemma update_paths_own:
  "update_paths h n pids k tab = Some tab' \<Longrightarrow>
   paths_to h n tab' = take (length (paths_to h n tab)) (drop k pids)"
proof (induction tab arbitrary: k tab')
  case Nil
  then show ?case by simp
next
  case (Cons e tab)
  then show ?case
    by (cases "to_neighbour h n e")
      (auto elim!: ub_elims split: if_splits simp: Cons_nth_drop_Suc [symmetric])
qed

lemma update_paths_other:
  "update_paths h n pids k tab = Some tab' \<Longrightarrow> m \<noteq> n \<Longrightarrow> paths_to h m tab' = paths_to h m tab"
proof (induction tab arbitrary: k tab')
  case Nil
  then show ?case by simp
next
  case (Cons e tab)
  then show ?case
    by (auto elim!: ub_elims split: if_splits simp: to_neighbour_iff)
qed

lemma update_paths_links:
  "update_paths h n pids k tab = Some tab' \<Longrightarrow>
   map (\<lambda>e. e\<lparr>path_pid := 0\<rparr>) tab' = map (\<lambda>e. e\<lparr>path_pid := 0\<rparr>) tab"
  by (induction h n pids k tab arbitrary: tab' rule: update_paths.induct)
    (auto elim!: ub_elims split: if_splits)

lemma find_ip_or_pid_eq:
  "find_ip_or_pid h tab n 1 = map_option bswap32 (List.find (\<lambda>_. True) (paths_to h n tab))"
  by (induction tab) auto

end
