(* ===== verification/Pid_Chain.thy ===== *)
theory Pid_Chain
  imports Nid_Table
begin

text \<open>
  The chain of neighbour records of \<open>RM/main.c\<close>: \<open>struct pid_info\<close>, the singly linked list
  of \<open>struct pid_info_table\<close> nodes, its look-up functions \<open>get_item\<close> and \<open>search\<close>, and
  \<open>read_configuration_init_pid_change_wxb\<close>, which builds the chain from the path table.

  The chain is acyclic and owned by one global, so it is a list; a \<open>link\<close> pointer into it is
  a position, \<open>NULL\<close> is \<open>None\<close>. The array \<open>pid[MAX_PID_NUMBER]\<close> of a node comes from
  \<open>malloc\<close>: only its initialised prefix is represented, so a read at or beyond its length is
  a read of uninitialised memory or out of bounds, and is undefined.
\<close>

section \<open>Nodes\<close>

definition MAX_PID_NUMBER :: nat where
  "MAX_PID_NUMBER = 20"

record pid_info =
  EID :: nid
  ID :: u8
  pid_change_time :: u32
  number_pid :: u32
  pid :: "u32 list"

definition wf_node :: "pid_info \<Rightarrow> bool" where
  "wf_node n \<longleftrightarrow> length (pid n) = unat (number_pid n) \<and> length (pid n) \<le> MAX_PID_NUMBER"

text \<open>\<open>make_node\<close> copies the item into a new node whose \<open>next\<close> is \<open>NULL\<close>.\<close>

definition make_node :: "pid_info \<Rightarrow> pid_info list" where
  "make_node item = [item]"

section \<open>Look-up\<close>

text \<open>\<open>get_item\<close>: the loop advances the pointer and the 8-bit index together.\<close>

fun get_item_loop :: "pid_info list \<Rightarrow> u8 \<Rightarrow> u8 \<Rightarrow> pid_info list \<times> u8" where
  "get_item_loop [] i pos = ([], i)"
| "get_item_loop (n # chain) i pos =
     (if i < pos then get_item_loop chain (i + 1) pos else (n # chain, i))"

definition get_item :: "pid_info list \<Rightarrow> u8 \<Rightarrow> pid_info \<Rightarrow> int \<times> pid_info" where
  "get_item p pos out =
     (case get_item_loop p 0 pos of
        ([], i) \<Rightarrow> (-1, out)
      | (n # _, i) \<Rightarrow> if i > pos then (-1, out) else (1, n))"

lemma get_item_loop_eq:
  "i \<le> pos \<Longrightarrow> unat pos - unat i < length p \<Longrightarrow>
   get_item_loop p i pos = (drop (unat pos - unat i) p, pos)"
proof (induction p i pos rule: get_item_loop.induct)
  case (1 i pos)
  then show ?case by simp
next
  case (2 n chain i pos)
  show ?case
  proof (cases "i < pos")
    case True
    then have "unat (i + 1) = Suc (unat i)" and "i + 1 \<le> pos"
      by (rule unat_inc, rule inc_le_bound)
    moreover have "unat i < unat pos"
      using True by (simp add: word_less_nat_alt)
    ultimately show ?thesis
      using True 2 by (simp add: Suc_diff_Suc [symmetric])
  next
    case False
    with "2.prems" have "i = pos" by simp
    then show ?thesis by simp
  qed
qed

text \<open>\<open>search\<close>: walk to the first node with the identifier or to the last node, then test
  the node reached.\<close>

fun search_loop :: "pid_info list \<Rightarrow> nid \<Rightarrow> nat \<Rightarrow> nat" where
  "search_loop [] e k = k"
| "search_loop [n] e k = k"
| "search_loop (n # m # chain) e k =
     (if EID n \<noteq> e then search_loop (m # chain) e (Suc k) else k)"

definition search :: "pid_info list \<Rightarrow> nid \<Rightarrow> nat option" where
  "search p e =
     (if p = [] then None
      else let k = search_loop p e 0 in if EID (p ! k) \<noteq> e then None else Some k)"

lemma search_loop_shift: "search_loop p e k = k + search_loop p e 0"
proof (induction p arbitrary: k)
  case (Cons n p)
  show ?case
    by (cases p) (use Cons.IH [of "Suc k"] Cons.IH [of "Suc 0"] in auto)
qed simp

lemma search_loop_props:
  "p \<noteq> [] \<Longrightarrow> search_loop p e 0 < length p
    \<and> (\<forall>j < search_loop p e 0. EID (p ! j) \<noteq> e)
    \<and> (EID (p ! search_loop p e 0) = e \<or> Suc (search_loop p e 0) = length p)"
proof (induction p)
  case (Cons n p)
  show ?case
  proof (cases p)
    case (Cons m chain)
    with Cons.IH show ?thesis
      by (auto simp: search_loop_shift [of _ _ "Suc 0"] nth_Cons split: nat.split)
  qed simp
qed simp

lemma search_Some:
  assumes "search p e = Some k"
  shows "k < length p" and "EID (p ! k) = e" and "\<And>j. j < k \<Longrightarrow> EID (p ! j) \<noteq> e"
  using assms search_loop_props [of p e] by (auto simp: search_def Let_def split: if_splits)

lemma search_None: "search p e = None \<longleftrightarrow> (\<forall>n \<in> set p. EID n \<noteq> e)"
proof
  assume none: "search p e = None"
  show "\<forall>n \<in> set p. EID n \<noteq> e"
  proof (cases "p = []")
    case False
    let ?r = "search_loop p e 0"
    from none False have "EID (p ! ?r) \<noteq> e"
      by (simp add: search_def Let_def split: if_splits)
    then show ?thesis
      using search_loop_props [OF False, of e] by (auto simp: in_set_conv_nth) (metis less_Suc_eq)
  qed simp
next
  assume "\<forall>n \<in> set p. EID n \<noteq> e"
  then show "search p e = None"
    using search_loop_props [of p e] by (auto simp: search_def Let_def)
qed

lemma get_item_loop_end:
  "i \<le> pos \<Longrightarrow> length p \<le> unat pos - unat i \<Longrightarrow> fst (get_item_loop p i pos) = []"
proof (induction p i pos rule: get_item_loop.induct)
  case (2 n chain i pos)
  then have "unat i < unat pos" by auto
  then have "i < pos" by (simp add: word_less_nat_alt)
  with 2 show ?case by (simp add: unat_inc inc_le_bound)
qed simp

text \<open>\<open>search\<close> answers the first node with the wanted identifier and \<open>NULL\<close> exactly when
  there is none, although its loop stops one node early and tests the node it stopped at;
  \<open>get_item\<close> copies out the node at the given position and leaves the caller's item alone when
  the chain is shorter.\<close>

theorem chain_lookup_correct:
  "(search p e = Some k \<longleftrightarrow> k < length p \<and> EID (p ! k) = e \<and> (\<forall>j < k. EID (p ! j) \<noteq> e))
    \<and> (search p e = None \<longleftrightarrow> e \<notin> EID ` set p)
    \<and> get_item p pos out = (if unat pos < length p then (1, p ! unat pos) else (-1, out))"
proof -
  have "search p e = Some k"
    if k: "k < length p" "EID (p ! k) = e" and first: "\<forall>j < k. EID (p ! j) \<noteq> e"
  proof -
    have "search p e \<noteq> None" using k by (auto simp: search_None)
    then obtain i where i: "search p e = Some i" by auto
    have "i = k"
      using search_Some [OF i] k first by (metis linorder_neqE_nat)
    with i show ?thesis by simp
  qed
  moreover have "get_item p pos out = (if unat pos < length p then (1, p ! unat pos) else (-1, out))"
    using get_item_loop_eq [of 0 pos p] get_item_loop_end [of 0 pos p]
    by (cases "get_item_loop p 0 pos")
      (auto simp: get_item_def Cons_nth_drop_Suc [symmetric] split: list.splits)
  ultimately show ?thesis
    using search_Some [of p e k] by (auto simp: search_None)
qed

theorem chain_lookup_correct_witness:
  "search [\<lparr>EID = Nid [1], ID = 0, pid_change_time = 30, number_pid = 0, pid = []\<rparr>,
     \<lparr>EID = Nid [2], ID = 1, pid_change_time = 30, number_pid = 0, pid = []\<rparr>] (Nid [2]) = Some 1"
  using chain_lookup_correct [of "[\<lparr>EID = Nid [1], ID = 0, pid_change_time = 30, number_pid = 0,
     pid = []\<rparr>, \<lparr>EID = Nid [2], ID = 1, pid_change_time = 30, number_pid = 0, pid = []\<rparr>]"
     "Nid [2]" 1] by simp

section \<open>Building the chain from the path table\<close>

text \<open>One round of the loop of \<open>read_configuration_init_pid_change_wxb\<close> over an entry that
  leaves from this host. \<open>lp\<close> tells whether the local \<open>last_point\<close> has been set in this
  call; where it has, it is the last node of the chain. \<open>counter\<close> is the static \<open>int\<close> that
  numbers the nodes.\<close>

definition new_node :: "path_entry \<Rightarrow> int \<Rightarrow> pid_info" where
  "new_node e counter = \<lparr>EID = eid2 e, ID = word_of_int counter, pid_change_time = 30,
     number_pid = 1, pid = [path_pid e]\<rparr>"

definition add_pid :: "pid_info \<Rightarrow> u32 \<Rightarrow> pid_info option" where
  "add_pid n p = do {
     guard (unat (number_pid n) = length (pid n) \<and> length (pid n) < MAX_PID_NUMBER);
     Some (n\<lparr>pid := pid n @ [p], number_pid := number_pid n + 1\<rparr>) }"

fun read_config_loop ::
  "nid \<Rightarrow> path_entry list \<Rightarrow> pid_info list \<Rightarrow> bool \<Rightarrow> int \<Rightarrow> (pid_info list \<times> int) option"
where
  "read_config_loop h [] head_wxb lp counter = Some (head_wxb, counter)"
| "read_config_loop h (e # tab) head_wxb lp counter =
     (if compare_nid h (eid1 e) = 0 then
        case search head_wxb (eid2 e) of
          Some k \<Rightarrow>
            do { n \<leftarrow> add_pid (head_wxb ! k) (path_pid e);
                 read_config_loop h tab (head_wxb[k := n]) lp counter }
        | None \<Rightarrow>
            if head_wxb = [] then
              read_config_loop h tab [new_node e counter] True (counter + 1)
            else do { guard lp;
              read_config_loop h tab (head_wxb @ [new_node e counter]) True (counter + 1) }
      else read_config_loop h tab head_wxb lp counter)"

definition read_configuration_init_pid_change_wxb ::
  "nid \<Rightarrow> path_entry list \<Rightarrow> pid_info list \<Rightarrow> int \<Rightarrow> (pid_info list \<times> int) option" where
  "read_configuration_init_pid_change_wxb h tab head_wxb counter =
     read_config_loop h tab head_wxb False counter"

text \<open>The specification: neighbours in the order of their first path, each with the
  identifiers of its paths in table order.\<close>

definition neighbours :: "nid \<Rightarrow> path_entry list \<Rightarrow> nid list" where
  "neighbours h tab = map eid2 (filter (\<lambda>e. eid1 e = h) tab)"

definition first_uses :: "'a list \<Rightarrow> 'a list" where
  "first_uses xs = rev (remdups (rev xs))"

lemma first_uses_snoc:
  "first_uses (xs @ [x]) = (if x \<in> set xs then first_uses xs else first_uses xs @ [x])"
  by (simp add: first_uses_def)

lemma set_first_uses [simp]: "set (first_uses xs) = set xs"
  by (simp add: first_uses_def)

lemma distinct_first_uses [simp]: "distinct (first_uses xs)"
  by (simp add: first_uses_def)

definition node_spec :: "nid \<Rightarrow> path_entry list \<Rightarrow> nat \<Rightarrow> nid \<Rightarrow> pid_info" where
  "node_spec h tab i n = \<lparr>EID = n, ID = word_of_nat i, pid_change_time = 30,
     number_pid = word_of_nat (length (paths_to h n tab)), pid = paths_to h n tab\<rparr>"

definition chain_spec :: "nid \<Rightarrow> path_entry list \<Rightarrow> pid_info list" where
  "chain_spec h tab =
     map (\<lambda>(i, n). node_spec h tab i n) (enumerate 0 (first_uses (neighbours h tab)))"

lemma paths_to_append [simp]:
  "paths_to h n (t1 @ t2) = paths_to h n t1 @ paths_to h n t2"
  by (simp add: paths_to_def)

lemma paths_to_Nil_iff: "paths_to h n tab = [] \<longleftrightarrow> n \<notin> set (neighbours h tab)"
  by (auto simp: paths_to_def neighbours_def filter_empty_conv to_neighbour_iff)

lemma length_chain_spec: "length (chain_spec h tab) = length (first_uses (neighbours h tab))"
  by (simp add: chain_spec_def)

lemma chain_spec_nth:
  "k < length (first_uses (neighbours h tab)) \<Longrightarrow>
   chain_spec h tab ! k = node_spec h tab k (first_uses (neighbours h tab) ! k)"
  by (simp add: chain_spec_def nth_enumerate_eq)

lemma EID_chain_spec: "map EID (chain_spec h tab) = first_uses (neighbours h tab)"
  by (rule nth_equalityI) (simp_all add: chain_spec_nth length_chain_spec node_spec_def)

lemma search_distinct:
  assumes "distinct (map EID p)" and "k < length p"
  shows "search p (EID (p ! k)) = Some k"
proof -
  have "search p (EID (p ! k)) \<noteq> None"
    using assms(2) by (auto simp: search_None)
  then obtain j where j: "search p (EID (p ! k)) = Some j" by auto
  from search_Some [OF j] assms have "map EID p ! j = map EID p ! k" and "j < length p"
    by simp_all
  then have "j = k"
    using assms nth_eq_iff_index_eq [OF assms(1), of j k] by simp
  with j show ?thesis by simp
qed

definition paths_fit :: "nid \<Rightarrow> path_entry list \<Rightarrow> bool" where
  "paths_fit h tab \<longleftrightarrow> (\<forall>n \<in> set (neighbours h tab). length (paths_to h n tab) \<le> MAX_PID_NUMBER)"

lemma paths_fitD: "paths_fit h tab \<Longrightarrow> length (paths_to h n tab) \<le> MAX_PID_NUMBER"
  using paths_to_Nil_iff [of h n tab] by (cases "paths_to h n tab = []") (auto simp: paths_fit_def)

lemma paths_fitI: "(\<And>n. length (paths_to h n tab) \<le> MAX_PID_NUMBER) \<Longrightarrow> paths_fit h tab"
  by (simp add: paths_fit_def)

lemma neighbours_snoc:
  "neighbours h (d @ [e]) = (if eid1 e = h then neighbours h d @ [eid2 e] else neighbours h d)"
  by (simp add: neighbours_def)

lemma chain_spec_skip: "eid1 e \<noteq> h \<Longrightarrow> chain_spec h (d @ [e]) = chain_spec h d"
  by (simp add: chain_spec_def node_spec_def neighbours_snoc to_neighbour_iff)

lemma node_spec_other:
  "n \<noteq> eid2 e \<Longrightarrow> node_spec h (d @ [e]) i n = node_spec h d i n"
  by (simp add: node_spec_def to_neighbour_iff)

lemma chain_spec_new:
  assumes "eid1 e = h" and "eid2 e \<notin> set (neighbours h d)"
  shows "chain_spec h (d @ [e]) = chain_spec h d @ [new_node e (int (length (chain_spec h d)))]"
proof -
  let ?u = "first_uses (neighbours h d)"
  have u: "first_uses (neighbours h (d @ [e])) = ?u @ [eid2 e]"
    using assms by (simp add: neighbours_snoc first_uses_snoc)
  have "node_spec h (d @ [e]) i n = node_spec h d i n" if "(i, n) \<in> set (enumerate 0 ?u)" for i n
  proof (rule node_spec_other)
    from that have "n \<in> set ?u" by (auto simp: enumerate_eq_zip dest: set_zip_rightD)
    with assms(2) show "n \<noteq> eid2 e" by auto
  qed
  moreover have "paths_to h (eid2 e) d = []"
    using assms by (simp add: paths_to_Nil_iff)
  then have "node_spec h (d @ [e]) (length ?u) (eid2 e) = new_node e (int (length ?u))"
    using assms by (simp add: node_spec_def new_node_def to_neighbour_iff)
  ultimately show ?thesis
    by (auto simp: chain_spec_def u enumerate_append_eq)
qed

lemma chain_spec_more:
  assumes "eid1 e = h" and "search (chain_spec h d) (eid2 e) = Some k"
  shows "chain_spec h (d @ [e]) = (chain_spec h d)[k := node_spec h (d @ [e]) k (eid2 e)]"
proof (rule nth_equalityI)
  let ?u = "first_uses (neighbours h d)"
  from search_Some [OF assms(2)] have k: "k < length ?u" and e: "?u ! k = eid2 e"
    by (auto simp: chain_spec_nth length_chain_spec node_spec_def)
  then have "eid2 e \<in> set (neighbours h d)" by (metis nth_mem set_first_uses)
  then have u: "first_uses (neighbours h (d @ [e])) = ?u"
    using assms(1) by (simp add: neighbours_snoc first_uses_snoc)
  show "length (chain_spec h (d @ [e])) =
      length ((chain_spec h d)[k := node_spec h (d @ [e]) k (eid2 e)])"
    by (simp add: length_chain_spec u)
  fix i
  assume "i < length (chain_spec h (d @ [e]))"
  then have i: "i < length ?u" by (simp add: length_chain_spec u)
  then show "chain_spec h (d @ [e]) ! i =
      (chain_spec h d)[k := node_spec h (d @ [e]) k (eid2 e)] ! i"
  proof (cases "i = k")
    case False
    then have "?u ! i \<noteq> eid2 e"
      using i k e by (metis distinct_first_uses nth_eq_iff_index_eq)
    with False i show ?thesis by (simp add: chain_spec_nth u node_spec_other)
  qed (use k e in \<open>simp add: chain_spec_nth u length_chain_spec\<close>)
qed

lemma chain_spec_pid:
  assumes "search (chain_spec h d) n = Some k" and "paths_fit h d"
  shows "pid (chain_spec h d ! k) = paths_to h n d"
    and "unat (number_pid (chain_spec h d ! k)) = length (paths_to h n d)"
  using search_Some [OF assms(1)] paths_fitD [OF assms(2), of n]
  by (auto simp: chain_spec_nth length_chain_spec node_spec_def MAX_PID_NUMBER_def unat_of_nat)

lemma search_chain_spec_None:
  "search (chain_spec h d) n = None \<longleftrightarrow> n \<notin> set (neighbours h d)"
proof -
  have "EID ` set (chain_spec h d) = set (neighbours h d)"
    using EID_chain_spec [of h d] by (metis set_map set_first_uses)
  then show ?thesis by (force simp: search_None)
qed

lemma read_config_loop_eq:
  "paths_fit h d \<Longrightarrow> (chain_spec h d \<noteq> [] \<longrightarrow> lp) \<Longrightarrow>
   read_config_loop h tab (chain_spec h d) lp (int (length (chain_spec h d))) =
     (if paths_fit h (d @ tab)
      then Some (chain_spec h (d @ tab), int (length (chain_spec h (d @ tab)))) else None)"
proof (induction tab arbitrary: d lp)
  case Nil
  then show ?case by simp
next
  case (Cons e tab)
  consider (skip) "eid1 e \<noteq> h"
    | (new) "eid1 e = h" "search (chain_spec h d) (eid2 e) = None"
    | (old) k where "eid1 e = h" "search (chain_spec h d) (eid2 e) = Some k"
    by (cases "search (chain_spec h d) (eid2 e)") auto
  then show ?case
  proof cases
    case skip
    then have "paths_fit h (d @ [e])"
      using Cons.prems(1) by (simp add: paths_fit_def neighbours_snoc to_neighbour_iff)
    with skip Cons show ?thesis
      using Cons.IH [of "d @ [e]" lp] by (simp add: chain_spec_skip)
  next
    case new
    then have fresh: "eid2 e \<notin> set (neighbours h d)"
      by (simp add: search_chain_spec_None)
    have "length (paths_to h n (d @ [e])) \<le> MAX_PID_NUMBER" for n
      using paths_fitD [OF Cons.prems(1), of n] fresh paths_to_Nil_iff [of h n d]
      by (auto simp: to_neighbour_iff MAX_PID_NUMBER_def)
    then have "paths_fit h (d @ [e])" by (rule paths_fitI)
    with new fresh Cons.prems Cons.IH [of "d @ [e]" True] show ?thesis
      by (cases "chain_spec h d = []") (auto simp: chain_spec_new add.commute)
  next
    case old
    note pid = chain_spec_pid [OF old(2) Cons.prems(1)]
    show ?thesis
    proof (cases "length (paths_to h (eid2 e) d) < MAX_PID_NUMBER")
      case True
      have "length (paths_to h n (d @ [e])) \<le> MAX_PID_NUMBER" for n
        using paths_fitD [OF Cons.prems(1), of n] True by (auto simp: to_neighbour_iff)
      then have "paths_fit h (d @ [e])" by (rule paths_fitI)
      moreover have "add_pid (chain_spec h d ! k) (path_pid e) =
          Some (node_spec h (d @ [e]) k (eid2 e))"
        using old pid True search_Some [OF old(2)]
        by (simp add: add_pid_def chain_spec_nth length_chain_spec node_spec_def to_neighbour_iff)
      moreover have "length (chain_spec h (d @ [e])) = length (chain_spec h d)"
        using chain_spec_more [OF old] by simp
      moreover have "lp" using Cons.prems(2) search_Some(1) [OF old(2)] by auto
      ultimately show ?thesis
        using old Cons.IH [of "d @ [e]" lp] chain_spec_more [OF old] by simp
    next
      case False
      have "\<not> paths_fit h (d @ e # tab)"
        using paths_fitD [of h "d @ e # tab" "eid2 e"] old False by (auto simp: to_neighbour_iff)
      then show ?thesis
        using old False pid by (simp add: add_pid_def)
    qed
  qed
qed

lemma read_configuration_chain:
  "read_configuration_init_pid_change_wxb h tab [] 0 =
     (if paths_fit h tab then Some (chain_spec h tab, int (length (chain_spec h tab))) else None)"
proof -
  have "chain_spec h [] = []" and "paths_fit h []"
    by (simp_all add: chain_spec_def paths_fit_def neighbours_def first_uses_def)
  then show ?thesis
    using read_config_loop_eq [of h "[]" False tab]
    by (simp add: read_configuration_init_pid_change_wxb_def)
qed

text \<open>C11: From an empty chain, \<open>read_configuration_init_pid_change_wxb\<close> builds exactly one node
  per neighbour of the host, in the order of the neighbours' first paths, numbered from 0,
  with a period of 30 and with the identifiers of all of the neighbour's paths in table order.
  It has a defined result exactly when no neighbour has more than \<open>MAX_PID_NUMBER\<close> paths: the
  code has no check, and a twenty-first path writes beyond the node's array.\<close>

theorem read_configuration_builds_chain:
  "read_configuration_init_pid_change_wxb h tab [] 0 =
     (if paths_fit h tab then Some (chain_spec h tab, int (length (chain_spec h tab))) else None)"
  by (rule read_configuration_chain)

end
