(* ===== verification/C_Text.thy ===== *)
theory C_Text
  imports Prelude
begin

text \<open>
  The parts of the C library that turn text into numbers, as the code uses them: \<open>strtoul\<close>,
  \<open>atoi\<close> and \<open>strchr\<close>. A C string is the list of its characters up to the terminating zero. The
  inverse, the numeral of a number in a base, serves the round trips.
\<close>

section \<open>Digits\<close>

definition code :: "char \<Rightarrow> nat" where
  "code c = of_char c"

definition isspace :: "char \<Rightarrow> bool" where
  "isspace c \<longleftrightarrow> code c = 32 \<or> 9 \<le> code c \<and> code c \<le> 13"

definition digit_val :: "char \<Rightarrow> nat" where
  "digit_val c = (let n = code c in
     if 48 \<le> n \<and> n \<le> 57 then n - 48
     else if 97 \<le> n \<and> n \<le> 122 then n - 87
     else if 65 \<le> n \<and> n \<le> 90 then n - 55 else 99)"

definition digit_char :: "nat \<Rightarrow> char" where
  "digit_char d = (if d < 10 then char_of (48 + d) else char_of (87 + d))"

fun digits :: "nat \<Rightarrow> string \<Rightarrow> nat \<Rightarrow> nat \<times> string" where
  "digits b [] acc = (acc, [])"
| "digits b (c # cs) acc =
     (if digit_val c < b then digits b cs (acc * b + digit_val c) else (acc, c # cs))"

fun sign :: "string \<Rightarrow> bool \<times> string" where
  "sign (c # cs) = (if c = CHR ''-'' then (True, cs) else if c = CHR ''+'' then (False, cs)
     else (False, c # cs))"
| "sign [] = (False, [])"

text \<open>The prefix \<open>0x\<close> counts only if a hexadecimal digit follows it.\<close>

definition radix :: "nat \<Rightarrow> string \<Rightarrow> nat \<times> string" where
  "radix base s =
     (case s of
        a # b # c # cs \<Rightarrow>
          if base \<in> {0, 16} \<and> a = CHR ''0'' \<and> (b = CHR ''x'' \<or> b = CHR ''X'') \<and> digit_val c < 16
          then (16, c # cs)
          else (if base = 0 then if a = CHR ''0'' then 8 else 10 else base, s)
      | a # cs \<Rightarrow> (if base = 0 then if a = CHR ''0'' then 8 else 10 else base, s)
      | [] \<Rightarrow> (if base = 0 then 10 else base, s))"

text \<open>\<open>strtoul\<close>: the value, the rest of the string (all of it if there is no number), and whether
  \<open>errno\<close> is set to \<open>ERANGE\<close>.\<close>

definition strtoul :: "nat \<Rightarrow> string \<Rightarrow> u64 \<times> string \<times> bool" where
  "strtoul base s =
     (let (neg, s1) = sign (dropWhile isspace s);
          (b, s2) = radix base s1;
          (n, rest) = digits b s2 0
      in if rest = s2 then (0, s, False)
         else if 2 ^ 64 \<le> int n then (- 1, rest, True)
         else (if neg then - word_of_nat n else word_of_nat n, rest, False))"

text \<open>\<open>atoi\<close>; a number that does not fit an \<open>int\<close> is undefined.\<close>

definition atoi :: "string \<Rightarrow> int option" where
  "atoi s = (let (neg, s1) = sign (dropWhile isspace s); (n, rest) = digits 10 s1 0;
       v = (if neg then - int n else int n)
     in if v < - (2 ^ 31) \<or> 2 ^ 31 \<le> v then None else Some v)"

text \<open>\<open>strtoll\<close> with base 10, which saturates.\<close>

definition strtoll :: "string \<Rightarrow> int" where
  "strtoll s = (let (neg, s1) = sign (dropWhile isspace s); (n, rest) = digits 10 s1 0
     in if neg then max (- int n) (- (2 ^ 63)) else min (int n) (2 ^ 63 - 1))"

text \<open>\<open>strchr\<close>: the suffix that begins with the character.\<close>

fun strchr :: "char \<Rightarrow> string \<Rightarrow> string option" where
  "strchr c [] = None"
| "strchr c (x # xs) = (if x = c then Some (x # xs) else strchr c xs)"

section \<open>Numerals\<close>

function numeral_of :: "nat \<Rightarrow> nat \<Rightarrow> string" where
  "numeral_of b n =
     (if b < 2 \<or> n < b then [digit_char n] else numeral_of b (n div b) @ [digit_char (n mod b)])"
  by pat_completeness auto
termination by (relation "measure snd") (auto simp: div_less_dividend)

declare numeral_of.simps [simp del]

lemma digit_val_char: "d < 36 \<Longrightarrow> digit_val (digit_char d) = d"
  by (auto simp: digit_val_def digit_char_def code_def Let_def)

lemma digits_append:
  "\<forall>c \<in> set cs. digit_val c < b \<Longrightarrow> digits b (cs @ rest) acc = digits b rest (fst (digits b cs acc))"
  by (induction cs arbitrary: acc) auto

lemma numeral_chars:
  assumes "2 \<le> b" and "b \<le> 36"
  shows "\<forall>c \<in> set (numeral_of b n). \<exists>d < b. c = digit_char d"
proof (induction n rule: less_induct)
  case (less n)
  show ?case
  proof (cases "n < b")
    case True
    then show ?thesis by (auto simp: numeral_of.simps [of b n])
  next
    case False
    then have "n div b < n" using assms by (intro div_less_dividend) auto
    with less.IH [OF this] False assms show ?thesis
      by (auto simp: numeral_of.simps [of b n] intro!: exI [of _ "n mod b"])
  qed
qed

lemma numeral_digits:
  assumes "2 \<le> b" and "b \<le> 36"
  shows "\<forall>c \<in> set (numeral_of b n). digit_val c < b"
  using numeral_chars [OF assms, of n] assms by (auto simp: digit_val_char)

lemma digits_numeral:
  assumes "2 \<le> b" and "b \<le> 36"
  shows "digits b (numeral_of b n) 0 = (n, [])"
proof (induction n rule: less_induct)
  case (less n)
  show ?case
  proof (cases "n < b")
    case True
    with assms show ?thesis by (simp add: numeral_of.simps [of b n] digit_val_char)
  next
    case False
    then have "n div b < n" using assms by (intro div_less_dividend) auto
    note IH = less.IH [OF this]
    have "n mod b < b" using assms by (intro mod_less_divisor) simp
    moreover from this assms have "digit_val (digit_char (n mod b)) = n mod b"
      by (intro digit_val_char) linarith
    ultimately show ?thesis
      using False assms IH
      by (simp add: numeral_of.simps [of b n] digits_append [OF numeral_digits])
  qed
qed

lemma numeral_nonempty [simp]: "numeral_of b n \<noteq> []" "[] \<noteq> numeral_of b n"
  by (simp_all add: numeral_of.simps [of b n])

lemma digit_char_plain:
  assumes "d < 36"
  shows "\<not> isspace (digit_char d)" and "digit_char d \<noteq> CHR ''-''" and "digit_char d \<noteq> CHR ''+''"
    and "digit_char d \<noteq> CHR ''(''" and "digit_char d \<noteq> CHR '')''" and "digit_char d \<noteq> CHR '',''"
proof -
  show "\<not> isspace (digit_char d)"
    using assms by (auto simp: isspace_def digit_char_def code_def)
  have "code (digit_char d) \<noteq> 45 \<and> code (digit_char d) \<noteq> 43 \<and> code (digit_char d) \<noteq> 40
      \<and> code (digit_char d) \<noteq> 41 \<and> code (digit_char d) \<noteq> 44"
    using assms by (auto simp: digit_char_def code_def)
  then show "digit_char d \<noteq> CHR ''-''" and "digit_char d \<noteq> CHR ''+''"
    and "digit_char d \<noteq> CHR ''(''" and "digit_char d \<noteq> CHR '')''" and "digit_char d \<noteq> CHR '',''"
    by (auto simp: code_def)
qed

lemma sign_numeral:
  assumes "2 \<le> b" and "b \<le> 36"
  shows "sign (dropWhile isspace (numeral_of b n)) = (False, numeral_of b n)"
proof -
  obtain c cs where c: "numeral_of b n = c # cs" by (cases "numeral_of b n") auto
  with numeral_chars [OF assms, of n] assms obtain d where "c = digit_char d" "d < 36"
    by (metis list.set_intros(1) order_less_le_trans)
  then have "\<not> isspace c" "c \<noteq> CHR ''-''" "c \<noteq> CHR ''+''"
    using digit_char_plain by auto
  with c show ?thesis by simp
qed

text \<open>A numeral never starts with a zero unless it is the number zero.\<close>

lemma numeral_head:
  assumes "2 \<le> b" and "b \<le> 36"
  shows "0 < n \<Longrightarrow> hd (numeral_of b n) \<noteq> CHR ''0''"
proof (induction n rule: less_induct)
  case (less n)
  show ?case
  proof (cases "n < b")
    case True
    then have "n < 36" using assms by simp
    then have "digit_val (digit_char n) = n" by (rule digit_val_char)
    moreover have "digit_val (CHR ''0'') = 0" by code_simp
    ultimately have "digit_char n \<noteq> CHR ''0''" using less.prems by auto
    with True show ?thesis by (simp add: numeral_of.simps [of b n])
  next
    case False
    then have "n div b < n" "0 < n div b"
      using assms by (auto intro!: div_less_dividend simp: div_greater_zero_iff)
    from less.IH [OF this] False assms show ?thesis
      by (simp add: numeral_of.simps [of b n])
  qed
qed

lemma strtoul_numeral:
  assumes "b \<in> {10, 16}" and "base = b \<or> base = 0 \<and> b = 10" and "0 < n \<or> base \<noteq> 0" and "n < 2 ^ 64"
  shows "strtoul base (numeral_of b n) = (word_of_nat n, [], False)"
proof -
  have b: "2 \<le> b" "b \<le> 36" using assms(1) by auto
  obtain c cs where c: "numeral_of b n = c # cs" by (cases "numeral_of b n") auto
  have "radix base (numeral_of b n) = (b, numeral_of b n)"
  proof (cases "n = 0")
    case True
    with assms show ?thesis
      by (auto simp: numeral_of.simps [of _ 0] radix_def)
  next
    case False
    then have "c \<noteq> CHR ''0''" using numeral_head [OF b, of n] c by simp
    with assms show ?thesis
      by (auto simp: radix_def c split: list.splits)
  qed
  with assms(4) b show ?thesis
    by (simp add: strtoul_def sign_numeral digits_numeral)
qed

text \<open>A number printed in decimal and followed by anything but a digit is read back.\<close>

lemma strtoll_numeral:
  assumes "n < 2 ^ 63" and "\<not> digit_val c < 10"
  shows "strtoll (numeral_of 10 n @ c # cs) = int n"
proof -
  obtain d ds where d: "numeral_of 10 n = d # ds" by (cases "numeral_of 10 n") auto
  have "sign (dropWhile isspace (numeral_of 10 n)) = (False, numeral_of 10 n)" by (rule sign_numeral) simp_all
  moreover obtain e where "d = digit_char e" "e < 10" using numeral_chars [of 10 n] d by auto
  then have "\<not> isspace d" "d \<noteq> CHR ''-''" "d \<noteq> CHR ''+''" using digit_char_plain [of e] by auto
  ultimately have "sign (dropWhile isspace (numeral_of 10 n @ c # cs)) = (False, numeral_of 10 n @ c # cs)"
    by (simp add: d)
  moreover have "digits 10 (numeral_of 10 n @ c # cs) 0 = (n, c # cs)"
    using digits_append [of "numeral_of 10 n" 10 "c # cs" 0] numeral_digits [of 10 n] digits_numeral [of 10 n] assms(2)
    by simp
  ultimately show ?thesis using assms(1) by (simp add: strtoll_def)
qed

lemma numeral_as_digits: "\<exists>ds. numeral_of 10 n = map digit_char ds \<and> (\<forall>d \<in> set ds. d < 10)"
proof -
  have "numeral_of 10 n \<in> lists (digit_char ` {..<10})"
    using numeral_chars [of 10 n] by (auto simp: in_lists_conv_set)
  then have "numeral_of 10 n \<in> map digit_char ` lists {..<10}" by (simp add: lists_image)
  then show ?thesis by (auto simp: in_lists_conv_set)
qed

lemma numeral_digit: "n < 10 \<Longrightarrow> length (numeral_of 10 n) = 1"
  by (simp add: numeral_of.simps [of 10 n])

lemma numeral_length: "n < 10 ^ k \<Longrightarrow> 0 < k \<Longrightarrow> length (numeral_of 10 n) \<le> k"
proof (induction k arbitrary: n)
  case (Suc k)
  show ?case
  proof (cases "n < 10")
    case False
    then have "k \<noteq> 0" using Suc.prems(1) by (cases k) auto
    moreover have "n div 10 < 10 ^ k"
      using Suc.prems(1) by (intro less_mult_imp_div_less) (simp add: mult.commute)
    ultimately
    show ?thesis using Suc.IH [of "n div 10"] False by (simp add: numeral_of.simps [of 10 n])
  qed (simp add: numeral_digit)
qed simp

lemma atoi_numeral:
  assumes "n < 2 ^ 31" and "case cs of [] \<Rightarrow> True | c # _ \<Rightarrow> \<not> digit_val c < 10"
  shows "atoi (numeral_of 10 n @ cs) = Some (int n)"
proof -
  obtain d ds where d: "numeral_of 10 n = d # ds" by (cases "numeral_of 10 n") auto
  obtain e where "d = digit_char e" "e < 10" using numeral_chars [of 10 n] d by auto
  then have "\<not> isspace d" "d \<noteq> CHR ''-''" "d \<noteq> CHR ''+''" using digit_char_plain [of e] by auto
  then have "sign (dropWhile isspace (numeral_of 10 n @ cs)) = (False, numeral_of 10 n @ cs)" by (simp add: d)
  moreover have "digits 10 (numeral_of 10 n @ cs) 0 = (n, cs)"
    using digits_append [of "numeral_of 10 n" 10 cs 0] numeral_digits [of 10 n] digits_numeral [of 10 n] assms(2)
    by (cases cs) simp_all
  moreover have "int n < 2 ^ 31" using assms(1) by simp
  ultimately show ?thesis by (simp add: atoi_def)
qed

section \<open>Lines\<close>

abbreviation NUL :: char where "NUL \<equiv> CHR 0x00"
abbreviation NL :: char where "NL \<equiv> CHR 0x0A"

text \<open>What \<open>fgets\<close> reads into a buffer of \<open>n\<close> characters: the line with its end, if it fits.\<close>

definition fgets_line :: "nat \<Rightarrow> string \<Rightarrow> string" where
  "fgets_line n f = take (n - 1) (takeWhile (\<lambda>c. c \<noteq> NL) f @ (if NL \<in> set f then [NL] else []))"

lemma fgets_line_text:
  assumes "NL \<notin> set cs" and "length cs + 1 < n"
  shows "fgets_line n (cs @ NL # f) = cs @ [NL]" and "fgets_line n cs = cs"
proof -
  have "\<forall>c \<in> set cs. c \<noteq> NL" using assms(1) by blast
  then show "fgets_line n (cs @ NL # f) = cs @ [NL]" and "fgets_line n cs = cs"
    using assms by (simp_all add: fgets_line_def takeWhile_append2 takeWhile_eq_all_conv [THEN iffD2])
qed

text \<open>The buffer of \<open>fgets\<close> after the call, and the rest of the file; at the end of the file the buffer is left
  alone.\<close>

definition fgets :: "nat \<Rightarrow> string \<Rightarrow> string \<Rightarrow> string \<times> string" where
  "fgets n f str = (if f = [] then (str, [])
     else let l = fgets_line n f in (l @ NUL # drop (length l + 1) str, drop (length l) f))"

section \<open>Characters of a buffer\<close>

text \<open>The value of a \<open>char\<close>, which is signed.\<close>

definition char_int :: "char \<Rightarrow> int" where
  "char_int c = (let n = int (code c) in if n < 128 then n else n - 256)"

lemma drop_split:
  "drop i str = c # cs \<Longrightarrow> i < length str \<and> str ! i = c \<and> drop (i + 1) str = cs"
  by (metis Suc_eq_plus1 drop_eq_Nil2 hd_drop_conv_nth leI list.distinct(1) list.sel(1,3) tl_drop drop_Suc)

end
