(* ===== verification/As_Config.thy ===== *)
theory As_Config
  imports Pid_Chain C_Text
begin

text \<open>
  The neighbour chain from a file, \<open>read_configuration_init_pid_change\<close> of \<open>RM/main.c\<close>: it reads
  \<open>as_configuration.txt\<close> line by line (the number of neighbours, their numbers of path identifiers, their
  timers, their node identifiers, and a line of path identifiers for each) and builds the chain.

  A C string is the list of its characters. The buffer of the lines is the string in it, \<open>None\<close>
  before the first line. Arrays of the function are their initialised prefixes. The field \<open>ID\<close> of a node is never
  set: its value is an argument. The index \<open>hh\<close> of the path identifiers is a static variable, which keeps its
  value from one call to the next; it is an argument and a result.
\<close>

section \<open>Tokens\<close>

text \<open>The calls of \<open>strtok\<close> on a string with one delimiter, and the string that is left in the buffer
  then, which ends behind the first token.\<close>

function tokens :: "char \<Rightarrow> string \<Rightarrow> string list" where
  "tokens d s = (let t = dropWhile (\<lambda>c. c = d) s in
     if t = [] then [] else takeWhile (\<lambda>c. c \<noteq> d) t # tokens d (dropWhile (\<lambda>c. c \<noteq> d) t))"
  by pat_completeness auto
termination
proof (relation "measure (\<lambda>(_, s). length s)")
  fix d s t
  assume t: "t = dropWhile (\<lambda>c. c = d) s" "t \<noteq> []"
  then have "hd t \<noteq> d" using hd_dropWhile [of "\<lambda>c. c = d" s] by auto
  with t(2) obtain x xs where x: "t = x # xs" "x \<noteq> d" by (cases t) auto
  have "length (dropWhile (\<lambda>c. c \<noteq> d) xs) \<le> length xs" by (rule length_dropWhile_le)
  moreover have "length t \<le> length s" unfolding t(1) by (rule length_dropWhile_le)
  ultimately show "((d, dropWhile (\<lambda>c. c \<noteq> d) t), d, s) \<in> measure (\<lambda>(_, s). length s)"
    using x by simp
qed simp

declare tokens.simps [simp del]

definition cut :: "char \<Rightarrow> string \<Rightarrow> string" where
  "cut d s = takeWhile (\<lambda>c. c = d) s @ takeWhile (\<lambda>c. c \<noteq> d) (dropWhile (\<lambda>c. c = d) s)"

text \<open>The values of the tokens; \<open>None\<close> if one does not fit an \<open>int\<close>.\<close>

definition token_values :: "string list \<Rightarrow> int list option" where
  "token_values ws = those (map atoi ws)"

section \<open>Reading\<close>

record configuration =
  AS_number :: u8
  pid_number :: "u8 list"
  timer :: "u32 list"
  EIDs :: "u8 list"
  pids :: "u32 list"
  hh0 :: nat

text \<open>The path identifiers are stored from the place \<open>hh0\<close> on, the value of the static index at the call.

  The node identifiers: the index of the pointers to the numbers is an 8-bit integer, so of 256
  numbers or more only those after the last multiple of 256 are left.\<close>

definition kept :: "string list \<Rightarrow> string list" where
  "kept ws = drop (length ws div 256 * 256) ws"

text \<open>What is done with line \<open>k\<close>: the new values and the string that is left in the buffer.\<close>

definition parse_line :: "nat \<Rightarrow> configuration \<Rightarrow> string \<Rightarrow> (configuration \<times> string) option" where
  "parse_line k cfg buf =
     (if k = 1 then do {
        n \<leftarrow> atoi buf;
        Some (cfg\<lparr>AS_number := word_of_int n\<rparr>, buf) }
      else if k = 2 then do {
        ns \<leftarrow> token_values (tokens (CHR '','') buf);
        guard (length ns \<le> 100);
        Some (cfg\<lparr>pid_number := map word_of_int ns\<rparr>, cut (CHR '','') buf) }
      else if k = 3 then do {
        ns \<leftarrow> token_values (tokens (CHR '','') buf);
        guard (length ns \<le> 100);
        Some (cfg\<lparr>timer := map word_of_int ns\<rparr>, cut (CHR '','') buf) }
      else if k = 4 then do {
        ns \<leftarrow> token_values (kept (concat (map (tokens (CHR '':'')) (tokens (CHR '','') buf))));
        Some (cfg\<lparr>EIDs := map word_of_int ns\<rparr>,
          takeWhile (\<lambda>c. c = CHR '','') buf
            @ cut (CHR '':'') (takeWhile (\<lambda>c. c \<noteq> CHR '','') (dropWhile (\<lambda>c. c = CHR '','') buf))) }
      else if 4 < k \<and> k \<le> 4 + unat (AS_number cfg) then do {
        ns \<leftarrow> token_values (tokens (CHR '','') buf);
        guard (hh0 cfg + length (pids cfg) + length ns \<le> 100);
        Some (cfg\<lparr>pids := pids cfg @ map word_of_int ns\<rparr>, cut (CHR '','') buf) }
      else Some (cfg, buf))"

text \<open>The loop: at the end of the file \<open>fgets\<close> leaves the buffer alone, and the line in it is parsed again.\<close>

function read_lines :: "string \<Rightarrow> string option \<Rightarrow> nat \<Rightarrow> configuration \<Rightarrow> configuration option" where
  "read_lines f buf k cfg = (let l = fgets_line 999 f in do {
     s \<leftarrow> (if l = [] then buf else Some l);
     (cfg, s) \<leftarrow> parse_line (k + 1) cfg s;
     if l = [] \<or> last l \<noteq> NL \<and> length l < 998 then Some cfg
     else read_lines (drop (length l) f) (Some s) (k + 1) cfg })"
  by pat_completeness auto
termination
proof (relation "measure (\<lambda>(f, _). length f)")
  fix f :: string and l
  assume "l = fgets_line 999 f" "\<not> (l = [] \<or> last l \<noteq> NL \<and> length l < 998)"
  moreover from this have "f \<noteq> []" by (auto simp: fgets_line_def)
  ultimately show "((drop (length l) f, buf, k, cfg), f, buf', k', cfg') \<in> measure (\<lambda>(f, _). length f)" for buf k cfg buf' k' cfg'
    by simp
qed simp

declare read_lines.simps [simp del]

section \<open>Building the chain\<close>

text \<open>The nodes of the neighbours from \<open>i\<close> on; \<open>k3\<close> is the place of the next path identifier, which counts from 0
  in every call. The places before \<open>hh0\<close> are not initialised.\<close>

fun init_nodes :: "configuration \<Rightarrow> (nat \<Rightarrow> u8) \<Rightarrow> nat \<Rightarrow> nat \<Rightarrow> nat \<Rightarrow> pid_info list option" where
  "init_nodes cfg ids i k3 0 = Some []"
| "init_nodes cfg ids i k3 (Suc m) = do {
     guard (16 * i + 16 \<le> length (EIDs cfg) \<and> i < length (timer cfg) \<and> i < length (pid_number cfg));
     let n = unat (pid_number cfg ! i);
     guard (n \<le> MAX_PID_NUMBER \<and> (n = 0 \<or> hh0 cfg \<le> k3 \<and> k3 + n \<le> hh0 cfg + length (pids cfg)));
     rest \<leftarrow> init_nodes cfg ids (i + 1) (k3 + n) m;
     Some (\<lparr>EID = Nid (take 16 (drop (16 * i) (EIDs cfg))), ID = ids i, pid_change_time = timer cfg ! i,
       number_pid = ucast (pid_number cfg ! i), pid = take n (drop (k3 - hh0 cfg) (pids cfg))\<rparr> # rest) }"

definition read_configuration_init_pid_change ::
  "string option \<Rightarrow> (nat \<Rightarrow> u8) \<Rightarrow> nat \<Rightarrow> pid_info list \<Rightarrow> (int \<times> pid_info list \<times> nat) option" where
  "read_configuration_init_pid_change file ids hh chain = (case file of
     None \<Rightarrow> Some (-1, chain, hh)
   | Some f \<Rightarrow> do {
       cfg \<leftarrow> read_lines f None 0 \<lparr>AS_number = 0, pid_number = [], timer = [], EIDs = [], pids = [], hh0 = hh\<rparr>;
       guard (AS_number cfg \<noteq> 0);
       nodes \<leftarrow> init_nodes cfg ids 0 0 (unat (AS_number cfg));
       Some (0, nodes, hh + length (pids cfg)) })"

section \<open>The text of a configuration\<close>

record as_entry =
  as_eid :: "nat list"
  as_timer :: nat
  as_pids :: "nat list"

fun join :: "char \<Rightarrow> string list \<Rightarrow> string" where
  "join d [] = []"
| "join d [w] = w"
| "join d (w # ws) = w @ d # join d ws"

definition numbers :: "char \<Rightarrow> nat list \<Rightarrow> string" where
  "numbers d ns = join d (map (numeral_of 10) ns)"

definition config_lines :: "as_entry list \<Rightarrow> string list" where
  "config_lines es = numeral_of 10 (length es) # numbers (CHR '','') (map (length \<circ> as_pids) es)
     # numbers (CHR '','') (map as_timer es) # join (CHR '','') (map (numbers (CHR '':'') \<circ> as_eid) es)
     # map (numbers (CHR '','') \<circ> as_pids) es"

definition entry_ok :: "as_entry \<Rightarrow> bool" where
  "entry_ok e \<longleftrightarrow> length (as_eid e) = 16 \<and> (\<forall>n \<in> set (as_eid e). n < 256) \<and> as_timer e < 2 ^ 31
     \<and> as_pids e \<noteq> [] \<and> length (as_pids e) \<le> 20 \<and> (\<forall>n \<in> set (as_pids e). n < 2 ^ 31)"

definition node_of :: "as_entry \<Rightarrow> u8 \<Rightarrow> pid_info" where
  "node_of e i = \<lparr>EID = Nid (map word_of_nat (as_eid e)), ID = i, pid_change_time = word_of_nat (as_timer e),
     number_pid = word_of_nat (length (as_pids e)), pid = map word_of_nat (as_pids e)\<rparr>"

definition eol_ok :: "string \<Rightarrow> bool" where
  "eol_ok eol \<longleftrightarrow> eol = [NL] \<or> eol = [CHR 0x0D, NL]"

section \<open>Tokens of joined words\<close>

lemma tokens_word:
  assumes "d \<notin> set w" and "w \<noteq> []"
  shows "tokens d w = [w]" and "tokens d (w @ d # s) = w # tokens d s"
proof -
  have all: "\<forall>c \<in> set w. c \<noteq> d" using assms(1) by blast
  have skip: "dropWhile (\<lambda>c. c = d) w = w" "dropWhile (\<lambda>c. c = d) (w @ d # s) = w @ d # s"
    using assms by (cases w; auto)+
  have "takeWhile (\<lambda>c. c \<noteq> d) w = w" "dropWhile (\<lambda>c. c \<noteq> d) w = []"
    using all by (simp_all add: takeWhile_eq_all_conv)
  note w = this
  have "takeWhile (\<lambda>c. c \<noteq> d) (w @ d # s) = w" "dropWhile (\<lambda>c. c \<noteq> d) (w @ d # s) = d # s"
    using all by (simp_all add: takeWhile_append2 dropWhile_append2)
  note wd = this
  have "tokens d [] = []" "tokens d (d # s) = tokens d s" by (simp_all add: tokens.simps [of d])
  note nil = this
  show "tokens d w = [w]" by (subst tokens.simps) (simp add: Let_def skip w nil assms(2))
  show "tokens d (w @ d # s) = w # tokens d s" by (subst tokens.simps) (simp add: Let_def skip wd nil)
qed

lemma tokens_join:
  "ws \<noteq> [] \<Longrightarrow> \<forall>w \<in> set ws. w \<noteq> [] \<and> d \<notin> set w \<Longrightarrow> d \<notin> set cs \<Longrightarrow>
   tokens d (join d ws @ cs) = butlast ws @ [last ws @ cs]"
proof (induction d ws rule: join.induct)
  case (3 d w v ws)
  then show ?case using tokens_word(2) [of d w "join d (v # ws) @ cs"] by simp
qed (simp_all add: tokens_word)


lemma those_map: "(\<And>x. x \<in> set xs \<Longrightarrow> f x = Some (g x)) \<Longrightarrow> those (map f xs) = Some (map g xs)"
  by (induction xs) simp_all

lemma token_values_append:
  "token_values xs = Some ms \<Longrightarrow> token_values ys = Some ns \<Longrightarrow> token_values (xs @ ys) = Some (ms @ ns)"
  unfolding token_values_def
  by (induction xs arbitrary: ms) (auto split: option.splits)

lemma token_values_concat:
  "(\<And>w. w \<in> set ws \<Longrightarrow> token_values (tok w) = Some (g w)) \<Longrightarrow> token_values (concat (map tok ws)) = Some (concat (map g ws))"
  by (induction ws) (simp_all add: token_values_append, simp add: token_values_def)

lemma token_values_length: "token_values ws = Some ns \<Longrightarrow> length ws = length ns"
  unfolding token_values_def by (induction ws arbitrary: ns) (auto split: option.splits)

definition list_end :: "char \<Rightarrow> string \<Rightarrow> bool" where
  "list_end d cs \<longleftrightarrow> d \<in> {CHR '','', CHR '':''} \<and> d \<notin> set cs \<and> (case cs of [] \<Rightarrow> True | c # _ \<Rightarrow> \<not> digit_val c < 10)"

lemma eol_end [simp]: "eol_ok eol \<Longrightarrow> list_end (CHR '','') eol" "eol_ok eol \<Longrightarrow> list_end (CHR '':'') eol"
  "d \<in> {CHR '','', CHR '':''} \<Longrightarrow> list_end d []"
  by (auto simp: eol_ok_def list_end_def digit_val_def code_def)

lemma numeral_not:
  assumes "d \<in> {CHR '','', CHR '':'', NL}"
  shows "d \<notin> set (numeral_of 10 n)"
proof
  assume "d \<in> set (numeral_of 10 n)"
  then have "digit_val d < 10" using numeral_digits [of 10 n] by auto
  moreover have "digit_val d = 99" using assms by (auto simp: digit_val_def code_def)
  ultimately show False by simp
qed

lemma tokens_numbers:
  assumes "ns \<noteq> []" and "list_end d cs"
  shows "tokens d (numbers d ns @ cs) = map (numeral_of 10) (butlast ns) @ [numeral_of 10 (last ns) @ cs]"
proof -
  have "\<forall>w \<in> set (map (numeral_of 10) ns). w \<noteq> [] \<and> d \<notin> set w"
    using assms(2) numeral_not [of d] by (auto simp: list_end_def)
  with assms show ?thesis
    unfolding numbers_def by (subst tokens_join) (auto simp: list_end_def map_butlast last_map)
qed

lemma token_values_numbers:
  assumes "ns \<noteq> []" and "list_end d cs" and "\<forall>n \<in> set ns. n < 2 ^ 31"
  shows "token_values (tokens d (numbers d ns @ cs)) = Some (map int ns)"
proof -
  have "token_values (map (numeral_of 10) (butlast ns)) = Some (map int (butlast ns))"
    unfolding token_values_def map_map
    using assms(3) atoi_numeral [of _ "[]"] by (intro those_map) (auto dest: in_set_butlastD)
  moreover have "token_values [numeral_of 10 (last ns) @ cs] = Some [int (last ns)]"
    using assms atoi_numeral [of "last ns" cs] by (simp add: token_values_def list_end_def)
  ultimately have "token_values (tokens d (numbers d ns @ cs)) = Some (map int (butlast ns) @ [int (last ns)])"
    unfolding tokens_numbers [OF assms(1,2)] by (rule token_values_append)
  also have "map int (butlast ns) @ [int (last ns)] = map int ns"
    using assms(1) by (metis append_butlast_last_id list.simps(8,9) map_append)
  finally show ?thesis .
qed

lemma set_join: "set (join d ws) \<subseteq> insert d (\<Union>w \<in> set ws. set w)"
  by (induction d ws rule: join.induct) auto

lemma join_nonempty: "ws \<noteq> [] \<Longrightarrow> \<forall>w \<in> set ws. w \<noteq> [] \<Longrightarrow> join d ws \<noteq> []"
  by (cases ws; cases "tl ws") auto

lemma length_join: "\<forall>w \<in> set ws. length w \<le> m \<Longrightarrow> length (join d ws) \<le> (m + 1) * length ws"
  by (induction d ws rule: join.induct) auto

lemma numbers_set: "c \<in> set (numbers d ns) \<Longrightarrow> c = d \<or> (\<exists>n. c \<in> set (numeral_of 10 n))"
  using set_join [of d "map (numeral_of 10) ns"] by (auto simp: numbers_def)

lemma numbers_nonempty: "ns \<noteq> [] \<Longrightarrow> numbers d ns \<noteq> []"
  unfolding numbers_def by (rule join_nonempty) auto

lemma numbers_length: "\<forall>n \<in> set ns. n < 10 ^ k \<Longrightarrow> 0 < k \<Longrightarrow> length (numbers d ns) \<le> (k + 1) * length ns"
  using length_join [of "map (numeral_of 10) ns" k d] numeral_length by (auto simp: numbers_def)

section \<open>Reading a configuration\<close>

lemma token_values_eids:
  assumes "es \<noteq> []" and "\<forall>e \<in> set es. entry_ok e" and "eol_ok eol"
  shows "token_values (concat (map (tokens (CHR '':'')) (tokens (CHR '','')
      (join (CHR '','') (map (numbers (CHR '':'') \<circ> as_eid) es) @ eol)))) = Some (map int (concat (map as_eid es)))"
proof -
  let ?w = "numbers (CHR '':'') \<circ> as_eid" and ?v = "map int \<circ> as_eid"
  have ok: "as_eid e \<noteq> [] \<and> (\<forall>n \<in> set (as_eid e). n < 2 ^ 31)" if "e \<in> set es" for e
    using assms(2) that by (force simp: entry_ok_def)
  have one: "token_values (tokens (CHR '':'') (?w e @ cs)) = Some (?v e)"
    if "e \<in> set es" "list_end (CHR '':'') cs" for e cs
    using token_values_numbers [of "as_eid e" "CHR '':''" cs] ok [OF that(1)] that(2) by simp
  have ne: "?w e \<noteq> [] \<and> CHR '','' \<notin> set (?w e)" if "e \<in> set es" for e
    using numbers_nonempty [of "as_eid e" "CHR '':''"] numbers_set [of "CHR '',''" "CHR '':''" "as_eid e"] ok [OF that] numeral_not by auto
  have "tokens (CHR '','') (join (CHR '','') (map ?w es) @ eol) = map ?w (butlast es) @ [?w (last es) @ eol]"
    using assms(1,3) ne eol_end(1) [OF assms(3)] by (subst tokens_join) (auto simp: map_butlast last_map list_end_def)
  moreover have "token_values (concat (map (tokens (CHR '':'')) (map ?w (butlast es)))) = Some (concat (map ?v (butlast es)))"
    unfolding map_map using one [of _ "[]"] by (intro token_values_concat) (auto dest: in_set_butlastD)
  ultimately have "token_values (concat (map (tokens (CHR '':'')) (tokens (CHR '','') (join (CHR '','') (map ?w es) @ eol))))
      = Some (concat (map ?v (butlast es)) @ ?v (last es))"
    using token_values_append [OF _ one [of "last es" eol]] assms(1,3) by simp
  also have "concat (map ?v (butlast es)) @ ?v (last es) = concat (map ?v (butlast es @ [last es]))" by simp
  also have "\<dots> = map int (concat (map as_eid es))" unfolding append_butlast_last_id [OF assms(1)] by (simp add: map_concat)
  finally show ?thesis .
qed

lemma read_line_step:
  assumes "eol_ok eol" and "NL \<notin> set l" and "length l \<le> 990"
  shows "read_lines (l @ eol @ f) buf k cfg
    = parse_line (k + 1) cfg (l @ eol) \<bind> (\<lambda>(cfg, s). read_lines f (Some s) (k + 1) cfg)"
proof -
  obtain cs where cs: "eol = cs @ [NL]" "NL \<notin> set cs" "length cs \<le> 1" using assms(1) by (auto simp: eol_ok_def)
  then have line: "fgets_line 999 ((l @ cs) @ NL # f) = (l @ cs) @ [NL]"
    using assms(2,3) by (intro fgets_line_text(1)) auto
  then have "fgets_line 999 (l @ eol @ f) = l @ eol" using cs by simp
  moreover have "last (l @ eol) = NL" "eol \<noteq> []" using cs by simp_all
  moreover have "drop (length (l @ eol)) (l @ eol @ f) = f" by simp
  ultimately show ?thesis by (subst read_lines.simps) (simp add: Let_def del: drop_append)
qed

lemma read_lines_end: "read_lines [] (Some s) k cfg = map_option fst (parse_line (k + 1) cfg s)"
  by (subst read_lines.simps) (cases "parse_line (k + 1) cfg s"; simp add: fgets_line_def split_def)


lemma parse_line_numbers:
  assumes "ns \<noteq> []" and "eol_ok eol" and "\<forall>n \<in> set ns. n < 2 ^ 31"
  shows "token_values (tokens (CHR '','') (numbers (CHR '','') ns @ eol)) = Some (map int ns)"
  using token_values_numbers [OF assms(1) _ assms(3)] assms(2) by simp

lemma numbers_line:
  assumes "\<forall>n \<in> set ns. n < 2 ^ 31" and "length ns \<le> 90"
  shows "NL \<notin> set (numbers (CHR '','') ns)" and "length (numbers (CHR '','') ns) \<le> 990"
proof -
  show "NL \<notin> set (numbers (CHR '','') ns)" using numbers_set [of NL "CHR '',''" ns] numeral_not [of NL] by auto
  have "\<forall>n \<in> set ns. n < 10 ^ 10" using assms(1) by auto
  from numbers_length [OF this, of "CHR '',''"] assms(2) show "length (numbers (CHR '','') ns) \<le> 990" by simp
qed

lemma read_pids:
  "\<forall>e \<in> set es. entry_ok e \<Longrightarrow> eol_ok eol \<Longrightarrow> 4 \<le> k \<Longrightarrow> k + length es \<le> 4 + unat (AS_number cfg) \<Longrightarrow>
   hh0 cfg + length (pids cfg) + length (concat (map as_pids es)) \<le> 100 \<Longrightarrow>
   \<exists>s. read_lines (concat (map (\<lambda>e. numbers (CHR '','') (as_pids e) @ eol) es) @ f) (Some buf) k cfg
     = read_lines f (Some s) (k + length es) (cfg\<lparr>pids := pids cfg @ map word_of_nat (concat (map as_pids es))\<rparr>)
     \<and> (es \<noteq> [] \<longrightarrow> s = cut (CHR '','') (numbers (CHR '','') (as_pids (last es)) @ eol))"
proof (induction es arbitrary: buf k cfg)
  case (Cons e es)
  let ?l = "numbers (CHR '','') (as_pids e)" and ?cfg = "cfg\<lparr>pids := pids cfg @ map word_of_nat (as_pids e)\<rparr>"
  have e: "as_pids e \<noteq> []" "\<forall>n \<in> set (as_pids e). n < 2 ^ 31" "length (as_pids e) \<le> 20"
    using Cons.prems(1) by (simp_all add: entry_ok_def)
  then have fits: "length (as_pids e) \<le> 90" by simp
  have "parse_line (k + 1) cfg (?l @ eol) = Some (?cfg, cut (CHR '','') (?l @ eol))"
    using parse_line_numbers [OF e(1) Cons.prems(2) e(2)] Cons.prems(3,4,5) by (simp add: parse_line_def)
  with read_line_step [OF Cons.prems(2) numbers_line [OF e(2) fits]]
  have step: "read_lines (?l @ eol @ f') b k cfg = read_lines f' (Some (cut (CHR '','') (?l @ eol))) (k + 1) ?cfg" for f' b
    by simp
  have "\<exists>s. read_lines (concat (map (\<lambda>e. numbers (CHR '','') (as_pids e) @ eol) es) @ f) (Some (cut (CHR '','') (?l @ eol))) (k + 1) ?cfg
     = read_lines f (Some s) (k + 1 + length es) (?cfg\<lparr>pids := pids ?cfg @ map word_of_nat (concat (map as_pids es))\<rparr>)
     \<and> (es \<noteq> [] \<longrightarrow> s = cut (CHR '','') (numbers (CHR '','') (as_pids (last es)) @ eol))"
    using Cons.prems by (intro Cons.IH) auto
  then obtain s where s: "read_lines (concat (map (\<lambda>e. numbers (CHR '','') (as_pids e) @ eol) es) @ f)
      (Some (cut (CHR '','') (?l @ eol))) (k + 1) ?cfg
     = read_lines f (Some s) (k + 1 + length es) (?cfg\<lparr>pids := pids ?cfg @ map word_of_nat (concat (map as_pids es))\<rparr>)"
    "es \<noteq> [] \<longrightarrow> s = cut (CHR '','') (numbers (CHR '','') (as_pids (last es)) @ eol)" by blast
  show ?case
  proof (cases "es = []")
    case True
    then show ?thesis using step [of f "Some buf"] by auto
  next
    case False
    with s step show ?thesis by (intro exI [of _ s]) simp
  qed
qed auto

definition eid_text :: "as_entry list \<Rightarrow> string" where
  "eid_text es = join (CHR '','') (map (numbers (CHR '':'') \<circ> as_eid) es)"

text \<open>The configuration fits the arrays and the buffer of the function.\<close>

definition config_fits :: "as_entry list \<Rightarrow> bool" where
  "config_fits es \<longleftrightarrow> es \<noteq> [] \<and> length es \<le> 90 \<and> (\<forall>e \<in> set es. entry_ok e)
     \<and> length (concat (map as_pids es)) \<le> 100 \<and> length (eid_text es) \<le> 990"

definition configured :: "nat \<Rightarrow> as_entry list \<Rightarrow> configuration" where
  "configured hh es = \<lparr>AS_number = word_of_nat (length es), pid_number = map (word_of_nat \<circ> length \<circ> as_pids) es,
     timer = map (word_of_nat \<circ> as_timer) es,
     EIDs = map word_of_nat (drop (16 * length es div 256 * 256) (concat (map as_eid es))), pids = [], hh0 = hh\<rparr>"

lemma hh0_configured [simp]: "hh0 (configured hh es) = hh"
  by (simp add: configured_def)

lemma length_eids: "\<forall>e \<in> set es. entry_ok e \<Longrightarrow> length (concat (map as_eid es)) = 16 * length es"
  by (induction es) (simp_all add: entry_ok_def)

lemma eid_text_plain: "NL \<notin> set (eid_text es)"
  using set_join [of "CHR '',''" "map (numbers (CHR '':'') \<circ> as_eid) es"] numbers_set [of NL "CHR '':''"]
    numeral_not [of NL]
  by (auto simp: eid_text_def)

lemma eid_text_short:
  assumes "length es \<le> 15" and "\<forall>e \<in> set es. entry_ok e"
  shows "length (eid_text es) \<le> 990"
proof -
  let ?ws = "map (numbers (CHR '':'') \<circ> as_eid) es"
  have "length (numbers (CHR '':'') (as_eid e)) \<le> 64" if "e \<in> set es" for e
  proof -
    have "entry_ok e" using assms(2) that by blast
    then have "\<forall>n \<in> set (as_eid e). n < 10 ^ 3" "length (as_eid e) = 16"
      by (fastforce simp: entry_ok_def)+
    with numbers_length [OF this(1), of "CHR '':''"] show ?thesis by simp
  qed
  then have "length (join (CHR '','') ?ws) \<le> (64 + 1) * length ?ws" by (intro length_join) auto
  also have "\<dots> \<le> 990" using assms(1) by simp
  finally show ?thesis by (simp add: eid_text_def)
qed

lemma those_drop: "those xs = Some ys \<Longrightarrow> those (drop k xs) = Some (drop k ys)"
proof (induction xs arbitrary: k ys)
  case (Cons x xs)
  then show ?case by (cases k) (auto split: option.splits)
qed simp

lemma token_values_drop: "token_values ws = Some ns \<Longrightarrow> token_values (drop k ws) = Some (drop k ns)"
  unfolding token_values_def drop_map [symmetric] by (rule those_drop)

lemma read_head:
  assumes "config_fits es" and "eol_ok eol"
  shows "\<exists>s. read_lines (concat (map (\<lambda>l. l @ eol) (take 4 (config_lines es))) @ f) None 0
      \<lparr>AS_number = 0, pid_number = [], timer = [], EIDs = [], pids = [], hh0 = hh\<rparr>
    = read_lines f (Some s) 4 (configured hh es)"
proof -
  let ?c0 = "\<lparr>AS_number = 0, pid_number = [], timer = [], EIDs = [], pids = [], hh0 = hh\<rparr>"
  let ?n = "length es" and ?counts = "map (length \<circ> as_pids) es" and ?timers = "map as_timer es"
  note ok = assms(1) [unfolded config_fits_def]
  have counts: "\<forall>n \<in> set ?counts. n < 2 ^ 31" using ok by (force simp: entry_ok_def)
  have timers: "\<forall>n \<in> set ?timers. n < 2 ^ 31" using ok by (auto simp: entry_ok_def)
  have n: "NL \<notin> set (numeral_of 10 ?n)" "length (numeral_of 10 ?n) \<le> 990"
    using numeral_not [of NL] numeral_length [of ?n 10] ok by auto
  have end_: "case eol of [] \<Rightarrow> True | c # _ \<Rightarrow> \<not> digit_val c < 10"
    using assms(2) by (auto simp: eol_ok_def digit_val_def code_def)
  let ?c1 = "?c0\<lparr>AS_number := word_of_nat ?n\<rparr>"
  have 1: "parse_line (0 + 1) ?c0 (numeral_of 10 ?n @ eol) = Some (?c1, numeral_of 10 ?n @ eol)"
    using atoi_numeral [of ?n eol] ok end_ by (simp add: parse_line_def)
  let ?c2 = "?c1\<lparr>pid_number := map word_of_nat ?counts\<rparr>"
  have 2: "parse_line (0 + 1 + 1) ?c1 (numbers (CHR '','') ?counts @ eol) = Some (?c2, cut (CHR '','') (numbers (CHR '','') ?counts @ eol))"
    using parse_line_numbers [OF _ assms(2) counts] ok by (simp add: parse_line_def comp_def)
  let ?c3 = "?c2\<lparr>timer := map word_of_nat ?timers\<rparr>"
  have 3: "parse_line (0 + 1 + 1 + 1) ?c2 (numbers (CHR '','') ?timers @ eol) = Some (?c3, cut (CHR '','') (numbers (CHR '','') ?timers @ eol))"
    using parse_line_numbers [OF _ assms(2) timers] ok by (simp add: parse_line_def comp_def)
  let ?ws = "concat (map (tokens (CHR '':'')) (tokens (CHR '','') (eid_text es @ eol)))"
  have vals: "token_values ?ws = Some (map int (concat (map as_eid es)))"
    using token_values_eids [of es eol] ok assms(2) by (simp add: eid_text_def)
  have len_ws: "length ?ws = 16 * ?n"
    using token_values_length [OF vals] length_eids [of es] ok by simp
  have "token_values (kept ?ws) = Some (map int (drop (16 * ?n div 256 * 256) (concat (map as_eid es))))"
    unfolding kept_def len_ws drop_map [symmetric] by (rule token_values_drop [OF vals])
  then have "\<exists>s. parse_line (0 + 1 + 1 + 1 + 1) ?c3 (eid_text es @ eol) = Some (configured hh es, s)"
    by (simp add: parse_line_def configured_def comp_def)
  then obtain s where 4: "parse_line (0 + 1 + 1 + 1 + 1) ?c3 (eid_text es @ eol) = Some (configured hh es, s)" by blast
  have len: "length ?counts \<le> 90" "length ?timers \<le> 90" "length (eid_text es) \<le> 990" using ok by simp_all
  note steps = read_line_step [OF assms(2) n] read_line_step [OF assms(2) numbers_line [OF counts len(1)]]
    read_line_step [OF assms(2) numbers_line [OF timers len(2)]] read_line_step [OF assms(2) eid_text_plain len(3)]
  have "concat (map (\<lambda>l. l @ eol) (take 4 (config_lines es))) @ f = numeral_of 10 ?n @ eol @ numbers (CHR '','') ?counts @ eol
      @ numbers (CHR '','') ?timers @ eol @ eid_text es @ eol @ f"
    by (simp add: config_lines_def eid_text_def eval_nat_numeral)
  then have "read_lines (concat (map (\<lambda>l. l @ eol) (take 4 (config_lines es))) @ f) None 0 ?c0
      = read_lines f (Some s) (0 + 1 + 1 + 1 + 1) (configured hh es)"
    using 1 2 3 4 by (simp only: steps) simp
  then show ?thesis by (intro exI [of _ s]) (simp add: eval_nat_numeral)
qed

lemma AS_number_configured: "config_fits es \<Longrightarrow> unat (AS_number (configured hh es)) = length es"
  by (simp add: configured_def config_fits_def unat_of_nat)

lemma read_configuration:
  assumes "config_fits es" and "eol_ok eol" and "hh + length (concat (map as_pids es)) \<le> 100"
  shows "read_lines (concat (map (\<lambda>l. l @ eol) (config_lines es))) None 0
      \<lparr>AS_number = 0, pid_number = [], timer = [], EIDs = [], pids = [], hh0 = hh\<rparr>
    = Some (configured hh es\<lparr>pids := map word_of_nat (concat (map as_pids es))\<rparr>)"
proof -
  note ok = assms(1) [unfolded config_fits_def]
  let ?pids = "concat (map (\<lambda>e. numbers (CHR '','') (as_pids e) @ eol) es)"
  have lines: "config_lines es = take 4 (config_lines es) @ map (numbers (CHR '','') \<circ> as_pids) es"
    by (simp add: config_lines_def eval_nat_numeral)
  have whole: "concat (map (\<lambda>l. l @ eol) (config_lines es)) = concat (map (\<lambda>l. l @ eol) (take 4 (config_lines es))) @ ?pids"
    by (subst lines) (simp add: comp_def)
  note n_as = AS_number_configured [OF assms(1)]
  obtain s where s: "read_lines (concat (map (\<lambda>l. l @ eol) (config_lines es))) None 0
      \<lparr>AS_number = 0, pid_number = [], timer = [], EIDs = [], pids = [], hh0 = hh\<rparr> = read_lines ?pids (Some s) 4 (configured hh es)"
    using read_head [OF assms(1,2), of ?pids] unfolding whole by blast
  obtain s' where "read_lines (?pids @ []) (Some s) 4 (configured hh es)
      = read_lines [] (Some s') (4 + length es) (configured hh es\<lparr>pids := pids (configured hh es) @ map word_of_nat (concat (map as_pids es))\<rparr>)"
    using read_pids [of es eol 4 "configured hh es" "[]" s] ok assms(2,3) n_as by (auto simp: configured_def)
  then have "read_lines ?pids (Some s) 4 (configured hh es)
      = read_lines [] (Some s') (4 + length es) (configured hh es\<lparr>pids := map word_of_nat (concat (map as_pids es))\<rparr>)"
    by (simp add: configured_def)
  moreover have "parse_line (4 + length es + 1) c s' = Some (c, s')" if "unat (AS_number c) = length es" for c
    using that ok by (simp add: parse_line_def)
  ultimately show ?thesis using s n_as by (simp add: read_lines_end)
qed


lemma init_nodes_configured:
  assumes "config_fits es" and "length es \<le> 15"
  shows "i \<le> length es \<Longrightarrow> init_nodes (configured 0 es\<lparr>pids := map word_of_nat (concat (map as_pids es))\<rparr>) ids i
      (length (concat (map as_pids (take i es)))) (length es - i)
    = Some (map (\<lambda>j. node_of (es ! j) (ids j)) [i..<length es])"
proof (induction "length es - i" arbitrary: i)
  case (Suc m)
  then have i: "i < length es" "m = length es - (i + 1)" "i + 1 \<le> length es" by simp_all
  let ?c = "configured 0 es\<lparr>pids := map word_of_nat (concat (map as_pids es))\<rparr>" and ?e = "es ! i"
  have ok: "\<forall>e \<in> set es. entry_ok e" using assms(1) by (simp add: config_fits_def)
  then have e: "entry_ok ?e" using i(1) by simp
  have split: "es = take i es @ ?e # drop (i + 1) es" using i(1) by (simp add: id_take_nth_drop)
  have len: "length (concat (map as_eid (take i es))) = 16 * i" "length (as_eid ?e) = 16"
    using length_eids [of "take i es"] ok i(1) e by (auto dest: in_set_takeD simp: entry_ok_def)
  have eids: "concat (map as_eid es) = concat (map as_eid (take i es)) @ as_eid ?e @ concat (map as_eid (drop (i + 1) es))"
    by (subst split) simp
  have ps: "concat (map as_pids es) = concat (map as_pids (take i es)) @ as_pids ?e @ concat (map as_pids (drop (i + 1) es))"
    by (subst split) simp
  have "16 * length es div 256 = 0" using assms(2) by simp
  then have E: "EIDs ?c = map word_of_nat (concat (map as_eid es))" by (simp add: configured_def)
  have n: "unat (pid_number ?c ! i) = length (as_pids ?e)" "(ucast (pid_number ?c ! i) :: u32) = word_of_nat (length (as_pids ?e))"
    using i(1) e by (simp_all add: configured_def entry_ok_def unat_of_nat unsigned_of_nat take_bit_nat_eq_self)
  have next_pids: "length (concat (map as_pids (take (i + 1) es))) = length (concat (map as_pids (take i es))) + length (as_pids ?e)"
    using i(1) by (simp add: take_Suc_conv_app_nth)
  have IH: "init_nodes ?c ids (i + 1) (length (concat (map as_pids (take i es))) + length (as_pids ?e)) (length es - (i + 1))
      = Some (map (\<lambda>j. node_of (es ! j) (ids j)) [i + 1..<length es])"
    using Suc.hyps(1) [OF i(2,3)] unfolding next_pids .
  have "take 16 (drop (16 * i) (EIDs ?c)) = map word_of_nat (as_eid ?e)"
    unfolding E eids using len by (simp add: drop_map take_map)
  moreover have "16 * i + 16 \<le> length (EIDs ?c)" unfolding E eids using len by simp
  moreover have "take (length (as_pids ?e)) (drop (length (concat (map as_pids (take i es)))) (pids ?c)) = map word_of_nat (as_pids ?e)"
    unfolding ps by (simp add: drop_map take_map)
  moreover have "length (concat (map as_pids (take i es))) + length (as_pids ?e) \<le> length (pids ?c)" unfolding ps by simp
  moreover have "i < length (timer ?c)" "i < length (pid_number ?c)" "timer ?c ! i = word_of_nat (as_timer ?e)"
    using i(1) by (simp_all add: configured_def)
  moreover have "length (as_pids ?e) \<le> MAX_PID_NUMBER" using e by (simp add: entry_ok_def MAX_PID_NUMBER_def)
  moreover have "length es - i = Suc (length es - (i + 1))" using i(1) by simp
  moreover have "[i..<length es] = i # [i + 1..<length es]" using i(1) by (simp add: upt_conv_Cons)
  ultimately show ?case using IH n by (simp add: node_of_def)
qed simp

text \<open>The lines of the path identifiers change nothing else.\<close>

lemma parse_line_keeps:
  "parse_line k cfg buf = Some (cfg', s) \<Longrightarrow> 4 < k \<Longrightarrow>
    hh0 cfg' = hh0 cfg \<and> AS_number cfg' = AS_number cfg \<and> pid_number cfg' = pid_number cfg"
  by (auto simp: parse_line_def elim!: ub_elims split: if_splits)

lemma read_lines_keeps:
  "read_lines f buf k cfg = Some cfg' \<Longrightarrow> 4 \<le> k \<Longrightarrow>
    hh0 cfg' = hh0 cfg \<and> AS_number cfg' = AS_number cfg \<and> pid_number cfg' = pid_number cfg"
proof (induction f buf k cfg rule: read_lines.induct)
  case (1 f buf k cfg)
  let ?l = "fgets_line 999 f"
  obtain s c s' where s: "(if ?l = [] then buf else Some ?l) = Some s" and c: "parse_line (k + 1) cfg s = Some (c, s')"
    and rest: "(if ?l = [] \<or> last ?l \<noteq> NL \<and> length ?l < 998 then Some c
      else read_lines (drop (length ?l) f) (Some s') (k + 1) c) = Some cfg'"
    using 1(2) by (subst (asm) read_lines.simps) (auto simp: Let_def elim!: ub_elims)
  have keeps: "hh0 c = hh0 cfg \<and> AS_number c = AS_number cfg \<and> pid_number c = pid_number cfg"
    using parse_line_keeps [OF c] 1(3) by simp
  show ?case
  proof (cases "?l = [] \<or> last ?l \<noteq> NL \<and> length ?l < 998")
    case True
    with rest keeps show ?thesis by simp
  next
    case False
    with rest 1(1) [OF refl s c refl False] 1(3) keeps show ?thesis by simp
  qed
qed

text \<open>C20: The file gives the chain, but only once. Take at most 15 neighbours, each with between 1 and 20 path
  identifiers, together at most 100, 16 numbers below 256 as its identifier and a timer, where the timers and the path
  identifiers are below 2^31 (they are read with \<open>atoi\<close>), and lines that end in a newline with or without a carriage return. The
  first call, with the static index at 0, builds a chain with a node for each neighbour in the order of the file, with the identifier,
  timer and path identifiers of its lines, whatever the chain was before, and leaves the index at the number of all
  path identifiers. With any other index, as in a second call, the function is undefined: it stores the
  identifiers behind those of the call before (or outside the array), but reads them from the start of the array,
  which is not initialised.\<close>

theorem configuration_file_read:
  assumes "es \<noteq> []" and "length es \<le> 15" and "\<forall>e \<in> set es. entry_ok e"
    and "length (concat (map as_pids es)) \<le> 100" and "eol_ok eol"
  shows "read_configuration_init_pid_change (Some (concat (map (\<lambda>l. l @ eol) (config_lines es)))) ids hh chain
    = (if hh = 0 then Some (0, map (\<lambda>i. node_of (es ! i) (ids i)) [0..<length es], length (concat (map as_pids es)))
       else None)"
proof -
  have fits: "config_fits es" using assms eid_text_short [OF assms(2,3)] by (simp add: config_fits_def)
  have n: "AS_number (configured hh es) \<noteq> 0" "unat (AS_number (configured hh es)) = length es"
    using assms(1,2) by (simp_all add: configured_def unat_of_nat word_of_nat_eq_0_iff nat_dvd_not_less)
  show ?thesis
  proof (cases "hh = 0")
    case True
    with n init_nodes_configured [OF fits assms(2), of 0 ids] read_configuration [OF fits assms(5), of 0] assms(4)
    show ?thesis by (simp add: read_configuration_init_pid_change_def)
  next
    case False
    have again: "init_nodes cfg ids 0 0 (length es) = None"
      if "hh0 cfg = hh" "pid_number cfg = pid_number (configured hh es)" for cfg
    proof -
      obtain e es' where es: "es = e # es'" using assms(1) by (cases es) auto
      then have "0 < length (as_pids e)" "length (as_pids e) \<le> 20" using assms(3) by (auto simp: entry_ok_def)
      then have "unat (pid_number cfg ! 0) \<noteq> 0"
        unfolding that(2) by (simp add: configured_def es unat_of_nat)
      then show ?thesis using that(1) False by (simp add: es bind_eq_None_conv)
    qed
    let ?pids = "concat (map (\<lambda>e. numbers (CHR '','') (as_pids e) @ eol) es)"
    have "concat (map (\<lambda>l. l @ eol) (config_lines es)) = concat (map (\<lambda>l. l @ eol) (take 4 (config_lines es))) @ ?pids"
      by (simp add: config_lines_def eval_nat_numeral comp_def)
    then obtain s where "read_lines (concat (map (\<lambda>l. l @ eol) (config_lines es))) None 0
        \<lparr>AS_number = 0, pid_number = [], timer = [], EIDs = [], pids = [], hh0 = hh\<rparr> = read_lines ?pids (Some s) 4 (configured hh es)"
      using read_head [OF fits assms(5), of ?pids hh] by auto
    with read_lines_keeps [of ?pids "Some s" 4 "configured hh es"] again n False show ?thesis
      by (auto simp: read_configuration_init_pid_change_def bind_eq_None_conv configured_def)
  qed
qed

lemma init_nodes_short:
  "length (EIDs cfg) < 16 * (i + m) \<Longrightarrow> 0 < m \<Longrightarrow> init_nodes cfg ids i k3 m = None"
proof (induction m arbitrary: i k3)
  case (Suc m)
  show ?case
  proof (cases m)
    case 0
    with Suc.prems show ?thesis by simp
  next
    case (Suc m')
    then have "init_nodes cfg ids (i + 1) k m = None" for k using Suc.IH [of "i + 1"] Suc.prems by simp
    then show ?thesis by (auto simp: bind_eq_None_conv)
  qed
qed simp

text \<open>Sixteen neighbours are too many. Although the arrays have room for a hundred, the index of the numbers of
  the identifiers is an 8-bit integer: with 16 or more neighbours it has come round, the
  identifiers before that are lost, and the function goes on to read memory that was never written.\<close>

theorem sixteen_neighbours_undefined:
  assumes "config_fits es" and "16 \<le> length es" and "eol_ok eol"
  shows "read_configuration_init_pid_change (Some (concat (map (\<lambda>l. l @ eol) (config_lines es)))) ids 0 chain = None"
proof -
  let ?c = "configured 0 es\<lparr>pids := map word_of_nat (concat (map as_pids es))\<rparr>"
  note fits = assms(1) [unfolded config_fits_def]
  have n: "unat (AS_number ?c) = length es" using fits by (simp add: configured_def unat_of_nat)
  have "1 \<le> 16 * length es div 256" using assms(2) by simp
  then have "length (EIDs ?c) < 16 * (0 + length es)"
    using length_eids [of es] fits assms(2) by (simp add: configured_def)
  moreover have "0 < length es" using assms(2) by linarith
  ultimately have "init_nodes ?c ids 0 0 (unat (AS_number ?c)) = None" unfolding n by (rule init_nodes_short)
  with read_configuration [OF assms(1,3), of 0] fits show ?thesis
    by (simp add: read_configuration_init_pid_change_def bind_eq_None_conv)
qed


section \<open>A missing line\<close>

lemma cut_numbers:
  assumes "ns \<noteq> []" and "eol_ok eol"
  shows "cut (CHR '','') (numbers (CHR '','') ns @ eol) = numeral_of 10 (hd ns) @ (if length ns = 1 then eol else [])"
proof -
  let ?w = "numeral_of 10 (hd ns)"
  have w: "\<forall>c \<in> set ?w. c \<noteq> CHR '',''" using numeral_not [of "CHR '',''"] by auto
  have eol: "\<forall>c \<in> set eol. c \<noteq> CHR '',''" using assms(2) by (auto simp: eol_ok_def)
  obtain c cs where c: "?w = c # cs" by (cases ?w) auto
  with w have skip: "takeWhile (\<lambda>c. c = CHR '','') (?w @ s) = []" "dropWhile (\<lambda>c. c = CHR '','') (?w @ s) = ?w @ s" for s
    by simp_all
  obtain n ns' where ns: "ns = n # ns'" using assms(1) by (cases ns) auto
  show ?thesis
  proof (cases ns')
    case Nil
    have "\<forall>c \<in> set (?w @ eol). c \<noteq> CHR '',''" using w eol by auto
    then have "takeWhile (\<lambda>c. c \<noteq> CHR '','') (?w @ eol) = ?w @ eol" by (simp only: takeWhile_eq_all_conv)
    with skip [of eol] ns Nil show ?thesis by (simp add: cut_def numbers_def)
  next
    case (Cons m ms)
    have "takeWhile (\<lambda>c. c \<noteq> CHR '','') (?w @ CHR '','' # s) = ?w" for s
      using w by (subst takeWhile_append2) auto
    with skip ns Cons show ?thesis by (simp add: cut_def numbers_def)
  qed
qed

text \<open>A missing line is not noticed. If the last line of the file is missing, which should hold the only path
  identifier of the last neighbour, the function takes what is left of the line before in its
  buffer: the neighbour gets the first path identifier of the neighbour before it.\<close>

theorem missing_line_repeats:
  assumes "config_fits (es @ [e])" and "length es \<le> 14" and "es \<noteq> []" and "length (as_pids e) = 1" and "eol_ok eol"
  shows "read_configuration_init_pid_change (Some (concat (map (\<lambda>l. l @ eol) (butlast (config_lines (es @ [e])))))) ids 0 chain
    = Some (0, map (\<lambda>i. node_of ((es @ [e\<lparr>as_pids := [hd (as_pids (last es))]\<rparr>]) ! i) (ids i)) [0..<length es + 1],
        length (concat (map as_pids es)) + 1)"
proof -
  let ?es = "es @ [e]" and ?e' = "e\<lparr>as_pids := [hd (as_pids (last es))]\<rparr>"
  let ?es' = "es @ [?e']" and ?pids = "concat (map (\<lambda>e. numbers (CHR '','') (as_pids e) @ eol) es)"
  let ?p = "hd (as_pids (last es))"
  note fits = assms(1) [unfolded config_fits_def]
  have last_ok: "entry_ok (last es)" using fits assms(3) by auto
  then have p: "?p < 2 ^ 31" "as_pids (last es) \<noteq> []" by (simp_all add: entry_ok_def)
  have fits': "config_fits ?es'"
    using fits assms(4) p(1) by (auto simp: config_fits_def entry_ok_def eid_text_def)
  have same: "configured 0 ?es' = configured 0 ?es" using assms(4) by (simp add: configured_def)
  have whole: "concat (map (\<lambda>l. l @ eol) (butlast (config_lines ?es))) = concat (map (\<lambda>l. l @ eol) (take 4 (config_lines ?es))) @ ?pids"
    by (simp add: config_lines_def eval_nat_numeral butlast_append comp_def)
  obtain s where s: "read_lines (concat (map (\<lambda>l. l @ eol) (butlast (config_lines ?es)))) None 0
      \<lparr>AS_number = 0, pid_number = [], timer = [], EIDs = [], pids = [], hh0 = 0\<rparr> = read_lines ?pids (Some s) 4 (configured 0 ?es)"
    using read_head [OF assms(1,5), of ?pids] unfolding whole by blast
  have n_as: "unat (AS_number (configured 0 ?es)) = length es + 1" using AS_number_configured [OF assms(1)] by simp
  let ?c = "configured 0 ?es\<lparr>pids := map word_of_nat (concat (map as_pids es))\<rparr>"
  have "\<exists>s. read_lines (?pids @ []) (Some s') 4 (configured 0 ?es) = read_lines [] (Some s) (4 + length es)
      (configured 0 ?es\<lparr>pids := pids (configured 0 ?es) @ map word_of_nat (concat (map as_pids es))\<rparr>)
      \<and> (es \<noteq> [] \<longrightarrow> s = cut (CHR '','') (numbers (CHR '','') (as_pids (last es)) @ eol))" for s'
    using fits assms(5) n_as by (intro read_pids) (auto simp: configured_def)
  then have 1: "read_lines ?pids (Some s) 4 (configured 0 ?es)
      = read_lines [] (Some (cut (CHR '','') (numbers (CHR '','') (as_pids (last es)) @ eol))) (4 + length es) ?c"
    using assms(3) by (fastforce simp: configured_def)
  have "token_values (tokens (CHR '','') (numbers (CHR '','') [?p] @ cs)) = Some [int ?p]"
    if "list_end (CHR '','') cs" for cs
    using token_values_numbers [of "[?p]" "CHR '',''" cs] that p(1) by simp
  then have "token_values (tokens (CHR '','') (cut (CHR '','') (numbers (CHR '','') (as_pids (last es)) @ eol))) = Some [int ?p]"
    unfolding cut_numbers [OF p(2) assms(5)] using assms(5) by (simp add: numbers_def)
  moreover have "length (concat (map as_pids es)) < 100" using fits assms(4) by simp
  ultimately have "read_lines [] (Some (cut (CHR '','') (numbers (CHR '','') (as_pids (last es)) @ eol))) (4 + length es) ?c
      = Some (configured 0 ?es'\<lparr>pids := map word_of_nat (concat (map as_pids ?es'))\<rparr>)"
    unfolding same using n_as by (simp add: read_lines_end parse_line_def)
  with s 1 have r: "read_lines (concat (map (\<lambda>l. l @ eol) (butlast (config_lines ?es)))) None 0
      \<lparr>AS_number = 0, pid_number = [], timer = [], EIDs = [], pids = [], hh0 = 0\<rparr>
      = Some (configured 0 ?es'\<lparr>pids := map word_of_nat (concat (map as_pids ?es'))\<rparr>)" by simp
  have "AS_number (configured 0 ?es') \<noteq> 0" using n_as same by (auto simp: unat_eq_zero [symmetric] simp del: unat_eq_zero)
  moreover have "init_nodes (configured 0 ?es'\<lparr>pids := map word_of_nat (concat (map as_pids ?es'))\<rparr>) ids 0 0 (length es + 1)
      = Some (map (\<lambda>i. node_of (?es' ! i) (ids i)) [0..<length es + 1])"
    using init_nodes_configured [OF fits', of 0 ids] assms(2) by simp
  ultimately show ?thesis
    using r n_as same by (simp add: read_configuration_init_pid_change_def)
qed

section \<open>Witnesses\<close>

definition shipped :: "as_entry list" where
  "shipped = [\<lparr>as_eid = replicate 15 0 @ [1], as_timer = 30, as_pids = [22]\<rparr>,
     \<lparr>as_eid = replicate 15 0 @ [2], as_timer = 30, as_pids = [32]\<rparr>]"

lemma shipped_ok: "\<forall>e \<in> set shipped. entry_ok e" "length shipped = 2" "length (concat (map as_pids shipped)) = 2"
  by (simp_all add: shipped_def entry_ok_def)

theorem configuration_file_read_witness:
  "read_configuration_init_pid_change (Some (concat (map (\<lambda>l. l @ [CHR 0x0D, NL])
      [''2'', ''1,1'', ''30,30'', ''0:0:0:0:0:0:0:0:0:0:0:0:0:0:0:1,0:0:0:0:0:0:0:0:0:0:0:0:0:0:0:2'', ''22'', ''32'']))) (\<lambda>_. 0) 0 []
    = Some (0, map (\<lambda>e. node_of e 0) shipped, 2)"
proof -
  have "config_lines shipped = [''2'', ''1,1'', ''30,30'',
      ''0:0:0:0:0:0:0:0:0:0:0:0:0:0:0:1,0:0:0:0:0:0:0:0:0:0:0:0:0:0:0:2'', ''22'', ''32'']" by code_simp
  moreover have "map (\<lambda>i. node_of (shipped ! i) 0) [0..<2] = map (\<lambda>e. node_of e 0) shipped"
    by (simp add: shipped_def upt_rec)
  ultimately show ?thesis
    using configuration_file_read [of shipped "[CHR 0x0D, NL]" "\<lambda>_. 0" 0 "[]"] shipped_ok
    by (simp add: eol_ok_def) (simp add: shipped_def)
qed


definition sixteen :: "as_entry list" where
  "sixteen = replicate 16 \<lparr>as_eid = replicate 15 0 @ [1], as_timer = 30, as_pids = [22]\<rparr>"

theorem sixteen_neighbours_undefined_witness:
  "read_configuration_init_pid_change (Some (concat (map (\<lambda>l. l @ [NL]) (config_lines sixteen)))) (\<lambda>_. 0) 0 [] = None"
proof -
  have "length (eid_text sixteen) \<le> 990" by code_simp
  then have "config_fits sixteen" by (simp add: config_fits_def) (simp add: sixteen_def entry_ok_def)
  moreover have "16 \<le> length sixteen" by (simp add: sixteen_def)
  ultimately show ?thesis by (rule sixteen_neighbours_undefined) (simp add: eol_ok_def)
qed

theorem missing_line_repeats_witness:
  "read_configuration_init_pid_change (Some (concat (map (\<lambda>l. l @ [NL]) (butlast (config_lines shipped))))) (\<lambda>_. 0) 0 []
    = Some (0, map (\<lambda>e. node_of (e\<lparr>as_pids := [22]\<rparr>) 0) shipped, 2)"
proof -
  let ?a = "\<lparr>as_eid = replicate 15 0 @ [1], as_timer = 30, as_pids = [22]\<rparr>"
    and ?b = "\<lparr>as_eid = replicate 15 0 @ [2], as_timer = 30, as_pids = [32]\<rparr>"
  have "config_fits shipped"
    using shipped_ok eid_text_short [of shipped] by (simp add: config_fits_def) (simp add: shipped_def)
  then have "config_fits ([?a] @ [?b])" by (simp add: shipped_def)
  from missing_line_repeats [OF this, of "[NL]" "\<lambda>_. 0" "[]"] show ?thesis
    by (simp add: eol_ok_def shipped_def upt_rec)
qed

end
