(* ===== verification/Pid_Select.thy ===== *)
theory Pid_Select
  imports Prelude
begin

text \<open>
  The path selectors of \<open>RM/main.c\<close>, which choose one of the paths \<open>PID1\<close>, \<open>PID2\<close>,
  \<open>PID3\<close> for a request: the round-robin \<open>lunxun\<close> (the one in use) and \<open>lunxun2\<close>, the random
  selectors \<open>probility_pid\<close>, \<open>probility_pid046\<close>, \<open>probility_pid532\<close> and \<open>random_pid\<close>, and
  the load balancer \<open>max_min_utility\<close>; also \<open>signal_handler\<close>, which flips the mode flag.

  The value of \<open>rand()\<close>, a non-negative number, is an argument. A selector returns the four
  characters of the identifier as a machine word; a local \<open>k\<close> that no branch sets is
  uninitialised, and the call is undefined.
\<close>

section \<open>The identifier of a path\<close>

definition pid_chars :: "u8 \<Rightarrow> bytes" where
  "pid_chars d = [0x50, 0x49, 0x44, d]"

text \<open>\<open>memcpy(&pid_add, pid, 4)\<close>, with the last character \<open>'0' + k\<close>.\<close>

definition pid_word :: "nat \<Rightarrow> u32" where
  "pid_word k = un_le (pid_chars (0x30 + word_of_nat k))"

lemma length_pid_chars [simp]: "length (pid_chars d) = 4"
  by (simp add: pid_chars_def)

lemma le_bytes_pid_word: "le_bytes 4 (pid_word k) = pid_chars (0x30 + word_of_nat k)"
  using le_bytes_un_le [of "pid_chars (0x30 + word_of_nat k)", where 'a = 32]
  by (simp add: pid_word_def del: un_le.simps le_bytes.simps)

lemma pid_chars_inject [simp]: "pid_chars a = pid_chars b \<longleftrightarrow> a = b"
  by (simp add: pid_chars_def)

lemma pid_word_inject: "i < 10 \<Longrightarrow> j < 10 \<Longrightarrow> pid_word i = pid_word j \<longleftrightarrow> i = j"
  by (auto simp: word_of_nat_eq_iff take_bit_nat_eq_self le_bytes_pid_word
      dest!: arg_cong [where f = "le_bytes 4"])

section \<open>Random selectors\<close>

definition probility_pid :: "nat \<Rightarrow> u32 option" where
  "probility_pid r = (let i = r mod 99 + 1 in
     if i \<le> 33 then Some (pid_word 1)
     else if i \<le> 66 \<and> i > 33 then Some (pid_word 2)
     else if i \<le> 99 \<and> i > 66 then Some (pid_word 3)
     else None)"

definition probility_pid046 :: "nat \<Rightarrow> u32 option" where
  "probility_pid046 r = (let i = r mod 100 + 1 in
     if i \<le> 40 then Some (pid_word 2)
     else if i \<le> 100 \<and> i > 40 then Some (pid_word 3)
     else None)"

definition probility_pid532 :: "nat \<Rightarrow> u32 option" where
  "probility_pid532 r = (let i = r mod 100 + 1 in
     if i \<le> 50 then Some (pid_word 1)
     else if i \<le> 80 \<and> i > 50 then Some (pid_word 2)
     else if i \<le> 100 \<and> i > 80 then Some (pid_word 3)
     else None)"

definition random_pid :: "nat \<Rightarrow> u32 option" where
  "random_pid r = Some (pid_word (r mod 3 + 1))"

text \<open>How many of the residues of \<open>rand()\<close> lead to a path.\<close>

definition share :: "(nat \<Rightarrow> u32 option) \<Rightarrow> nat \<Rightarrow> nat \<Rightarrow> nat" where
  "share sel m k = length (filter (\<lambda>r. sel r = Some (pid_word k)) [0..<m])"

section \<open>Round robin\<close>

text \<open>The globals \<open>k2\<close>, \<open>flag2\<close> and \<open>k3\<close>, as C integers.\<close>

record rr_state =
  k2 :: int
  flag2 :: int
  k3 :: int

definition rr_init :: rr_state where
  "rr_init = \<lparr>k2 = 0, flag2 = 0, k3 = 0\<rparr>"

definition lunxun :: "rr_state \<Rightarrow> (u32 \<times> rr_state) option" where
  "lunxun s =
     (if k2 s = 0 \<and> flag2 s = 0 then Some (pid_word 1, s\<lparr>k2 := 1\<rparr>)
      else if k2 s = 1 \<and> flag2 s = 0 then Some (pid_word 2, s\<lparr>flag2 := 1\<rparr>)
      else if k2 s = 1 \<and> flag2 s = 1 then Some (pid_word 3, s\<lparr>k2 := 0, flag2 := 0\<rparr>)
      else None)"

text \<open>\<open>lunxun2\<close> has \<open>else if (k2=1)\<close>, an assignment: the branch is always taken and sets
  \<open>k2\<close>, a variable of the other selector.\<close>

definition lunxun2 :: "rr_state \<Rightarrow> (u32 \<times> rr_state) option" where
  "lunxun2 s =
     (if k3 s = 0 then Some (pid_word 2, s\<lparr>k3 := 1\<rparr>)
      else Some (pid_word 3, s\<lparr>k2 := 1, k3 := 0\<rparr>))"

definition rr_ok :: "rr_state \<Rightarrow> bool" where
  "rr_ok s \<longleftrightarrow> (k2 s, flag2 s) \<in> {(0, 0), (1, 0), (1, 1)}"

lemma rr_ok_init: "rr_ok rr_init"
  by (simp add: rr_ok_def rr_init_def)

section \<open>The load balancer\<close>

text \<open>The loads are signed 64-bit counters; an addition that leaves their range is undefined.\<close>

record loads =
  pc3_port :: int
  pc4_port :: int
  pc5_port :: int

definition LLONG_MAX :: int where
  "LLONG_MAX = 2 ^ 63 - 1"

definition add_ll :: "int \<Rightarrow> u32 \<Rightarrow> int option" where
  "add_ll x n = (if x + uint n \<le> LLONG_MAX then Some (x + uint n) else None)"

definition choose_least :: "loads \<Rightarrow> nat \<Rightarrow> nat" where
  "choose_least s r =
     (if pc3_port s < pc4_port s \<and> pc3_port s < pc5_port s then 1
      else if pc4_port s < pc3_port s \<and> pc4_port s < pc5_port s then 2
      else if pc5_port s < pc3_port s \<and> pc5_port s < pc4_port s then 3
      else r mod 3 + 1)"

definition max_min_utility :: "nat \<Rightarrow> u32 \<Rightarrow> loads \<Rightarrow> (u32 \<times> loads) option" where
  "max_min_utility r cc_flow_size s =
     (let k = choose_least s r in
      if k = 1 then do { x \<leftarrow> add_ll (pc3_port s) cc_flow_size;
                         Some (pid_word k, s\<lparr>pc3_port := x\<rparr>) }
      else if k = 2 then do { x \<leftarrow> add_ll (pc4_port s) cc_flow_size;
                         Some (pid_word k, s\<lparr>pc4_port := x\<rparr>) }
      else if k = 3 then do { x \<leftarrow> add_ll (pc5_port s) cc_flow_size;
                         Some (pid_word k, s\<lparr>pc5_port := x\<rparr>) }
      else Some (pid_word k, s))"

definition load_of :: "loads \<Rightarrow> nat \<Rightarrow> int" where
  "load_of s k = (if k = 1 then pc3_port s else if k = 2 then pc4_port s else pc5_port s)"

section \<open>The mode flag\<close>

definition signal_handler :: "int \<Rightarrow> int" where
  "signal_handler biaozhi =
     (if biaozhi = 0 then 1 else if biaozhi = 1 then 0 else biaozhi)"

section \<open>The contract of a selector\<close>

text \<open>What the request path needs of a selector: while its invariant holds, a call is defined,
  names one of three paths and keeps the invariant.\<close>

locale selector =
  fixes sel :: "nat \<Rightarrow> 's \<Rightarrow> (u32 \<times> 's) option"
    and inv :: "'s \<Rightarrow> bool"
  assumes sel_ok: "inv s \<Longrightarrow> \<exists>k s'. sel r s = Some (pid_word k, s') \<and> k \<in> {1, 2, 3} \<and> inv s'"
begin

fun run :: "nat list \<Rightarrow> 's \<Rightarrow> (u32 list \<times> 's) option" where
  "run [] s = Some ([], s)"
| "run (r # rs) s = do { (p, s') \<leftarrow> sel r s; (ps, s'') \<leftarrow> run rs s'; Some (p # ps, s'') }"

lemma run_ok:
  "inv s \<Longrightarrow> \<exists>ps s'. run rs s = Some (ps, s') \<and> length ps = length rs
     \<and> set ps \<subseteq> {pid_word 1, pid_word 2, pid_word 3} \<and> inv s'"
proof (induction rs arbitrary: s)
  case Nil
  then show ?case by simp
next
  case (Cons r rs)
  from sel_ok [OF Cons.prems, of r] obtain k s1
    where k: "sel r s = Some (pid_word k, s1)" "k \<in> {1, 2, 3}" "inv s1" by blast
  from Cons.IH [OF k(3)] obtain ps s2 where "run rs s1 = Some (ps, s2)"
    "length ps = length rs" "set ps \<subseteq> {pid_word 1, pid_word 2, pid_word 3}" "inv s2" by blast
  with k show ?case by auto
qed

end

interpretation rr: selector "\<lambda>r. lunxun" rr_ok
proof
  fix s and r :: nat
  assume "rr_ok s"
  then show "\<exists>k s'. lunxun s = Some (pid_word k, s') \<and> k \<in> {1, 2, 3} \<and> rr_ok s'"
    by (auto simp: rr_ok_def lunxun_def)
qed

interpretation rr2: selector "\<lambda>r. lunxun2" "\<lambda>s. True"
  by unfold_locales (auto simp: lunxun2_def)

interpretation prob: selector "\<lambda>r s :: unit. map_option (\<lambda>p. (p, s)) (probility_pid r)" "\<lambda>s. True"
proof
  fix r :: nat and s :: unit
  have "r mod 99 < 99" by simp
  then show "\<exists>k s'. map_option (\<lambda>p. (p, s)) (probility_pid r) = Some (pid_word k, s')
      \<and> k \<in> {1, 2, 3} \<and> True"
    by (auto simp: probility_pid_def Let_def)
qed

lemma lunxun_cycle:
  assumes "rr_ok s"
  shows "\<exists>p q r s1 s2. lunxun s = Some (p, s1) \<and> lunxun s1 = Some (q, s2)
    \<and> lunxun s2 = Some (r, s) \<and> mset [p, q, r] = mset (map pid_word [1, 2, 3])"
proof -
  obtain c where "s \<in> {\<lparr>k2 = 0, flag2 = 0, k3 = c\<rparr>, \<lparr>k2 = 1, flag2 = 0, k3 = c\<rparr>,
      \<lparr>k2 = 1, flag2 = 1, k3 = c\<rparr>}"
    using assms by (cases s) (auto simp: rr_ok_def)
  then show ?thesis
    by (elim insertE emptyE) (simp_all add: lunxun_def)
qed

lemma count_list_mset: "count_list xs x = count (mset xs) x"
  by (induction xs) auto

lemma pid_word_counts: "k \<in> {1, 2, 3} \<Longrightarrow> count (mset (map pid_word [1, 2, 3])) (pid_word k) = 1"
  by (auto simp: pid_word_inject)

lemma lunxun_rounds:
  "rr_ok s \<Longrightarrow> length rs = 3 * n \<Longrightarrow> \<exists>ps. rr.run rs s = Some (ps, s)
     \<and> (\<forall>k \<in> {1, 2, 3}. count_list ps (pid_word k) = n)"
proof (induction n arbitrary: rs)
  case 0
  then show ?case by simp
next
  case (Suc n)
  then obtain a b c rs' where rs: "rs = a # b # c # rs'" and len: "length rs' = 3 * n"
    by (auto simp: length_Suc_conv numeral_3_eq_3)
  from Suc.IH [OF Suc.prems(1) len] obtain ps where ps: "rr.run rs' s = Some (ps, s)"
    "\<forall>k \<in> {1, 2, 3}. count_list ps (pid_word k) = n" by blast
  from lunxun_cycle [OF Suc.prems(1)] obtain p q r s1 s2 where cyc: "lunxun s = Some (p, s1)"
    "lunxun s1 = Some (q, s2)" "lunxun s2 = Some (r, s)"
    "mset [p, q, r] = mset (map pid_word [1, 2, 3])" by blast
  have "rr.run rs s = Some (p # q # r # ps, s)"
    using cyc(1-3) ps(1) by (simp add: rs)
  moreover have "count_list (p # q # r # ps) (pid_word k) = Suc n" if "k \<in> {1, 2, 3}" for k
  proof -
    have "count_list (p # q # r # ps) (pid_word k)
        = count (mset [p, q, r]) (pid_word k) + count_list ps (pid_word k)"
      unfolding count_list_mset by simp
    with that ps(2) pid_word_counts [OF that] show ?thesis
      unfolding cyc(4) by (metis Suc_eq_plus1_left One_nat_def)
  qed
  ultimately show ?case by blast
qed

text \<open>The round robin is fair: from every state it can be in, each three successive calls
  use each of the three paths once and bring it back to the same state; so no call from the
  initial state is ever undefined, and after \<open>3 n\<close> calls every path has been chosen \<open>n\<close> times.\<close>

theorem lunxun_fair:
  "\<exists>ps s'. rr.run rs rr_init = Some (ps, s') \<and> rr_ok s' \<and> length ps = length rs
     \<and> (length rs = 3 * n \<longrightarrow> s' = rr_init
         \<and> (\<forall>k \<in> {1, 2, 3}. count_list ps (pid_word k) = n))"
proof -
  have ok: "\<exists>ps s'. rr.run rs rr_init = Some (ps, s') \<and> rr_ok s' \<and> length ps = length rs"
    using rr.run_ok [OF rr_ok_init, of rs] by blast
  have "\<exists>ps. rr.run rs rr_init = Some (ps, rr_init)
      \<and> (\<forall>k \<in> {1, 2, 3}. count_list ps (pid_word k) = n)" if "length rs = 3 * n"
    using lunxun_rounds [OF rr_ok_init that] .
  with ok show ?thesis
    by (cases "length rs = 3 * n") auto
qed

theorem lunxun_fair_witness:
  "\<exists>ps. rr.run [0, 0, 0, 0, 0, 0] rr_init = Some (ps, rr_init)
     \<and> count_list ps (pid_word 3) = 2"
  using lunxun_fair [of "[0, 0, 0, 0, 0, 0]" 2] by fastforce

text \<open>\<open>lunxun2\<close> corrupts the state of \<open>lunxun\<close>: two calls of it in the initial state make
  the next call of \<open>lunxun\<close> answer path 2, where it would have answered path 1, because the
  condition \<open>k2=1\<close> assigns to the other selector's variable.\<close>

theorem lunxun2_disturbs_lunxun:
  "\<exists>p q s1 s2 s3. lunxun2 rr_init = Some (p, s1) \<and> lunxun2 s1 = Some (q, s2)
     \<and> lunxun rr_init = Some (pid_word 1, s3) \<and> (\<exists>s4. lunxun s2 = Some (pid_word 2, s4))"
  by (simp add: lunxun2_def lunxun_def rr_init_def)

lemma share_interval:
  assumes "b \<le> m" and "\<And>r. r < m \<Longrightarrow> sel r = Some (pid_word k) \<longleftrightarrow> a \<le> r \<and> r < b"
  shows "share sel m k = b - a"
proof -
  have "share sel m k = card {r. r < length [0..<m] \<and> sel ([0..<m] ! r) = Some (pid_word k)}"
    by (simp add: share_def length_filter_conv_card del: length_upt)
  also have "{r. r < length [0..<m] \<and> sel ([0..<m] ! r) = Some (pid_word k)} = {a..<b}"
    using assms by auto
  finally show ?thesis by simp
qed

text \<open>The random selectors are total and have the shares their thresholds mean:
  \<open>probility_pid\<close> gives each path 33 of 99 residues, \<open>probility_pid046\<close> gives path 2 40 and path
  3 60 of 100, \<open>probility_pid532\<close> gives the paths 50, 30 and 20 of 100.\<close>

theorem random_selector_shares:
  "(\<forall>r. probility_pid r \<noteq> None \<and> probility_pid046 r \<noteq> None \<and> probility_pid532 r \<noteq> None)
    \<and> map (share probility_pid 99) [1, 2, 3] = [33, 33, 33]
    \<and> map (share probility_pid046 100) [1, 2, 3] = [0, 40, 60]
    \<and> map (share probility_pid532 100) [1, 2, 3] = [50, 30, 20]"
proof -
  have "probility_pid r \<noteq> None \<and> probility_pid046 r \<noteq> None \<and> probility_pid532 r \<noteq> None" for r
    using mod_less_divisor [of 99 r] mod_less_divisor [of 100 r]
    by (auto simp: probility_pid_def probility_pid046_def probility_pid532_def Let_def)
  moreover have "share probility_pid 99 1 = 33 - 0" "share probility_pid 99 2 = 66 - 33"
    "share probility_pid 99 3 = 99 - 66"
    by (rule share_interval; auto simp: probility_pid_def Let_def pid_word_inject)+
  moreover have "share probility_pid046 100 1 = 0 - 0" "share probility_pid046 100 2 = 40 - 0"
    "share probility_pid046 100 3 = 100 - 40"
    by (rule share_interval; auto simp: probility_pid046_def Let_def pid_word_inject)+
  moreover have "share probility_pid532 100 1 = 50 - 0" "share probility_pid532 100 2 = 80 - 50"
    "share probility_pid532 100 3 = 100 - 80"
    by (rule share_interval; auto simp: probility_pid532_def Let_def pid_word_inject)+
  ultimately show ?thesis by simp
qed

lemma choose_least_range: "choose_least s r \<in> {1, 2, 3}"
proof -
  have "r mod 3 < 3" by simp
  then show ?thesis by (auto simp: choose_least_def)
qed

lemma choose_least_strict:
  assumes "k \<in> {1, 2, 3}" and "\<forall>j \<in> {1, 2, 3} - {k}. load_of s k < load_of s j"
  shows "choose_least s r = k"
proof -
  consider "k = 1" | "k = 2" | "k = 3" using assms(1) by blast
  then show ?thesis
    using assms(2) by cases (simp_all add: choose_least_def load_of_def insert_Diff_if)
qed

text \<open>\<open>max_min_utility\<close> charges the flow to exactly the path it answers, and where one of
  the three loads is strictly smaller than the others that is the path it answers.\<close>

theorem max_min_utility_charges:
  assumes "load_of s 1 \<le> LLONG_MAX - uint n" and "load_of s 2 \<le> LLONG_MAX - uint n"
    and "load_of s 3 \<le> LLONG_MAX - uint n"
  shows "\<exists>k s'. max_min_utility r n s = Some (pid_word k, s') \<and> k \<in> {1, 2, 3}
    \<and> (\<forall>j \<in> {1, 2, 3}. load_of s' j = load_of s j + (if j = k then uint n else 0))
    \<and> (\<forall>i \<in> {1, 2, 3}. (\<forall>j \<in> {1, 2, 3} - {i}. load_of s i < load_of s j) \<longrightarrow> k = i)"
proof -
  let ?k = "choose_least s r"
  have "\<forall>i \<in> {1, 2, 3}. (\<forall>j \<in> {1, 2, 3} - {i}. load_of s i < load_of s j) \<longrightarrow> ?k = i"
    using choose_least_strict [of _ s r] by blast
  moreover have "\<exists>s'. max_min_utility r n s = Some (pid_word ?k, s')
    \<and> (\<forall>j \<in> {1, 2, 3}. load_of s' j = load_of s j + (if j = ?k then uint n else 0))"
    using choose_least_range [of s r] assms
    by (auto simp: max_min_utility_def Let_def add_ll_def load_of_def)
  ultimately show ?thesis
    using choose_least_range [of s r] by blast
qed

theorem max_min_utility_charges_witness:
  "\<exists>k s'. max_min_utility 0 100 \<lparr>pc3_port = 7, pc4_port = 5, pc5_port = 9\<rparr> = Some (pid_word k, s')
     \<and> load_of s' 2 = 105"
  using max_min_utility_charges [of "\<lparr>pc3_port = 7, pc4_port = 5, pc5_port = 9\<rparr>" 100 0]
  by (force simp: load_of_def LLONG_MAX_def)

text \<open>On a tie for the smallest load the balancer may pick the busiest path: with loads 5, 5
  and 9 a random value of 2 charges the third.\<close>

theorem max_min_utility_tie:
  "\<exists>s'. max_min_utility 2 10 \<lparr>pc3_port = 5, pc4_port = 5, pc5_port = 9\<rparr> = Some (pid_word 3, s')
     \<and> pc5_port s' = 19"
  by (simp add: max_min_utility_def choose_least_def add_ll_def LLONG_MAX_def)

end
