(* ===== verification/Packet.thy ===== *)
theory Packet
  imports Pid_Select Nid_Table
begin

text \<open>
  Packets of the resource manager: the packet buffer \<open>struct rte_mbuf\<close> as far as the code uses
  it, the RFC 1812 validity check, and the functions of \<open>RM/main.c\<close> and \<open>RM/wenxingbeng.c\<close> that
  append a path identifier to a CoLoR request (\<open>ADD_PID\<close>, \<open>update_PID\<close>,
  \<open>ADD_PID_and_IP\<close>), rewrite its addresses (\<open>update_IP\<close>) and forward it
  (\<open>get_packets_forward\<close>).

  Offsets from the start of the frame: 14 bytes of Ethernet header (destination 0, source 6),
  the IPv4 header at 14 (version 14, total length 16, time to live 22, checksum 24, source 26,
  destination 30), the CoLoR header at 34 (total length 36, number of path identifiers 44).
\<close>

section \<open>Packet buffers\<close>

text \<open>\<open>mdata\<close> is the data room from the first byte of the frame to the end of the buffer,
  of which \<open>data_len\<close> bytes are the frame.\<close>

record mbuf =
  mid :: nat
  mdata :: bytes
  data_len :: u16
  pkt_len :: u32
  rx_ipv4 :: bool

section \<open>Validity of an IPv4 header\<close>

definition is_valid_ipv4_pkt :: "bytes \<Rightarrow> nat \<Rightarrow> u32 \<Rightarrow> int option" where
  "is_valid_ipv4_pkt b ip link_len =
     (if link_len < 20 then Some (-1)
      else do {
        vi \<leftarrow> rd8 b ip;
        if drop_bit 4 vi \<noteq> 4 then Some (-3)
        else if vi AND 0xf < 5 then Some (-4)
        else do {
          tl \<leftarrow> rd16 b (ip + 2);
          if bswap16 tl < 20 then Some (-5) else Some 0 } })"

definition rfc1812_process :: "bytes \<Rightarrow> nat \<Rightarrow> bool \<Rightarrow> u16 \<Rightarrow> (bytes \<times> u16) option" where
  "rfc1812_process b ip ipv4 dp =
     (if ipv4 then do {
        vi \<leftarrow> rd8 b ip;
        let ihl = vi - 0x45;
        ttl \<leftarrow> rd8 b (ip + 8);
        b \<leftarrow> wr8 b (ip + 8) (ttl - 1);
        ck \<leftarrow> rd16 b (ip + 10);
        b \<leftarrow> wr16 b (ip + 10) (ck + 1);
        tl \<leftarrow> rd16 b (ip + 2);
        Some (b, if ihl > 0x0a \<or> (ucast tl :: u8) = 0 \<and> tl < 0x1400 then - 1 else dp) }
      else Some (b, dp))"

lemma ihl_check:
  "((vi :: u8) - 0x45 > 0x0a) \<longleftrightarrow> \<not> (drop_bit 4 vi = 4 \<and> \<not> (vi AND 0xf < 5))"
proof -
  have "vi AND 0xf = take_bit 4 vi" by (simp add: take_bit_eq_mask mask_eq_exp_minus_1)
  then have 1: "uint (vi AND 0xf) = uint vi mod 16"
    by (simp only: unsigned_take_bit_eq) (simp add: take_bit_eq_mod)
  have b: "0 \<le> uint vi" "uint vi < 256"  using uint_bounded [of vi] by simp_all
  have 2: "uint (drop_bit 4 vi) = uint vi div 16"
    using b by (simp only: unsigned_drop_bit_eq) (simp add: drop_bit_eq_div take_bit_eq_mod)
  define q r where "q = uint vi div 16" and "r = uint vi mod 16"
  have qr: "uint vi = 16 * q + r" "0 \<le> r" "r < 16" by (simp_all add: q_def r_def)
  have "uint (vi - 0x45) = (if 69 \<le> uint vi then uint vi - 69 else uint vi + 187)"
  proof -
    have "(uint vi - 69) mod 256 = (uint vi + 187) mod 256"
      using mod_add_self2 [of "uint vi - 69" 256] by (simp add: algebra_simps)
    then show ?thesis using b by (auto simp: uint_word_ariths mod_pos_pos_trivial)
  qed
  then show ?thesis
    unfolding word_less_def word_uint_eq_iff 1 2 q_def [symmetric] r_def [symmetric]
    using qr b by auto
qed

lemma bswap16_len_check:
  "(ucast (n :: u16) :: u8) = 0 \<and> n < 0x1400 \<longleftrightarrow> bswap16 n < 20"
proof -
  have b: "0 \<le> uint n" "uint n < 65536" using uint_bounded [of n] by simp_all
  define q r where "q = uint n div 256" and "r = uint n mod 256"
  have qr: "uint n = 256 * q + r" "0 \<le> r" "r < 256" by (simp_all add: q_def r_def)
  have "(ucast n :: u8) = 0 \<longleftrightarrow> r = 0"
    by (simp add: word_uint_eq_iff unsigned_ucast_eq take_bit_eq_mod r_def)
  then show ?thesis
    unfolding word_less_def uint_bswap16 q_def [symmetric] r_def [symmetric]
    using qr b by auto
qed

text \<open>The branch-free check of \<open>rfc1812_process\<close> (one subtraction and two comparisons on
  the stored total length) marks a packet with \<open>BAD_PORT\<close> exactly when the explicit check
  \<open>is_valid_ipv4_pkt\<close> on the same header refuses it, whatever the link length allows;
  otherwise the port is kept. Both count the TTL down and the checksum up for a valid packet.\<close>

theorem rfc1812_process_agrees:
  assumes "ip + 12 \<le> length b" and "20 \<le> link_len"
  shows "\<exists>b' dp' v. rfc1812_process b ip True dp = Some (b', dp')
    \<and> is_valid_ipv4_pkt b ip link_len = Some v
    \<and> dp' = (if v < 0 then - 1 else dp)
    \<and> rd8 b' (ip + 8) = Some (get8 b (ip + 8) - 1)
    \<and> rd16 b' (ip + 10) = Some (get16 b (ip + 10) + 1)"
  using assms ihl_check [of "get8 b ip"] bswap16_len_check [of "get16 b (ip + 2)"]
  by (auto simp: rfc1812_process_def is_valid_ipv4_pkt_def buf_simps Let_def not_less [symmetric])

theorem rfc1812_process_agrees_witness:
  "\<exists>b' dp'. rfc1812_process (0x45 # replicate 19 0) 0 True 7 = Some (b', dp') \<and> dp' = - 1"
proof -
  have "is_valid_ipv4_pkt (0x45 # replicate 19 0) 0 60 = Some (-5)" by code_simp
  then show ?thesis
    using rfc1812_process_agrees [of 0 "0x45 # replicate 19 0" 60 7] by fastforce
qed

section \<open>Appending a path identifier\<close>

text \<open>\<open>ADD_PID\<close>: the round robin chooses the path; the identifier is stored after the
  packet's data; the result is the number of the path, or 0 if the four bytes are none of the
  three known identifiers. The stored \<open>total_len\<close> is read again after the copy, as in the
  code. In between the code prints a character and waits in \<open>getchar\<close> for one on the terminal, whose value it
  does not use: the model is that of a call in which it comes.\<close>

definition pid_number :: "u32 \<Rightarrow> int" where
  "pid_number w = (if w = pid_word 1 then 1 else if w = pid_word 2 then 2
     else if w = pid_word 3 then 3 else 0)"

definition ADD_PID :: "mbuf \<Rightarrow> rr_state \<Rightarrow> (int \<times> mbuf \<times> rr_state) option" where
  "ADD_PID m s = do {
     b \<leftarrow> wr16 (mdata m) 36 (data_len m - 34);
     tl \<leftarrow> rd16 b 36;
     let pid_add = 34 + unat tl;
     (pid_xuan, s) \<leftarrow> lunxun s;
     b \<leftarrow> wr32 b pid_add pid_xuan;
     tl \<leftarrow> rd16 b 36;
     b \<leftarrow> wr16 b 36 (bswap16 (tl + 4));
     p \<leftarrow> rd32 b pid_add;
     Some (pid_number p,
       m\<lparr>mdata := b, data_len := data_len m + 4, pkt_len := pkt_len m + 4\<rparr>, s) }"

text \<open>\<open>ADD_PID_and_IP\<close>: the same for a control packet, with a given identifier and
  destination.\<close>

definition ADD_PID_and_IP :: "mbuf \<Rightarrow> u32 \<Rightarrow> u32 \<Rightarrow> mbuf option" where
  "ADD_PID_and_IP m p ip = do {
     b \<leftarrow> wr16 (mdata m) 36 (data_len m - 34);
     b \<leftarrow> wr32 b 30 ip;
     tl \<leftarrow> rd16 b 36;
     b \<leftarrow> wr32 b (34 + unat tl) p;
     tl \<leftarrow> rd16 b 36;
     b \<leftarrow> wr16 b 36 (bswap16 (tl + 4));
     Some (m\<lparr>mdata := b, data_len := data_len m + 4, pkt_len := pkt_len m + 4\<rparr>) }"

text \<open>\<open>update_IP\<close> and \<open>update_PID\<close>. Here the identifier goes after the 96 bytes of
  \<open>CoLoR_get_t\<close> and the \<open>PIDs\<close> identifiers already there, and both length fields are
  updated in network order.\<close>

definition HOST_IP :: u32 where
  "HOST_IP = IPv4 192 168 4 1"

definition update_IP :: "bytes \<Rightarrow> nat \<Rightarrow> u32 \<Rightarrow> bytes option" where
  "update_IP b ip dst_addr = do {
     b \<leftarrow> wr32 b (ip + 12) (bswap32 HOST_IP);
     wr32 b (ip + 16) dst_addr }"

definition update_PID :: "mbuf \<Rightarrow> u32 \<Rightarrow> mbuf option" where
  "update_PID m p = do {
     let b = mdata m;
     PIDs \<leftarrow> rd8 b 44;
     tl \<leftarrow> rd16 b 16;
     b \<leftarrow> wr16 b 16 (bswap16 (bswap16 tl + 4));
     b \<leftarrow> wr32 b (14 + 20 + 96 + 4 * unat PIDs) p;
     n \<leftarrow> rd8 b 44;
     b \<leftarrow> wr8 b 44 (n + 1);
     cl \<leftarrow> rd16 b 36;
     b \<leftarrow> wr16 b 36 (bswap16 (bswap16 cl + 4));
     Some (m\<lparr>mdata := b, data_len := data_len m + 4, pkt_len := pkt_len m + 4\<rparr>) }"

section \<open>Forwarding a request\<close>

text \<open>The addresses of the three paths.\<close>

definition set_path_addrs :: "bytes \<Rightarrow> u32 \<Rightarrow> bytes option" where
  "set_path_addrs b net = do {
     b \<leftarrow> wr32 b 26 (bswap32 (IPv4 192 168 net 1));
     wr32 b 30 (bswap32 (IPv4 192 168 net 2)) }"

text \<open>What becomes of the packet: it is freed, or handed to \<open>rte_eth_tx_burst\<close> on a port.\<close>

datatype verdict = Freed | Transmit (tx_port: u8) (tx_mbuf: mbuf)

text \<open>\<open>get_packets_forward\<close>, with the port addresses \<open>ports_eth_addr\<close> as a function. The two
  additions to a length field act on the field as it is stored, in network order. If
  \<open>ADD_PID\<close> answers 0, \<open>port_id\<close> is used uninitialised.\<close>

definition get_packets_forward ::
  "(u8 \<Rightarrow> 48 word) \<Rightarrow> mbuf \<Rightarrow> rr_state \<Rightarrow> (verdict \<times> rr_state) option" where
  "get_packets_forward ports_eth_addr m s = do {
     tl \<leftarrow> rd16 (mdata m) 16;
     b \<leftarrow> wr16 (mdata m) 16 (tl + 4);
     v \<leftarrow> is_valid_ipv4_pkt b 14 (pkt_len m);
     if v < 0 then Some (Freed, s)
     else do {
       cl \<leftarrow> rd16 b 36;
       b \<leftarrow> wr16 b 36 (cl + 4);
       n \<leftarrow> rd8 b 44;
       b \<leftarrow> wr8 b 44 (n + 1);
       (ret, m, s) \<leftarrow> ADD_PID (m\<lparr>mdata := b\<rparr>) s;
       (port_id, b) \<leftarrow>
         (if ret = 1 then do { b \<leftarrow> set_path_addrs (mdata m) 2; Some (1, b) }
          else if ret = 2 then do { b \<leftarrow> set_path_addrs (mdata m) 3; Some (2, b) }
          else if ret = 3 then do { b \<leftarrow> set_path_addrs (mdata m) 4; Some (3, b) }
          else None);
       ttl \<leftarrow> rd8 b 22;
       b \<leftarrow> wr8 b 22 (ttl - 1);
       ck \<leftarrow> rd16 b 24;
       b \<leftarrow> wr16 b 24 (ck + 1);
       b \<leftarrow> wrn b 6 (le_bytes 6 (ports_eth_addr port_id));
       Some (Transmit port_id (m\<lparr>mdata := b\<rparr>), s) } }"

section \<open>Appending\<close>

lemma unat_data_len:
  "34 \<le> data_len m \<Longrightarrow> unat (data_len m - 34) = unat (data_len m) - 34"
  by (simp add: unat_sub word_le_nat_alt)

lemma pid_number_pid_word [simp]:
  "k \<in> {1, 2, 3} \<Longrightarrow> pid_number (pid_word k) = int k"
  by (auto simp: pid_number_def pid_word_inject)

definition room_for_pid :: "mbuf \<Rightarrow> bool" where
  "room_for_pid m \<longleftrightarrow> 46 \<le> data_len m \<and> unat (data_len m) + 4 \<le> length (mdata m)"

lemma ADD_PID_eq:
  assumes "room_for_pid m" and "lunxun s = Some (pid_word k, s')" and "k \<in> {1, 2, 3}"
  shows "ADD_PID m s = Some (int k,
    m\<lparr>mdata := put (put (put (mdata m) 36 (le_bytes 2 (data_len m - 34)))
         (unat (data_len m)) (le_bytes 4 (pid_word k))) 36 (le_bytes 2 (bswap16 (data_len m - 30))),
      data_len := data_len m + 4, pkt_len := pkt_len m + 4\<rparr>, s')"
proof -
  have l: "46 \<le> unat (data_len m)" "unat (data_len m) + 4 \<le> length (mdata m)"
    using assms(1) by (simp_all add: room_for_pid_def word_le_nat_alt)
  then have "34 + unat (data_len m - 34) = unat (data_len m)"
    by (simp add: unat_data_len word_le_nat_alt)
  moreover have "data_len m - 34 + 4 = data_len m - 30"
    by simp
  ultimately show ?thesis
    using l assms(2,3) by (simp add: ADD_PID_def buf_simps Let_def)
qed

lemma is_valid_put [buf_simps]:
  "p + length xs \<le> ip \<or> ip + 4 \<le> p \<Longrightarrow>
   is_valid_ipv4_pkt (put b p xs) ip n = is_valid_ipv4_pkt b ip n"
  by (auto simp: is_valid_ipv4_pkt_def buf_simps)

definition valid_request :: "mbuf \<Rightarrow> bool" where
  "valid_request m \<longleftrightarrow> room_for_pid m
     \<and> is_valid_ipv4_pkt (put (mdata m) 16 (le_bytes 2 (get16 (mdata m) 16 + 4))) 14 (pkt_len m)
         = Some 0"

lemma get_packets_forward_fields:
  assumes "rr_ok s" and "valid_request m"
  shows "\<exists>k m' s'. get_packets_forward mac m s = Some (Transmit (word_of_nat k) m', s')
    \<and> lunxun s = Some (pid_word k, s') \<and> k \<in> {1, 2, 3}
    \<and> data_len m' = data_len m + 4 \<and> pkt_len m' = pkt_len m + 4
    \<and> length (mdata m') = length (mdata m)
    \<and> get32 (mdata m') (unat (data_len m)) = pid_word k
    \<and> get16 (mdata m') 16 = get16 (mdata m) 16 + 4
    \<and> get16 (mdata m') 36 = bswap16 (data_len m - 34 + 4)
    \<and> get8 (mdata m') 44 = get8 (mdata m) 44 + 1
    \<and> slice (mdata m') 6 6 = le_bytes 6 (mac (word_of_nat k))
    \<and> get32 (mdata m') 30 = bswap32 (IPv4 192 168 (word_of_nat (k + 1)) 2)
    \<and> get8 (mdata m') 22 = get8 (mdata m) 22 - 1
    \<and> get16 (mdata m') 24 = get16 (mdata m) 24 + 1
    \<and> slice (mdata m') 45 (unat (data_len m) - 45) = slice (mdata m) 45 (unat (data_len m) - 45)
    \<and> get8 (mdata m') 34 = get8 (mdata m) 34
    \<and> get32 (mdata m') 26 = bswap32 (IPv4 192 168 (word_of_nat (k + 1)) 1)
    \<and> (\<forall>(p, n) \<in> {(0, 6), (12, 2), (14, 2), (18, 4), (23, 1), (34, 2), (38, 6)}. slice (mdata m') p n = slice (mdata m) p n)"
proof -
  have l: "46 \<le> unat (data_len m)" "unat (data_len m) + 4 \<le> length (mdata m)"
    and valid: "is_valid_ipv4_pkt (put (mdata m) 16 (le_bytes 2 (get16 (mdata m) 16 + 4))) 14
      (pkt_len m) = Some 0"
    using assms(2) by (simp_all add: valid_request_def room_for_pid_def word_le_nat_alt)
  from rr.sel_ok [OF assms(1)] obtain k s' where k: "lunxun s = Some (pid_word k, s')"
    "k \<in> {1, 2, 3}" by blast
  let ?b = "put (put (put (mdata m) 16 (le_bytes 2 (get16 (mdata m) 16 + 4)))
      36 (le_bytes 2 (get16 (mdata m) 36 + 4))) 44 [get8 (mdata m) 44 + 1]"
  have "room_for_pid (m\<lparr>mdata := ?b\<rparr>)"
    using assms(2) by (simp add: valid_request_def room_for_pid_def)
  note add = ADD_PID_eq [OF this k]
  show ?thesis
    by (rule exI [of _ k], use k(2) l in \<open>elim insertE emptyE\<close>)
      (simp_all add: get_packets_forward_def buf_simps valid add k(1) set_path_addrs_def)
qed

text \<open>C29: A valid request is forwarded on the path the round robin chooses, and every byte of it is accounted for: the
  identifier of that path stands right behind the old data, and both packet lengths grow by four. In the CoLoR header the
  length is the new one (in network order) and the number of identifiers is one more; the bytes before the length
  (version and type, time to live), those between the length and the number, and everything from behind the number to
  the end of the data are untouched. In the IPv4 header the addresses are those of the two ends of the path, the time to
  live is one less, the checksum one more and the length, as it is stored, four more; the rest is untouched. The
  frame leaves through the port of the path with that port's address as its source, and keeps its destination and
  type.\<close>

theorem get_packets_forward_appends:
  assumes "rr_ok s" and "valid_request m"
  shows "\<exists>k m' s'. get_packets_forward mac m s = Some (Transmit (word_of_nat k) m', s')
    \<and> lunxun s = Some (pid_word k, s') \<and> k \<in> {1, 2, 3}
    \<and> data_len m' = data_len m + 4 \<and> pkt_len m' = pkt_len m + 4
    \<and> rd32 (mdata m') (unat (data_len m)) = Some (pid_word k)
    \<and> slice (mdata m') 34 2 = slice (mdata m) 34 2
    \<and> rd16 (mdata m') 36 = Some (bswap16 (data_len m - 34 + 4))
    \<and> slice (mdata m') 38 6 = slice (mdata m) 38 6
    \<and> rd8 (mdata m') 44 = Some (get8 (mdata m) 44 + 1)
    \<and> slice (mdata m') 45 (unat (data_len m) - 45) = slice (mdata m) 45 (unat (data_len m) - 45)
    \<and> slice (mdata m') 14 2 = slice (mdata m) 14 2
    \<and> rd16 (mdata m') 16 = Some (get16 (mdata m) 16 + 4)
    \<and> slice (mdata m') 18 4 = slice (mdata m) 18 4
    \<and> rd8 (mdata m') 22 = Some (get8 (mdata m) 22 - 1)
    \<and> slice (mdata m') 23 1 = slice (mdata m) 23 1
    \<and> rd16 (mdata m') 24 = Some (get16 (mdata m) 24 + 1)
    \<and> rd32 (mdata m') 26 = Some (bswap32 (IPv4 192 168 (word_of_nat (k + 1)) 1))
    \<and> rd32 (mdata m') 30 = Some (bswap32 (IPv4 192 168 (word_of_nat (k + 1)) 2))
    \<and> slice (mdata m') 0 6 = slice (mdata m) 0 6
    \<and> rdn (mdata m') 6 6 = Some (le_bytes 6 (mac (word_of_nat k)))
    \<and> slice (mdata m') 12 2 = slice (mdata m) 12 2"
proof -
  from assms(2) have "46 \<le> unat (data_len m)" "unat (data_len m) + 4 \<le> length (mdata m)"
    by (simp_all add: valid_request_def room_for_pid_def word_le_nat_alt)
  then show ?thesis
    using get_packets_forward_fields [OF assms, of mac]
    by (elim exE conjE) (intro exI conjI, assumption+, simp_all add: buf_simps)
qed

definition sample_request :: mbuf where
  "sample_request = \<lparr>mid = 0,
     mdata = replicate 14 0 @ [0x45, 0, 0, 40] @ replicate 42 0,
     data_len = 56, pkt_len = 56, rx_ipv4 = True\<rparr>"

lemma sample_request_ok: "valid_request sample_request"
  unfolding valid_request_def by code_simp

theorem get_packets_forward_appends_witness:
  "\<exists>m' s'. get_packets_forward (\<lambda>_. 9) sample_request rr_init = Some (Transmit 1 m', s')
     \<and> rd32 (mdata m') 56 = Some (pid_word 1)"
  using get_packets_forward_appends [OF rr_ok_init sample_request_ok, of "\<lambda>_. 9"]
  by (auto simp: sample_request_def lunxun_def rr_init_def pid_word_inject)

text \<open>The length in the IPv4 header is wrong after forwarding. The code adds 4 to the field as it
  is stored, in network order, so the receiver reads a length that has grown by 1024 (whenever the
  high byte leaves room), not by the 4 bytes that were appended.\<close>

theorem get_packets_forward_ip_length:
  assumes "rr_ok s" and "valid_request m" and "uint (get16 (mdata m) 16) mod 256 < 252"
  shows "\<exists>p m' s'. get_packets_forward mac m s = Some (Transmit p m', s')
    \<and> map_option bswap16 (rd16 (mdata m') 16) = Some (bswap16 (get16 (mdata m) 16) + 1024)"
proof -
  from assms(2) have "46 \<le> length (mdata m)"
    by (simp add: valid_request_def room_for_pid_def word_le_nat_alt)
  with get_packets_forward_fields [OF assms(1,2), of mac] bswap16_add4 [OF assms(3)] show ?thesis
    by (elim exE conjE) (intro exI conjI, assumption, simp add: buf_simps)
qed

theorem get_packets_forward_ip_length_witness:
  "\<exists>p m' s'. get_packets_forward (\<lambda>_. 9) sample_request rr_init = Some (Transmit p m', s')
     \<and> map_option bswap16 (rd16 (mdata m') 16) = Some 1064"
proof -
  have "uint (get16 (mdata sample_request) 16) mod 256 < 252"
    "bswap16 (get16 (mdata sample_request) 16) + 1024 = 1064" by code_simp+
  then show ?thesis
    using get_packets_forward_ip_length [OF rr_ok_init sample_request_ok, of "\<lambda>_. 9"] by simp
qed

text \<open>\<open>ADD_PID_and_IP\<close> appends the given identifier to a control packet, addresses the packet
  and keeps the lengths consistent; \<open>update_PID\<close> on a request with an exact CoLoR header and
  \<open>PIDs\<close> identifiers appends at the same place, the end of the data, so both ways of appending
  give a packet whose last four bytes are the identifier.\<close>

theorem append_pid_at_end:
  assumes "room_for_pid m"
  shows "(\<exists>m'. ADD_PID_and_IP m p ip = Some m'
      \<and> data_len m' = data_len m + 4 \<and> pkt_len m' = pkt_len m + 4
      \<and> rd32 (mdata m') (unat (data_len m)) = Some p \<and> rd32 (mdata m') 30 = Some ip
      \<and> map_option bswap16 (rd16 (mdata m') 36) = Some (data_len m' - 34))
    \<and> (unat (data_len m) = 130 + 4 * unat (get8 (mdata m) 44) \<longrightarrow>
      (\<exists>m'. update_PID m p = Some m'
        \<and> data_len m' = data_len m + 4 \<and> pkt_len m' = pkt_len m + 4
        \<and> rd32 (mdata m') (unat (data_len m)) = Some p
        \<and> map_option bswap16 (rd16 (mdata m') 16) = Some (bswap16 (get16 (mdata m) 16) + 4)
        \<and> map_option bswap16 (rd16 (mdata m') 36) = Some (bswap16 (get16 (mdata m) 36) + 4)
        \<and> rd8 (mdata m') 44 = Some (get8 (mdata m) 44 + 1)))"
proof -
  have l: "46 \<le> unat (data_len m)" "unat (data_len m) + 4 \<le> length (mdata m)"
    using assms by (simp_all add: room_for_pid_def word_le_nat_alt)
  then have "34 + unat (data_len m - 34) = unat (data_len m)"
    by (simp add: unat_data_len word_le_nat_alt)
  with l show ?thesis
    by (intro conjI impI)
      (simp add: ADD_PID_and_IP_def buf_simps, simp add: update_PID_def buf_simps Let_def)
qed

theorem append_pid_at_end_witness:
  "\<exists>m'. ADD_PID_and_IP sample_request 7 9 = Some m' \<and> rd32 (mdata m') 56 = Some 7"
  using append_pid_at_end [of sample_request 7 9] sample_request_ok
  by (auto simp: valid_request_def sample_request_def)

end
