(* ===== verification/Cksum.thy ===== *)
theory Cksum
  imports Packet
begin

text \<open>
  The IPv4 header checksum of \<open>RM/main.c\<close>: the summation with its unrolled loop, the folding of
  the carries, \<open>rte_ipv4_cksum\<close>, and the effect of counting the TTL down and the checksum up.
\<close>

section \<open>The code\<close>

text \<open>The first loop of \<open>__rte_raw_cksum\<close> takes four words a round, the second one word.\<close>

function raw_cksum4 :: "bytes \<Rightarrow> nat \<Rightarrow> nat \<Rightarrow> u32 \<Rightarrow> (nat \<times> nat \<times> u32) option" where
  "raw_cksum4 b p len acc =
     (if len \<ge> 8 then do {
        w0 \<leftarrow> rd16 b p; w1 \<leftarrow> rd16 b (p + 2); w2 \<leftarrow> rd16 b (p + 4); w3 \<leftarrow> rd16 b (p + 6);
        raw_cksum4 b (p + 8) (len - 8) (acc + ucast w0 + ucast w1 + ucast w2 + ucast w3) }
      else Some (p, len, acc))"
  by pat_completeness auto
termination by (relation "measure (\<lambda>(b, p, len, acc). len)") auto

function raw_cksum1 :: "bytes \<Rightarrow> nat \<Rightarrow> nat \<Rightarrow> u32 \<Rightarrow> (nat \<times> nat \<times> u32) option" where
  "raw_cksum1 b p len acc =
     (if len \<ge> 2 then do { w \<leftarrow> rd16 b p; raw_cksum1 b (p + 2) (len - 2) (acc + ucast w) }
      else Some (p, len, acc))"
  by pat_completeness auto
termination by (relation "measure (\<lambda>(b, p, len, acc). len)") auto

declare raw_cksum4.simps [simp del] raw_cksum1.simps [simp del]

definition rte_raw_cksum_sum :: "bytes \<Rightarrow> nat \<Rightarrow> nat \<Rightarrow> u32 \<Rightarrow> u32 option" where
  "rte_raw_cksum_sum b p len acc = do {
     (p, len, acc) \<leftarrow> raw_cksum4 b p len acc;
     (p, len, acc) \<leftarrow> raw_cksum1 b p len acc;
     if len = 1 then do { x \<leftarrow> rd8 b p; Some (acc + ucast x) } else Some acc }"

definition rte_raw_cksum_reduce :: "u32 \<Rightarrow> u16" where
  "rte_raw_cksum_reduce acc =
     (let acc = drop_bit 16 (acc AND 0xffff0000) + (acc AND 0xffff);
          acc = drop_bit 16 (acc AND 0xffff0000) + (acc AND 0xffff) in ucast acc)"

definition rte_raw_cksum :: "bytes \<Rightarrow> nat \<Rightarrow> nat \<Rightarrow> u16 option" where
  "rte_raw_cksum b p len = do {
     acc \<leftarrow> rte_raw_cksum_sum b p len 0;
     Some (rte_raw_cksum_reduce acc) }"

definition rte_ipv4_cksum :: "bytes \<Rightarrow> nat \<Rightarrow> u16 option" where
  "rte_ipv4_cksum b ip = do {
     cksum \<leftarrow> rte_raw_cksum b ip 20;
     Some (if cksum = 0xffff then cksum else NOT cksum) }"

section \<open>The sum of the words\<close>

fun sum16 :: "bytes \<Rightarrow> nat \<Rightarrow> nat \<Rightarrow> u32" where
  "sum16 b p 0 = 0"
| "sum16 b p (Suc n) = ucast (get16 b p) + sum16 b (p + 2) n"

lemma sum16_add: "sum16 b p (m + n) = sum16 b p m + sum16 b (p + 2 * m) n"
  by (induction m arbitrary: p) (simp_all add: add.assoc add.commute)

lemma raw_cksum4_eq:
  "p + len \<le> length b \<Longrightarrow> raw_cksum4 b p len acc =
     Some (p + 8 * (len div 8), len mod 8, acc + sum16 b p (4 * (len div 8)))"
proof (induction b p len acc rule: raw_cksum4.induct)
  case (1 b p len acc)
  show ?case
  proof (cases "len \<ge> 8")
    case True
    then have len: "len div 8 = Suc ((len - 8) div 8)" "len mod 8 = (len - 8) mod 8"
      by (simp_all add: le_div_geq le_mod_geq)
    have "sum16 b p 4 = ucast (get16 b p) + ucast (get16 b (p + 2)) + ucast (get16 b (p + 4))
        + ucast (get16 b (p + 6))"
      by (simp add: eval_nat_numeral add.assoc)
    then show ?thesis
      using True 1 by (subst raw_cksum4.simps)
        (simp add: buf_simps len sum16_add [of b p 4, simplified] add.assoc algebra_simps)
  next
    case False
    then show ?thesis by (simp add: raw_cksum4.simps)
  qed
qed

lemma raw_cksum1_eq:
  "p + len \<le> length b \<Longrightarrow> raw_cksum1 b p len acc =
     Some (p + 2 * (len div 2), len mod 2, acc + sum16 b p (len div 2))"
proof (induction b p len acc rule: raw_cksum1.induct)
  case (1 b p len acc)
  show ?case
  proof (cases "len \<ge> 2")
    case True
    then have "len div 2 = Suc ((len - 2) div 2)" "len mod 2 = (len - 2) mod 2"
      by (simp_all add: le_div_geq le_mod_geq)
    then show ?thesis
      using True 1 by (subst raw_cksum1.simps) (simp add: buf_simps algebra_simps)
  next
    case False
    then show ?thesis by (simp add: raw_cksum1.simps)
  qed
qed

text \<open>The reference: the 16-bit words in order, and a trailing odd byte.\<close>

definition cksum_spec :: "bytes \<Rightarrow> nat \<Rightarrow> nat \<Rightarrow> u32 \<Rightarrow> u32" where
  "cksum_spec b p len acc = acc + sum16 b p (len div 2)
     + (if odd len then ucast (get8 b (p + (len - 1))) else 0)"

lemma rte_raw_cksum_sum_eq:
  assumes "p + len \<le> length b"
  shows "rte_raw_cksum_sum b p len acc = Some (cksum_spec b p len acc)"
proof -
  have len: "len = len mod 8 + 2 * (4 * (len div 8))" by simp
  have half: "len div 2 = 4 * (len div 8) + len mod 8 div 2"
    using div_mult_self2 [of 2 "len mod 8" "4 * (len div 8)"] len by simp
  have par: "len mod 8 mod 2 = len mod 2"
    by (simp add: mod_mod_cancel)
  have "8 * (len div 8) + len mod 8 = len" by simp
  then have bound: "p + 8 * (len div 8) + len mod 8 \<le> length b"
    using assms by (metis add.assoc)
  have pos: "p + 8 * (len div 8) + 2 * (len mod 8 div 2) = p + 2 * (len div 2)"
    by (simp add: half)
  show ?thesis
  proof (cases "len mod 2 = 1")
    case True
    then have "len = 2 * (len div 2) + 1" using mult_div_mod_eq [of 2 len] by simp
    then have "len - 1 = 2 * (len div 2)" "2 * (len div 2) < len" by simp_all
    with assms True show ?thesis
      unfolding rte_raw_cksum_sum_def raw_cksum4_eq [OF assms]
      by (simp add: raw_cksum1_eq [OF bound] par pos cksum_spec_def half sum16_add
          add.assoc buf_simps odd_iff_mod_2_eq_one)
  next
    case False
    then have "len mod 2 = 0" by simp
    then show ?thesis
      unfolding rte_raw_cksum_sum_def raw_cksum4_eq [OF assms]
      by (simp add: raw_cksum1_eq [OF bound] par cksum_spec_def half sum16_add add.assoc
          even_iff_mod_2_eq_zero)
  qed
qed

section \<open>Folding the carries\<close>

definition fold_nat :: "nat \<Rightarrow> nat" where
  "fold_nat s = s div 65536 + s mod 65536"

lemma fold_nat_mod: "fold_nat s mod 65535 = s mod 65535"
proof -
  have "s = 65535 * (s div 65536) + fold_nat s"
    using div_mult_mod_eq [of s 65536] by (simp add: fold_nat_def)
  then show ?thesis by (metis mod_mult_self4)
qed

lemma fold_nat_0 [simp]: "fold_nat s = 0 \<longleftrightarrow> s = 0"
  using div_mult_mod_eq [of s 65536] by (auto simp: fold_nat_def)

lemma fold_nat_bound: "s < 2 ^ 32 \<Longrightarrow> fold_nat (fold_nat s) < 65536"
proof -
  assume "s < 2 ^ 32"
  then have "s div 65536 \<le> 65535" "s mod 65536 \<le> 65535" by auto
  then have u: "fold_nat s \<le> 131070" by (simp add: fold_nat_def)
  show ?thesis
  proof (cases "fold_nat s < 65536")
    case False
    then obtain v where v: "fold_nat s = v + 65536"
      by (metis add.commute le_Suc_ex not_less)
    with u have "v \<le> 65534" by simp
    with v have "fold_nat s div 65536 = 1" "fold_nat s mod 65536 = v" by simp_all
    with \<open>v \<le> 65534\<close> show ?thesis by (simp add: fold_nat_def [of "fold_nat s"])
  qed (simp add: fold_nat_def [of "fold_nat s"])
qed

lemma fold_word:
  fixes s :: u32
  shows "unat (drop_bit 16 (s AND 0xffff0000) + (s AND 0xffff)) = fold_nat (unat s)"
proof -
  have "drop_bit 16 (s AND 0xffff0000) = drop_bit 16 s"
  proof -
    have "drop_bit 16 (s AND 0xffff0000) = drop_bit 16 s AND drop_bit 16 0xffff0000" by simp
    also have "drop_bit 16 0xffff0000 = (mask 16 :: u32)" by (simp add: mask_eq_exp_minus_1)
    also have "drop_bit 16 s AND mask 16 = drop_bit 16 s"
      by (rule bit_word_eqI) (auto simp: bit_simps dest: bit_imp_le_length)
    finally show ?thesis .
  qed
  moreover have "s AND 0xffff = take_bit 16 s"
    by (simp add: take_bit_eq_mask mask_eq_exp_minus_1)
  moreover have "unat (drop_bit 16 s) = unat s div 65536"
  proof -
    have "unat s < 2 ^ 32" using unsigned_less [of s] by simp
    then have "take_bit 32 (unat s) = unat s" by (rule take_bit_nat_eq_self)
    then show ?thesis
      by (simp only: unsigned_drop_bit_eq) (simp add: drop_bit_eq_div)
  qed
  moreover have "unat (take_bit 16 s) = unat s mod 65536"
    by (simp only: unsigned_take_bit_eq) (simp add: take_bit_eq_mod)
  moreover have "unat s div 65536 + unat s mod 65536 < 2 ^ 32"
  proof -
    have "unat s div 65536 \<le> unat s" "unat s mod 65536 < 65536" "unat s < 4294967296"
      using unsigned_less [of s] by simp_all
    then have "unat s div 65536 < 65536" by (simp add: less_mult_imp_div_less)
    with \<open>unat s mod 65536 < 65536\<close> show ?thesis by simp
  qed
  ultimately show ?thesis
    by (simp add: unat_word_ariths fold_nat_def)
qed

lemma unat_reduce: "unat (rte_raw_cksum_reduce s) = fold_nat (fold_nat (unat s))"
proof -
  have "fold_nat (fold_nat (unat s)) < 65536"
    using unsigned_less [of s] by (intro fold_nat_bound) simp
  then show ?thesis
    by (simp only: rte_raw_cksum_reduce_def Let_def unsigned_ucast_eq fold_word)
      (simp add: take_bit_eq_mod)
qed

lemma reduce_mod: "unat (rte_raw_cksum_reduce s) mod 65535 = unat s mod 65535"
  by (simp add: unat_reduce fold_nat_mod)

lemma reduce_ffff_iff: "rte_raw_cksum_reduce s = 0xffff \<longleftrightarrow> s \<noteq> 0 \<and> 65535 dvd unat s"
proof -
  let ?r = "unat (rte_raw_cksum_reduce s)"
  have r0: "?r = 0 \<longleftrightarrow> s = 0" by (simp add: unat_reduce unat_eq_zero)
  have "?r < 65536" using unsigned_less [of "rte_raw_cksum_reduce s"] by simp
  then have "?r = 65535 \<longleftrightarrow> ?r \<noteq> 0 \<and> ?r mod 65535 = 0"
    by (cases "?r = 65535") (auto simp: mod_if)
  moreover have "rte_raw_cksum_reduce s = 0xffff \<longleftrightarrow> ?r = 65535"
    by (simp add: word_unat_eq_iff)
  ultimately show ?thesis
    by (simp add: r0 reduce_mod dvd_eq_mod_eq_0)
qed

section \<open>Headers that verify\<close>

definition words_nat :: "bytes \<Rightarrow> nat \<Rightarrow> nat" where
  "words_nat b ip = unat (get16 b ip) + unat (get16 b (ip + 2)) + unat (get16 b (ip + 4))
     + unat (get16 b (ip + 6)) + unat (get16 b (ip + 8)) + unat (get16 b (ip + 10))
     + unat (get16 b (ip + 12)) + unat (get16 b (ip + 14)) + unat (get16 b (ip + 16))
     + unat (get16 b (ip + 18))"

lemma unat16_less: "unat (w :: u16) < 65536"
  using unsigned_less [of w] by simp

lemma unat_sum16: "n \<le> 65536 \<Longrightarrow> unat (sum16 b p n) = (\<Sum>i<n. unat (get16 b (p + 2 * i)))
    \<and> (\<Sum>i<n. unat (get16 b (p + 2 * i))) \<le> n * 65535"
proof (induction n arbitrary: p)
  case (Suc n)
  have split: "(\<Sum>i<Suc n. unat (get16 b (p + 2 * i)))
      = unat (get16 b p) + (\<Sum>i<n. unat (get16 b (p + 2 + 2 * i)))"
    by (simp add: sum.lessThan_Suc_shift del: sum.lessThan_Suc)
  have ih: "unat (sum16 b (p + 2) n) = (\<Sum>i<n. unat (get16 b (p + 2 + 2 * i)))"
    "(\<Sum>i<n. unat (get16 b (p + 2 + 2 * i))) \<le> n * 65535"
    using Suc.IH [of "p + 2"] Suc.prems by simp_all
  have "unat (get16 b p) \<le> 65535" using unat16_less [of "get16 b p"] by simp
  then show ?case
    unfolding split using ih Suc.prems
    by (simp add: unat_word_ariths unsigned_ucast_eq take_bit_nat_eq_self)
qed simp

lemma header_sum:
  assumes "ip + 20 \<le> length b"
  shows "\<exists>s. rte_raw_cksum_sum b ip 20 0 = Some s \<and> unat s = words_nat b ip"
proof -
  have "(\<Sum>i<10. unat (get16 b (ip + 2 * i))) = words_nat b ip"
    by (simp add: words_nat_def eval_nat_numeral)
  then show ?thesis
    using rte_raw_cksum_sum_eq [OF assms, of 0] unat_sum16 [of 10 b ip]
    by (simp add: cksum_spec_def)
qed

text \<open>A receiver accepts a header whose folded sum is all ones.\<close>

definition header_verifies :: "bytes \<Rightarrow> nat \<Rightarrow> bool" where
  "header_verifies b ip \<longleftrightarrow> rte_raw_cksum b ip 20 = Some 0xffff"

lemma header_verifies_iff:
  "ip + 20 \<le> length b \<Longrightarrow>
   header_verifies b ip \<longleftrightarrow> words_nat b ip \<noteq> 0 \<and> 65535 dvd words_nat b ip"
  using header_sum [of ip b]
  by (auto simp: header_verifies_def rte_raw_cksum_def reduce_ffff_iff unat_eq_zero [symmetric])

lemma unat_not16: "unat (k :: u16) + unat (NOT k) = 65535"
proof -
  have "(unat k + unat (NOT k)) mod 65536 = unat (k + NOT k)"
    by (simp only: unat_word_ariths) simp
  then have "(unat k + unat (NOT k)) mod 65536 = 65535"
    by (simp add: unsigned_minus_1_eq_mask mask_eq_exp_minus_1)
  moreover have "unat k + unat (NOT k) \<le> 131070"
    using unat16_less [of k] unat16_less [of "NOT k"] by simp
  ultimately show ?thesis
    by (cases "unat k + unat (NOT k) < 65536") (auto simp: mod_if split: if_splits)
qed

lemma rte_ipv4_cksum_correct:
  assumes len: "ip + 20 \<le> length b" and zero: "get16 b (ip + 10) = 0"
  shows "\<exists>c b'. rte_ipv4_cksum b ip = Some c \<and> wr16 b (ip + 10) c = Some b' \<and> header_verifies b' ip"
proof -
  from header_sum [OF len] obtain s where
    s: "rte_raw_cksum_sum b ip 20 0 = Some s" "unat s = words_nat b ip" by blast
  let ?k = "rte_raw_cksum_reduce s"
  let ?c = "if ?k = 0xffff then ?k else NOT ?k"
  let ?b = "put b (ip + 10) (le_bytes 2 ?c)"
  have words: "words_nat ?b ip = unat s + unat ?c"
    using len zero by (simp add: words_nat_def s(2) buf_simps)
  have "(unat s + unat ?c) mod 65535 = (unat ?k + unat ?c) mod 65535"
    by (metis mod_add_left_eq reduce_mod)
  moreover have "(unat ?k + unat ?c) mod 65535 = 0"
    using unat_not16 [of ?k] by simp
  ultimately have "words_nat ?b ip mod 65535 = 0"
    unfolding words by (rule trans)
  then have "65535 dvd words_nat ?b ip" by (rule mod_0_imp_dvd)
  moreover have "unat s + unat ?c \<noteq> 0"
  proof (cases "unat s = 0")
    case True
    then have "unat ?k = 0" by (simp only: unat_reduce fold_nat_0)
    with unat_not16 [of ?k] show ?thesis by auto
  qed simp
  ultimately have "header_verifies ?b ip"
    using len words header_verifies_iff [of ip ?b] by (simp only: length_put) blast
  then show ?thesis
    using s len by (simp add: rte_ipv4_cksum_def rte_raw_cksum_def buf_simps)
qed

text \<open>C30: The optimised summation is the plain one: for every buffer, start, length and initial value
  the unrolled loop, the word loop and the odd-byte case together add each 16-bit word once and
  a trailing byte once; and \<open>rte_ipv4_cksum\<close> is a correct checksum: stored in a header whose
  checksum field was zero it makes the header verify, also where the folded sum is all ones.\<close>

theorem rte_ipv4_cksum_verifies:
  "(p + len \<le> length b \<longrightarrow> rte_raw_cksum_sum b p len acc = Some (cksum_spec b p len acc))
    \<and> (ip + 20 \<le> length b \<and> get16 b (ip + 10) = 0 \<longrightarrow>
        (\<exists>c b'. rte_ipv4_cksum b ip = Some c \<and> wr16 b (ip + 10) c = Some b' \<and> header_verifies b' ip))"
  using rte_raw_cksum_sum_eq rte_ipv4_cksum_correct by blast

theorem rte_ipv4_cksum_verifies_witness:
  "\<exists>c b'. rte_ipv4_cksum (replicate 10 7 @ 0 # 0 # replicate 8 7) 0 = Some c
     \<and> wr16 (replicate 10 7 @ 0 # 0 # replicate 8 7) 10 c = Some b' \<and> header_verifies b' 0"
proof -
  have "get16 (replicate 10 7 @ 0 # 0 # replicate 8 7) 10 = 0" by code_simp
  then show ?thesis
    using rte_ipv4_cksum_verifies [of 0 0 "replicate 10 7 @ 0 # 0 # replicate 8 7" 0 0] by simp
qed

text \<open>Counting the TTL down and adding one to the stored checksum keeps a header that verifies
  verifying, without summing again, as long as the TTL is not zero and the checksum not all ones;
  with an all-ones checksum the header that leaves the router does not verify.\<close>

theorem ttl_decrement_checksum:
  assumes "ip + 20 \<le> length b" and "header_verifies b ip" and "get8 b (ip + 8) \<noteq> 0"
    and "rfc1812_process b ip True dp = Some (b', dp')"
  shows "header_verifies b' ip \<longleftrightarrow> get16 b (ip + 10) \<noteq> 0xffff"
proof -
  let ?t = "get8 b (ip + 8)" and ?k = "get16 b (ip + 10)"
  let ?b1 = "put b (ip + 8) [?t - 1]"
  have b': "b' = put ?b1 (ip + 10) (le_bytes 2 (?k + 1))"
    using assms(1,4) by (simp add: rfc1812_process_def buf_simps Let_def)
  have t: "unat (?t - 1) + 1 = unat ?t"
    using assms(3) by (metis Suc_eq_plus1 Suc_pred' unat_minus_one unat_gt_0)
  have "unat (get16 ?b1 (ip + 8)) + 1 = unat (get16 b (ip + 8))"
    using assms(1) t by (simp add: unat_get16 buf_simps add.assoc)
  then have words: "words_nat b' ip + unat ?k + 1 = words_nat b ip + unat (?k + 1)"
    using assms(1) by (simp add: b' words_nat_def buf_simps)
  have ok: "words_nat b ip \<noteq> 0" "65535 dvd words_nat b ip"
    using assms(2) header_verifies_iff [OF assms(1)] by simp_all
  have len: "ip + 20 \<le> length b'" using assms(1) by (simp add: b')
  show ?thesis
  proof (cases "?k = 0xffff")
    case True
    then have "words_nat b' ip + 65536 = words_nat b ip" using words by simp
    then have "65535 dvd words_nat b' ip \<Longrightarrow> 65535 dvd (65536 :: nat)"
      using ok(2) dvd_add_right_iff [of 65535 "words_nat b' ip" 65536] by simp
    then have "\<not> 65535 dvd words_nat b' ip" by auto
    with True show ?thesis unfolding header_verifies_iff [OF len] by blast
  next
    case False
    then have "unat ?k \<noteq> 65535" by (simp add: word_unat_eq_iff)
    with unat16_less [of ?k] have "unat ?k + 1 < 65536" by simp
    then have "unat (?k + 1) = unat ?k + 1" by (simp add: unat_word_ariths)
    with words have "words_nat b' ip = words_nat b ip" by simp
    with ok False show ?thesis unfolding header_verifies_iff [OF len] by simp
  qed
qed

definition ttl_sample :: bytes where
  "ttl_sample = [0x45, 0, 0, 20, 0, 0, 0, 0, 64, 0, 122, 234, 0, 0, 0, 1, 0, 0, 0, 0]"

theorem ttl_decrement_checksum_witness:
  "\<exists>b' dp'. rfc1812_process ttl_sample 0 True 3 = Some (b', dp') \<and> header_verifies b' 0"
proof -
  have s: "header_verifies ttl_sample 0" "get8 ttl_sample 8 \<noteq> 0" "get16 ttl_sample 10 \<noteq> 0xffff"
    "length ttl_sample = 20"
    unfolding header_verifies_def by code_simp+
  obtain b' dp' where "rfc1812_process ttl_sample 0 True 3 = Some (b', dp')"
    using s(4) by (auto simp: rfc1812_process_def buf_simps Let_def)
  with ttl_decrement_checksum [of 0 ttl_sample 3 b' dp'] s show ?thesis by auto
qed

end
