(* ===== verification/Control_Msg.thy ===== *)
theory Control_Msg
  imports Packet
begin

text \<open>
  The control messages of the resource manager (\<open>RM/main.c\<close>): the constructors of the Ethernet,
  IPv4 and control headers, the functions that build and transmit the four messages of the path
  identifier negotiation, the traffic message and the announcement to the border routers, and the
  reading of a received message.

  Offsets from the start of the frame: the control header \<open>struct color_ctl_pub\<close> is the packed
  140 bytes from 34 (version 34, type 35, total length 36, option 41, item 46, identifier 50),
  its payload starts at 174 with the period, followed by the path identifiers at 178.
  \<open>rte_pktmbuf_alloc\<close> and \<open>rte_eth_tx_burst\<close> are arguments; without a check of the code, a failed
  allocation is dereferenced and the call undefined.
\<close>

section \<open>Headers\<close>

definition CONTROL_PACKET :: u8 where "CONTROL_PACKET = 0xA3"
definition CONTROL_PACKET_PID :: u8 where "CONTROL_PACKET_PID = 0x10"
definition CONTROL_PACKET_PID_ANNOUNCE :: u8 where "CONTROL_PACKET_PID_ANNOUNCE = 129"
definition OPTION_FLAG :: u8 where "OPTION_FLAG = 0x40"
definition OPTION_KIND_MASK :: u8 where "OPTION_KIND_MASK = 0x30"

definition ether_header :: bytes where
  "ether_header = [0, 0x16, 0x31, 0xfe, 0xe6, 0x91, 0, 0x16, 0x31, 0xfe, 0xe6, 0x90]
     @ le_bytes 2 (0x0008 :: u16)"

definition pktgen_ctor_ether_header :: "bytes \<Rightarrow> (nat \<times> bytes) option" where
  "pktgen_ctor_ether_header b = do { b \<leftarrow> wrn b 0 ether_header; Some (14, b) }"

definition ip_header :: bytes where
  "ip_header = [0x45, 0, 0, 0, 0, 0, 0, 0, 4, 10, 0, 0]
     @ le_bytes 4 (bswap32 (IPv4 192 168 2 1)) @ le_bytes 4 (bswap32 (IPv4 192 168 2 2))"

definition pktgen_ctor_ip_header :: "bytes \<Rightarrow> (nat \<times> bytes) option" where
  "pktgen_ctor_ip_header b = do { b \<leftarrow> wrn b 14 ip_header; Some (20, b) }"

text \<open>\<open>struct color_ctl_pub\<close> in memory.\<close>

record color_ctl_pub =
  ver_type :: u8
  controltype :: u8
  total_len :: u16
  checksum :: u16
  sign_alg :: u8
  opt :: u8
  series_number_ack :: u16
  series_number_send :: u16
  item_count :: u16
  MTU :: u16
  ctl_EID :: bytes
  public_key_len :: u16
  resevered :: u16
  public_key :: bytes
  signature :: bytes

definition ctl_bytes :: "color_ctl_pub \<Rightarrow> bytes" where
  "ctl_bytes c = [ver_type c, controltype c] @ le_bytes 2 (total_len c) @ le_bytes 2 (checksum c)
     @ [sign_alg c, opt c] @ le_bytes 2 (series_number_ack c) @ le_bytes 2 (series_number_send c)
     @ le_bytes 2 (item_count c) @ le_bytes 2 (MTU c) @ ctl_EID c @ le_bytes 2 (public_key_len c)
     @ le_bytes 2 (resevered c) @ public_key c @ signature c"

definition kind_option :: "u8 \<Rightarrow> u8" where
  "kind_option kind = OPTION_FLAG OR
     (if kind = 0 then 0x00 else if kind = 1 then 0x10 else if kind = 2 then 0x20
      else if kind = 3 then 0x30 else 0)"

text \<open>\<open>total_len\<close> is set for the kinds 0 to 3 only.\<close>

definition pid_ctl :: "nid \<Rightarrow> u8 \<Rightarrow> u16 \<Rightarrow> color_ctl_pub option" where
  "pid_ctl host kind item = do {
     tl \<leftarrow> (if kind = 0 \<or> kind = 3 then Some 140
           else if kind = 1 \<or> kind = 2 then Some (140 + 4 * (item + 1)) else None);
     Some \<lparr>ver_type = CONTROL_PACKET, controltype = CONTROL_PACKET_PID, total_len = tl,
       checksum = 0, sign_alg = 0, opt = kind_option kind, series_number_ack = 0,
       series_number_send = 0, item_count = item, MTU = bswap16 1500, ctl_EID = nid_bytes host,
       public_key_len = bswap16 49, resevered = 0, public_key = replicate 49 0,
       signature = replicate 55 0\<rparr> }"

definition pktgen_ctor_colorctl_pub :: "nid \<Rightarrow> bytes \<Rightarrow> u8 \<Rightarrow> u16 \<Rightarrow> (nat \<times> bytes) option" where
  "pktgen_ctor_colorctl_pub host b kind item = do {
     c \<leftarrow> pid_ctl host kind item;
     b \<leftarrow> wrn b 34 (ctl_bytes c);
     Some (140, b) }"

text \<open>The traffic message. \<open>public_key_len\<close> is never set (the assignment goes to
  \<open>public_key[16]\<close>, which is cleared right after), nor is the first of the three proportions: their
  stack contents are the arguments \<open>junk_len\<close> and \<open>junk0\<close>.\<close>

definition pktgen_ctor_colorctl_traffic_pub ::
  "u16 \<Rightarrow> u8 \<Rightarrow> bytes \<Rightarrow> (nat \<times> bytes) option" where
  "pktgen_ctor_colorctl_traffic_pub junk_len junk0 b = do {
     b \<leftarrow> wrn b 34 (ctl_bytes \<lparr>ver_type = CONTROL_PACKET, controltype = 0x23, total_len = 143,
       checksum = 0, sign_alg = 0, opt = 0, series_number_ack = 0, series_number_send = 0,
       item_count = 4, MTU = bswap16 1500, ctl_EID = replicate 15 0 @ [1],
       public_key_len = junk_len, resevered = 0, public_key = replicate 49 0,
       signature = replicate 55 0\<rparr>);
     b \<leftarrow> wrn b 174 [junk0, 10, 20];
     Some (143, b) }"

definition pkt_colorctl_setup :: "nid \<Rightarrow> bytes \<Rightarrow> u8 \<Rightarrow> u8 \<Rightarrow> (nat \<times> bytes) option" where
  "pkt_colorctl_setup host b kind item = do {
     (r1, b) \<leftarrow> pktgen_ctor_ether_header b;
     (r2, b) \<leftarrow> pktgen_ctor_ip_header b;
     (r3, b) \<leftarrow> pktgen_ctor_colorctl_pub host b kind (ucast item);
     Some (r1 + r2 + r3, b) }"

definition pkt_colorctl_traffic_setup :: "u16 \<Rightarrow> u8 \<Rightarrow> bytes \<Rightarrow> (nat \<times> bytes) option" where
  "pkt_colorctl_traffic_setup junk_len junk0 b = do {
     (r1, b) \<leftarrow> pktgen_ctor_ether_header b;
     (r2, b) \<leftarrow> pktgen_ctor_ip_header b;
     (r3, b) \<leftarrow> pktgen_ctor_colorctl_traffic_pub junk_len junk0 b;
     Some (r1 + r2 + r3, b) }"

section \<open>Transmission\<close>

text \<open>What a sender does with its packet buffer: offer it to the driver on a port and queue, which
  takes it or not, and free it.\<close>

datatype nic_event = Tx u8 u8 mbuf bool | FreeMbuf nat

record nic =
  alloc :: "mbuf option"
  accepts :: "mbuf \<Rightarrow> bool"

definition finish :: "mbuf \<Rightarrow> bytes \<Rightarrow> nat \<Rightarrow> u32 \<Rightarrow> u32 \<Rightarrow> mbuf option" where
  "finish m b n p ip =
     ADD_PID_and_IP (m\<lparr>mdata := b, pkt_len := word_of_nat n, data_len := word_of_nat n\<rparr>) p ip"

definition send_pid_change_request ::
  "nid \<Rightarrow> nic \<Rightarrow> u8 \<Rightarrow> u8 \<Rightarrow> u32 \<Rightarrow> u32 \<Rightarrow> nic_event list option" where
  "send_pid_change_request host nic port queue p ip = do {
     m \<leftarrow> alloc nic;
     (n, b) \<leftarrow> pkt_colorctl_setup host (mdata m) 0 0;
     m \<leftarrow> finish m b n p ip;
     let ok = accepts nic m;
     Some ([Tx port queue m ok] @ (if \<not> ok then [FreeMbuf (mid m)] else []) @ [FreeMbuf (mid m)]) }"

definition send_link_traffic_proportion ::
  "u16 \<Rightarrow> u8 \<Rightarrow> nic \<Rightarrow> u8 \<Rightarrow> u8 \<Rightarrow> u32 \<Rightarrow> u32 \<Rightarrow> nic_event list option" where
  "send_link_traffic_proportion junk_len junk0 nic port queue p ip = do {
     m \<leftarrow> alloc nic;
     (n, b) \<leftarrow> pkt_colorctl_traffic_setup junk_len junk0 (mdata m);
     m \<leftarrow> finish m b n p ip;
     let ok = accepts nic m;
     Some ([Tx port queue m ok] @ (if \<not> ok then [FreeMbuf (mid m)] else []) @ [FreeMbuf (mid m)]) }"

text \<open>\<open>send_pid_a\<close> and \<open>send_pid_b\<close> differ in the kind only. The number of identifiers passes
  through the \<open>uint8_t\<close> parameter of \<open>pkt_colorctl_setup\<close>.\<close>

definition pids_bytes :: "u32 list \<Rightarrow> bytes" where
  "pids_bytes ws = concat (map (le_bytes 4) ws)"

definition send_pids :: "u8 \<Rightarrow> nid \<Rightarrow> nic \<Rightarrow> u32 list \<Rightarrow> u32 \<Rightarrow> u16 \<Rightarrow> u8 \<Rightarrow> u8 \<Rightarrow> u32 \<Rightarrow> u32 \<Rightarrow>
    nic_event list option" where
  "send_pids kind host nic pids timer npids port queue p ip = do {
     m \<leftarrow> alloc nic;
     (n, b) \<leftarrow> pkt_colorctl_setup host (mdata m) kind (ucast npids);
     (n, b) \<leftarrow> (if n \<noteq> 0 then do {
         b \<leftarrow> wr32 b 174 timer;
         guard (length pids = unat npids);
         b \<leftarrow> wrn b 178 (pids_bytes pids);
         Some (n + 4 + 4 * unat npids, b) }
       else Some (n, b));
     m \<leftarrow> finish m b n p ip;
     Some [Tx port queue m (accepts nic m), FreeMbuf (mid m)] }"

definition send_pid_a :: "nid \<Rightarrow> nic \<Rightarrow> u32 list \<Rightarrow> u32 \<Rightarrow> u16 \<Rightarrow> u8 \<Rightarrow> u8 \<Rightarrow> u32 \<Rightarrow> u32 \<Rightarrow>
    nic_event list option" where
  "send_pid_a = send_pids 1"

definition send_pid_b :: "nid \<Rightarrow> nic \<Rightarrow> u32 list \<Rightarrow> u32 \<Rightarrow> u16 \<Rightarrow> u8 \<Rightarrow> u8 \<Rightarrow> u32 \<Rightarrow> u32 \<Rightarrow>
    nic_event list option" where
  "send_pid_b = send_pids 2"

definition send_ack ::
  "nid \<Rightarrow> nic \<Rightarrow> u8 \<Rightarrow> u8 \<Rightarrow> u32 \<Rightarrow> u32 \<Rightarrow> nic_event list option" where
  "send_ack host nic port queue p ip = do {
     m \<leftarrow> alloc nic;
     (n, b) \<leftarrow> pkt_colorctl_setup host (mdata m) 3 0;
     m \<leftarrow> finish m b n p ip;
     Some [Tx port queue m (accepts nic m), FreeMbuf (mid m)] }"

text \<open>\<open>struct announce_item\<close> and the announcement, whose control header is set in part only: the
  rest of its bytes is the argument \<open>junk\<close>.\<close>

record announce_item =
  pid_original :: u32
  pid_current :: u32
  ip_inside :: u32
  ip_outside :: u32
  time_to_live :: u32

definition announce_bytes :: "announce_item \<Rightarrow> bytes" where
  "announce_bytes a = le_bytes 4 (pid_original a) @ le_bytes 4 (pid_current a)
     @ le_bytes 4 (ip_inside a) @ le_bytes 4 (ip_outside a) @ le_bytes 4 (time_to_live a)"

definition send_ip_nid_ip ::
  "nid \<Rightarrow> color_ctl_pub \<Rightarrow> nic \<Rightarrow> u8 \<Rightarrow> u8 \<Rightarrow> announce_item \<Rightarrow> u32 \<Rightarrow> nic_event list option" where
  "send_ip_nid_ip host junk nic port queue a ip = do {
     m \<leftarrow> alloc nic;
     (r1, b) \<leftarrow> pktgen_ctor_ether_header (mdata m);
     (r2, b) \<leftarrow> pktgen_ctor_ip_header b;
     let c = junk\<lparr>ver_type := CONTROL_PACKET, controltype := CONTROL_PACKET_PID_ANNOUNCE,
       item_count := bswap16 1, ctl_EID := nid_bytes host\<rparr>;
     b \<leftarrow> wrn b 34 (ctl_bytes c);
     b \<leftarrow> wrn b 174 (announce_bytes a);
     m \<leftarrow> finish m b (r1 + r2 + 140 + 20) 0 ip;
     Some [Tx port queue m (accepts nic m), FreeMbuf (mid m)] }"

section \<open>Reading a message\<close>

fun words32 :: "nat \<Rightarrow> bytes \<Rightarrow> u32 list" where
  "words32 0 b = []"
| "words32 (Suc n) b = un_le (take 4 b) # words32 n (drop 4 b)"

definition read_time :: "bytes \<Rightarrow> u32 option" where
  "read_time b = map_option bswap32 (rd32 b 174)"

definition read_pids :: "bytes \<Rightarrow> u32 \<Rightarrow> u32 list option" where
  "read_pids b number_pid =
     map_option (\<lambda>bs. map bswap32 (words32 (unat number_pid) bs)) (rdn b 178 (4 * unat number_pid))"

definition read_EID :: "bytes \<Rightarrow> nid option" where
  "read_EID b = map_option Nid (rdn b 50 16)"

definition read_kind :: "bytes \<Rightarrow> u8 option" where
  "read_kind b = map_option (\<lambda>w. w AND OPTION_KIND_MASK) (rd8 b 41)"

section \<open>What is sent is what is read\<close>

lemma words32_pids_bytes: "words32 (length ws) (pids_bytes ws) = ws"
  by (induction ws) (simp_all add: pids_bytes_def)

lemma length_pids_bytes [simp]: "length (pids_bytes ws) = 4 * length ws"
  by (induction ws) (simp_all add: pids_bytes_def)

lemma length_headers [simp]:
  "length ether_header = 14" "length ip_header = 20"
  by (simp_all add: ether_header_def ip_header_def)

definition wf_ctl :: "color_ctl_pub \<Rightarrow> bool" where
  "wf_ctl c \<longleftrightarrow> length (ctl_EID c) = 16 \<and> length (public_key c) = 49 \<and> length (signature c) = 55"

lemma length_ctl_bytes [simp]: "wf_ctl c \<Longrightarrow> length (ctl_bytes c) = 140"
  by (simp add: wf_ctl_def ctl_bytes_def)

lemma ctl_fields:
  assumes "wf_ctl c"
  shows "get8 (ctl_bytes c) 0 = ver_type c" "get8 (ctl_bytes c) 1 = controltype c"
    "get16 (ctl_bytes c) 2 = total_len c" "get8 (ctl_bytes c) 7 = opt c"
    "get16 (ctl_bytes c) 12 = item_count c" "slice (ctl_bytes c) 16 16 = ctl_EID c"
  using assms by (simp_all add: wf_ctl_def ctl_bytes_def within_simps)

text \<open>\<open>finish\<close> for a frame of \<open>n\<close> bytes.\<close>

lemma finish_eq:
  assumes "46 \<le> n" and "n + 4 \<le> length b" and "n < 65536"
  shows "finish m b n p ip = Some (m\<lparr>mdata :=
      put (put (put (put b 36 (le_bytes 2 (word_of_nat n - 34 :: u16))) 30 (le_bytes 4 ip))
        n (le_bytes 4 p)) 36 (le_bytes 2 (bswap16 (word_of_nat n - 30))),
      pkt_len := word_of_nat (n + 4), data_len := word_of_nat (n + 4)\<rparr>)"
proof -
  have "unat (word_of_nat n :: u16) = n" using assms(3) by (simp add: unat_of_nat)
  moreover from this have "34 + unat (word_of_nat n - 34 :: u16) = n"
    using assms(1) by (simp add: unat_sub word_le_nat_alt)
  ultimately show ?thesis
    using assms by (simp add: finish_def ADD_PID_and_IP_def buf_simps algebra_simps)
qed

lemma setup_eq:
  assumes "174 \<le> length b" and "pid_ctl host kind (ucast item) = Some c" and "wf_ctl c"
  shows "pkt_colorctl_setup host b kind item =
    Some (174, put (put (put b 0 ether_header) 14 ip_header) 34 (ctl_bytes c))"
  using assms by (simp add: pkt_colorctl_setup_def pktgen_ctor_ether_header_def
      pktgen_ctor_ip_header_def pktgen_ctor_colorctl_pub_def buf_simps)

lemma pid_ctl_fields:
  assumes "pid_ctl host kind item = Some c" and "wf_nid host"
  shows "wf_ctl c" "ver_type c = CONTROL_PACKET" "controltype c = CONTROL_PACKET_PID"
    "opt c = kind_option kind" "ctl_EID c = nid_bytes host"
  using assms by (auto simp: pid_ctl_def wf_ctl_def wf_nid_def split: if_splits)

lemma send_pids_content:
  assumes "alloc nic = Some m" and "kind \<in> {1, 2}" and "wf_nid host" and "length pids \<le> 255"
    and "182 + 4 * length pids \<le> length (mdata m)"
  shows "\<exists>m'. send_pids kind host nic pids timer (word_of_nat (length pids)) port queue p ip =
      Some [Tx port queue m' (accepts nic m'), FreeMbuf (mid m')]
    \<and> mid m' = mid m \<and> data_len m' = word_of_nat (182 + 4 * length pids)
    \<and> rd8 (mdata m') 34 = Some CONTROL_PACKET \<and> rd8 (mdata m') 35 = Some CONTROL_PACKET_PID
    \<and> read_kind (mdata m') = Some (if kind = 1 then 0x10 else 0x20)
    \<and> read_EID (mdata m') = Some host
    \<and> read_time (mdata m') = Some (bswap32 timer)
    \<and> read_pids (mdata m') (word_of_nat (length pids)) = Some (map bswap32 pids)
    \<and> rd32 (mdata m') 30 = Some ip
    \<and> rd32 (mdata m') (178 + 4 * length pids) = Some p
    \<and> length (mdata m') = length (mdata m)
    \<and> rd16 (mdata m') 36 = Some (bswap16 (word_of_nat (178 + 4 * length pids) - 30))"
proof -
  let ?n = "length pids"
  have n16: "unat (word_of_nat ?n :: u16) = ?n" and n32: "unat (word_of_nat ?n :: u32) = ?n"
    using assms(4) by (simp_all add: unat_of_nat)
  obtain c where c: "pid_ctl host kind (ucast (ucast (word_of_nat ?n :: u16) :: u8)) = Some c"
    using assms(2) by (auto simp: pid_ctl_def)
  note f = pid_ctl_fields [OF c assms(3)]
  have kind: "kind_option kind AND OPTION_KIND_MASK = (if kind = 1 then 0x10 else 0x20)"
    using assms(2) by (auto simp: kind_option_def OPTION_FLAG_def OPTION_KIND_MASK_def)
  have fin: "finish m b (178 + 4 * ?n) p ip = Some (m\<lparr>mdata :=
      put (put (put (put b 36 (le_bytes 2 (word_of_nat (178 + 4 * ?n) - 34 :: u16)))
        30 (le_bytes 4 ip)) (178 + 4 * ?n) (le_bytes 4 p))
        36 (le_bytes 2 (bswap16 (word_of_nat (178 + 4 * ?n) - 30))),
      pkt_len := word_of_nat (178 + 4 * ?n + 4), data_len := word_of_nat (178 + 4 * ?n + 4)\<rparr>)"
    if "length b = length (mdata m)" for b
    using assms(4,5) that by (intro finish_eq) simp_all
  show ?thesis
    using assms(1,4,5) n16 n32 kind f c
    by (simp add: send_pids_def setup_eq [OF _ c f(1)] buf_simps within_simps fin Let_def
        read_kind_def read_EID_def read_time_def read_pids_def ctl_fields [simplified]
        words32_pids_bytes
        nid.expand)
qed

lemma send_ack_content:
  assumes "alloc nic = Some m" and "wf_nid host" and "178 \<le> length (mdata m)"
  shows "\<exists>m'. send_ack host nic port queue p ip =
      Some [Tx port queue m' (accepts nic m'), FreeMbuf (mid m')]
    \<and> rd8 (mdata m') 34 = Some CONTROL_PACKET \<and> rd8 (mdata m') 35 = Some CONTROL_PACKET_PID
    \<and> read_kind (mdata m') = Some 0x30 \<and> read_EID (mdata m') = Some host"
proof -
  obtain c where c: "pid_ctl host 3 (ucast (0 :: u8)) = Some c"
    by (auto simp: pid_ctl_def)
  note f = pid_ctl_fields [OF c assms(2)]
  have kind: "kind_option 3 AND OPTION_KIND_MASK = 0x30"
    by (simp add: kind_option_def OPTION_FLAG_def OPTION_KIND_MASK_def)
  show ?thesis
    using assms(1,3) kind f c
    by (simp add: send_ack_def setup_eq [OF _ c f(1)] buf_simps within_simps finish_eq Let_def
        read_kind_def read_EID_def ctl_fields [simplified] nid.expand)
qed

text \<open>C28: What a resource manager sends in the negotiation is what its neighbour reads: in a buffer
  with room for it, \<open>send_pid_a\<close> (kind \<open>0x10\<close>) and \<open>send_pid_b\<close> (kind \<open>0x20\<close>) build one frame of
  the right length from which the receiver's own code reads back the sender's identifier, the kind,
  the period and all path identifiers (in host order on both sides), addressed to \<open>ip\<close> and with
  the path's identifier behind the payload.\<close>

theorem pid_message_roundtrip:
  assumes "alloc nic = Some m" and "wf_nid host" and "length pids \<le> 255"
    and "182 + 4 * length pids \<le> length (mdata m)" and "kind \<in> {1, 2}"
  shows "\<exists>m'. (if kind = 1 then send_pid_a else send_pid_b) host nic (map bswap32 pids)
        (bswap32 time) (word_of_nat (length pids)) port queue p ip =
      Some [Tx port queue m' (accepts nic m'), FreeMbuf (mid m')]
    \<and> data_len m' = word_of_nat (182 + 4 * length pids)
    \<and> rd8 (mdata m') 34 = Some CONTROL_PACKET \<and> rd8 (mdata m') 35 = Some CONTROL_PACKET_PID
    \<and> read_kind (mdata m') = Some (if kind = (1 :: u8) then 0x10 else 0x20)
    \<and> read_EID (mdata m') = Some host \<and> read_time (mdata m') = Some time
    \<and> read_pids (mdata m') (word_of_nat (length pids)) = Some pids
    \<and> rd32 (mdata m') 30 = Some ip \<and> rd32 (mdata m') (178 + 4 * length pids) = Some p"
proof -
  have "(if kind = 1 then send_pid_a else send_pid_b) = send_pids kind"
    using assms(5) by (auto simp: send_pid_a_def send_pid_b_def)
  then show ?thesis
    using send_pids_content [OF assms(1,5,2), of "map bswap32 pids" "bswap32 time" port queue p ip]
      assms(3,4) by (auto simp: comp_def)
qed

definition sample_nic :: nic where
  "sample_nic = \<lparr>alloc = Some \<lparr>mid = 4, mdata = replicate 256 0, data_len = 0, pkt_len = 0,
     rx_ipv4 = True\<rparr>, accepts = \<lambda>_. True\<rparr>"

theorem pid_message_roundtrip_witness:
  "\<exists>m'. send_pid_a host_nid sample_nic (map bswap32 [7, 8]) (bswap32 30)
        (word_of_nat (length [7, 8 :: u32])) 0 0 1 2 = Some [Tx 0 0 m' True, FreeMbuf (mid m')]
     \<and> read_pids (mdata m') (word_of_nat (length [7, 8 :: u32])) = Some [7, 8]"
proof -
  have "wf_nid host_nid" by (simp add: wf_nid_def host_nid_def)
  with pid_message_roundtrip [of sample_nic _ host_nid "[7, 8]" 1 30 0 0 1 2]
  show ?thesis by (force simp: sample_nic_def)
qed

text \<open>Buffers given away: taken by the driver, or freed. A buffer must not be used after that.\<close>

fun buffers_ok :: "nic_event list \<Rightarrow> nat list \<Rightarrow> bool" where
  "buffers_ok [] gone = True"
| "buffers_ok (Tx port queue m ok # es) gone =
     (mid m \<notin> set gone \<and> buffers_ok es (if ok then mid m # gone else gone))"
| "buffers_ok (FreeMbuf i # es) gone = (i \<notin> set gone \<and> buffers_ok es (i # gone))"

fun taken :: "nic_event \<Rightarrow> bool" where
  "taken (Tx port queue m ok) = ok"
| "taken (FreeMbuf i) = False"

text \<open>The senders mishandle their buffers. \<open>send_pid_a\<close>, \<open>send_pid_b\<close>, \<open>send_ack\<close> and
  \<open>send_ip_nid_ip\<close> free the buffer also after the driver has taken it, so they are right only when
  the transmission fails; \<open>send_pid_change_request\<close> and \<open>send_link_traffic_proportion\<close> free a
  taken buffer once and a refused one twice, so they are never right.\<close>

theorem senders_misuse_buffers:
  "(send_pid_a host nic pids timer n port queue p ip = Some es \<longrightarrow>
      (buffers_ok es [] \<longleftrightarrow> \<not> (\<exists>e \<in> set es. taken e)))
    \<and> (send_pid_b host nic pids timer n port queue p ip = Some es \<longrightarrow>
      (buffers_ok es [] \<longleftrightarrow> \<not> (\<exists>e \<in> set es. taken e)))
    \<and> (send_ack host nic port queue p ip = Some es \<longrightarrow>
      (buffers_ok es [] \<longleftrightarrow> \<not> (\<exists>e \<in> set es. taken e)))
    \<and> (send_ip_nid_ip host junk nic port queue a ip = Some es \<longrightarrow>
      (buffers_ok es [] \<longleftrightarrow> \<not> (\<exists>e \<in> set es. taken e)))
    \<and> (send_pid_change_request host nic port queue p ip = Some es \<longrightarrow> \<not> buffers_ok es [])
    \<and> (send_link_traffic_proportion junk_len junk0 nic port queue p ip = Some es \<longrightarrow>
        \<not> buffers_ok es [])"
  by (auto simp: send_pid_a_def send_pid_b_def send_pids_def send_ack_def send_ip_nid_ip_def
      send_pid_change_request_def send_link_traffic_proportion_def Let_def elim!: ub_elims
      split: if_splits)

theorem senders_misuse_buffers_witness:
  "\<exists>es. send_pid_a host_nid sample_nic [7] 30 1 0 0 1 2 = Some es \<and> \<not> buffers_ok es []"
proof -
  have "wf_nid host_nid" by (simp add: wf_nid_def host_nid_def)
  with send_pids_content [of sample_nic _ 1 host_nid "[7]" 30 0 0 1 2] obtain m' where
    "send_pid_a host_nid sample_nic [7] 30 1 0 0 1 2 = Some [Tx 0 0 m' True, FreeMbuf (mid m')]"
    by (auto simp: sample_nic_def send_pid_a_def)
  with senders_misuse_buffers [of host_nid sample_nic "[7]" 30 1 0 0 1 2
      "[Tx 0 0 m' True, FreeMbuf (mid m')]"] show ?thesis by force
qed

end
