(* ===== verification/Negotiation.thy ===== *)
theory Negotiation
  imports Control_Msg Pid_Chain
begin

text \<open>
  The negotiation of path identifiers between resource managers: the handlers of the four
  control messages in \<open>main_loop\<close> of \<open>RM/main.c\<close>, the announcement of new identifiers to the
  border routers, and their effect on the neighbour chain and the path table.

  The proposal a manager has made is kept between two messages in \<open>time_huancun_pid_a\<close> and
  \<open>pid_huancun_pid_a\<close>, variables of a block that is entered anew for every packet. They are the
  \<open>stash\<close>: its rows are \<open>None\<close> where the language gives them no value. \<open>rand()\<close> and the packet
  buffers are arguments.
\<close>

section \<open>State\<close>

record stash =
  time_huancun_pid_a :: "u32 option"
  pid_huancun_pid_a :: "nat \<Rightarrow> u32 list option"

definition no_stash :: stash where
  "no_stash = \<lparr>time_huancun_pid_a = None, pid_huancun_pid_a = \<lambda>_. None\<rparr>"

record rm_state =
  path_tab :: "path_entry list"
  head_wxb :: "pid_info list"

text \<open>What a handler is given besides the packet: this host, the buffers and the driver for the
  packets it sends (one after the other), the port and queue of the packet, and the random
  value.\<close>

record env =
  host :: nid
  nics :: "nat \<Rightarrow> nic"
  in_port :: u8
  in_queue :: u8
  rand_value :: nat
  stack_ctl :: color_ctl_pub
  stack_pid :: u32

section \<open>Announcements\<close>

definition pid_change_period :: u32 where "pid_change_period = 1"

definition announcement :: "u32 \<Rightarrow> path_entry \<Rightarrow> announce_item" where
  "announcement junk e = \<lparr>pid_original = junk, pid_current = bswap32 (path_pid e),
     ip_inside = bswap32 (ip1 e), ip_outside = bswap32 (ip2 e),
     time_to_live = bswap32 (pid_change_period * 2)\<rparr>"

text \<open>The search of \<open>announce_ip_nid_ip\<close>: entries that lead to the neighbour are matched against
  the neighbour's identifiers in order; each match is announced on every path of this host. As in
  \<open>update_paths\<close>, the 8-bit number of rows is exact for the table of the program, which has fewer than 256.\<close>

fun announce_loop :: "u32 \<Rightarrow> nid \<Rightarrow> nid \<Rightarrow> u32 list \<Rightarrow> nat \<Rightarrow> path_entry list \<Rightarrow> nat \<Rightarrow>
    path_entry list \<Rightarrow> (announce_item \<times> u32) list option" where
  "announce_loop junk h n pids np tab counter [] = Some []"
| "announce_loop junk h n pids np tab counter (e # rest) =
     (if to_neighbour h n e then do {
        guard (counter < length pids);
        if pids ! counter = path_pid e then do {
          let sends = map (\<lambda>e'. (announcement junk e, bswap32 (ip1 e')))
            (filter (\<lambda>e'. compare_nid (eid1 e') h = 0) tab);
          more \<leftarrow> (if counter + 1 \<ge> np then Some []
            else announce_loop junk h n pids np tab (counter + 1) rest);
          Some (sends @ more) }
        else announce_loop junk h n pids np tab counter rest }
      else announce_loop junk h n pids np tab counter rest)"

fun send_announcements ::
  "env \<Rightarrow> nat \<Rightarrow> (announce_item \<times> u32) list \<Rightarrow> nic_event list option" where
  "send_announcements v i [] = Some []"
| "send_announcements v i ((a, ip) # rest) = do {
     es \<leftarrow> send_ip_nid_ip (host v) (stack_ctl v) (nics v i) 0 0 a ip;
     fs \<leftarrow> send_announcements v (Suc i) rest;
     Some (es @ fs) }"

definition announce_ip_nid_ip :: "env \<Rightarrow> path_entry list \<Rightarrow> pid_info \<Rightarrow> nic_event list option" where
  "announce_ip_nid_ip v tab AS = do {
     sends \<leftarrow> announce_loop (stack_pid v) (host v) (EID AS) (pid AS) (unat (number_pid AS)) tab 0 tab;
     send_announcements v 1 sends }"

section \<open>The handlers\<close>

text \<open>The identifiers of a neighbour, as the loops up to \<open>number_pid\<close> read them.\<close>

definition pids_of :: "pid_info \<Rightarrow> u32 list option" where
  "pids_of AS = do {
     guard (unat (number_pid AS) \<le> length (pid AS));
     Some (take (unat (number_pid AS)) (pid AS)) }"

definition reply_path :: "env \<Rightarrow> rm_state \<Rightarrow> pid_info \<Rightarrow> (u32 \<times> u32) option" where
  "reply_path v st AS = do {
     pid_path \<leftarrow> find_ip_or_pid (host v) (path_tab st) (EID AS) 1;
     ip_path \<leftarrow> find_ip_or_pid (host v) (path_tab st) (EID AS) 0;
     Some (pid_path, ip_path) }"

text \<open>\<open>pid_change_request\<close>: propose the old identifiers shifted by a random number.\<close>

definition handle_change_request ::
  "env \<Rightarrow> bytes \<Rightarrow> rm_state \<Rightarrow> nic_event list option" where
  "handle_change_request v b st = do {
     e \<leftarrow> read_EID b;
     case search (head_wxb st) e of
       None \<Rightarrow> Some []
     | Some k \<Rightarrow> do {
         let AS = head_wxb st ! k;
         let number = word_of_nat (rand_value v mod 101);
         pid_huancun \<leftarrow> pids_of AS;
         let pid_new = map (\<lambda>p. (p + number) mod 100) pid_huancun;
         let time_new = (pid_change_time AS + number) mod 100;
         (pid_path, ip_path) \<leftarrow> reply_path v st AS;
         send_pid_a (host v) (nics v 0) (map bswap32 pid_new) (bswap32 time_new)
           (ucast (number_pid AS)) (in_port v) (in_queue v) pid_path ip_path } }"

text \<open>The loop of the \<open>pid_a\<close> handler: shift all identifiers until none is in the path table.\<close>

definition clash :: "u32 list \<Rightarrow> u32 list \<Rightarrow> bool" where
  "clash qs pids = list_ex (\<lambda>p. p \<in> set qs) pids"

partial_function (option) avoid :: "u32 list \<Rightarrow> u32 \<Rightarrow> u32 list \<Rightarrow> u32 list option" where
  "avoid qs number pids =
     (if clash qs pids then avoid qs number (map (\<lambda>p. p + number) pids) else Some pids)"

text \<open>\<open>pid_a\<close>: the neighbour's proposal, made free of clashes, is stashed and sent as \<open>pid_b\<close>. The
  length of an array is read from \<open>AS\<close> before \<open>AS\<close> is compared with \<open>NULL\<close>.\<close>

definition handle_pid_a ::
  "env \<Rightarrow> bytes \<Rightarrow> rm_state \<Rightarrow> stash \<Rightarrow> (stash \<times> nic_event list) option" where
  "handle_pid_a v b st sh = do {
     e \<leftarrow> read_EID b;
     k \<leftarrow> search (head_wxb st) e;
     let AS = head_wxb st ! k;
     let number = word_of_nat (rand_value v mod 101 + 1);
     time \<leftarrow> read_time b;
     guard (unat (ID AS) < 10);
     pids \<leftarrow> read_pids b (number_pid AS);
     pids \<leftarrow> avoid (map path_pid (path_tab st)) number pids;
     (pid_path, ip_path) \<leftarrow> reply_path v st AS;
     es \<leftarrow> send_pid_b (host v) (nics v 0) (map bswap32 pids) (bswap32 time)
       (ucast (number_pid AS)) (in_port v) (in_queue v) pid_path ip_path;
     Some (\<lparr>time_huancun_pid_a = Some time,
        pid_huancun_pid_a = (pid_huancun_pid_a sh)(unat (ID AS) := Some pids)\<rparr>, es) }"

text \<open>Both sides store an agreed proposal the same way.\<close>

definition adopt :: "env \<Rightarrow> nat \<Rightarrow> u32 \<Rightarrow> u32 list \<Rightarrow> rm_state \<Rightarrow> (rm_state \<times> nic_event list) option"
where
  "adopt v k time pids st = do {
     let AS = (head_wxb st ! k)\<lparr>pid_change_time := time, pid := pids\<rparr>;
     tab \<leftarrow> update_paths (host v) (EID AS) (pid AS) 0 (path_tab st);
     es \<leftarrow> announce_ip_nid_ip v tab AS;
     Some (\<lparr>path_tab = tab, head_wxb = (head_wxb st)[k := AS]\<rparr>, es) }"

definition handle_pid_b :: "env \<Rightarrow> bytes \<Rightarrow> rm_state \<Rightarrow> (rm_state \<times> nic_event list) option" where
  "handle_pid_b v b st = do {
     e \<leftarrow> read_EID b;
     case search (head_wxb st) e of
       None \<Rightarrow> Some (st, [])
     | Some k \<Rightarrow> do {
         let AS = head_wxb st ! k;
         let number = word_of_nat (rand_value v mod 101 + 1);
         time \<leftarrow> read_time b;
         PID_tiqu \<leftarrow> read_pids b (number_pid AS);
         guard (\<forall>n \<in> set (head_wxb st). pids_of n \<noteq> None);
         let ACK_YES = (\<forall>n \<in> set (head_wxb st). \<not> clash (the (pids_of n)) PID_tiqu);
         (pid_path, ip_path) \<leftarrow> reply_path v st AS;
         if ACK_YES then do {
           es \<leftarrow> send_ack (host v) (nics v 0) (in_port v) (in_queue v) pid_path ip_path;
           (st, fs) \<leftarrow> adopt v k time PID_tiqu st;
           Some (st, es @ fs) }
         else do {
           let pid_new = map (\<lambda>p. (p + number) mod 100) PID_tiqu;
           let time_new = (time + number) mod 100;
           es \<leftarrow> send_pid_a (host v) (nics v 0) (map bswap32 pid_new) (bswap32 time_new)
             (ucast (number_pid AS)) (in_port v) (in_queue v) pid_path ip_path;
           Some (st, es) } } }"

text \<open>The acknowledgement: store the stashed proposal. \<open>AS->item.ID\<close> is read before \<open>AS\<close> is
  compared with \<open>NULL\<close>, and \<open>fclose\<close> is called whether \<open>fopen\<close> succeeded (\<open>opened\<close>) or
  not.\<close>

definition handle_ack ::
  "env \<Rightarrow> bool \<Rightarrow> bytes \<Rightarrow> rm_state \<Rightarrow> stash \<Rightarrow> (rm_state \<times> nic_event list) option" where
  "handle_ack v opened b st sh = do {
     e \<leftarrow> read_EID b;
     k \<leftarrow> search (head_wxb st) e;
     let AS = head_wxb st ! k;
     time \<leftarrow> time_huancun_pid_a sh;
     row \<leftarrow> pid_huancun_pid_a sh (unat (ID AS));
     guard (unat (number_pid AS) \<le> length row);
     (st, es) \<leftarrow> adopt v k time (take (unat (number_pid AS)) row) st;
     guard opened;
     Some (st, es) }"

text \<open>The dispatch on the control type and the kind. The traffic message copies from 140 headers
  (not bytes) behind the header into \<open>traffic_proportion\<close>, a variable that is only printed.\<close>

definition handle_control :: "env \<Rightarrow> bool \<Rightarrow> bytes \<Rightarrow> rm_state \<Rightarrow> stash \<Rightarrow>
    (rm_state \<times> stash \<times> nic_event list) option" where
  "handle_control v opened b st sh = do {
     ct \<leftarrow> rd8 b 35;
     if ct = CONTROL_PACKET_PID then do {
       kind \<leftarrow> read_kind b;
       if kind = 0x00 then do { es \<leftarrow> handle_change_request v b st; Some (st, sh, es) }
       else if kind = 0x10 then do { (sh, es) \<leftarrow> handle_pid_a v b st sh; Some (st, sh, es) }
       else if kind = 0x20 then do { (st, es) \<leftarrow> handle_pid_b v b st; Some (st, sh, es) }
       else do { (st, es) \<leftarrow> handle_ack v opened b st sh; Some (st, sh, es) } }
     else if ct = 0x23 then do { x \<leftarrow> rdn b (34 + 140 * 140) 4; Some (st, sh, []) }
     else Some (st, sh, []) }"

section \<open>The search for free identifiers\<close>

lemma clash_iff: "clash qs pids \<longleftrightarrow> (\<exists>p \<in> set pids. p \<in> set qs)"
  by (auto simp: clash_def list_ex_iff)

definition shifted :: "u32 \<Rightarrow> u32 list \<Rightarrow> nat \<Rightarrow> u32 list" where
  "shifted number pids k = map (\<lambda>p. p + word_of_nat k * number) pids"

lemma shifted_0 [simp]: "shifted number pids 0 = pids"
  by (simp add: shifted_def)

lemma shifted_shift: "shifted number (map (\<lambda>p. p + number) pids) k = shifted number pids (Suc k)"
  by (simp add: shifted_def algebra_simps)

lemma avoid_first:
  "(\<forall>j < k. clash qs (shifted number pids j)) \<Longrightarrow> \<not> clash qs (shifted number pids k) \<Longrightarrow>
   avoid qs number pids = Some (shifted number pids k)"
proof (induction k arbitrary: pids)
  case 0
  then show ?case by (simp add: avoid.simps)
next
  case (Suc k)
  have "clash qs pids" using Suc.prems(1) by force
  moreover have "avoid qs number (map (\<lambda>p. p + number) pids)
      = Some (shifted number (map (\<lambda>p. p + number) pids) k)"
    by (rule Suc.IH) (use Suc.prems in \<open>auto simp: shifted_shift\<close>)
  ultimately show ?case by (subst avoid.simps) (simp add: shifted_shift)
qed

text \<open>Each pair of a proposed and a used identifier can clash for one number of shifts only, as
  long as the shifts do not wrap around.\<close>

lemma shift_inject:
  assumes "i * unat number < 2 ^ 32" and "j * unat number < 2 ^ 32" and "0 < unat number"
    and "p + word_of_nat i * number = p + word_of_nat j * (number :: u32)"
  shows "i = j"
proof -
  have "word_of_nat k * number = word_of_nat (k * unat number)" for k
    by simp
  moreover have "word_of_nat i * number = word_of_nat j * number"
    using assms(4) by (rule add_left_imp_eq)
  ultimately have "(word_of_nat (i * unat number) :: u32) = word_of_nat (j * unat number)"
    by metis
  moreover have "unat (word_of_nat m :: u32) = m" if "m < 2 ^ 32" for m
    using that by (simp add: unat_of_nat)
  ultimately have "i * unat number = j * unat number"
    using assms(1,2) by metis
  with assms(3) show ?thesis by simp
qed

lemma free_shift_exists:
  assumes "0 < unat number" and "(length pids * length qs + 1) * unat number < 2 ^ 32"
  shows "\<exists>k \<le> length pids * length qs. \<not> clash qs (shifted number pids k)"
proof (rule ccontr)
  let ?N = "length pids * length qs"
  assume none: "\<not> ?thesis"
  have "\<exists>x \<in> {..<length pids} \<times> {..<length qs}. pids ! fst x + word_of_nat k * number = qs ! snd x"
    if "k \<le> ?N" for k
  proof -
    from none that have "clash qs (shifted number pids k)" by blast
    then obtain i j where "i < length pids" "j < length qs" "pids ! i + word_of_nat k * number = qs ! j"
      by (auto simp: clash_iff shifted_def in_set_conv_nth)
    then show ?thesis by (intro bexI [of _ "(i, j)"]) simp_all
  qed
  then obtain f where f: "\<And>k. k \<le> ?N \<Longrightarrow> f k \<in> {..<length pids} \<times> {..<length qs}"
    "\<And>k. k \<le> ?N \<Longrightarrow> pids ! fst (f k) + word_of_nat k * number = qs ! snd (f k)"
    by metis
  have small: "k * unat number < 2 ^ 32" if "k \<le> ?N" for k
    using that assms(2) by (meson le_less_trans mult_le_mono1 le_add1 order_trans)
  have "inj_on f {..?N}"
  proof (rule inj_onI)
    fix i j
    assume ij: "i \<in> {..?N}" "j \<in> {..?N}" "f i = f j"
    with f(2) [of i] f(2) [of j] show "i = j"
      using shift_inject [OF small [of i] small [of j] assms(1), of "pids ! fst (f i)"] by simp
  qed
  then have "card {..?N} \<le> card ({..<length pids} \<times> {..<length qs})"
    by (rule card_inj_on_le) (use f(1) in \<open>blast, simp\<close>)
  then show False by (simp add: card_cartesian_product)
qed

lemma avoid_total:
  assumes "0 < unat number" and "(length pids * length qs + 1) * unat number < 2 ^ 32"
  shows "\<exists>k \<le> length pids * length qs. avoid qs number pids = Some (shifted number pids k)
    \<and> \<not> clash qs (shifted number pids k) \<and> (\<forall>j < k. clash qs (shifted number pids j))"
proof -
  let ?P = "\<lambda>k. \<not> clash qs (shifted number pids k)"
  from free_shift_exists [OF assms] obtain k where k: "?P k" "k \<le> length pids * length qs" by blast
  then have "(LEAST k. ?P k) \<le> length pids * length qs"
    by (meson Least_le le_trans)
  moreover have "?P (LEAST k. ?P k)" using k(1) by (rule LeastI)
  moreover have "\<forall>j < (LEAST k. ?P k). clash qs (shifted number pids j)"
    using not_less_Least by blast
  ultimately show ?thesis using avoid_first by blast
qed

lemma avoid_result:
  assumes "avoid qs number pids = Some r"
  shows "\<not> clash qs r" and "length r = length pids"
proof -
  have "\<not> clash qs r \<and> length r = length pids"
    by (rule avoid.raw_induct [where P = "\<lambda>qs number pids r. \<not> clash qs r \<and> length r = length pids",
          OF _ assms]) (auto split: if_splits)
  then show "\<not> clash qs r" and "length r = length pids" by auto
qed

text \<open>C27: The \<open>pid_a\<close> handler's search for free identifiers always ends. With at most 20
  identifiers, at most 255 paths in the table and the random step between 1 and 101 it makes at
  most 5100 shifts, and it stops at the first shift for which no proposed identifier is in use on
  any path of the table.\<close>

theorem avoid_terminates:
  assumes "length pids \<le> MAX_PID_NUMBER" and "length tab \<le> 255"
  shows "\<exists>k \<le> 5100. avoid (map path_pid tab) (word_of_nat (rnd mod 101 + 1)) pids =
      Some (shifted (word_of_nat (rnd mod 101 + 1)) pids k)
    \<and> (\<forall>e \<in> set tab. path_pid e \<notin> set (shifted (word_of_nat (rnd mod 101 + 1)) pids k))
    \<and> (\<forall>j < k. \<exists>e \<in> set tab. path_pid e \<in> set (shifted (word_of_nat (rnd mod 101 + 1)) pids j))"
proof -
  let ?n = "word_of_nat (rnd mod 101 + 1) :: u32"
  have of_nat: "unat (word_of_nat m :: u32) = m" if "m < 2 ^ 32" for m
    using that by (simp add: unat_of_nat)
  have r: "rnd mod 101 < 101" by simp
  then have "unat ?n = rnd mod 101 + 1" by (intro of_nat) simp
  with r have n: "0 < unat ?n" "unat ?n \<le> 101" by linarith+
  have "length pids * length tab \<le> 20 * 255"
    using assms by (intro mult_le_mono) (simp_all add: MAX_PID_NUMBER_def)
  then have bound: "length pids * length (map path_pid tab) \<le> 5100" by simp
  then have "(length pids * length (map path_pid tab) + 1) * unat ?n \<le> 5101 * 101"
    using n(2) by (intro mult_le_mono) simp_all
  then have "(length pids * length (map path_pid tab) + 1) * unat ?n < 2 ^ 32"
    by simp
  from avoid_total [OF n(1) this] obtain k where k: "k \<le> length pids * length (map path_pid tab)"
    "avoid (map path_pid tab) ?n pids = Some (shifted ?n pids k)"
    "\<not> clash (map path_pid tab) (shifted ?n pids k)"
    "\<forall>j < k. clash (map path_pid tab) (shifted ?n pids j)" by blast
  show ?thesis
    using k bound by (intro exI [of _ k]) (fastforce simp: clash_iff)
qed

theorem avoid_terminates_witness:
  "\<exists>k \<le> 5100. avoid (map path_pid nid_ip_nid_ip_nid_array) (word_of_nat (7 mod 101 + 1)) [3] =
      Some (shifted (word_of_nat (7 mod 101 + 1)) [3] k)"
  using avoid_terminates [of "[3]" nid_ip_nid_ip_nid_array 7]
  by (simp add: MAX_PID_NUMBER_def nid_ip_nid_ip_nid_array_def) blast?

section \<open>Table and chain agree\<close>

text \<open>The chain holds, for each neighbour, exactly the identifiers of the paths to it.\<close>

definition coherent :: "nid \<Rightarrow> rm_state \<Rightarrow> bool" where
  "coherent h st \<longleftrightarrow> distinct (map EID (head_wxb st))
     \<and> (\<forall>n \<in> set (head_wxb st). wf_node n \<and> pid n = paths_to h (EID n) (path_tab st))"

lemma coherent_node:
  assumes "coherent h st" and "n \<in> set (head_wxb st)"
  shows "wf_node n" and "pid n = paths_to h (EID n) (path_tab st)"
  using assms unfolding coherent_def by blast+

lemma wf_node_pids: "wf_node n \<Longrightarrow> pids_of n = Some (pid n)"
  by (simp add: wf_node_def pids_of_def)

lemma coherent_pids: "coherent h st \<Longrightarrow> n \<in> set (head_wxb st) \<Longrightarrow> pids_of n = Some (pid n)"
  by (rule wf_node_pids) (rule coherent_node)

lemma coherentD:
  assumes "coherent h st" and "k < length (head_wxb st)"
  shows "pid (head_wxb st ! k) = paths_to h (EID (head_wxb st ! k)) (path_tab st)"
    and "unat (number_pid (head_wxb st ! k)) = length (pid (head_wxb st ! k))"
    and "length (pid (head_wxb st ! k)) \<le> MAX_PID_NUMBER"
proof -
  have "head_wxb st ! k \<in> set (head_wxb st)" using assms(2) by simp
  note n = coherent_node [OF assms(1) this]
  show "pid (head_wxb st ! k) = paths_to h (EID (head_wxb st ! k)) (path_tab st)" by (rule n(2))
  show "unat (number_pid (head_wxb st ! k)) = length (pid (head_wxb st ! k))"
    and "length (pid (head_wxb st ! k)) \<le> MAX_PID_NUMBER"
    using n(1) unfolding wf_node_def by simp_all
qed

lemma coherentI:
  assumes "distinct (map EID (head_wxb st))"
    and "\<And>k. k < length (head_wxb st) \<Longrightarrow> wf_node (head_wxb st ! k)
      \<and> pid (head_wxb st ! k) = paths_to h (EID (head_wxb st ! k)) (path_tab st)"
  shows "coherent h st"
  unfolding coherent_def using assms by (metis in_set_conv_nth)

text \<open>What no handler changes: the nodes but for their identifiers and periods, the paths but for
  their identifiers.\<close>

definition skeleton :: "rm_state \<Rightarrow> pid_info list \<times> path_entry list" where
  "skeleton st = (map (\<lambda>n. n\<lparr>pid_change_time := 0, pid := []\<rparr>) (head_wxb st),
     map (\<lambda>e. e\<lparr>path_pid := 0\<rparr>) (path_tab st))"

lemma adoptD:
  assumes "adopt v k time pids st = Some (st', es)"
  obtains tab where
    "update_paths (host v) (EID (head_wxb st ! k)) pids 0 (path_tab st) = Some tab"
    "st' = \<lparr>path_tab = tab, head_wxb = (head_wxb st)[k :=
       (head_wxb st ! k)\<lparr>pid_change_time := time, pid := pids\<rparr>]\<rparr>"
  using assms by (auto simp: adopt_def Let_def elim!: ub_elims)

lemma adopt_skeleton:
  assumes "adopt v k time pids st = Some (st', es)"
  shows "skeleton st' = skeleton st"
proof -
  from adoptD [OF assms] obtain tab where
    upd: "update_paths (host v) (EID (head_wxb st ! k)) pids 0 (path_tab st) = Some tab" and
    st': "st' = \<lparr>path_tab = tab, head_wxb = (head_wxb st)[k :=
       (head_wxb st ! k)\<lparr>pid_change_time := time, pid := pids\<rparr>]\<rparr>" .
  show ?thesis
    unfolding skeleton_def st' using update_paths_links [OF upd]
    by (cases "k < length (head_wxb st)") (simp_all add: map_update list_update_same_conv list_update_beyond)
qed

lemma adopt_node:
  assumes "adopt v k time pids st = Some (st', es)"
  shows "head_wxb st' = (head_wxb st)[k := (head_wxb st ! k)\<lparr>pid_change_time := time, pid := pids\<rparr>]"
  by (rule adoptD [OF assms]) simp

lemma adopt_coherent:
  assumes coh: "coherent (host v) st" and k: "k < length (head_wxb st)"
    and ad: "adopt v k time pids st = Some (st', es)"
    and len: "length pids = length (pid (head_wxb st ! k))"
  shows "coherent (host v) st'"
    and "paths_to (host v) (EID (head_wxb st ! k)) (path_tab st') = pids"
proof -
  let ?AS = "(head_wxb st ! k)\<lparr>pid_change_time := time, pid := pids\<rparr>"
  let ?e = "EID (head_wxb st ! k)"
  from adoptD [OF ad] obtain tab where
    upd: "update_paths (host v) ?e pids 0 (path_tab st) = Some tab" and
    st': "st' = \<lparr>path_tab = tab, head_wxb = (head_wxb st)[k := ?AS]\<rparr>" .
  have "length (paths_to (host v) ?e (path_tab st)) = length pids"
    by (simp only: coherentD(1) [OF coh k, symmetric] len)
  with update_paths_own [OF upd] have own: "paths_to (host v) ?e tab = pids"
    by simp
  then show "paths_to (host v) ?e (path_tab st') = pids" by (simp add: st')
  have dist: "distinct (map EID (head_wxb st))"
    using coh unfolding coherent_def by blast
  show "coherent (host v) st'"
  proof (rule coherentI)
    have "map EID (head_wxb st') = map EID (head_wxb st)"
      using k by (simp add: st' map_update list_update_same_conv)
    with dist show "distinct (map EID (head_wxb st'))" by simp
    fix i
    assume "i < length (head_wxb st')"
    then have i: "i < length (head_wxb st)" by (simp add: st')
    show "wf_node (head_wxb st' ! i)
      \<and> pid (head_wxb st' ! i) = paths_to (host v) (EID (head_wxb st' ! i)) (path_tab st')"
    proof (cases "i = k")
      case True
      with coherentD(2,3) [OF coh k] k len own show ?thesis
        by (simp add: st' wf_node_def)
    next
      case False
      have "EID (head_wxb st ! i) \<noteq> ?e"
        using nth_eq_iff_index_eq [OF dist, of i k] i k False by simp
      from update_paths_other [OF upd this]
        coherent_node [OF coh nth_mem [OF i]] False
      show ?thesis by (simp add: st')
    qed
  qed
qed

lemma length_words32 [simp]: "length (words32 n b) = n"
  by (induction n arbitrary: b) simp_all

lemma read_pids_length: "read_pids b n = Some ws \<Longrightarrow> length ws = unat n"
  by (auto simp: read_pids_def)

lemma handle_pid_b_cases:
  assumes "handle_pid_b v b st = Some (st', es)"
  obtains (same) "st' = st"
  | (adopted) k time pids fs where "k < length (head_wxb st)"
      "read_pids b (number_pid (head_wxb st ! k)) = Some pids"
      "adopt v k time pids st = Some (st', fs)"
proof -
  from assms obtain e where e: "read_EID b = Some e"
    by (auto simp: handle_pid_b_def elim!: ub_elims)
  show thesis
  proof (cases "search (head_wxb st) e")
    case None
    with assms e same show thesis by (simp add: handle_pid_b_def)
  next
    case (Some k)
    note k = search_Some(1) [OF Some]
    from assms e Some show thesis
      by (auto simp: handle_pid_b_def Let_def elim!: ub_elims split: if_splits
          intro: same adopted [OF k])
  qed
qed

lemma handle_ack_cases:
  assumes "handle_ack v opened b st sh = Some (st', es)"
  obtains e k time row where "read_EID b = Some e" "search (head_wxb st) e = Some k"
    "time_huancun_pid_a sh = Some time" "pid_huancun_pid_a sh (unat (ID (head_wxb st ! k))) = Some row"
    "unat (number_pid (head_wxb st ! k)) \<le> length row"
    "adopt v k time (take (unat (number_pid (head_wxb st ! k))) row) st = Some (st', es)"
  using assms by (auto simp: handle_ack_def Let_def elim!: ub_elims)

lemma handle_pid_b_keeps:
  assumes "coherent (host v) st" and "handle_pid_b v b st = Some (st', es)"
  shows "coherent (host v) st' \<and> skeleton st' = skeleton st"
  using assms(2)
proof (cases rule: handle_pid_b_cases)
  case same
  with assms(1) show ?thesis by simp
next
  case (adopted k time pids fs)
  have "length pids = length (pid (head_wxb st ! k))"
    using read_pids_length [OF adopted(2)] coherentD(2) [OF assms(1) adopted(1)] by simp
  with adopt_coherent(1) [OF assms(1) adopted(1,3)] adopt_skeleton [OF adopted(3)]
  show ?thesis by simp
qed

lemma handle_ack_keeps:
  assumes "coherent (host v) st" and "handle_ack v opened b st sh = Some (st', es)"
  shows "coherent (host v) st' \<and> skeleton st' = skeleton st"
proof -
  obtain e k time row where "read_EID b = Some e" and k: "search (head_wxb st) e = Some k"
    and "time_huancun_pid_a sh = Some time"
    and "pid_huancun_pid_a sh (unat (ID (head_wxb st ! k))) = Some row"
    and row: "unat (number_pid (head_wxb st ! k)) \<le> length row"
    and ad: "adopt v k time (take (unat (number_pid (head_wxb st ! k))) row) st = Some (st', es)"
    by (rule handle_ack_cases [OF assms(2)])
  note kl = search_Some(1) [OF k]
  have "length (take (unat (number_pid (head_wxb st ! k))) row) = length (pid (head_wxb st ! k))"
    using row by (simp add: coherentD(2) [OF assms(1) kl])
  from adopt_coherent(1) [OF assms(1) kl ad this] adopt_skeleton [OF ad]
  show ?thesis by blast
qed

lemma handle_control_cases:
  assumes "handle_control v opened b st sh = Some (st', sh', es)"
  obtains (same) "st' = st"
  | (pid_b) "handle_pid_b v b st = Some (st', es)"
  | (ack) "handle_ack v opened b st sh = Some (st', es)"
  using assms by (auto simp: handle_control_def elim!: ub_elims split: if_splits)

lemma handle_control_keeps:
  assumes "coherent (host v) st" and "handle_control v opened b st sh = Some (st', sh', es)"
  shows "coherent (host v) st' \<and> skeleton st' = skeleton st"
  using assms(2)
proof (cases rule: handle_control_cases)
  case same
  with assms(1) show ?thesis by simp
qed (use assms(1) handle_pid_b_keeps handle_ack_keeps in blast)+

text \<open>The states of a manager: the start-up fills the chain, then control messages of any content
  arrive in any order. A step may start from any stash, so that both a kept and a lost stash are
  covered.\<close>

inductive managed :: "nid \<Rightarrow> path_entry list \<Rightarrow> rm_state \<Rightarrow> bool" for h tab where
  start: "read_configuration_init_pid_change_wxb h tab [] 0 = Some (ch, n) \<Longrightarrow>
    managed h tab \<lparr>path_tab = tab, head_wxb = ch\<rparr>"
| message: "managed h tab st \<Longrightarrow> host v = h \<Longrightarrow>
    handle_control v opened b st sh = Some (st', sh', es) \<Longrightarrow> managed h tab st'"

lemma chain_spec_coherent:
  assumes "paths_fit h tab"
  shows "coherent h \<lparr>path_tab = tab, head_wxb = chain_spec h tab\<rparr>"
proof (rule coherentI)
  show "distinct (map EID (head_wxb \<lparr>path_tab = tab, head_wxb = chain_spec h tab\<rparr>))"
    by (simp add: EID_chain_spec)
  fix k
  assume "k < length (head_wxb \<lparr>path_tab = tab, head_wxb = chain_spec h tab\<rparr>)"
  then have "chain_spec h tab ! k = node_spec h tab k (first_uses (neighbours h tab) ! k)"
    by (simp add: length_chain_spec chain_spec_nth)
  with paths_fitD [OF assms, of "first_uses (neighbours h tab) ! k"]
  show "wf_node (head_wxb \<lparr>path_tab = tab, head_wxb = chain_spec h tab\<rparr> ! k) \<and>
      pid (head_wxb \<lparr>path_tab = tab, head_wxb = chain_spec h tab\<rparr> ! k) =
      paths_to h (EID (head_wxb \<lparr>path_tab = tab, head_wxb = chain_spec h tab\<rparr> ! k))
        (path_tab \<lparr>path_tab = tab, head_wxb = chain_spec h tab\<rparr>)"
    by (simp add: node_spec_def wf_node_def MAX_PID_NUMBER_def unat_of_nat)
qed

lemma read_configuration_Some:
  assumes "read_configuration_init_pid_change_wxb h tab [] 0 = Some (ch, n)"
  shows "paths_fit h tab" and "ch = chain_spec h tab"
  using assms read_configuration_chain [of h tab] by (auto split: if_splits)

text \<open>C1: Whatever control messages arrive, in any order, the neighbour chain and the path table of a
  resource manager agree: the nodes have distinct identifiers, and each holds exactly the path
  identifiers that the table has for the paths to this neighbour. Nothing but these identifiers and
  the periods ever changes.\<close>

theorem negotiation_coherent:
  assumes "managed h tab st"
  shows "coherent h st
    \<and> skeleton st = skeleton \<lparr>path_tab = tab, head_wxb = chain_spec h tab\<rparr>"
  using assms
proof induction
  case (start ch n)
  with read_configuration_Some [OF start] show ?case
    by (simp add: chain_spec_coherent)
next
  case (message st v opened b sh st' sh' es)
  with handle_control_keeps [of v st] show ?case by metis
qed

theorem negotiation_coherent_witness:
  "coherent host_nid \<lparr>path_tab = nid_ip_nid_ip_nid_array,
     head_wxb = chain_spec host_nid nid_ip_nid_ip_nid_array\<rparr>"
proof -
  have "paths_fit host_nid nid_ip_nid_ip_nid_array" by code_simp
  then have "read_configuration_init_pid_change_wxb host_nid nid_ip_nid_ip_nid_array [] 0 =
      Some (chain_spec host_nid nid_ip_nid_ip_nid_array,
        int (length (chain_spec host_nid nid_ip_nid_ip_nid_array)))"
    by (simp add: read_configuration_chain)
  from negotiation_coherent [OF managed.start [OF this]] show ?thesis by blast
qed

section \<open>Announcements after an agreement\<close>

lemma announce_loop_eq:
  "drop c pids = paths_to h n rest \<Longrightarrow> c + length (paths_to h n rest) = length pids \<Longrightarrow>
   announce_loop junk h n pids (length pids) tab c rest = Some (concat (map
     (\<lambda>e. map (\<lambda>e'. (announcement junk e, bswap32 (ip1 e')))
       (filter (\<lambda>e'. compare_nid (eid1 e') h = 0) tab)) (filter (to_neighbour h n) rest)))"
proof (induction rest arbitrary: c)
  case Nil
  then show ?case by simp
next
  case (Cons e rest)
  show ?case
  proof (cases "to_neighbour h n e")
    case False
    with Cons show ?thesis by simp
  next
    case True
    with Cons.prems(2) have c: "c < length pids" by simp
    with Cons.prems(1) True have hd: "pids ! c = path_pid e"
      and tl: "drop (Suc c) pids = paths_to h n rest"
      by (simp_all add: Cons_nth_drop_Suc [OF c, symmetric])
    have none: "filter (to_neighbour h n) rest = []" if "length pids \<le> Suc c"
      using tl that by (simp add: paths_to_def)
    show ?thesis
      using True c hd tl none Cons.prems(2) Cons.IH [of "Suc c"]
      by (cases "length pids \<le> Suc c") simp_all
  qed
qed

text \<open>Once the chain and the table agree, the search of \<open>announce_ip_nid_ip\<close> is defined and
  misses nothing: it announces each path to the neighbour, with its current identifier and
  addresses, exactly once to the first address of every path of this host, in table order.\<close>

theorem announcements_complete:
  assumes "coherent h st" and "AS \<in> set (head_wxb st)"
  shows "announce_loop junk h (EID AS) (pid AS) (unat (number_pid AS)) (path_tab st) 0 (path_tab st)
    = Some (concat (map (\<lambda>e. map (\<lambda>e'. (announcement junk e, bswap32 (ip1 e')))
        (filter (\<lambda>e'. eid1 e' = h) (path_tab st)))
        (filter (\<lambda>e. eid1 e = h \<and> eid2 e = EID AS) (path_tab st))))"
proof -
  have pid: "pid AS = paths_to h (EID AS) (path_tab st)"
    by (rule coherent_node(2) [OF assms])
  have num: "unat (number_pid AS) = length (pid AS)"
    using coherent_node(1) [OF assms] unfolding wf_node_def by simp
  have own: "compare_nid a b = 0 \<longleftrightarrow> a = b" for a b
    by simp
  show ?thesis
    unfolding num using announce_loop_eq [of 0 "pid AS" h "EID AS" "path_tab st"]
    by (simp only: drop_0 pid [symmetric] own to_neighbour_iff [abs_def])
qed

theorem announcements_complete_witness:
  "announce_loop 0 host_nid (eid2 (nid_ip_nid_ip_nid_array ! 0))
     (paths_to host_nid (eid2 (nid_ip_nid_ip_nid_array ! 0)) nid_ip_nid_ip_nid_array)
     1 nid_ip_nid_ip_nid_array 0 nid_ip_nid_ip_nid_array \<noteq> None"
proof -
  let ?st = "\<lparr>path_tab = nid_ip_nid_ip_nid_array,
    head_wxb = chain_spec host_nid nid_ip_nid_ip_nid_array\<rparr>"
  have "paths_fit host_nid nid_ip_nid_ip_nid_array" by code_simp
  note coh = chain_spec_coherent [OF this]
  have "chain_spec host_nid nid_ip_nid_ip_nid_array ! 0 \<in> set (head_wxb ?st)" by code_simp
  note announcements_complete [OF coh this, of 0]
  moreover have "EID (chain_spec host_nid nid_ip_nid_ip_nid_array ! 0)
      = eid2 (nid_ip_nid_ip_nid_array ! 0)
    \<and> unat (number_pid (chain_spec host_nid nid_ip_nid_ip_nid_array ! 0)) = 1
    \<and> pid (chain_spec host_nid nid_ip_nid_ip_nid_array ! 0)
      = paths_to host_nid (eid2 (nid_ip_nid_ip_nid_array ! 0)) nid_ip_nid_ip_nid_array"
    by code_simp
  ultimately show ?thesis by simp
qed

section \<open>Messages that fault\<close>

text \<open>Messages on which the manager has no defined behaviour. A \<open>pid_a\<close> or an acknowledgement
  from a domain that is not in the chain dereferences \<open>NULL\<close>, although both handlers test for it
  afterwards. An acknowledgement is undefined from every sender unless the variables of the block
  happen to keep the proposal stashed for an earlier packet. The traffic message (control type
  \<open>0x23\<close>) reads 19600 bytes behind the control header, beyond any buffer shorter than that.\<close>

theorem control_messages_fault:
  assumes "rd8 b 35 = Some ct"
  shows "(ct = CONTROL_PACKET_PID \<and> read_kind b \<in> {Some 0x10, Some 0x30} \<and> read_EID b = Some e
        \<and> e \<notin> EID ` set (head_wxb st) \<longrightarrow> handle_control v opened b st sh = None)
    \<and> (ct = CONTROL_PACKET_PID \<and> read_kind b = Some 0x30
        \<longrightarrow> handle_control v opened b st no_stash = None)
    \<and> (ct = 0x23 \<and> length b < 34 + 140 * 140 + 4 \<longrightarrow> handle_control v opened b st sh = None)"
proof -
  have "search (head_wxb st) e = None" if "e \<notin> EID ` set (head_wxb st)"
    using that by (auto simp: search_None)
  then have "handle_pid_a v b st sh = None \<and> handle_ack v opened b st sh = None"
    if "e \<notin> EID ` set (head_wxb st)" "read_EID b = Some e"
    using that by (simp add: handle_pid_a_def handle_ack_def)
  moreover have "handle_ack v opened b st no_stash = None"
    by (auto simp: handle_ack_def no_stash_def Let_def bind_eq_None_conv)
  ultimately show ?thesis
    using assms by (auto simp: handle_control_def rdn_def CONTROL_PACKET_PID_def)
qed

theorem control_messages_fault_witness:
  "\<forall>v opened st sh. handle_control v opened (replicate 35 0 @ [0x23] @ replicate 300 0) st sh = None"
proof (intro allI)
  fix v opened st sh
  have "rd8 (replicate 35 0 @ [0x23] @ replicate 300 0) 35 = Some 0x23"
    by (simp add: rd8_def nth_append)
  from control_messages_fault [OF this, of undefined st v opened sh]
  show "handle_control v opened (replicate 35 0 @ [0x23] @ replicate 300 0) st sh = None"
    by simp
qed

section \<open>Two managers agree\<close>

lemma handle_pid_a_effect:
  assumes "handle_pid_a v b st sh = Some (sh', es)" and "coherent (host v) st"
    and "wf_nid (host v)" and "read_EID b = Some e" and "search (head_wxb st) e = Some k"
    and "\<And>m. alloc (nics v 0) = Some m \<Longrightarrow> 300 \<le> length (mdata m)"
  obtains time pids m where
    "time_huancun_pid_a sh' = Some time"
    "pid_huancun_pid_a sh' (unat (ID (head_wxb st ! k))) = Some pids"
    "length pids = unat (number_pid (head_wxb st ! k))"
    "es = [Tx (in_port v) (in_queue v) m (accepts (nics v 0) m), FreeMbuf (mid m)]"
    "rd8 (mdata m) 35 = Some CONTROL_PACKET_PID" "read_kind (mdata m) = Some 0x20"
    "read_EID (mdata m) = Some (host v)" "read_time (mdata m) = Some time"
    "read_pids (mdata m) (number_pid (head_wxb st ! k)) = Some pids"
    "\<not> clash (map path_pid (path_tab st)) pids"
proof -
  let ?AS = "head_wxb st ! k"
  note node = coherentD(2,3) [OF assms(2) search_Some(1) [OF assms(5)]]
  from assms(1,4,5) obtain time ps pids p ip where
    len: "length ps = unat (number_pid ?AS)" and
    av: "avoid (map path_pid (path_tab st)) (word_of_nat (rand_value v mod 101 + 1)) ps = Some pids" and
    send: "send_pid_b (host v) (nics v 0) (map bswap32 pids) (bswap32 time)
       (ucast (number_pid ?AS)) (in_port v) (in_queue v) p ip = Some es" and
    sh': "sh' = \<lparr>time_huancun_pid_a = Some time,
        pid_huancun_pid_a = (pid_huancun_pid_a sh)(unat (ID ?AS) := Some pids)\<rparr>"
    by (auto simp: handle_pid_a_def Let_def elim!: ub_elims dest: read_pids_length)
  note pids = avoid_result [OF av]
  from send obtain m0 where m0: "alloc (nics v 0) = Some m0"
    by (auto simp: send_pid_b_def send_pids_def elim!: ub_elims)
  have n: "length pids = unat (number_pid ?AS)" "length pids \<le> 20"
    using pids(2) len node by (simp_all add: MAX_PID_NUMBER_def)
  have u16: "ucast (number_pid ?AS) = (word_of_nat (length pids) :: u16)"
    and u32: "number_pid ?AS = word_of_nat (length pids)"
    by (simp_all add: n(1))
  have "182 + 4 * length (map bswap32 pids) \<le> length (mdata m0)"
    using assms(6) [OF m0] n(2) by simp
  from send_pids_content [OF m0 _ assms(3) _ this, of 2 "bswap32 time" "in_port v" "in_queue v" p ip]
    n(2) send
  obtain m where
    "es = [Tx (in_port v) (in_queue v) m (accepts (nics v 0) m), FreeMbuf (mid m)]"
    "rd8 (mdata m) 35 = Some CONTROL_PACKET_PID" "read_kind (mdata m) = Some 0x20"
    "read_EID (mdata m) = Some (host v)" "read_time (mdata m) = Some time"
    "read_pids (mdata m) (number_pid ?AS) = Some pids"
    by (auto simp: send_pid_b_def u16 u32 [symmetric] comp_def simp del: of_nat_unat)
  then show thesis
    by (rule that [rotated 3]) (use sh' n(1) pids(1) in simp_all)
qed

lemma send_pid_a_kind:
  assumes "send_pid_a h nic (map bswap32 pids) time (ucast (n :: u32)) port queue p ip = Some es"
    and "length pids = unat n" and "length pids \<le> 20" and "wf_nid h"
    and "\<And>m. alloc nic = Some m \<Longrightarrow> 300 \<le> length (mdata m)"
  shows "\<exists>m ok f. es = [Tx port queue m ok, f] \<and> read_kind (mdata m) = Some 0x10"
proof -
  from assms(1) obtain m0 where m0: "alloc nic = Some m0"
    by (auto simp: send_pid_a_def send_pids_def elim!: ub_elims)
  have u16: "ucast n = (word_of_nat (length pids) :: u16)"
    by (simp add: assms(2))
  have "182 + 4 * length (map bswap32 pids) \<le> length (mdata m0)"
    using assms(5) [OF m0] assms(3) by simp
  from send_pids_content [OF m0 _ assms(4) _ this, of 1 time port queue p ip] assms(1,3)
  show ?thesis
    by (auto simp: send_pid_a_def u16)
qed

lemma handle_pid_b_effect:
  assumes "handle_pid_b v b st = Some (st', Tx p q m ok # es)" and "coherent (host v) st"
    and "wf_nid (host v)" and "read_EID b = Some e" and "search (head_wxb st) e = Some k"
    and room: "\<And>m. alloc (nics v 0) = Some m \<Longrightarrow> 300 \<le> length (mdata m)"
    and "read_kind (mdata m) = Some 0x30" and "read_time b = Some time"
    and "read_pids b (number_pid (head_wxb st ! k)) = Some pids"
  obtains fs where "adopt v k time pids st = Some (st', fs)"
    "rd8 (mdata m) 35 = Some CONTROL_PACKET_PID" "read_EID (mdata m) = Some (host v)"
    "\<And>n. n \<in> set (head_wxb st) \<Longrightarrow> \<not> clash (pid n) pids"
proof -
  let ?AS = "head_wxb st ! k"
  let ?yes = "\<forall>n \<in> set (head_wxb st). \<not> clash (the (pids_of n)) pids"
  note node = coherentD(2,3) [OF assms(2) search_Some(1) [OF assms(5)]]
  have n: "length pids = unat (number_pid ?AS)" "length pids \<le> 20"
    using read_pids_length [OF assms(9)] node by (simp_all add: MAX_PID_NUMBER_def)
  have yes: ?yes
  proof (rule ccontr)
    assume no: "\<not> ?yes"
    obtain ps ip where "send_pid_a (host v) (nics v 0)
      (map bswap32 (map (\<lambda>p. (p + word_of_nat (rand_value v mod 101 + 1)) mod 100) pids))
      (bswap32 ((time + word_of_nat (rand_value v mod 101 + 1)) mod 100))
      (ucast (number_pid ?AS)) (in_port v) (in_queue v) ps ip = Some (Tx p q m ok # es)"
      using assms(1,4,5,8,9) no
      by (auto simp: handle_pid_b_def Let_def simp del: map_map elim!: ub_elims split: if_splits)
    from send_pid_a_kind [OF this _ _ assms(3) room] n have "read_kind (mdata m) = Some 0x10"
      by auto
    with assms(7) show False by simp
  qed
  obtain ps ip es1 fs where
    ack: "send_ack (host v) (nics v 0) (in_port v) (in_queue v) ps ip = Some es1" and
    ad: "adopt v k time pids st = Some (st', fs)" and es: "Tx p q m ok # es = es1 @ fs"
    using assms(1,4,5,8,9) yes
    by (auto simp: handle_pid_b_def Let_def simp del: map_map elim!: ub_elims split: if_splits)
  from ack obtain m0 where m0: "alloc (nics v 0) = Some m0"
    by (auto simp: send_ack_def elim!: ub_elims)
  then have "178 \<le> length (mdata m0)" using room [OF m0] by simp
  from send_ack_content [OF m0 assms(3) this, of "in_port v" "in_queue v" ps ip] ack es
  have "rd8 (mdata m) 35 = Some CONTROL_PACKET_PID" "read_EID (mdata m) = Some (host v)" by auto
  moreover have "\<not> clash (pid n) pids" if "n \<in> set (head_wxb st)" for n
    using yes that coherent_pids [OF assms(2) that] by force
  ultimately show thesis using that ad by blast
qed

text \<open>C2: Two resource managers that complete the exchange agree. Manager \<open>A\<close> answers a proposal
  with \<open>pid_b\<close>; its neighbour \<open>B\<close>, given exactly the frame \<open>A\<close> sent, answers with an
  acknowledgement; \<open>A\<close>, given exactly that frame and its kept stash, accepts it. Then both nodes
  hold the same identifiers and the same period, neither side had any of the identifiers in use
  before, and the chain and the table of both still agree. The managers need to count the same number
  of paths between them and packet buffers of 300 bytes.\<close>

theorem negotiation_agrees:
  assumes A: "handle_pid_a vA b stA sh = Some (sh', Tx pA qA mA okA # esA)"
    and B: "handle_control vB oB (mdata mA) stB shB = Some (stB', shB', Tx pB qB mB okB # esB)"
    and A': "handle_control vA oA (mdata mB) stA sh' = Some (stA', shA, es)"
    and ack: "read_kind (mdata mB) = Some 0x30"
    and coh: "coherent (host vA) stA" "coherent (host vB) stB"
    and ids: "wf_nid (host vA)" "wf_nid (host vB)" "read_EID b = Some (host vB)"
    and found: "search (head_wxb stA) (host vB) = Some i" "search (head_wxb stB) (host vA) = Some j"
    and num: "number_pid (head_wxb stA ! i) = number_pid (head_wxb stB ! j)"
    and room: "\<And>m. alloc (nics vA 0) = Some m \<Longrightarrow> 300 \<le> length (mdata m)"
      "\<And>m. alloc (nics vB 0) = Some m \<Longrightarrow> 300 \<le> length (mdata m)"
  shows "pid (head_wxb stA' ! i) = pid (head_wxb stB' ! j)
    \<and> pid_change_time (head_wxb stA' ! i) = pid_change_time (head_wxb stB' ! j)
    \<and> (\<forall>p \<in> set (pid (head_wxb stB' ! j)). p \<notin> path_pid ` set (path_tab stA)
        \<and> (\<forall>n \<in> set (head_wxb stB). p \<notin> set (pid n)))
    \<and> coherent (host vA) stA' \<and> coherent (host vB) stB'"
proof -
  obtain time pids m where
    stash: "time_huancun_pid_a sh' = Some time"
      "pid_huancun_pid_a sh' (unat (ID (head_wxb stA ! i))) = Some pids" and
    len: "length pids = unat (number_pid (head_wxb stA ! i))" and
    es: "Tx pA qA mA okA # esA =
      [Tx (in_port vA) (in_queue vA) m (accepts (nics vA 0) m), FreeMbuf (mid m)]" and
    m: "rd8 (mdata m) 35 = Some CONTROL_PACKET_PID" "read_kind (mdata m) = Some 0x20"
      "read_EID (mdata m) = Some (host vA)" "read_time (mdata m) = Some time"
      "read_pids (mdata m) (number_pid (head_wxb stA ! i)) = Some pids" and
    free: "\<not> clash (map path_pid (path_tab stA)) pids"
    by (rule handle_pid_a_effect [OF A coh(1) ids(1,3) found(1) room(1)])
  from es have mA: "mA = m" by simp
  from B m(1,2) mA have B': "handle_pid_b vB (mdata m) stB = Some (stB', Tx pB qB mB okB # esB)"
    by (auto simp: handle_control_def elim!: ub_elims split: if_splits)
  obtain fs where adB: "adopt vB j time pids stB = Some (stB', fs)" and
    mB: "rd8 (mdata mB) 35 = Some CONTROL_PACKET_PID" "read_EID (mdata mB) = Some (host vB)" and
    freeB: "\<And>n. n \<in> set (head_wxb stB) \<Longrightarrow> \<not> clash (pid n) pids"
    using handle_pid_b_effect [OF B' coh(2) ids(2) m(3) found(2) room(2) ack m(4) m(5) [unfolded num]]
    by blast
  from A' mB ack have "handle_ack vA oA (mdata mB) stA sh' = Some (stA', es)"
    by (auto simp: handle_control_def elim!: ub_elims split: if_splits)
  with mB(2) found(1) stash len have adA: "adopt vA i time pids stA = Some (stA', es)"
    by (auto simp: handle_ack_def Let_def elim!: ub_elims)
  note i = search_Some(1) [OF found(1)] and j = search_Some(1) [OF found(2)]
  have "length pids = length (pid (head_wxb stA ! i))"
    using len coherentD(2) [OF coh(1) i] by (rule trans)
  moreover have "length pids = length (pid (head_wxb stB ! j))"
    using len [unfolded num] coherentD(2) [OF coh(2) j] by (rule trans)
  ultimately have "coherent (host vA) stA'" "coherent (host vB) stB'"
    by (auto intro: adopt_coherent(1) [OF coh(1) i adA] adopt_coherent(1) [OF coh(2) j adB])
  moreover have "pid (head_wxb stA' ! i) = pids" "pid (head_wxb stB' ! j) = pids"
    "pid_change_time (head_wxb stA' ! i) = time" "pid_change_time (head_wxb stB' ! j) = time"
    using adopt_node [OF adA] adopt_node [OF adB] i j by simp_all
  ultimately show ?thesis
    using free freeB by (auto simp: clash_iff)
qed

text \<open>The exchange, run on two managers with one path between them.\<close>

declare avoid.simps [code]

definition frame_of :: "nic_event list \<Rightarrow> bytes option" where
  "frame_of es = (case es of Tx p q m ok # _ \<Rightarrow> Some (mdata m) | _ \<Rightarrow> None)"

definition exchange :: "env \<Rightarrow> env \<Rightarrow> bytes \<Rightarrow> rm_state \<Rightarrow> rm_state \<Rightarrow> (rm_state \<times> rm_state) option"
where
  "exchange vA vB b stA stB = do {
     (sh, esA) \<leftarrow> handle_pid_a vA b stA no_stash;
     bA \<leftarrow> frame_of esA;
     (stB', shB, esB) \<leftarrow> handle_control vB True bA stB no_stash;
     bB \<leftarrow> frame_of esB;
     guard (read_kind bB = Some 0x30);
     (stA', shA, es) \<leftarrow> handle_control vA True bB stA sh;
     Some (stA', stB') }"

definition nid_A :: nid where "nid_A = Nid (replicate 15 0 @ [1])"
definition nid_B :: nid where "nid_B = Nid (replicate 15 0 @ [2])"
definition tab_A :: "path_entry list" where
  "tab_A = [\<lparr>eid1 = nid_A, ip1 = 1, path_pid = 5, ip2 = 2, eid2 = nid_B\<rparr>]"
definition tab_B :: "path_entry list" where
  "tab_B = [\<lparr>eid1 = nid_B, ip1 = 2, path_pid = 5, ip2 = 1, eid2 = nid_A\<rparr>]"

definition nic300 :: nic where
  "nic300 = \<lparr>alloc = Some \<lparr>mid = 4, mdata = replicate 300 0, data_len = 0, pkt_len = 0,
     rx_ipv4 = True\<rparr>, accepts = \<lambda>_. True\<rparr>"

definition env_of :: "nid \<Rightarrow> env" where
  "env_of h = \<lparr>host = h, nics = \<lambda>_. nic300, in_port = 0, in_queue = 0, rand_value = 6,
     stack_ctl = \<lparr>ver_type = 0, controltype = 0, total_len = 0, checksum = 0, sign_alg = 0, opt = 0,
       series_number_ack = 0, series_number_send = 0, item_count = 0, MTU = 0,
       ctl_EID = [], public_key_len = 0, resevered = 0, public_key = [], signature = []\<rparr>,
     stack_pid = 0\<rparr>"

definition state_A :: rm_state where "state_A = \<lparr>path_tab = tab_A, head_wxb = chain_spec nid_A tab_A\<rparr>"
definition state_B :: rm_state where "state_B = \<lparr>path_tab = tab_B, head_wxb = chain_spec nid_B tab_B\<rparr>"
definition first_proposal :: bytes where
  "first_proposal = replicate 50 0 @ nid_bytes nid_B @ replicate 108 0 @ [0,0,0,40] @ [0,0,0,5]"

lemma exchange_runs:
  "exchange (env_of nid_A) (env_of nid_B) first_proposal state_A state_B \<noteq> None"
  by code_simp

theorem negotiation_agrees_witness:
  "\<exists>stA' stB'. exchange (env_of nid_A) (env_of nid_B) first_proposal state_A state_B = Some (stA', stB')
    \<and> pid (head_wxb stA' ! 0) = pid (head_wxb stB' ! 0)"
proof -
  obtain stA' stB' where x: "exchange (env_of nid_A) (env_of nid_B) first_proposal state_A state_B =
      Some (stA', stB')"
    using exchange_runs by auto
  then obtain sh' esA mA shB esB mB shA es pA qA okA pB qB okB where
    A: "handle_pid_a (env_of nid_A) first_proposal state_A no_stash =
      Some (sh', Tx pA qA mA okA # esA)" and
    B: "handle_control (env_of nid_B) True (mdata mA) state_B no_stash =
      Some (stB', shB, Tx pB qB mB okB # esB)" and
    ack: "read_kind (mdata mB) = Some 0x30" and
    A': "handle_control (env_of nid_A) True (mdata mB) state_A sh' = Some (stA', shA, es)"
    by (auto simp: exchange_def frame_of_def elim!: ub_elims
        split: list.splits nic_event.splits)
  have "paths_fit nid_A tab_A" "paths_fit nid_B tab_B" by code_simp+
  then have coh: "coherent (host (env_of nid_A)) state_A" "coherent (host (env_of nid_B)) state_B"
    by (simp_all add: env_of_def state_A_def state_B_def chain_spec_coherent)
  have ids: "wf_nid (host (env_of nid_A))" "wf_nid (host (env_of nid_B))"
    "read_EID first_proposal = Some (host (env_of nid_B))" by code_simp+
  have found: "search (head_wxb state_A) (host (env_of nid_B)) = Some 0"
    "search (head_wxb state_B) (host (env_of nid_A)) = Some 0" by code_simp+
  have num: "number_pid (head_wxb state_A ! 0) = number_pid (head_wxb state_B ! 0)" by code_simp
  have room: "300 \<le> length (mdata m)" if "alloc (nics (env_of h) 0) = Some m" for h m
    using that by (auto simp: env_of_def nic300_def)
  from negotiation_agrees [OF A B A' ack coh ids found num room [of nid_A] room [of nid_B]] x
  show ?thesis by blast
qed

end
