(* ===== verification/Wire_Records.thy ===== *)
theory Wire_Records
  imports Prelude
begin

text \<open>
  Messages that carry a sequence of structures of one size, as the requests and answers of a monitoring
  station do: the place of each structure in the buffer, and what a receiver finds there that copies a
  datagram over the old content of its buffer.
\<close>

definition recvfrom :: "bytes \<Rightarrow> bytes \<Rightarrow> bytes" where
  "recvfrom buf datagram = take (length buf) datagram @ drop (length datagram) buf"

lemma length_recvfrom [simp]: "length (recvfrom buf datagram) = length buf"
  by (simp add: recvfrom_def)

lemma slice_recvfrom:
  "p + n \<le> length datagram \<Longrightarrow> p + n \<le> length buf \<Longrightarrow> slice (recvfrom buf datagram) p n = slice datagram p n"
  by (simp add: recvfrom_def slice_def take_drop min_def)

lemma slice_take: "p + n \<le> k \<Longrightarrow> slice (take k xs) p n = slice xs p n"
  by (simp add: slice_def take_drop min_def)

lemma slice_slice: "k + m \<le> n \<Longrightarrow> slice (slice xs p n) k m = slice xs (p + k) m"
  by (simp add: slice_def take_drop drop_drop min_def add.commute)

locale wire_records =
  fixes enc :: "'a \<Rightarrow> bytes" and ok :: "'a \<Rightarrow> bool" and n :: nat
  assumes length_enc: "ok x \<Longrightarrow> length (enc x) = n"
begin

lemma length_all: "\<forall>x \<in> set xs. ok x \<Longrightarrow> length (concat (map enc xs)) = n * length xs"
  by (induction xs) (simp_all add: length_enc)

lemma record_at:
  "\<forall>x \<in> set xs. ok x \<Longrightarrow> j < length xs \<Longrightarrow> slice (concat (map enc xs) @ post) (n * j) n = enc (xs ! j)"
proof (induction xs arbitrary: j)
  case (Cons x xs)
  note len = length_enc [of x]
  show ?case
  proof (cases j)
    case 0
    with Cons.prems len show ?thesis by (simp add: slice_append slice_full)
  next
    case (Suc k)
    with Cons.prems len have "slice (concat (map enc (x # xs)) @ post) (n * j) n
        = slice (concat (map enc xs) @ post) (n * k) n"
      by (simp add: slice_append)
    with Cons Suc show ?thesis by simp
  qed
qed simp

lemma record_after_header:
  "\<forall>x \<in> set xs. ok x \<Longrightarrow> j < length xs \<Longrightarrow> p = length pre + n * j \<Longrightarrow>
    slice (pre @ concat (map enc xs) @ post) p n = enc (xs ! j)"
  using record_at [of xs j post] by (simp add: slice_append)

text \<open>A part of a record.\<close>

lemma field_after_header:
  assumes "\<forall>x \<in> set xs. ok x" and "j < length xs" and "p = length pre + n * j + k" and "k + m \<le> n"
  shows "slice (pre @ concat (map enc xs) @ post) p m = slice (enc (xs ! j)) k m"
  using record_after_header [OF assms(1,2) refl, of pre post] assms(3,4) slice_slice [of k m n]
  by metis

end

end
