(* ===== verification/Border_Router.thy ===== *)
theory Border_Router
  imports Negotiation Wire_Records
begin

text \<open>
  The border router of a domain, the Click element \<open>IPBorderRouter\<close> (\<open>border_router/local/ipborderrouter.cc\<close>, and
  the copy in \<open>IPN/\<close> with other addresses): it sends requests and data along the path identifiers that
  the resource manager appended, and learns the identifiers from the manager's announcements.

  Click's \<open>HashMap\<close> is outside the repository: its operations are an argument, and \<open>hash_map_laws\<close> is what its
  documentation promises (a key that is not there has the default value, 0). A packet is the list of its
  bytes, of which \<open>pull\<close> and \<open>take\<close> remove some at the front and at the end; what \<open>put\<close> adds at
  the end is an argument. A Click string is the list of its bytes. An array without a terminating zero that
  is made a string is read on into the stack: what lies there is the argument \<open>after\<close>, and reading on
  beyond it is undefined, so that the strict meaning of the code is the one for \<open>after = []\<close>.
\<close>

section \<open>Tables\<close>

record ('t, 'k, 'v) hash_map =
  hm_empty :: 't
  hm_insert :: "'t \<Rightarrow> 'k \<Rightarrow> 'v \<Rightarrow> 't"
  hm_find :: "'t \<Rightarrow> 'k \<Rightarrow> 'v"

definition hash_map_laws :: "('t, 'k, 'v::zero) hash_map \<Rightarrow> bool" where
  "hash_map_laws m \<longleftrightarrow> (\<forall>k. hm_find m (hm_empty m) k = 0)
     \<and> (\<forall>t k v k'. hm_find m (hm_insert m t k v) k' = (if k' = k then v else hm_find m t k'))"

record ('a, 'b, 'c) click_maps =
  nics :: "('a, u32, int) hash_map"
  ips :: "('b, int, u32) hash_map"
  names :: "('c, bytes, u32) hash_map"

definition click_laws :: "('a, 'b, 'c) click_maps \<Rightarrow> bool" where
  "click_laws ops \<longleftrightarrow> hash_map_laws (nics ops) \<and> hash_map_laws (ips ops) \<and> hash_map_laws (names ops)"

record ('a, 'b, 'c) border_router =
  ip_nic :: 'a
  s_ip :: 'b
  pid_ip :: 'c
  nid_ip :: 'c
  pid_time :: 'c
  pidpid :: "bytes list"
  pid_c_num :: nat
  pasttime :: u32

definition d3rm :: bytes where
  "d3rm = [0x64, 0x33, 0x72, 0x6d]"

text \<open>The constructors of the two copies; \<open>junk\<close> is the content of the array of identifiers.\<close>

definition IPBorderRouter :: "('a, 'b, 'c) click_maps \<Rightarrow> bytes list \<Rightarrow> ('a, 'b, 'c) border_router" where
  "IPBorderRouter ops junk = \<lparr>
     ip_nic = hm_insert (nics ops) (hm_insert (nics ops) (hm_empty (nics ops)) 0x20b0a0a 1) 0x103a8c0 2,
     s_ip = hm_insert (ips ops) (hm_insert (ips ops) (hm_empty (ips ops)) 1 0x10b0a0a) 2 0x203a8c0,
     pid_ip = hm_insert (names ops) (hm_empty (names ops)) (pid_chars 0x32) 0x20b0a0a,
     nid_ip = hm_insert (names ops) (hm_empty (names ops)) d3rm 0x103a8c0,
     pid_time = hm_empty (names ops), pidpid = junk, pid_c_num = 0, pasttime = 0\<rparr>"

definition IPBorderRouter_IPN :: "('a, 'b, 'c) click_maps \<Rightarrow> bytes list \<Rightarrow> ('a, 'b, 'c) border_router" where
  "IPBorderRouter_IPN ops junk = \<lparr>
     ip_nic = hm_insert (nics ops) (hm_insert (nics ops) (hm_empty (nics ops)) 0x20a0a0a 1) 0x102a8c0 2,
     s_ip = hm_insert (ips ops) (hm_insert (ips ops) (hm_empty (ips ops)) 1 0x10a0a0a) 2 0x202a8c0,
     pid_ip = hm_insert (names ops) (hm_empty (names ops)) (pid_chars 0x31) 0x20a0a0a,
     nid_ip = hm_insert (names ops) (hm_empty (names ops)) d3rm 0x102a8c0,
     pid_time = hm_empty (names ops), pidpid = junk, pid_c_num = 0, pasttime = 0\<rparr>"

section \<open>Sending on\<close>

text \<open>The string that a \<open>char *\<close> makes.\<close>

definition key_of :: "bytes \<Rightarrow> bytes" where
  "key_of bs = takeWhile (\<lambda>b. b \<noteq> 0) bs"

definition c_string :: "bytes \<Rightarrow> bytes option" where
  "c_string bs = (if 0 \<in> set bs then Some (key_of bs) else None)"

text \<open>\<open>struct iphead\<close> with new addresses.\<close>

definition with_addrs :: "bytes \<Rightarrow> u32 \<Rightarrow> u32 \<Rightarrow> bytes" where
  "with_addrs ip s d = put (put ip 12 (le_bytes 4 s)) 16 (le_bytes 4 d)"

text \<open>What every branch ends with: the packet goes to the address \<open>d\<close>, from the address of the interface
  that leads there, through the output of that interface.\<close>

type_synonym ('a, 'b, 'c) pushed = "('a, 'b, 'c) border_router \<times> (int \<times> bytes) option"

definition send_to :: "('a, 'b, 'c) click_maps \<Rightarrow> ('a, 'b, 'c) border_router \<Rightarrow> bytes \<Rightarrow> u32 \<Rightarrow> bytes \<Rightarrow>
    ('a, 'b, 'c) pushed option" where
  "send_to ops r ip d b = do {
     let i = hm_find (nics ops) (ip_nic r) d;
     b \<leftarrow> wrn b 14 (with_addrs ip (hm_find (ips ops) (s_ip r) i) d);
     Some (r, Some (i, b)) }"

definition to_rm :: "('a, 'b, 'c) click_maps \<Rightarrow> ('a, 'b, 'c) border_router \<Rightarrow> bytes \<Rightarrow> bytes \<Rightarrow>
    ('a, 'b, 'c) pushed option" where
  "to_rm ops r ip b = send_to ops r ip (hm_find (names ops) (nid_ip r) d3rm) b"

text \<open>The identifier at the end of the packet, by the length in the CoLoR header: an array of 100 zeros
  receives it, so the string ends.\<close>

definition along_last_pid :: "('a, 'b, 'c) click_maps \<Rightarrow> ('a, 'b, 'c) border_router \<Rightarrow> bytes \<Rightarrow> u16 \<Rightarrow> bytes \<Rightarrow>
    ('a, 'b, 'c) pushed option" where
  "along_last_pid ops r ip n b = do {
     pid \<leftarrow> rdn b (unat (bswap16 n) + 30) 4;
     send_to ops r ip (hm_find (names ops) (pid_ip r) (key_of pid)) b }"

section \<open>Requests\<close>

definition get_from_inside :: "('a, 'b, 'c) click_maps \<Rightarrow> ('a, 'b, 'c) border_router \<Rightarrow> bytes \<Rightarrow> bytes \<Rightarrow>
    ('a, 'b, 'c) pushed option" where
  "get_from_inside ops r ip b = do {
     head \<leftarrow> rdn b 34 80;
     along_last_pid ops r ip (get16 head 2) b }"

section \<open>Data\<close>

text \<open>Data from inside: the last identifier is taken out of the packet and followed.\<close>

definition data_from_inside :: "('a, 'b, 'c) click_maps \<Rightarrow> bytes \<Rightarrow> ('a, 'b, 'c) border_router \<Rightarrow> bytes \<Rightarrow> bytes \<Rightarrow>
    ('a, 'b, 'c) pushed option" where
  "data_from_inside ops after r ip b = do {
     head \<leftarrow> rdn b 34 80;
     let pids = unat (get8 head 10);
     if pids \<noteq> 0 then do {
       let head = put head 10 [word_of_nat (pids - 1)];
       let head = put head 2 (le_bytes 2 (bswap16 (bswap16 (get16 head 2) - 4)));
       newhead \<leftarrow> rdn b 0 (110 + 4 * pids);
       pid \<leftarrow> rdn b (110 + 4 * pids) 4;
       guard (4 \<le> length b);
       let b = drop 4 b;
       b \<leftarrow> wrn b 0 newhead;
       b \<leftarrow> wrn b 34 head;
       k \<leftarrow> c_string (pid @ after);
       send_to ops r ip (hm_find (names ops) (pid_ip r) k) b }
     else Some (r, None) }"

definition data_from_outside :: "('a, 'b, 'c) click_maps \<Rightarrow> bytes \<Rightarrow> ('a, 'b, 'c) border_router \<Rightarrow> bytes \<Rightarrow> bytes \<Rightarrow>
    ('a, 'b, 'c) pushed option" where
  "data_from_outside ops after r ip b = do {
     head \<leftarrow> rdn b 34 80;
     let pids = unat (get8 head 10);
     if pids \<noteq> 0 then do {
       pid \<leftarrow> rdn b (110 + 4 * pids) 4;
       k \<leftarrow> c_string (pid @ after);
       send_to ops r ip (hm_find (names ops) (pid_ip r) k) b }
     else do {
       nid \<leftarrow> rdn b 98 16;
       k \<leftarrow> c_string (nid @ after);
       send_to ops r ip (hm_find (names ops) (nid_ip r) k) b } }"

section \<open>Control packets\<close>

text \<open>An announcement. The condition \<open>items = !0\<close> is an assignment of 1: the item that is read is the first one
  whatever their number. The packet is neither sent on nor freed.\<close>

definition announced :: "('a, 'b, 'c) click_maps \<Rightarrow> int \<Rightarrow> ('a, 'b, 'c) border_router \<Rightarrow> bytes \<Rightarrow>
    ('a, 'b, 'c) pushed option" where
  "announced ops rawtime r b = do {
     let items = (1 :: nat) - 1;
     dpid \<leftarrow> rdn b (174 + items * 20) 20;
     let cur_pid = slice dpid 4 4;
     guard (pid_c_num r < length (pidpid r));
     let k = key_of cur_pid;
     let source_ip = get32 dpid 8;
     let dest_ip = get32 dpid 12;
     Some (r\<lparr>pidpid := (pidpid r)[pid_c_num r := cur_pid],
         pid_c_num := (if pid_c_num r = 99 then 0 else pid_c_num r + 1),
         pid_ip := hm_insert (names ops) (pid_ip r) k
           (if source_ip = hm_find (ips ops) (s_ip r) 1 then dest_ip else source_ip),
         pid_time := hm_insert (names ops) (pid_time r) k (bswap32 (get32 dpid 16) + word_of_int rawtime)\<rparr>, None) }"

text \<open>A control packet from outside loses its last four bytes, the identifier it came with: \<open>take\<close> removes
  eight, \<open>put\<close> adds four, \<open>room\<close>.\<close>

definition control_from_outside :: "('a, 'b, 'c) click_maps \<Rightarrow> bytes \<Rightarrow> ('a, 'b, 'c) border_router \<Rightarrow> bytes \<Rightarrow> bytes \<Rightarrow>
    bytes \<Rightarrow> ('a, 'b, 'c) pushed option" where
  "control_from_outside ops room r ip head b = do {
     guard (8 \<le> length b);
     let b = take (length b - 8) b @ room;
     let head = put head 2 (le_bytes 2 (bswap16 (bswap16 (get16 head 2) - 4)));
     b \<leftarrow> wrn b 34 head;
     to_rm ops r ip b }"

definition control :: "('a, 'b, 'c) click_maps \<Rightarrow> bytes \<Rightarrow> int \<Rightarrow> nat \<Rightarrow> ('a, 'b, 'c) border_router \<Rightarrow> bytes \<Rightarrow> bytes \<Rightarrow>
    ('a, 'b, 'c) pushed option" where
  "control ops room rawtime port r ip b = do {
     head \<leftarrow> rdn b 34 140;
     let controltype = get8 head 1;
     if controltype = 129 then announced ops rawtime r b
     else if (controltype = 16 \<or> controltype = 35) \<and> port = 0 then along_last_pid ops r ip (get16 head 2) b
     else if (controltype = 16 \<or> controltype = 35) \<and> port = 1 then control_from_outside ops room r ip head b
     else Some (r, None) }"

section \<open>A packet\<close>

text \<open>What a call of \<open>push\<close> is given besides the packet.\<close>

record surroundings =
  after :: bytes
  room :: bytes
  rawtime :: int

definition push :: "('a, 'b, 'c) click_maps \<Rightarrow> surroundings \<Rightarrow> nat \<Rightarrow> bytes \<Rightarrow> ('a, 'b, 'c) border_router \<Rightarrow>
    ('a, 'b, 'c) pushed option" where
  "push ops v port b r = do {
     ip \<leftarrow> rdn b 14 20;
     let d_ip = get32 ip 16;
     if d_ip = hm_find (ips ops) (s_ip r) 1 \<or> d_ip = hm_find (ips ops) (s_ip r) 2 then do {
       version \<leftarrow> rdn b 34 4;
       let version_type = get8 version 0;
       if version_type = 160 \<and> port = 0 then get_from_inside ops r ip b
       else if version_type = 160 \<and> port = 1 then to_rm ops r ip b
       else if version_type = 161 \<and> port = 0 then data_from_inside ops (after v) r ip b
       else if version_type = 161 \<and> port = 1 then data_from_outside ops (after v) r ip b
       else if version_type = 163 then control ops (room v) (rawtime v) port r ip b
       else Some (r, None) }
     else do {
       let i = hm_find (nics ops) (ip_nic r) d_ip;
       if 1 \<le> i \<and> i \<le> 4 then Some (r, Some (i, b)) else Some (r, Some (0, b)) } }"

text \<open>The copy of \<open>IPN/\<close> differs in comments and output only.\<close>

definition push_IPN :: "('a, 'b, 'c) click_maps \<Rightarrow> surroundings \<Rightarrow> nat \<Rightarrow> bytes \<Rightarrow> ('a, 'b, 'c) border_router \<Rightarrow>
    ('a, 'b, 'c) pushed option" where
  "push_IPN = push"

section \<open>The packet that is sent on\<close>

lemma nth_put: "p + length xs \<le> length b \<Longrightarrow> i < length b \<Longrightarrow>
    put b p xs ! i = (if p \<le> i \<and> i < p + length xs then xs ! (i - p) else b ! i)"
  by (auto simp: put_def wrn_def nth_append min_def)

definition addressed :: "bytes \<Rightarrow> u32 \<Rightarrow> u32 \<Rightarrow> bytes" where
  "addressed b s d = put (put b 26 (le_bytes 4 s)) 30 (le_bytes 4 d)"

lemma length_addressed [simp]: "length (addressed b s d) = length b"
  by (simp add: addressed_def)

lemma put_with_addrs:
  assumes "34 \<le> length b"
  shows "put b 14 (with_addrs (slice b 14 20) s d) = addressed b s d"
proof (rule nth_equalityI)
  fix i assume i: "i < length (put b 14 (with_addrs (slice b 14 20) s d))"
  have "slice b 14 20 ! (i - 14) = b ! i" if "14 \<le> i" "i < 34"
    using that assms by (simp add: slice_def)
  then show "put b 14 (with_addrs (slice b 14 20) s d) ! i = addressed b s d ! i"
    using i assms by (auto simp: with_addrs_def addressed_def nth_put)
qed simp

lemma addressed_reads [simp]:
  "34 \<le> length b \<Longrightarrow> get32 (addressed b s d) 30 = d"
  "34 \<le> length b \<Longrightarrow> get32 (addressed b s d) 26 = s"
  "q + n \<le> 26 \<or> 34 \<le> q \<Longrightarrow> slice (addressed b s d) q n = slice b q n"
  by (auto simp: addressed_def buf_simps)

lemma addressed_get [simp]:
  "34 \<le> q \<Longrightarrow> get8 (addressed b s d) q = get8 b q"
  "34 \<le> q \<Longrightarrow> get16 (addressed b s d) q = get16 b q"
  by (simp_all add: get8_def get16_def)

text \<open>The interface towards an address, and the packet as it is sent there.\<close>

definition nic_to :: "('a, 'b, 'c) click_maps \<Rightarrow> ('a, 'b, 'c) border_router \<Rightarrow> u32 \<Rightarrow> int" where
  "nic_to ops r d = hm_find (nics ops) (ip_nic r) d"

definition sent_to :: "('a, 'b, 'c) click_maps \<Rightarrow> ('a, 'b, 'c) border_router \<Rightarrow> u32 \<Rightarrow> bytes \<Rightarrow> int \<times> bytes" where
  "sent_to ops r d b = (nic_to ops r d, addressed b (hm_find (ips ops) (s_ip r) (nic_to ops r d)) d)"

definition next_hop :: "('a, 'b, 'c) click_maps \<Rightarrow> ('a, 'b, 'c) border_router \<Rightarrow> bytes \<Rightarrow> u32" where
  "next_hop ops r k = hm_find (names ops) (pid_ip r) k"

definition my_addr :: "('a, 'b, 'c) click_maps \<Rightarrow> ('a, 'b, 'c) border_router \<Rightarrow> u32 \<Rightarrow> bool" where
  "my_addr ops r a \<longleftrightarrow> a = hm_find (ips ops) (s_ip r) 1 \<or> a = hm_find (ips ops) (s_ip r) 2"

lemma send_to_eq:
  "34 \<le> length b \<Longrightarrow> slice b 14 20 = ip \<Longrightarrow> send_to ops r ip d b = Some (r, Some (sent_to ops r d b))"
  using put_with_addrs [of b] by (auto simp: send_to_def sent_to_def nic_to_def buf_simps with_addrs_def Let_def)

lemma get_slice [simp]:
  "k + 1 \<le> n \<Longrightarrow> get8 (slice b p n) k = get8 b (p + k)"
  "k + 2 \<le> n \<Longrightarrow> get16 (slice b p n) k = get16 b (p + k)"
  "k + 4 \<le> n \<Longrightarrow> get32 (slice b p n) k = get32 b (p + k)"
  by (simp_all add: get8_def get16_def get32_def slice_slice)

section \<open>Which branch is taken\<close>

text \<open>The length that the CoLoR header gives, and the identifier at the end.\<close>

definition color_len :: "bytes \<Rightarrow> nat" where
  "color_len b = unat (bswap16 (get16 b 36))"

definition last_pid :: "bytes \<Rightarrow> bytes" where
  "last_pid b = slice b (color_len b + 30) 4"

lemma push_mine:
  assumes "my_addr ops r (get32 b 30)" and "38 \<le> length b"
  shows "push ops v port b r =
    (if get8 b 34 = 160 \<and> port = 0 then get_from_inside ops r (slice b 14 20) b
     else if get8 b 34 = 160 \<and> port = 1 then to_rm ops r (slice b 14 20) b
     else if get8 b 34 = 161 \<and> port = 0 then data_from_inside ops (after v) r (slice b 14 20) b
     else if get8 b 34 = 161 \<and> port = 1 then data_from_outside ops (after v) r (slice b 14 20) b
     else if get8 b 34 = 163 then control ops (room v) (rawtime v) port r (slice b 14 20) b
     else Some (r, None))"
  using assms by (simp add: push_def buf_simps my_addr_def Let_def)

lemma along_last_pid_eq:
  assumes "34 \<le> length b" and "color_len b + 34 \<le> length b"
  shows "along_last_pid ops r (slice b 14 20) (get16 b 36) b
    = Some (r, Some (sent_to ops r (next_hop ops r (key_of (last_pid b))) b))"
  using assms send_to_eq [OF assms(1) refl]
  by (simp add: along_last_pid_def buf_simps color_len_def last_pid_def next_hop_def)

lemma push_request:
  assumes "my_addr ops r (get32 b 30)" and "get8 b 34 = 160" and "114 \<le> length b" and "color_len b + 34 \<le> length b"
  shows "push ops v 0 b r = Some (r, Some (sent_to ops r (next_hop ops r (key_of (last_pid b))) b))"
  using assms along_last_pid_eq [of b] by (simp add: push_mine get_from_inside_def buf_simps)

section \<open>A table that is a function\<close>

definition fun_map :: "('k \<Rightarrow> 'v::zero, 'k, 'v) hash_map" where
  "fun_map = \<lparr>hm_empty = \<lambda>_. 0, hm_insert = \<lambda>t k v. t(k := v), hm_find = \<lambda>t k. t k\<rparr>"

definition fun_maps :: "(u32 \<Rightarrow> int, int \<Rightarrow> u32, bytes \<Rightarrow> u32) click_maps" where
  "fun_maps = \<lparr>nics = fun_map, ips = fun_map, names = fun_map\<rparr>"

lemma fun_maps_laws: "click_laws fun_maps"
  by (simp add: click_laws_def hash_map_laws_def fun_maps_def fun_map_def)

section \<open>A request leaves the domain\<close>

text \<open>What is on the wire of a packet buffer.\<close>

definition frame :: "mbuf \<Rightarrow> bytes" where
  "frame m = take (unat (data_len m)) (mdata m)"

lemma slice_frame:
  "p + n \<le> unat (data_len m) \<Longrightarrow> slice (frame m) p n = slice (mdata m) p n"
  by (simp add: frame_def slice_take)

lemma get_frame:
  "p + 1 \<le> unat (data_len m) \<Longrightarrow> get8 (frame m) p = get8 (mdata m) p"
  "p + 2 \<le> unat (data_len m) \<Longrightarrow> get16 (frame m) p = get16 (mdata m) p"
  "p + 4 \<le> unat (data_len m) \<Longrightarrow> get32 (frame m) p = get32 (mdata m) p"
  by (simp_all add: get8_def get16_def get32_def slice_frame)

lemma length_frame: "unat (data_len m) \<le> length (mdata m) \<Longrightarrow> length (frame m) = unat (data_len m)"
  by (simp add: frame_def)

lemma constructor_tables:
  assumes "click_laws ops"
  shows "hm_find (ips ops) (s_ip (IPBorderRouter ops junk)) i = (if i = 2 then 0x203a8c0 else if i = 1 then 0x10b0a0a else 0)"
    and "nic_to ops (IPBorderRouter ops junk) a = (if a = 0x103a8c0 then 2 else if a = 0x20b0a0a then 1 else 0)"
    and "next_hop ops (IPBorderRouter ops junk) k = (if k = pid_chars 0x32 then 0x20b0a0a else 0)"
    and "hm_find (ips ops) (s_ip (IPBorderRouter_IPN ops junk)) i = (if i = 2 then 0x202a8c0 else if i = 1 then 0x10a0a0a else 0)"
    and "nic_to ops (IPBorderRouter_IPN ops junk) a = (if a = 0x102a8c0 then 2 else if a = 0x20a0a0a then 1 else 0)"
    and "next_hop ops (IPBorderRouter_IPN ops junk) k = (if k = pid_chars 0x31 then 0x20a0a0a else 0)"
  using assms by (simp_all add: click_laws_def hash_map_laws_def IPBorderRouter_def IPBorderRouter_IPN_def nic_to_def next_hop_def)

lemma key_of_id: "0 \<notin> set bs \<Longrightarrow> key_of bs = bs"
  unfolding key_of_def by (subst takeWhile_eq_all_conv) auto

lemma le_bytes_get32: "q + 4 \<le> length b \<Longrightarrow> le_bytes 4 (get32 b q) = slice b q 4"
  using le_bytes_un_le [of "slice b q 4", where 'a = 32] by (simp add: get32_def)

lemma path_address: "bswap32 (IPv4 192 168 2 2) = 0x202a8c0" "bswap32 (IPv4 192 168 3 2) = 0x203a8c0"
  by code_simp+

lemma forwarded_frame:
  assumes "rr_ok s" and "valid_request m" and "get8 (mdata m) 34 = 160" and "110 \<le> unat (data_len m)"
    and "length (mdata m) < 65536"
  shows "\<exists>k m' s'. get_packets_forward mac m s = Some (Transmit (word_of_nat k) m', s') \<and> k \<in> {1, 2, 3}
    \<and> length (frame m') = unat (data_len m) + 4 \<and> get8 (frame m') 34 = 160
    \<and> get32 (frame m') 30 = bswap32 (IPv4 192 168 (word_of_nat (k + 1)) 2)
    \<and> color_len (frame m') + 34 = length (frame m') \<and> last_pid (frame m') = pid_chars (0x30 + word_of_nat k)
    \<and> get8 (frame m') 44 = get8 (mdata m) 44 + 1
    \<and> slice (frame m') 45 (unat (data_len m) - 45) = slice (mdata m) 45 (unat (data_len m) - 45)"
proof -
  let ?L = "unat (data_len m)"
  obtain k m' s' where k: "get_packets_forward mac m s = Some (Transmit (word_of_nat k) m', s')" "k \<in> {1, 2, 3}"
    and m': "data_len m' = data_len m + 4" "length (mdata m') = length (mdata m)" "get32 (mdata m') ?L = pid_word k"
      "get16 (mdata m') 36 = bswap16 (data_len m - 34 + 4)" "get32 (mdata m') 30 = bswap32 (IPv4 192 168 (word_of_nat (k + 1)) 2)"
      "get8 (mdata m') 34 = get8 (mdata m) 34" "get8 (mdata m') 44 = get8 (mdata m) 44 + 1"
      "slice (mdata m') 45 (?L - 45) = slice (mdata m) 45 (?L - 45)"
    using get_packets_forward_fields [OF assms(1,2), of mac] by blast
  have room: "?L + 4 \<le> length (mdata m)" using assms(2) by (simp add: valid_request_def room_for_pid_def)
  then have L: "unat (data_len m') = ?L + 4" using assms(5) m'(1) by (simp add: unat_word_ariths)
  then have len: "length (frame m') = ?L + 4" using room m'(2) by (simp add: length_frame)
  have "unat (data_len m - 30) = ?L - 30" using assms(4) by (simp add: unat_sub word_le_nat_alt)
  moreover have "data_len m - 34 + 4 = data_len m - 30" by simp
  moreover have "get16 (frame m') 36 = get16 (mdata m') 36" using L assms(4) by (intro get_frame) simp
  ultimately have c: "color_len (frame m') = ?L - 30" using m'(4) by (simp only: color_len_def bswap_bswap)
  have "last_pid (frame m') = slice (mdata m') ?L 4"
    using c L assms(4) by (simp add: last_pid_def slice_frame)
  also have "\<dots> = le_bytes 4 (pid_word k)" using le_bytes_get32 [of ?L "mdata m'"] m'(2,3) room by simp
  finally have "last_pid (frame m') = pid_chars (0x30 + word_of_nat k)" by (simp only: le_bytes_pid_word)
  with k c len L m'(5-8) assms(3,4) show ?thesis by (intro exI [of _ k] exI [of _ m'] exI [of _ s']) (simp add: get_frame slice_frame)
qed

text \<open>From the resource manager through the border router. A request that the manager forwards is, when it
  arrives at a router that has its destination as an address, sent on to the router's next hop for the very
  identifier the manager appended, with new addresses and otherwise as it was; with the tables as they are built, a
  request on path 1 leaves the one router for 10.10.10.2 and a request on path 2 the other for 10.10.11.2, both through
  output 1.\<close>

theorem request_crosses_domain:
  assumes "click_laws ops" and "rr_ok s" and "valid_request m" and "get8 (mdata m) 34 = 160" and "110 \<le> unat (data_len m)"
    and "length (mdata m) < 65536"
  shows "\<exists>k m' s'. get_packets_forward mac m s = Some (Transmit (word_of_nat k) m', s') \<and> k \<in> {1, 2, 3}
    \<and> last_pid (frame m') = pid_chars (0x30 + word_of_nat k)
    \<and> (\<forall>r v. my_addr ops r (bswap32 (IPv4 192 168 (word_of_nat (k + 1)) 2)) \<longrightarrow>
         push ops v 0 (frame m') r = Some (r, Some (sent_to ops r (next_hop ops r (pid_chars (0x30 + word_of_nat k))) (frame m'))))
    \<and> (k = 1 \<longrightarrow> push_IPN ops v 0 (frame m') (IPBorderRouter_IPN ops junk)
         = Some (IPBorderRouter_IPN ops junk, Some (1, addressed (frame m') 0x10a0a0a 0x20a0a0a)))
    \<and> (k = 2 \<longrightarrow> push ops v 0 (frame m') (IPBorderRouter ops junk)
         = Some (IPBorderRouter ops junk, Some (1, addressed (frame m') 0x10b0a0a 0x20b0a0a)))"
proof -
  obtain k m' s' where k: "get_packets_forward mac m s = Some (Transmit (word_of_nat k) m', s')" "k \<in> {1, 2, 3}"
    and f: "length (frame m') = unat (data_len m) + 4" "get8 (frame m') 34 = 160"
      "get32 (frame m') 30 = bswap32 (IPv4 192 168 (word_of_nat (k + 1)) 2)"
      "color_len (frame m') + 34 = length (frame m')" "last_pid (frame m') = pid_chars (0x30 + word_of_nat k)"
    using forwarded_frame [OF assms(2-6), of mac] by blast
  have key: "key_of (pid_chars (0x30 + word_of_nat k)) = pid_chars (0x30 + word_of_nat k)"
    using k(2) by (intro key_of_id) (auto simp: pid_chars_def)
  have push: "push ops v 0 (frame m') r = Some (r, Some (sent_to ops r (next_hop ops r (pid_chars (0x30 + word_of_nat k))) (frame m')))"
    if "my_addr ops r (bswap32 (IPv4 192 168 (word_of_nat (k + 1)) 2))" for r v
    using push_request [of ops r "frame m'" v] that f key assms(5) by simp
  note c = constructor_tables [OF assms(1)]
  have "push_IPN ops v 0 (frame m') (IPBorderRouter_IPN ops junk)
      = Some (IPBorderRouter_IPN ops junk, Some (1, addressed (frame m') 0x10a0a0a 0x20a0a0a))" if "k = 1"
    using push [of "IPBorderRouter_IPN ops junk" v] that by (simp add: push_IPN_def my_addr_def c path_address sent_to_def)
  moreover have "push ops v 0 (frame m') (IPBorderRouter ops junk)
      = Some (IPBorderRouter ops junk, Some (1, addressed (frame m') 0x10b0a0a 0x20b0a0a))" if "k = 2"
    using push [of "IPBorderRouter ops junk" v] that by (simp add: my_addr_def c path_address sent_to_def)
  ultimately show ?thesis using k f(5) push by blast
qed

definition sample_get :: mbuf where
  "sample_get = \<lparr>mid = 0, mdata = put (put (put (replicate 200 0) 14 [0x45]) 17 [116]) 34 [160],
     data_len = 130, pkt_len = 130, rx_ipv4 = True\<rparr>"

theorem request_crosses_domain_witness:
  "\<exists>k m' s'. get_packets_forward (\<lambda>_. 9) sample_get rr_init = Some (Transmit (word_of_nat k) m', s') \<and> k \<in> {1, 2, 3}
    \<and> last_pid (frame m') = pid_chars (0x30 + word_of_nat k)
    \<and> (k = 1 \<longrightarrow> push_IPN fun_maps \<lparr>after = [], room = [], rawtime = 0\<rparr> 0 (frame m') (IPBorderRouter_IPN fun_maps [])
         = Some (IPBorderRouter_IPN fun_maps [], Some (1, addressed (frame m') 0x10a0a0a 0x20a0a0a)))"
proof -
  have "valid_request sample_get" unfolding valid_request_def by code_simp
  moreover have "get8 (mdata sample_get) 34 = 160" by code_simp
  moreover have "110 \<le> unat (data_len sample_get)" "length (mdata sample_get) < 65536" by (simp_all add: sample_get_def)
  ultimately show ?thesis using request_crosses_domain [OF fun_maps_laws rr_ok_init, of sample_get "\<lambda>_. 9"] by blast
qed

section \<open>Data\<close>

definition pids_in :: "bytes \<Rightarrow> bytes list" where
  "pids_in b = map (\<lambda>i. slice b (114 + 4 * i) 4) [0..<unat (get8 b 44)]"

text \<open>A data packet without its last identifier.\<close>

definition popped :: "bytes \<Rightarrow> bytes" where
  "popped b = (let c = unat (get8 b 44) in
     put (put (take (110 + 4 * c) b @ drop (114 + 4 * c) b) 44 [word_of_nat (c - 1)])
       36 (le_bytes 2 (bswap16 (bswap16 (get16 b 36) - 4))))"

lemma popped_eq:
  assumes "c = unat (get8 b 44)" and "1 \<le> c" and "114 + 4 * c \<le> length b"
  shows "put (put (drop 4 b) 0 (slice b 0 (110 + 4 * c))) 34
      (put (put (slice b 34 80) 10 [word_of_nat (c - 1)]) 2 (le_bytes 2 (bswap16 (bswap16 (get16 b 36) - 4)))) = popped b"
    (is "put ?u 34 ?h = _")
proof (rule nth_equalityI)
  show "length (put ?u 34 ?h) = length (popped b)" using assms by (simp add: popped_def Let_def)
next
  fix i assume "i < length (put ?u 34 ?h)"
  then have i: "i < length b - 4" by simp
  have head: "?h ! (i - 34) = (if i = 44 then word_of_nat (c - 1)
      else if i = 36 \<or> i = 37 then le_bytes 2 (bswap16 (bswap16 (get16 b 36) - 4)) ! (i - 36) else b ! i)"
    if "34 \<le> i" "i < 114"
  proof -
    have "slice b 34 80 ! (i - 34) = b ! i" using that i assms(3) by (simp add: slice_def)
    then show ?thesis using that i assms(3) by (auto simp: nth_put)
  qed
  have u: "?u ! i = (if i < 110 + 4 * c then b ! i else b ! (i + 4))"
    using i assms(3) by (auto simp: nth_put slice_def add.commute)
  have w: "(take (110 + 4 * c) b @ drop (114 + 4 * c) b) ! i = (if i < 110 + 4 * c then b ! i else b ! (i + 4))"
    using i assms(3) by (auto simp: nth_append min_def intro!: arg_cong [of _ _ "nth b"])
  show "put ?u 34 ?h ! i = popped b ! i"
    using head u w i assms by (auto simp: popped_def Let_def nth_put)
qed

lemma popped_reads:
  assumes "c = unat (get8 b 44)" and "1 \<le> c" and "114 + 4 * c \<le> length b"
  shows "length (popped b) = length b - 4" and "get8 (popped b) 44 = get8 b 44 - 1"
    and "get16 (popped b) 36 = bswap16 (bswap16 (get16 b 36) - 4)"
    and "drop (110 + 4 * c) (popped b) = drop (114 + 4 * c) b"
    and "q + n \<le> 36 \<or> 45 \<le> q \<and> q + n \<le> 110 + 4 * c \<Longrightarrow> slice (popped b) q n = slice b q n"
proof -
  let ?w = "take (110 + 4 * c) b @ drop (114 + 4 * c) b"
  have len: "length ?w = length b - 4" using assms(3) by simp
  then show "length (popped b) = length b - 4" using assms by (simp add: popped_def Let_def)
  have "word_of_nat (c - 1) = get8 b 44 - 1" using assms(1,2) by (simp add: of_nat_diff)
  then show "get8 (popped b) 44 = get8 b 44 - 1" "get16 (popped b) 36 = bswap16 (bswap16 (get16 b 36) - 4)"
    using assms len by (simp_all add: popped_def Let_def buf_simps)
  have "drop n (put u p xs) = drop n u" if "p + length xs \<le> n" "n \<le> length u" for n p xs and u :: bytes
    using that by (cases "p + length xs = length u") (simp_all add: put_def wrn_def)
  then show "drop (110 + 4 * c) (popped b) = drop (114 + 4 * c) b"
    using assms by (simp add: popped_def Let_def)
  show "slice (popped b) q n = slice b q n" if "q + n \<le> 36 \<or> 45 \<le> q \<and> q + n \<le> 110 + 4 * c"
  proof -
    have "slice (popped b) q n = slice ?w q n" using that assms(1) by (auto simp: popped_def Let_def buf_simps)
    also have "\<dots> = slice b q n"
      using that assms(2,3) by (auto simp: slice_def take_drop min_def)
    finally show ?thesis .
  qed
qed

lemma pids_in_popped:
  assumes "1 \<le> unat (get8 b 44)" and "114 + 4 * unat (get8 b 44) \<le> length b"
  shows "pids_in (popped b) = butlast (pids_in b)" and "last (pids_in b) = slice b (110 + 4 * unat (get8 b 44)) 4"
proof -
  obtain c where c: "unat (get8 b 44) = Suc c" using assms(1) by (cases "unat (get8 b 44)") auto
  then have "unat (get8 b 44 - 1) = c" by (simp add: unat_sub word_le_nat_alt)
  moreover have "slice (popped b) (114 + 4 * i) 4 = slice b (114 + 4 * i) 4" if "i < c" for i
    using that c assms popped_reads(5) [OF refl assms] by simp
  ultimately show "pids_in (popped b) = butlast (pids_in b)"
    using c popped_reads(2) [OF refl assms] by (simp add: pids_in_def)
  show "last (pids_in b) = slice b (110 + 4 * unat (get8 b 44)) 4"
    using c by (simp add: pids_in_def)
qed

lemma data_inside_eq:
  assumes "my_addr ops r (get32 b 30)" and "get8 b 34 = 161" and "1 \<le> unat (get8 b 44)"
    and "114 + 4 * unat (get8 b 44) \<le> length b"
  shows "push ops v 0 b r = do { k \<leftarrow> c_string (last (pids_in b) @ after v);
    Some (r, Some (sent_to ops r (next_hop ops r k) (popped b))) }"
proof -
  have ip: "slice (popped b) 14 20 = slice b 14 20" "34 \<le> length (popped b)"
    using popped_reads(1,5) [OF refl assms(3,4)] assms(3,4) by auto
  have "110 + 4 * unat (get8 b 44) \<le> length b - 4"
    using assms(3,4) by auto
  then show ?thesis
    using assms popped_eq [OF refl assms(3,4)] pids_in_popped(2) [OF assms(3,4)]
    by (simp add: push_mine data_from_inside_def buf_simps Let_def next_hop_def send_to_eq [OF ip(2,1)])
qed

text \<open>C39: Data goes back along the identifiers. A data packet from inside with at least one identifier is sent to the next hop of the
  last one, which is taken out of it: the identifiers that are left are the others in order, their number and
  the length in the CoLoR header are right, and the content follows unchanged. But the array
  for the identifier has no room for a terminating zero: by the letter of the language the packet is
  undefined whenever no byte of the identifier is zero, as in every identifier that is a text.\<close>

theorem data_follows_last_pid:
  assumes "my_addr ops r (get32 b 30)" and "get8 b 34 = 161" and "1 \<le> unat (get8 b 44)"
    and "114 + 4 * unat (get8 b 44) \<le> length b"
  shows "(0 \<notin> set (last (pids_in b)) \<and> after v = [] \<longrightarrow> push ops v 0 b r = None)
    \<and> (\<forall>k. c_string (last (pids_in b) @ after v) = Some k \<longrightarrow>
        (\<exists>out. push ops v 0 b r = Some (r, Some (nic_to ops r (next_hop ops r k), out))
          \<and> get32 out 30 = next_hop ops r k \<and> length out = length b - 4
          \<and> pids_in out = butlast (pids_in b)
          \<and> bswap16 (get16 out 36) = bswap16 (get16 b 36) - 4
          \<and> drop (110 + 4 * unat (get8 b 44)) out = drop (114 + 4 * unat (get8 b 44)) b))"
proof (intro conjI allI impI)
  assume "0 \<notin> set (last (pids_in b)) \<and> after v = []"
  then show "push ops v 0 b r = None" by (simp add: data_inside_eq [OF assms] c_string_def)
next
  fix k assume k: "c_string (last (pids_in b) @ after v) = Some k"
  let ?out = "snd (sent_to ops r (next_hop ops r k) (popped b))"
  note p = popped_reads [OF refl assms(3,4)]
  have out: "get8 ?out q = get8 (popped b) q" "get16 ?out q = get16 (popped b) q" "34 \<le> q \<Longrightarrow> slice ?out q n = slice (popped b) q n"
    if "34 \<le> q" for q n
    using that by (simp_all add: sent_to_def)
  have len: "length ?out = length b - 4" using p(1) by (simp add: sent_to_def)
  have "pids_in ?out = pids_in (popped b)" by (simp add: pids_in_def out)
  moreover have "drop n ?out = drop n (popped b)" if "34 \<le> n" for n
  proof -
    have "drop n u = slice u n (length u)" for u :: bytes by (simp add: slice_def)
    with that show ?thesis using out(3) [of n "length b"] len p(1) by (simp add: slice_def)
  qed
  moreover have "get32 ?out 30 = next_hop ops r k" using p(1) assms(3,4) by (simp add: sent_to_def)
  ultimately show "\<exists>out. push ops v 0 b r = Some (r, Some (nic_to ops r (next_hop ops r k), out))
      \<and> get32 out 30 = next_hop ops r k \<and> length out = length b - 4 \<and> pids_in out = butlast (pids_in b)
      \<and> bswap16 (get16 out 36) = bswap16 (get16 b 36) - 4
      \<and> drop (110 + 4 * unat (get8 b 44)) out = drop (114 + 4 * unat (get8 b 44)) b"
    using k len p(3,4) pids_in_popped(1) [OF assms(3,4)]
    by (intro exI [of _ ?out]) (simp add: data_inside_eq [OF assms] sent_to_def)
qed

definition sample_data :: bytes where
  "sample_data = put (put (put (put (replicate 130 0) 30 (le_bytes 4 (0x10b0a0a :: u32))) 34 [161]) 44 [1]) 114 (pid_chars 0x32)"

theorem data_follows_last_pid_witness:
  "(\<exists>out. push fun_maps \<lparr>after = [0], room = [], rawtime = 0\<rparr> 0 sample_data (IPBorderRouter fun_maps [])
      = Some (IPBorderRouter fun_maps [], Some (1, out)) \<and> get32 out 30 = 0x20b0a0a \<and> length out = 126)
    \<and> push fun_maps \<lparr>after = [], room = [], rawtime = 0\<rparr> 0 sample_data (IPBorderRouter fun_maps []) = None"
proof -
  let ?r = "IPBorderRouter fun_maps []"
  have d: "get32 sample_data 30 = 0x10b0a0a" "get8 sample_data 34 = 161" "get8 sample_data 44 = 1" "length sample_data = 130"
    "slice sample_data 114 4 = pid_chars 0x32"
    by (simp_all add: sample_data_def buf_simps within_simps pid_chars_def)
  note c = constructor_tables [OF fun_maps_laws]
  have mine: "my_addr fun_maps ?r (get32 sample_data 30)" by (simp add: my_addr_def c d(1))
  have l: "last (pids_in sample_data) = pid_chars 0x32" by (simp add: pids_in_def d(3,5))
  have k: "c_string (pid_chars 0x32 @ [0]) = Some (pid_chars 0x32)" by code_simp
  have z: "0 \<notin> set (pid_chars 0x32)" by code_simp
  note t = data_follows_last_pid [OF mine d(2)]
  have "\<exists>out. push fun_maps \<lparr>after = [0], room = [], rawtime = 0\<rparr> 0 sample_data ?r
      = Some (?r, Some (nic_to fun_maps ?r (next_hop fun_maps ?r (pid_chars 0x32)), out))
      \<and> get32 out 30 = next_hop fun_maps ?r (pid_chars 0x32) \<and> length out = 126"
    using t [of "\<lparr>after = [0], room = [], rawtime = 0\<rparr>"] d l k by auto
  moreover have "push fun_maps \<lparr>after = [], room = [], rawtime = 0\<rparr> 0 sample_data ?r = None"
    using t [of "\<lparr>after = [], room = [], rawtime = 0\<rparr>"] d l z by simp
  ultimately show ?thesis by (simp add: c)
qed

text \<open>Data from outside goes to the next hop of its last identifier, which stays in it, or without identifiers to
  the node.\<close>

definition data_hop :: "('a, 'b, 'c) click_maps \<Rightarrow> ('a, 'b, 'c) border_router \<Rightarrow> nat \<Rightarrow> bytes \<Rightarrow> u32" where
  "data_hop ops r c k = (if c = 0 then hm_find (names ops) (nid_ip r) k else next_hop ops r k)"

lemma data_outside_eq:
  assumes "my_addr ops r (get32 b 30)" and "get8 b 34 = 161" and "c = unat (get8 b 44)" and "114 + 4 * c \<le> length b"
    and "n = (if c = 0 then slice b 98 16 else last (pids_in b))"
  shows "push ops v 1 b r = do { k \<leftarrow> c_string (n @ after v); Some (r, Some (sent_to ops r (data_hop ops r c k) b)) }"
proof -
  have len: "34 \<le> length b" "114 \<le> length b" using assms(4) by simp_all
  have p: "last (pids_in b) = slice b (110 + 4 * c) 4" if "c \<noteq> 0"
    using that assms(3,4) pids_in_popped(2) [of b] by simp
  have "data_from_outside ops (after v) r (slice b 14 20) b
      = do { k \<leftarrow> c_string (n @ after v); Some (r, Some (sent_to ops r (data_hop ops r c k) b)) }"
    using assms(3-5) len p
    by (cases "c = 0") (simp_all add: data_from_outside_def buf_simps Let_def data_hop_def next_hop_def
        send_to_eq [OF len(1) refl] unsigned_eq_0_iff)
  then show ?thesis using assms(1,2) len by (simp add: push_mine)
qed

text \<open>C4: Data across a border. The router it leaves by takes the last identifier out and follows it; the router it enters by follows the identifier
  that is the last one then, and leaves it in, or hands the data to the node if that was the only one. What arrives has the
  other identifiers in order and the content unchanged.\<close>

theorem data_crosses_border:
  assumes "my_addr ops r1 (get32 b 30)" and "get8 b 34 = 161" and "c = unat (get8 b 44)" and "1 \<le> c" and "114 + 4 * c \<le> length b"
    and "c_string (last (pids_in b) @ after v) = Some k" and "my_addr ops r2 (next_hop ops r1 k)"
    and "c_string ((if c = 1 then slice b 98 16 else last (butlast (pids_in b))) @ after w) = Some k'"
  shows "\<exists>x y. push ops v 0 b r1 = Some (r1, Some (nic_to ops r1 (next_hop ops r1 k), x))
    \<and> push ops w 1 x r2 = Some (r2, Some (nic_to ops r2 (data_hop ops r2 (c - 1) k'), y))
    \<and> get32 y 30 = data_hop ops r2 (c - 1) k' \<and> get8 y 34 = 161
    \<and> pids_in y = butlast (pids_in b) \<and> length (pids_in b) = c
    \<and> drop (110 + 4 * c) y = drop (114 + 4 * c) b"
proof -
  have c: "1 \<le> unat (get8 b 44)" "114 + 4 * unat (get8 b 44) \<le> length b" using assms(3-5) by simp_all
  note p = popped_reads [OF assms(3-5)]
  let ?x = "snd (sent_to ops r1 (next_hop ops r1 k) (popped b))"
  have x: "get8 ?x q = get8 (popped b) q" "slice ?x q n = slice (popped b) q n" if "34 \<le> q" for q n
    using that by (simp_all add: sent_to_def)
  have push1: "push ops v 0 b r1 = Some (r1, Some (nic_to ops r1 (next_hop ops r1 k), ?x))"
    using assms(6) by (simp add: data_inside_eq [OF assms(1,2) c] sent_to_def)
  have cx: "c - 1 = unat (get8 ?x 44)"
    using x(1) [of 44] p(2) assms(3,4) by (simp add: unat_sub word_le_nat_alt)
  have lx: "length ?x = length b - 4" "get32 ?x 30 = next_hop ops r1 k" using p(1) assms(4,5) by (simp_all add: sent_to_def)
  have px: "pids_in ?x = butlast (pids_in b)"
    using x pids_in_popped(1) [OF c] by (simp add: pids_in_def)
  have nx: "(if c - 1 = 0 then slice ?x 98 16 else last (pids_in ?x)) = (if c = 1 then slice b 98 16 else last (butlast (pids_in b)))"
  proof -
    have "slice ?x 98 16 = slice b 98 16" using assms(4) x(2) [of 98 16] p(5) [of 98 16] by simp
    then show ?thesis unfolding px using assms(4) by auto
  qed
  let ?y = "snd (sent_to ops r2 (data_hop ops r2 (c - 1) k') ?x)"
  have t: "get8 ?x 34 = 161" using x(1) [of 34] p(5) [of 34 1] assms(2) by (simp add: get8_def)
  have "114 + 4 * (c - 1) \<le> length ?x" using lx(1) assms(4,5) by simp
  note o = data_outside_eq [OF _ t cx this nx [symmetric], of ops r2 w]
  have push2: "push ops w 1 ?x r2 = Some (r2, Some (nic_to ops r2 (data_hop ops r2 (c - 1) k'), ?y))"
    using o assms(7,8) lx(2) by (simp add: sent_to_def)
  have y: "get8 ?y q = get8 ?x q" "slice ?y q n = slice ?x q n" if "34 \<le> q" for q n
    using that by (simp_all add: sent_to_def)
  have d: "drop q xs = slice xs q (length xs - q)" for q and xs :: bytes by (simp add: slice_def)
  have ly: "length ?y = length b - 4" using lx(1) by (simp add: sent_to_def)
  have "drop (110 + 4 * c) ?y = drop (110 + 4 * c) (popped b)"
    using y(2) x(2) ly p(1) by (simp add: d)
  moreover have "get32 ?y 30 = data_hop ops r2 (c - 1) k'" using lx(1) assms(4,5) by (simp add: sent_to_def)
  moreover have "pids_in ?y = pids_in ?x" using y by (simp add: pids_in_def)
  moreover have "length (pids_in b) = c" by (simp add: pids_in_def assms(3))
  ultimately show ?thesis using push1 push2 px p(4) t y(1) [of 34] by (intro exI [of _ ?x] exI [of _ ?y]) simp
qed

theorem data_crosses_border_witness:
  "\<exists>x y. push fun_maps \<lparr>after = [0], room = [], rawtime = 0\<rparr> 0 sample_data (IPBorderRouter fun_maps [])
      = Some (IPBorderRouter fun_maps [], Some (1, x))
    \<and> push fun_maps \<lparr>after = [0], room = [], rawtime = 0\<rparr> 1 x ((IPBorderRouter fun_maps [])\<lparr>s_ip := \<lambda>_. 0x20b0a0a\<rparr>) \<noteq> None
    \<and> pids_in y = [] \<and> length (pids_in sample_data) = 1"
proof -
  let ?r1 = "IPBorderRouter fun_maps []" and ?v = "\<lparr>after = [0], room = [], rawtime = 0\<rparr>"
  have d: "get32 sample_data 30 = 0x10b0a0a" "get8 sample_data 34 = 161" "1 = unat (get8 sample_data 44)" "length sample_data = 130"
    "slice sample_data 114 4 = pid_chars 0x32" "get8 sample_data 44 = 1"
    by (simp_all add: sample_data_def buf_simps within_simps pid_chars_def)
  note c = constructor_tables [OF fun_maps_laws]
  have mine: "my_addr fun_maps ?r1 (get32 sample_data 30)" by (simp add: my_addr_def c d(1))
  have pids: "pids_in sample_data = [pid_chars 0x32]" by (simp add: pids_in_def d(5,6))
  have k: "c_string (pid_chars 0x32 @ [0]) = Some (pid_chars 0x32)" by code_simp
  have mine2: "my_addr fun_maps (?r1\<lparr>s_ip := \<lambda>_. 0x20b0a0a\<rparr>) (next_hop fun_maps ?r1 (pid_chars 0x32))"
    by (simp add: my_addr_def c) (simp add: fun_maps_def fun_map_def)
  have k2: "c_string ((if (1 :: nat) = 1 then slice sample_data 98 16 else last (butlast (pids_in sample_data))) @ after ?v) = Some []"
    by code_simp
  have k1: "c_string (last (pids_in sample_data) @ after ?v) = Some (pid_chars 0x32)" using k pids by simp
  have long: "114 + 4 * (1 :: nat) \<le> length sample_data" using d(4) by simp
  from data_crosses_border [OF mine d(2,3) order_refl long k1 mine2 k2] show ?thesis by (simp add: c pids) blast
qed

section \<open>Announcements\<close>

lemma announcement_frame:
  assumes "alloc nic = Some m" and "wf_nid h" and "wf_ctl junk" and "198 \<le> length (mdata m)"
  shows "\<exists>m'. send_ip_nid_ip h junk nic port queue a ip = Some [Tx port queue m' (accepts nic m'), FreeMbuf (mid m')]
    \<and> length (frame m') = 198 \<and> get32 (frame m') 30 = ip \<and> get8 (frame m') 34 = 163 \<and> get8 (frame m') 35 = 129
    \<and> slice (frame m') 174 20 = announce_bytes a"
proof -
  define c where "c = junk\<lparr>ver_type := CONTROL_PACKET, controltype := CONTROL_PACKET_PID_ANNOUNCE,
    item_count := bswap16 1, ctl_EID := nid_bytes h\<rparr>"
  have c: "wf_ctl c" "ver_type c = 163" "controltype c = 129"
    using assms(2,3) by (simp_all add: c_def wf_ctl_def wf_nid_def CONTROL_PACKET_def CONTROL_PACKET_PID_ANNOUNCE_def)
  have a: "length (announce_bytes a) = 20" by (simp add: announce_bytes_def)
  let ?b = "put (put (put (put (mdata m) 0 ether_header) 14 ip_header) 34 (ctl_bytes c)) 174 (announce_bytes a)"
  let ?m = "m\<lparr>mdata := put (put (put (put ?b 36 (le_bytes 2 (word_of_nat 194 - 34 :: u16))) 30 (le_bytes 4 ip))
      194 (le_bytes 4 (0 :: u32))) 36 (le_bytes 2 (bswap16 (word_of_nat 194 - 30))),
    pkt_len := word_of_nat (194 + 4), data_len := word_of_nat (194 + 4)\<rparr>"
  have "send_ip_nid_ip h junk nic port queue a ip = Some [Tx port queue ?m (accepts nic ?m), FreeMbuf (mid ?m)]"
    using assms(1,4) c(1) a finish_eq [of 194 ?b m 0 ip]
    by (simp add: send_ip_nid_ip_def pktgen_ctor_ether_header_def pktgen_ctor_ip_header_def buf_simps c_def [symmetric])
  moreover have L: "unat (data_len ?m) = 198" by simp
  moreover from L have "length (frame ?m) = 198" using assms(4) by (simp add: length_frame)
  moreover have "get32 (frame ?m) 30 = ip" "get8 (frame ?m) 34 = 163" "get8 (frame ?m) 35 = 129"
      "slice (frame ?m) 174 20 = announce_bytes a"
    using L c assms(4) a by (simp_all add: get_frame slice_frame buf_simps within_simps ctl_fields [simplified])
  ultimately show ?thesis by blast
qed

lemma announce_fields:
  "slice (announce_bytes a) 4 4 = le_bytes 4 (pid_current a)" "get32 (announce_bytes a) 8 = ip_inside a"
  "get32 (announce_bytes a) 12 = ip_outside a" "get32 (announce_bytes a) 16 = time_to_live a"
  by (simp_all add: announce_bytes_def within_simps)

text \<open>The router after an announcement of the item \<open>a\<close>.\<close>

definition learned :: "('a, 'b, 'c) click_maps \<Rightarrow> announce_item \<Rightarrow> int \<Rightarrow> ('a, 'b, 'c) border_router \<Rightarrow>
    ('a, 'b, 'c) border_router" where
  "learned ops a now r = (let p = le_bytes 4 (pid_current a) in
     r\<lparr>pidpid := (pidpid r)[pid_c_num r := p], pid_c_num := (if pid_c_num r = 99 then 0 else pid_c_num r + 1),
       pid_ip := hm_insert (names ops) (pid_ip r) (key_of p)
         (if ip_inside a = hm_find (ips ops) (s_ip r) 1 then ip_outside a else ip_inside a),
       pid_time := hm_insert (names ops) (pid_time r) (key_of p) (bswap32 (time_to_live a) + word_of_int now)\<rparr>)"

lemma push_announcement:
  assumes "my_addr ops r (get32 b 30)" and "get8 b 34 = 163" and "get8 b 35 = 129" and "194 \<le> length b"
    and "slice b 174 20 = announce_bytes a" and "pid_c_num r < length (pidpid r)"
  shows "push ops v port b r = Some (learned ops a (rawtime v) r, None)"
  using assms by (simp add: push_mine control_def announced_def buf_simps learned_def Let_def announce_fields)

text \<open>C9: Announcements steer packets. When the manager announces a path to a border router it has the address of, the router
  maps the identifier of the path to the far end of the path (the end that is not its own address) and changes
  no other entry; from then on requests that end with this identifier leave towards the far end,
  and requests with an identifier of another key as before.\<close>

theorem announcement_installs_route:
  assumes "click_laws ops" and "alloc nic = Some m" and "wf_nid h" and "wf_ctl junk" and "198 \<le> length (mdata m)"
    and "my_addr ops r ip" and "pid_c_num r < length (pidpid r)" and "d = (if bswap32 (ip1 e) = hm_find (ips ops) (s_ip r) 1 then bswap32 (ip2 e) else bswap32 (ip1 e))"
  shows "\<exists>m' r'. send_ip_nid_ip h junk nic port queue (announcement j e) ip
        = Some [Tx port queue m' (accepts nic m'), FreeMbuf (mid m')]
    \<and> push ops v inp (frame m') r = Some (r', None)
    \<and> (\<forall>p. next_hop ops r' p = (if p = key_of (rev (le_bytes 4 (path_pid e))) then d else next_hop ops r p))
    \<and> ip_nic r' = ip_nic r \<and> s_ip r' = s_ip r \<and> nid_ip r' = nid_ip r
    \<and> (\<forall>w b. my_addr ops r (get32 b 30) \<longrightarrow> get8 b 34 = 160 \<longrightarrow> 114 \<le> length b \<longrightarrow> color_len b + 34 \<le> length b \<longrightarrow>
        push ops w 0 b r' = Some (r', Some (sent_to ops r
          (if key_of (last_pid b) = key_of (rev (le_bytes 4 (path_pid e))) then d else next_hop ops r (key_of (last_pid b))) b)))"
proof -
  obtain m' where m': "send_ip_nid_ip h junk nic port queue (announcement j e) ip
        = Some [Tx port queue m' (accepts nic m'), FreeMbuf (mid m')]"
    and f: "length (frame m') = 198" "get32 (frame m') 30 = ip" "get8 (frame m') 34 = 163" "get8 (frame m') 35 = 129"
      "slice (frame m') 174 20 = announce_bytes (announcement j e)"
    using announcement_frame [OF assms(2-5), of port queue "announcement j e" ip] by blast
  define r' where "r' = learned ops (announcement j e) (rawtime v) r"
  have push: "push ops v inp (frame m') r = Some (r', None)"
    using push_announcement [of ops r "frame m'" "announcement j e" v inp] f assms(6,7) by (simp add: r'_def)
  have "le_bytes 4 (pid_current (announcement j e)) = rev (le_bytes 4 (path_pid e))"
    using le_bytes_un_le [of "rev (le_bytes 4 (path_pid e))", where 'a = 32] by (simp add: announcement_def bswap32_def)
  then have hop: "next_hop ops r' p = (if p = key_of (rev (le_bytes 4 (path_pid e))) then d else next_hop ops r p)" for p
    using assms(1,8) by (simp add: r'_def learned_def Let_def next_hop_def click_laws_def hash_map_laws_def announcement_def)
  have same: "ip_nic r' = ip_nic r" "s_ip r' = s_ip r" "nid_ip r' = nid_ip r"
    by (simp_all add: r'_def learned_def Let_def)
  have "push ops w 0 b r' = Some (r', Some (sent_to ops r
          (if key_of (last_pid b) = key_of (rev (le_bytes 4 (path_pid e))) then d else next_hop ops r (key_of (last_pid b))) b))"
    if "my_addr ops r (get32 b 30)" "get8 b 34 = 160" "114 \<le> length b" "color_len b + 34 \<le> length b" for w b
    using push_request [of ops r' b w] that same hop by (simp add: my_addr_def sent_to_def nic_to_def)
  with m' push hop same show ?thesis by blast
qed

definition sample_path :: path_entry where
  "sample_path = \<lparr>eid1 = host_nid, ip1 = IPv4 10 10 11 1, path_pid = PID 0x50 0x49 0x44 0x34, ip2 = IPv4 10 10 12 2, eid2 = host_nid\<rparr>"

definition sample_ctl :: color_ctl_pub where
  "sample_ctl = \<lparr>ver_type = 0, controltype = 0, total_len = 0, checksum = 0, sign_alg = 0, opt = 0, series_number_ack = 0,
     series_number_send = 0, item_count = 0, MTU = 0, ctl_EID = replicate 16 0, public_key_len = 0, resevered = 0,
     public_key = replicate 49 0, signature = replicate 55 0\<rparr>"

theorem announcement_installs_route_witness:
  "\<exists>m' r'. send_ip_nid_ip host_nid sample_ctl sample_nic 0 0 (announcement 0 sample_path) 0x10b0a0a
        = Some [Tx 0 0 m' (accepts sample_nic m'), FreeMbuf (mid m')]
    \<and> push fun_maps \<lparr>after = [], room = [], rawtime = 0\<rparr> 1 (frame m') (IPBorderRouter fun_maps (replicate 100 [])) = Some (r', None)
    \<and> next_hop fun_maps r' (pid_chars 0x34) = bswap32 (IPv4 10 10 12 2)"
proof -
  let ?r = "IPBorderRouter fun_maps (replicate 100 [])"
  obtain m where m: "alloc sample_nic = Some m" "198 \<le> length (mdata m)" by (simp add: sample_nic_def)
  have nid: "wf_nid host_nid" "wf_ctl sample_ctl" by (simp_all add: wf_nid_def host_nid_def wf_ctl_def sample_ctl_def)
  note c = constructor_tables [OF fun_maps_laws]
  have mine: "my_addr fun_maps ?r 0x10b0a0a" by (simp add: my_addr_def c)
  have room: "pid_c_num ?r < length (pidpid ?r)" by (simp add: IPBorderRouter_def)
  have "bswap32 (ip1 sample_path) = 0x10b0a0a" by code_simp
  then have d: "bswap32 (IPv4 10 10 12 2) = (if bswap32 (ip1 sample_path) = hm_find (ips fun_maps) (s_ip ?r) 1
      then bswap32 (ip2 sample_path) else bswap32 (ip1 sample_path))"
    by (simp add: c) (simp add: sample_path_def)
  have "key_of (rev (le_bytes 4 (path_pid sample_path))) = pid_chars 0x34" by code_simp
  with announcement_installs_route [OF fun_maps_laws m(1) nid m(2) mine room d, of 0 0 0 "\<lparr>after = [], room = [], rawtime = 0\<rparr>" 1]
  show ?thesis by (elim exE conjE) (intro exI conjI, assumption+, simp)
qed

section \<open>A run of the router\<close>

fun run :: "('a, 'b, 'c) click_maps \<Rightarrow> (surroundings \<times> nat \<times> bytes) list \<Rightarrow> ('a, 'b, 'c) border_router \<Rightarrow>
    (('a, 'b, 'c) border_router \<times> (int \<times> bytes) option list) option" where
  "run ops [] r = Some (r, [])"
| "run ops ((v, port, b) # ps) r = do {
     (r, x) \<leftarrow> push ops v port b r;
     (r, xs) \<leftarrow> run ops ps r;
     Some (r, x # xs) }"

definition announces :: "('a, 'b, 'c) click_maps \<Rightarrow> ('a, 'b, 'c) border_router \<Rightarrow> bytes \<Rightarrow> bool" where
  "announces ops r b \<longleftrightarrow> my_addr ops r (get32 b 30) \<and> get8 b 34 = 163 \<and> get8 b 35 = 129"

definition far_end :: "('a, 'b, 'c) click_maps \<Rightarrow> ('a, 'b, 'c) border_router \<Rightarrow> bytes \<Rightarrow> u32" where
  "far_end ops r b = (if get32 b 182 = hm_find (ips ops) (s_ip r) 1 then get32 b 186 else get32 b 182)"

definition same_addresses :: "('a, 'b, 'c) border_router \<Rightarrow> ('a, 'b, 'c) border_router \<Rightarrow> bool" where
  "same_addresses r r' \<longleftrightarrow> ip_nic r' = ip_nic r \<and> s_ip r' = s_ip r \<and> nid_ip r' = nid_ip r
     \<and> length (pidpid r') = length (pidpid r)"

lemma same_addresses_refl [simp]: "same_addresses r r"
  by (simp add: same_addresses_def)

lemma send_to_keeps: "send_to ops r ip d b = Some (r', x) \<Longrightarrow> r' = r"
  by (auto simp: send_to_def Let_def bind_eq_Some_conv)

lemma branches_keep:
  "get_from_inside ops r ip b = Some (r', x) \<Longrightarrow> r' = r" "to_rm ops r ip b = Some (r', x) \<Longrightarrow> r' = r"
  "along_last_pid ops r ip n b = Some (r', x) \<Longrightarrow> r' = r"
  "data_from_inside ops u r ip b = Some (r', x) \<Longrightarrow> r' = r" "data_from_outside ops u r ip b = Some (r', x) \<Longrightarrow> r' = r"
  "control_from_outside ops u r ip h b = Some (r', x) \<Longrightarrow> r' = r"
  by (auto simp: get_from_inside_def to_rm_def along_last_pid_def data_from_inside_def data_from_outside_def
      control_from_outside_def Let_def bind_eq_Some_conv split: if_splits dest: send_to_keeps)

lemma push_keeps:
  assumes "push ops v port b r = Some (r', x)" and "\<not> announces ops r b"
  shows "r' = r"
proof (rule ccontr)
  assume "r' \<noteq> r"
  with assms(1) obtain ip where ip: "my_addr ops r (get32 ip 16)" "rdn b 14 20 = Some ip" "rdn b 34 4 \<noteq> None"
      "get8 (the (rdn b 34 4)) 0 = 163" "control ops (room v) (rawtime v) port r ip b = Some (r', x)"
    by (auto simp: push_def my_addr_def Let_def bind_eq_Some_conv split: if_splits dest: branches_keep)
  with \<open>r' \<noteq> r\<close> have "get8 (the (rdn b 34 140)) 1 = 129" "rdn b 34 140 \<noteq> None"
    by (auto simp: control_def Let_def bind_eq_Some_conv split: if_splits dest: branches_keep)
  with ip(1-4) have "announces ops r b"
    by (auto simp: announces_def rdn_slice split: if_splits)
  with assms(2) show False by blast
qed

lemma push_announces:
  assumes "push ops v port b r = Some (r', x)" and "announces ops r b"
  shows "194 \<le> length b" and "pid_c_num r < length (pidpid r)" and "x = None"
    and "r' = r\<lparr>pidpid := (pidpid r)[pid_c_num r := slice b 178 4],
       pid_c_num := (if pid_c_num r = 99 then 0 else pid_c_num r + 1),
       pid_ip := hm_insert (names ops) (pid_ip r) (key_of (slice b 178 4)) (far_end ops r b),
       pid_time := pid_time r'\<rparr>"
proof -
  have "38 \<le> length b" using assms by (auto simp: push_def bind_eq_Some_conv rdn_slice my_addr_def announces_def Let_def split: if_splits)
  then have "control ops (room v) (rawtime v) port r (slice b 14 20) b = Some (r', x)"
    using assms push_mine [of ops r b v port] by (simp add: announces_def)
  moreover from this have "174 \<le> length b" by (auto simp: control_def bind_eq_Some_conv rdn_slice split: if_splits)
  ultimately have "announced ops (rawtime v) r b = Some (r', x)"
    using assms(2) by (simp add: control_def announces_def Let_def buf_simps)
  then show "194 \<le> length b" "pid_c_num r < length (pidpid r)" "x = None"
    "r' = r\<lparr>pidpid := (pidpid r)[pid_c_num r := slice b 178 4],
       pid_c_num := (if pid_c_num r = 99 then 0 else pid_c_num r + 1),
       pid_ip := hm_insert (names ops) (pid_ip r) (key_of (slice b 178 4)) (far_end ops r b),
       pid_time := pid_time r'\<rparr>"
    by (auto simp: announced_def Let_def bind_eq_Some_conv rdn_slice slice_slice far_end_def split: if_splits)
qed

text \<open>The router as a fold over the announcements it has accepted.\<close>

fun ring_put :: "bytes list \<times> nat \<Rightarrow> bytes \<Rightarrow> bytes list \<times> nat" where
  "ring_put (arr, c) p = (arr[c := p], (c + 1) mod 100)"

definition accepted :: "('a, 'b, 'c) click_maps \<Rightarrow> ('a, 'b, 'c) border_router \<Rightarrow> (surroundings \<times> nat \<times> bytes) list \<Rightarrow> bytes list" where
  "accepted ops r ps = filter (announces ops r) (map (\<lambda>(v, port, b). b) ps)"

lemma run_folds:
  assumes "run ops ps r = Some (r', xs)" and "pid_c_num r < 100"
  shows "same_addresses r r'
    \<and> (pidpid r', pid_c_num r') = foldl ring_put (pidpid r, pid_c_num r) (map (\<lambda>b. slice b 178 4) (accepted ops r ps))
    \<and> pid_ip r' = foldl (\<lambda>t b. hm_insert (names ops) t (key_of (slice b 178 4)) (far_end ops r b)) (pid_ip r) (accepted ops r ps)"
  using assms
proof (induction ps arbitrary: r xs)
  case Nil
  then show ?case by (simp add: accepted_def)
next
  case (Cons p ps)
  obtain v port b where p: "p = (v, port, b)" by (cases p) auto
  with Cons.prems(1) obtain r1 x ys where r1: "push ops v port b r = Some (r1, x)" "run ops ps r1 = Some (r', ys)"
    by (auto simp: bind_eq_Some_conv)
  show ?case
  proof (cases "announces ops r b")
    case False
    with push_keeps [OF r1(1)] have "r1 = r" by simp
    with False Cons.IH [of r ys] r1(2) Cons.prems(2) p show ?thesis by (simp add: accepted_def)
  next
    case True
    note e = push_announces(4) [OF r1(1) True]
    have f: "same_addresses r r1" "pidpid r1 = (pidpid r)[pid_c_num r := slice b 178 4]" "pid_c_num r1 = (pid_c_num r + 1) mod 100"
      "pid_ip r1 = hm_insert (names ops) (pid_ip r) (key_of (slice b 178 4)) (far_end ops r b)"
      using Cons.prems(2) by (subst e; simp add: same_addresses_def)+
    then have g: "announces ops r1 = announces ops r" "far_end ops r1 = far_end ops r"
      by (simp_all add: fun_eq_iff announces_def far_end_def my_addr_def same_addresses_def)
    have "pid_c_num r1 < 100" by (simp add: f(3))
    from Cons.IH [OF r1(2) this] have IH: "same_addresses r1 r'"
        "(pidpid r', pid_c_num r') = foldl ring_put (pidpid r1, pid_c_num r1) (map (\<lambda>b. slice b 178 4) (accepted ops r ps))"
        "pid_ip r' = foldl (\<lambda>t b. hm_insert (names ops) t (key_of (slice b 178 4)) (far_end ops r b)) (pid_ip r1) (accepted ops r ps)"
      by (simp_all add: accepted_def g)
    moreover have "accepted ops r (p # ps) = b # accepted ops r ps" using True p by (simp add: accepted_def)
    moreover have "same_addresses r r'" using IH(1) f(1) by (simp add: same_addresses_def)
    ultimately show ?thesis by (simp add: f(2-4))
  qed
qed

lemma ring_fold:
  assumes "length arr = 100" and "c < 100" and "foldl ring_put (arr, c) ids = (arr', c')"
  shows "length arr' = 100 \<and> c' = (c + length ids) mod 100
    \<and> (\<forall>j < length ids. length ids \<le> j + 100 \<longrightarrow> arr' ! ((c + j) mod 100) = ids ! j)"
  using assms(3)
proof (induction ids arbitrary: arr' c' rule: rev_induct)
  case Nil
  with assms(1,2) show ?case by simp
next
  case (snoc x ids)
  obtain a d where ad: "foldl ring_put (arr, c) ids = (a, d)" by force
  note IH = snoc.IH [OF ad]
  from snoc.prems ad have r': "arr' = a[d := x]" "c' = (d + 1) mod 100" by simp_all
  have d: "d = (c + length ids) mod 100" "d < 100" using IH by simp_all
  have other: "(c + j) mod 100 \<noteq> d" if "j < length ids" "length ids + 1 \<le> j + 100" for j
  proof
    assume "(c + j) mod 100 = d"
    with d(1) have "100 dvd (c + length ids) - (c + j)" using that(1) by (metis mod_eq_dvd_iff_nat nat_add_left_cancel_le less_imp_le)
    moreover have "(c + length ids) - (c + j) = length ids - j" by simp
    ultimately show False using that by (auto dest: dvd_imp_le)
  qed
  have "c' = (c + length (ids @ [x])) mod 100" using d(1) r'(2) by (simp add: mod_Suc_eq)
  moreover have "arr' ! ((c + j) mod 100) = (ids @ [x]) ! j" if "j < length (ids @ [x])" "length (ids @ [x]) \<le> j + 100" for j
  proof (cases "j = length ids")
    case True
    with d IH r'(1) show ?thesis by simp
  next
    case False
    with that(1) have "j < length ids" by simp
    moreover from this have "length ids + 1 \<le> j + 100" using that by simp
    ultimately show ?thesis using other [of j] IH r'(1) by (simp add: nth_append)
  qed
  ultimately show ?case using IH r'(1) by simp
qed

lemma table_fold:
  assumes "hash_map_laws m"
  shows "hm_find m (foldl (\<lambda>t b. hm_insert m t (f b) (g b)) t as) k
    = (case find (\<lambda>b. f b = k) (rev as) of None \<Rightarrow> hm_find m t k | Some b \<Rightarrow> g b)"
  using assms by (induction as rule: rev_induct) (simp_all add: hash_map_laws_def)

text \<open>C8: What a router knows after any sequence of packets. Its addresses and interfaces never change; of the identifiers announced to
  it the array holds the most recent hundred, each at its place in a ring; and an identifier leads to the far end that the
  most recent announcement with this key named, or to where it led at the start. Nothing is ever forgotten.\<close>

theorem router_tables_follow_announcements:
  assumes "click_laws ops" and "run ops ps r = Some (r', xs)" and "pid_c_num r < 100" and "length (pidpid r) = 100"
  shows "same_addresses r r'
    \<and> pid_c_num r' = (pid_c_num r + length (accepted ops r ps)) mod 100
    \<and> (\<forall>j < length (accepted ops r ps). length (accepted ops r ps) \<le> j + 100 \<longrightarrow>
         pidpid r' ! ((pid_c_num r + j) mod 100) = slice (accepted ops r ps ! j) 178 4)
    \<and> (\<forall>k. next_hop ops r' k = (case find (\<lambda>b. key_of (slice b 178 4) = k) (rev (accepted ops r ps)) of
         None \<Rightarrow> next_hop ops r k | Some b \<Rightarrow> far_end ops r b))"
proof -
  note f = run_folds [OF assms(2,3)]
  with ring_fold [OF assms(4,3), of _ "pidpid r'" "pid_c_num r'"]
  have "pid_c_num r' = (pid_c_num r + length (accepted ops r ps)) mod 100"
    and "\<forall>j < length (accepted ops r ps). length (accepted ops r ps) \<le> j + 100 \<longrightarrow>
         pidpid r' ! ((pid_c_num r + j) mod 100) = slice (accepted ops r ps ! j) 178 4"
    by auto
  moreover have "hash_map_laws (names ops)" using assms(1) by (simp add: click_laws_def)
  ultimately show ?thesis using f unfolding next_hop_def by (simp add: table_fold)
qed

definition sample_announcement :: bytes where
  "sample_announcement = put (put (put (put (replicate 198 0) 30 (le_bytes 4 (0x10b0a0a :: u32))) 34 [163, 129]) 178 (pid_chars 0x34))
     182 (le_bytes 4 (0x20c0a0a :: u32))"

theorem router_tables_follow_announcements_witness:
  "\<exists>r' xs. run fun_maps [(\<lparr>after = [], room = [], rawtime = 0\<rparr>, 1, sample_announcement)] (IPBorderRouter fun_maps (replicate 100 []))
      = Some (r', xs)
    \<and> pid_c_num r' = 1 \<and> pidpid r' ! 0 = pid_chars 0x34 \<and> next_hop fun_maps r' (pid_chars 0x34) = 0x20c0a0a"
proof -
  let ?r = "IPBorderRouter fun_maps (replicate 100 [])" and ?v = "\<lparr>after = [], room = [], rawtime = 0\<rparr>" and ?b = sample_announcement
  have d: "get32 ?b 30 = 0x10b0a0a" "get8 ?b 34 = 163" "get8 ?b 35 = 129" "length ?b = 198" "slice ?b 178 4 = pid_chars 0x34"
    "get32 ?b 182 = 0x20c0a0a" "slice ?b 174 20 = announce_bytes \<lparr>pid_original = 0, pid_current = un_le (pid_chars 0x34),
      ip_inside = 0x20c0a0a, ip_outside = 0, time_to_live = 0\<rparr>"
    by code_simp+
  note c = constructor_tables [OF fun_maps_laws]
  have mine: "my_addr fun_maps ?r (get32 ?b 30)" by (simp add: my_addr_def c d(1))
  have room: "pid_c_num ?r < length (pidpid ?r)" by (simp add: IPBorderRouter_def)
  have "194 \<le> length ?b" using d(4) by simp
  from push_announcement [OF mine d(2,3) this d(7) room, of ?v 1]
  obtain r' where run: "run fun_maps [(?v, 1, ?b)] ?r = Some (r', [None])" by simp
  have "announces fun_maps ?r ?b" using mine d(2,3) by (simp add: announces_def)
  then have acc: "accepted fun_maps ?r [(?v, 1, ?b)] = [?b]" by (simp add: accepted_def)
  have "pid_c_num ?r < 100" "length (pidpid ?r) = 100" "pid_c_num ?r = 0" by (simp_all add: IPBorderRouter_def)
  moreover have "key_of (pid_chars 0x34) = pid_chars 0x34" "far_end fun_maps ?r ?b = 0x20c0a0a"
    by (code_simp, simp add: far_end_def d(6) c)
  ultimately show ?thesis
    using router_tables_follow_announcements [OF fun_maps_laws run] acc d(5) run by (intro exI [of _ r'] exI) simp
qed

section \<open>Negotiation across two routers\<close>

definition rm_addr :: "('a, 'b, 'c) click_maps \<Rightarrow> ('a, 'b, 'c) border_router \<Rightarrow> u32" where
  "rm_addr ops r = hm_find (names ops) (nid_ip r) d3rm"

text \<open>A control packet without its last four bytes: eight go, four come back with the content \<open>u\<close>.\<close>

definition stripped :: "bytes \<Rightarrow> bytes \<Rightarrow> bytes" where
  "stripped b u = put (take (length b - 8) b @ u) 36 (le_bytes 2 (bswap16 (bswap16 (get16 b 36) - 4)))"

lemma stripped_head:
  assumes "182 \<le> length b" and "length xs = 2"
  shows "put (take (length b - 8) b @ u) 34 (put (slice b 34 140) 2 xs) = put (take (length b - 8) b @ u) 36 xs"
proof (rule nth_equalityI)
  fix i assume i: "i < length (put (take (length b - 8) b @ u) 34 (put (slice b 34 140) 2 xs))"
  have "slice b 34 140 ! (i - 34) = b ! i" "(take (length b - 8) b @ u) ! i = b ! i" if "34 \<le> i" "i < 174"
  proof -
    have "i < length b - 8" using that assms(1) by arith
    with that assms(1) show "slice b 34 140 ! (i - 34) = b ! i" "(take (length b - 8) b @ u) ! i = b ! i"
      by (simp_all add: slice_def nth_append)
  qed
  then show "put (take (length b - 8) b @ u) 34 (put (slice b 34 140) 2 xs) ! i = put (take (length b - 8) b @ u) 36 xs ! i"
    using i assms by (auto simp: nth_put)
qed simp

lemma stripped_reads:
  assumes "182 \<le> length b" and "length u = 4"
  shows "length (stripped b u) = length b - 4"
    and "q + n \<le> 36 \<or> 38 \<le> q \<and> q + n \<le> length b - 8 \<Longrightarrow> slice (stripped b u) q n = slice b q n"
    and "get16 (stripped b u) 36 = bswap16 (bswap16 (get16 b 36) - 4)"
    and "slice (stripped b u) (length b - 8) 4 = u"
proof -
  show "length (stripped b u) = length b - 4" using assms by (simp add: stripped_def)
  show "slice (stripped b u) q n = slice b q n" if "q + n \<le> 36 \<or> 38 \<le> q \<and> q + n \<le> length b - 8"
  proof -
    have "slice (stripped b u) q n = slice (take (length b - 8) b @ u) q n"
      using that assms by (auto simp: stripped_def buf_simps)
    also have "\<dots> = slice b q n" using that assms(1) by (auto simp: slice_def take_drop min_def)
    finally show ?thesis .
  qed
  show "get16 (stripped b u) 36 = bswap16 (bswap16 (get16 b 36) - 4)" using assms by (simp add: stripped_def buf_simps)
  have "38 \<le> length b - 8" using assms(1) by arith
  then have "slice (stripped b u) (length b - 8) 4 = slice (take (length b - 8) b @ u) (length b - 8) 4"
    using assms by (simp add: stripped_def buf_simps)
  then show "slice (stripped b u) (length b - 8) 4 = u" using assms by (simp add: slice_def)
qed

lemma push_control_inside:
  assumes "my_addr ops r (get32 b 30)" and "get8 b 34 = 163" and "get8 b 35 \<in> {16, 35}" and "174 \<le> length b"
    and "color_len b + 34 \<le> length b"
  shows "push ops v 0 b r = Some (r, Some (sent_to ops r (next_hop ops r (key_of (last_pid b))) b))"
  using assms along_last_pid_eq [of b] by (auto simp: push_mine control_def buf_simps Let_def)

lemma push_control_outside:
  assumes "my_addr ops r (get32 b 30)" and "get8 b 34 = 163" and "get8 b 35 \<in> {16, 35}" and "182 \<le> length b"
    and "length (room v) = 4"
  shows "push ops v 1 b r = Some (r, Some (sent_to ops r (rm_addr ops r) (stripped b (room v))))"
proof -
  have "slice (stripped b (room v)) 14 20 = slice b 14 20" "34 \<le> length (stripped b (room v))"
    using stripped_reads(1,2) [OF assms(4,5)] assms(4) by simp_all
  note send_to_eq [OF this(2,1)]
  moreover have "control ops (room v) (rawtime v) 1 r (slice b 14 20) b = to_rm ops r (slice b 14 20) (stripped b (room v))"
    using assms(3,4,5) stripped_head [OF assms(4), of "le_bytes 2 (bswap16 (bswap16 (get16 b 36) - 4))" "room v"]
    by (auto simp: control_def control_from_outside_def buf_simps Let_def stripped_def)
  ultimately show ?thesis using assms(1,2,4) by (simp add: push_mine to_rm_def rm_addr_def)
qed

lemma words32_tail:
  "4 * Suc k \<le> length bs \<Longrightarrow> length u = 4 \<Longrightarrow> words32 (Suc k) (take (4 * k) bs @ u) = butlast (words32 (Suc k) bs) @ [un_le u]"
proof (induction k arbitrary: bs)
  case (Suc k)
  have "words32 (Suc (Suc k)) (take (4 * Suc k) bs @ u) = un_le (take 4 bs) # words32 (Suc k) (take (4 * k) (drop 4 bs) @ u)"
    using Suc.prems by (simp add: min_def drop_take)
  also have "\<dots> = un_le (take 4 bs) # butlast (words32 (Suc k) (drop 4 bs)) @ [un_le u]"
    using Suc.IH [of "drop 4 bs"] Suc.prems by simp
  finally show ?case by simp
qed simp

lemma unat_word_of_nat: "n < 2 ^ LENGTH('a) \<Longrightarrow> unat (word_of_nat n :: 'a::len word) = n"
  by (simp add: unat_of_nat)

lemma pids_frame:
  assumes "alloc nic = Some m" and "wf_nid h" and "length pids \<le> 255" and "182 + 4 * length pids \<le> length (mdata m)"
    and "kind \<in> {1, 2}" and "k = length pids"
  shows "\<exists>m' b. send_pids kind h nic pids timer (word_of_nat (length pids)) port queue p ip
        = Some [Tx port queue m' (accepts nic m'), FreeMbuf (mid m')]
    \<and> b = frame m' \<and> length b = 182 + 4 * k \<and> get32 b 30 = ip \<and> get8 b 34 = 163 \<and> get8 b 35 = 16
    \<and> color_len b = 148 + 4 * k \<and> last_pid b = le_bytes 4 p
    \<and> get8 b 41 AND OPTION_KIND_MASK = (if kind = 1 then 0x10 else 0x20) \<and> slice b 50 16 = nid_bytes h
    \<and> get32 b 174 = timer \<and> map bswap32 (words32 k (slice b 178 (4 * k))) = map bswap32 pids"
proof -
  from send_pids_content [OF assms(1,5,2,3,4), of timer port queue p ip] obtain m' where
    m': "send_pids kind h nic pids timer (word_of_nat (length pids)) port queue p ip
        = Some [Tx port queue m' (accepts nic m'), FreeMbuf (mid m')]"
    and c: "data_len m' = word_of_nat (182 + 4 * k)" "rd8 (mdata m') 34 = Some CONTROL_PACKET" "rd8 (mdata m') 35 = Some CONTROL_PACKET_PID"
      "read_kind (mdata m') = Some (if kind = 1 then 0x10 else 0x20)" "read_EID (mdata m') = Some h"
      "read_time (mdata m') = Some (bswap32 timer)" "read_pids (mdata m') (word_of_nat k) = Some (map bswap32 pids)"
      "rd32 (mdata m') 30 = Some ip" "rd32 (mdata m') (178 + 4 * k) = Some p" "length (mdata m') = length (mdata m)"
      "rd16 (mdata m') 36 = Some (bswap16 (word_of_nat (178 + 4 * k) - 30))"
    using assms(6) by blast
  have room: "182 + 4 * k \<le> length (mdata m')" "k \<le> 255" using assms c(10) by simp_all
  then have L: "unat (data_len m') = 182 + 4 * k" unfolding c(1) by (intro unat_word_of_nat) simp
  then have len: "length (frame m') = 182 + 4 * k" using room by (simp add: length_frame)
  have "(word_of_nat (178 + 4 * k) :: u16) - 30 = word_of_nat (148 + 4 * k)" by simp
  moreover have "unat (word_of_nat (148 + 4 * k) :: u16) = 148 + 4 * k" using room(2) by (intro unat_word_of_nat) simp
  moreover have "get16 (frame m') 36 = bswap16 (word_of_nat (178 + 4 * k) - 30)"
    using c(11) L by (simp add: get_frame buf_simps split: if_splits)
  ultimately have cl: "color_len (frame m') = 148 + 4 * k" by (simp only: color_len_def bswap_bswap)
  have "slice (mdata m') (178 + 4 * k) 4 = le_bytes 4 p"
    using c(9) room le_bytes_get32 [of "178 + 4 * k" "mdata m'"] by (simp add: buf_simps)
  then have lp: "last_pid (frame m') = le_bytes 4 p" using cl L by (simp add: last_pid_def slice_frame)
  have "unat (word_of_nat k :: u32) = k" using room(2) by (intro unat_word_of_nat) simp
  then have w: "map bswap32 (words32 k (slice (frame m') 178 (4 * k))) = map bswap32 pids"
    using c(7) L room by (simp add: read_pids_def buf_simps slice_frame)
  have "get8 (frame m') 34 = 163" "get8 (frame m') 35 = 16" "get32 (frame m') 30 = ip" "get32 (frame m') 174 = timer"
    "slice (frame m') 50 16 = nid_bytes h" "get8 (frame m') 41 AND OPTION_KIND_MASK = (if kind = 1 then 0x10 else 0x20)"
    using c(2,3,4,5,6,8) L room
    by (auto simp: get_frame slice_frame buf_simps CONTROL_PACKET_def CONTROL_PACKET_PID_def read_kind_def read_EID_def read_time_def)
  with m' len cl lp w show ?thesis by blast
qed

text \<open>C14: A negotiation message reaches the neighbour's manager. What the manager sends along the path \<open>p\<close> leaves the first router along \<open>p\<close>, and the
  second router takes the identifier off again, sets the length and hands the message to its own manager, who reads the
  kind, sender and period that were sent. Of the path identifiers the last is what
  lies in the four bytes that \<open>put\<close> gives back; it is the one that was sent exactly when these are the bytes that \<open>take\<close> removed, which
  the router relies on.\<close>

theorem pid_message_crosses_border:
  assumes "alloc nic = Some m" and "wf_nid h" and "length pids \<le> 255" and "pids \<noteq> []" and "182 + 4 * length pids \<le> length (mdata m)"
    and "kind \<in> {1, 2 :: u8}" and "my_addr ops r1 ip" and "my_addr ops r2 (next_hop ops r1 (key_of (le_bytes 4 p)))" and "length (room w) = 4"
  shows "\<exists>m' x y. (if kind = 1 then send_pid_a else send_pid_b) h nic (map bswap32 pids) (bswap32 time) (word_of_nat (length pids)) port queue p ip
        = Some [Tx port queue m' (accepts nic m'), FreeMbuf (mid m')]
    \<and> push ops v 0 (frame m') r1 = Some (r1, Some (nic_to ops r1 (next_hop ops r1 (key_of (le_bytes 4 p))), x))
    \<and> push ops w 1 x r2 = Some (r2, Some (nic_to ops r2 (rm_addr ops r2), y))
    \<and> get32 y 30 = rm_addr ops r2 \<and> length y = 178 + 4 * length pids \<and> color_len y + 34 = length y
    \<and> read_kind y = Some (if kind = 1 then 0x10 else 0x20) \<and> read_EID y = Some h \<and> read_time y = Some time
    \<and> read_pids y (word_of_nat (length pids)) = Some (butlast pids @ [bswap32 (un_le (room w))])
    \<and> (read_pids y (word_of_nat (length pids)) = Some pids \<longleftrightarrow> room w = slice x (length x - 8) 4)"
proof -
  define k where "k = length pids"
  have k: "1 \<le> k" "k \<le> 255" using assms(3,4) by (auto simp: k_def Suc_le_eq)
  have kind: "(if kind = 1 then send_pid_a else send_pid_b) = send_pids kind"
    using assms(6) by (auto simp: send_pid_a_def send_pid_b_def)
  from pids_frame [of nic m h "map bswap32 pids" kind k "bswap32 time" port queue p ip] assms(1-6)
  obtain m' b where m': "send_pids kind h nic (map bswap32 pids) (bswap32 time) (word_of_nat (length pids)) port queue p ip
        = Some [Tx port queue m' (accepts nic m'), FreeMbuf (mid m')]"
    and b: "b = frame m'" "length b = 182 + 4 * k" "get32 b 30 = ip" "get8 b 34 = 163" "get8 b 35 = 16"
      "color_len b = 148 + 4 * k" "last_pid b = le_bytes 4 p" "get8 b 41 AND OPTION_KIND_MASK = (if kind = 1 then 0x10 else 0x20)"
      "slice b 50 16 = nid_bytes h" "get32 b 174 = bswap32 time" "map bswap32 (words32 k (slice b 178 (4 * k))) = pids"
    by (auto simp: k_def comp_def)
  define d where "d = next_hop ops r1 (key_of (le_bytes 4 p))"
  define x where "x = snd (sent_to ops r1 d b)"
  have x: "length x = 182 + 4 * k" "get32 x 30 = d" "34 \<le> q \<Longrightarrow> slice x q n = slice b q n"
    "34 \<le> q \<Longrightarrow> get8 x q = get8 b q" "34 \<le> q \<Longrightarrow> get16 x q = get16 b q" for q n
    using b(2) by (simp_all add: x_def sent_to_def)
  have push1: "push ops v 0 (frame m') r1 = Some (r1, Some (nic_to ops r1 d, x))"
    using push_control_inside [of ops r1 b v] assms(7) b by (simp add: x_def d_def sent_to_def)
  define y where "y = snd (sent_to ops r2 (rm_addr ops r2) (stripped x (room w)))"
  have push2: "push ops w 1 x r2 = Some (r2, Some (nic_to ops r2 (rm_addr ops r2), y))"
    using push_control_outside [of ops r2 x w] assms(8,9) x b by (simp add: y_def d_def sent_to_def)
  have "182 \<le> length x" using x(1) by simp
  note t = stripped_reads [OF this assms(9)]
  have y: "length y = 178 + 4 * k" "get32 y 30 = rm_addr ops r2" "get16 y 36 = bswap16 (bswap16 (get16 b 36) - 4)"
    "slice y (174 + 4 * k) 4 = room w"
    using t(1,3) x t(4) by (simp_all add: y_def sent_to_def)
  have sl: "slice y q n = slice b q n" if "38 \<le> q" "q + n \<le> 174 + 4 * k" for q n
    using that t(2) [of q n] x(1,3) by (simp add: y_def sent_to_def)
  have "unat (bswap16 (get16 b 36) - 4) = color_len b - 4"
    using b(6) unfolding color_len_def by (subst unat_sub) (simp_all add: word_le_nat_alt)
  then have cl: "color_len y + 34 = length y" using y(1,3) b(6) by (simp add: color_len_def)
  have pids: "slice y 178 (4 * k) = take (4 * (k - 1)) (slice b 178 (4 * k)) @ room w"
  proof -
    have "slice y 178 (4 * k) = slice y 178 (4 * (k - 1)) @ slice y (174 + 4 * k) 4"
      using k(1) take_add [of "4 * (k - 1)" 4 "drop 178 y"] by (cases k) (simp_all add: slice_def algebra_simps)
    also have "slice y 178 (4 * (k - 1)) = take (4 * (k - 1)) (slice b 178 (4 * k))"
      using k(1) sl [of 178 "4 * (k - 1)"] by (simp add: slice_def min_def)
    finally show ?thesis by (simp add: y(4))
  qed
  have "words32 k (slice y 178 (4 * k)) = butlast (words32 k (slice b 178 (4 * k))) @ [un_le (room w)]"
    unfolding pids using words32_tail [of "k - 1" "slice b 178 (4 * k)" "room w"] k(1) b(2) assms(9) by simp
  then have "map bswap32 (words32 k (slice y 178 (4 * k))) = butlast pids @ [bswap32 (un_le (room w))]"
    using b(11) [symmetric] by (simp only: map_append map_butlast list.map)
  moreover have "unat (word_of_nat (length pids) :: u32) = k" using k unfolding k_def by (intro unat_word_of_nat) simp
  ultimately have rd: "read_pids y (word_of_nat (length pids)) = Some (butlast pids @ [bswap32 (un_le (room w))])"
    using y(1) by (simp add: read_pids_def buf_simps)
  have "unat (word_of_nat (length pids) :: u32) = k" using k unfolding k_def by (intro unat_word_of_nat) simp
  have "get8 y 41 = get8 b 41" "slice y 50 16 = slice b 50 16" "get32 y 174 = get32 b 174"
    using k(1) by (simp_all add: get8_def get32_def sl)
  then have fields: "read_kind y = Some (if kind = 1 then 0x10 else 0x20)" "read_EID y = Some h" "read_time y = Some time"
    using b(8-10) y(1) by (simp_all add: read_kind_def read_EID_def read_time_def buf_simps nid.expand)
  have "last pids = bswap32 (un_le (slice b (174 + 4 * k) 4))"
  proof -
    have "take (4 * (k - 1)) (slice b 178 (4 * k)) @ slice b (174 + 4 * k) 4 = slice b 178 (4 * k)"
      using k(1) b(2) take_add [of "4 * (k - 1)" 4 "drop 178 b"] by (cases k) (simp_all add: slice_def min_def algebra_simps)
    with words32_tail [of "k - 1" "slice b 178 (4 * k)" "slice b (174 + 4 * k) 4"] k(1) b(2)
    have "words32 k (slice b 178 (4 * k)) = butlast (words32 k (slice b 178 (4 * k))) @ [un_le (slice b (174 + 4 * k) 4)]"
      by simp
    then have "pids = map bswap32 (butlast (words32 k (slice b 178 (4 * k)))) @ [bswap32 (un_le (slice b (174 + 4 * k) 4))]"
      using b(11) [symmetric] by (metis list.simps(8,9) map_append)
    then show ?thesis by simp
  qed
  moreover have "slice x (length x - 8) 4 = slice b (174 + 4 * k) 4" using x(1,3) by simp
  moreover have "(un_le u :: u32) = un_le u' \<longleftrightarrow> u = u'" if "length u = 4" "length u' = 4" for u u' :: bytes
  proof -
    have "le_bytes 4 (un_le u :: u32) = u" "le_bytes 4 (un_le u' :: u32) = u'"
      using that le_bytes_un_le [of u, where 'a = 32] le_bytes_un_le [of u', where 'a = 32] by simp_all
    then show ?thesis by metis
  qed
  ultimately have "bswap32 (un_le (room w)) = last pids \<longleftrightarrow> room w = slice x (length x - 8) 4"
    using assms(9) b(2) by simp
  then have same: "read_pids y (word_of_nat (length pids)) = Some pids \<longleftrightarrow> room w = slice x (length x - 8) 4"
    using rd assms(4) by (metis append_butlast_last_id last_snoc option.inject)
  show ?thesis
    unfolding kind d_def [symmetric]
    by (intro exI [of _ m'] exI [of _ x] exI [of _ y] conjI m' push1 push2 y(2) y(1) [unfolded k_def] cl fields rd same)
qed

theorem pid_message_crosses_border_witness:
  "\<exists>m' x y. send_pid_a host_nid sample_nic (map bswap32 [7, 8]) (bswap32 30) 2 0 0 0x31444950 0x10a0a0a
        = Some [Tx 0 0 m' (accepts sample_nic m'), FreeMbuf (mid m')]
    \<and> push fun_maps \<lparr>after = [], room = [], rawtime = 0\<rparr> 0 (frame m') (IPBorderRouter_IPN fun_maps [])
      = Some (IPBorderRouter_IPN fun_maps [], Some (1, x))
    \<and> push fun_maps \<lparr>after = [], room = [0, 0, 0, 9], rawtime = 0\<rparr> 1 x ((IPBorderRouter fun_maps [])\<lparr>s_ip := \<lambda>_. 0x20a0a0a\<rparr>) \<noteq> None
    \<and> read_pids y 2 = Some [7, 9]"
proof -
  let ?r1 = "IPBorderRouter_IPN fun_maps []" and ?r2 = "(IPBorderRouter fun_maps [])\<lparr>s_ip := \<lambda>_. 0x20a0a0a\<rparr>"
  let ?w = "\<lparr>after = [], room = [0, 0, 0, 9], rawtime = 0\<rparr>"
  obtain m where m: "alloc sample_nic = Some m" "182 + 4 * length [7, 8 :: u32] \<le> length (mdata m)" by (simp add: sample_nic_def)
  have nid: "wf_nid host_nid" by (simp add: wf_nid_def host_nid_def)
  note c = constructor_tables [OF fun_maps_laws]
  have key: "key_of (le_bytes 4 (0x31444950 :: u32)) = pid_chars 0x31" by code_simp
  then have hop: "next_hop fun_maps ?r1 (key_of (le_bytes 4 (0x31444950 :: u32))) = 0x20a0a0a" by (simp add: c)
  have mine: "my_addr fun_maps ?r1 0x10a0a0a" by (simp add: my_addr_def c)
  have mine2: "my_addr fun_maps ?r2 (next_hop fun_maps ?r1 (key_of (le_bytes 4 (0x31444950 :: u32))))"
    unfolding hop by (simp add: my_addr_def fun_maps_def fun_map_def)
  have nine: "bswap32 (un_le [0, 0, 0, 9]) = 9" by code_simp
  have side: "length [7, 8 :: u32] \<le> 255" "[7, 8 :: u32] \<noteq> []" "(1 :: u8) \<in> {1, 2}" "length (room ?w) = 4" by simp_all
  from pid_message_crosses_border [OF m(1) nid side(1,2) m(2) side(3) mine mine2 side(4), of 30 0 0 "\<lparr>after = [], room = [], rawtime = 0\<rparr>"]
  show ?thesis by (simp add: key c nine) blast
qed

end
