(* ===== verification/Click_Client.thy ===== *)
theory Click_Client
  imports As_Config Cksum Border_Router
begin

text \<open>
  The client, the Click element \<open>color_get_new\<close> (\<open>client/color_get_new.cc\<close>): for every packet it is given it builds a
  CoLoR request with the numbers of the next line of a file of flows, from an address of a random line of a file of prefixes.

  The files are strings, and the state is what is left of the file of flows and the file of prefixes. The lines are
  copied into arrays without a terminating zero: what \<open>strtok\<close> finds behind them is an argument. Fields that a short
  line leaves alone have the values of the arguments too, as have the two calls of \<open>rand\<close>. Click's
  \<open>click_in_cksum\<close> is a parameter; \<open>cksum_law\<close> says that it computes an Internet checksum.
\<close>

section \<open>Lines and words\<close>

record client =
  buffer :: string
  buffer2 :: string

text \<open>\<open>initialize\<close>: what comes of a file, and the exit codes.\<close>

datatype file_read = Absent | No_memory | Short | Content string

fun read_file :: "file_read \<Rightarrow> nat + string" where
  "read_file Absent = Inl 1"
| "read_file No_memory = Inl 2"
| "read_file Short = Inl 3"
| "read_file (Content s) = Inr s"

definition initialize :: "file_read \<Rightarrow> file_read \<Rightarrow> nat + client" where
  "initialize f f2 = (case read_file f of Inl e \<Rightarrow> Inl e | Inr s \<Rightarrow>
     (case read_file f2 of Inl e \<Rightarrow> Inl e | Inr s2 \<Rightarrow> Inr \<lparr>buffer = s, buffer2 = s2\<rparr>))"

text \<open>The copy of a line into an array of 1000 characters; the file must not end before the line does.\<close>

definition copy_line :: "string \<Rightarrow> (string \<times> string) option" where
  "copy_line s = do {
     let l = takeWhile (\<lambda>c. c \<noteq> NL) s;
     guard (l \<noteq> s \<and> length l \<le> 1000);
     Some (l, drop (length l) s) }"

text \<open>The string in an array that begins with \<open>l\<close>.\<close>

definition c_text :: "string \<Rightarrow> string \<Rightarrow> string option" where
  "c_text l u = (if NUL \<in> set (l @ u) then Some (takeWhile (\<lambda>c. c \<noteq> NUL) (l @ u)) else None)"

text \<open>\<open>middle\<close> in front of line \<open>Suc n\<close>.\<close>

fun skip_lines :: "nat \<Rightarrow> string \<Rightarrow> string option" where
  "skip_lines 0 s = Some s"
| "skip_lines (Suc n) s = (case dropWhile (\<lambda>c. c \<noteq> NL) s of
     [] \<Rightarrow> None
   | _ # s' \<Rightarrow> skip_lines n s')"

section \<open>The request\<close>

record get_header_new =
  g_version_type :: u8
  g_ttl :: u8
  g_total_len :: u16
  g_port_src :: u16
  g_port_dst :: u16
  g_minimal_PID_CP :: u16
  g_PIDs :: u8
  g_offsets_RES :: u8
  g_offset :: u32
  g_length :: u32
  g_content_len :: u16
  g_mtu :: u16
  g_publickey_len :: u16
  g_checksum :: u16
  g_nid_EID :: bytes
  g_l_EID :: bytes
  g_nid :: bytes
  g_cc_packets :: u32
  g_cc_flow_size :: u32
  g_cc_flow_time :: u32
  g_publickey :: bytes

definition get_header_bytes :: "get_header_new \<Rightarrow> bytes" where
  "get_header_bytes h = [g_version_type h, g_ttl h] @ le_bytes 2 (g_total_len h) @ le_bytes 2 (g_port_src h)
     @ le_bytes 2 (g_port_dst h) @ le_bytes 2 (g_minimal_PID_CP h) @ [g_PIDs h, g_offsets_RES h]
     @ le_bytes 4 (g_offset h) @ le_bytes 4 (g_length h) @ le_bytes 2 (g_content_len h) @ le_bytes 2 (g_mtu h)
     @ le_bytes 2 (g_publickey_len h) @ le_bytes 2 (g_checksum h) @ g_nid_EID h @ g_l_EID h @ g_nid h
     @ le_bytes 4 (g_cc_packets h) @ le_bytes 4 (g_cc_flow_size h) @ le_bytes 4 (g_cc_flow_time h) @ g_publickey h"

record client_env =
  flow_after :: string
  prefix_after :: string
  cc_junk :: "u32 \<times> u32 \<times> u32"
  octets_junk :: bytes
  rand1 :: nat
  rand2 :: nat

text \<open>The three numbers of a line of flows: the third is 10 whatever the line says, if the line has it.\<close>

definition cc_numbers :: "u32 \<times> u32 \<times> u32 \<Rightarrow> string list \<Rightarrow> u32 \<times> u32 \<times> u32" where
  "cc_numbers j ws = (case j of (a, b, c) \<Rightarrow>
     (if 0 < length ws then word_of_int (strtoll (ws ! 0)) else a,
      if 1 < length ws then word_of_int (strtoll (ws ! 1)) else b,
      if 2 < length ws then 10 else c))"

definition octets :: "bytes \<Rightarrow> string list \<Rightarrow> nat \<Rightarrow> bytes option" where
  "octets j ws r = do {
     ns \<leftarrow> token_values (take 3 ws);
     Some (map word_of_int ns @ take (3 - length ns) (drop (length ns) j) @ [word_of_nat (r mod 256)]) }"

definition request_header :: "u32 \<times> u32 \<times> u32 \<Rightarrow> get_header_new" where
  "request_header cc = (case cc of (a, b, c) \<Rightarrow> \<lparr>g_version_type = 0xa0, g_ttl = 255, g_total_len = bswap16 96,
     g_port_src = 0, g_port_dst = 0, g_minimal_PID_CP = bswap16 10, g_PIDs = 0, g_offsets_RES = 0, g_offset = 0, g_length = 0,
     g_content_len = 0, g_mtu = bswap16 1500, g_publickey_len = 0, g_checksum = 0,
     g_nid_EID = replicate 15 0 @ [10], g_l_EID = replicate 19 0 @ [100], g_nid = replicate 15 0 @ [10],
     g_cc_packets = a, g_cc_flow_size = b, g_cc_flow_time = c, g_publickey = replicate 4 0\<rparr>)"

definition ip_bytes :: "(bytes \<Rightarrow> u16) \<Rightarrow> bytes \<Rightarrow> bytes" where
  "ip_bytes cksum a = (let hh = [0x45, 0] @ le_bytes 2 (bswap16 116) @ [0, 0, 0, 0, 255, 10, 0, 0] @ a @ a
     in put hh 10 (le_bytes 2 (cksum hh)))"

definition smaction :: "(bytes \<Rightarrow> u16) \<Rightarrow> client_env \<Rightarrow> client \<Rightarrow> bytes \<Rightarrow> (client \<times> bytes) option" where
  "smaction cksum v c p = do {
     (l, s) \<leftarrow> copy_line (buffer c);
     let c = c\<lparr>buffer := tl s\<rparr>;
     t \<leftarrow> c_text l (flow_after v);
     let h = request_header (cc_numbers (cc_junk v) (tokens (CHR '' '') t));
     middle \<leftarrow> skip_lines (rand1 v mod 97375) (buffer2 c);
     (l2, _) \<leftarrow> copy_line middle;
     t2 \<leftarrow> c_text l2 (prefix_after v);
     a \<leftarrow> octets (octets_junk v) (tokens (CHR '' '') t2) (rand2 v);
     Some (c, ip_bytes cksum a @ get_header_bytes h @ p) }"

text \<open>\<open>push\<close> and \<open>pull\<close> call it once for each packet.\<close>

fun client_run :: "(bytes \<Rightarrow> u16) \<Rightarrow> (client_env \<times> bytes) list \<Rightarrow> client \<Rightarrow> (client \<times> bytes list) option" where
  "client_run cksum [] c = Some (c, [])"
| "client_run cksum ((v, p) # ps) c = do {
     (c, q) \<leftarrow> smaction cksum v c p;
     (c, qs) \<leftarrow> client_run cksum ps c;
     Some (c, q # qs) }"

section \<open>Files of numbers\<close>

definition text_of :: "nat list list \<Rightarrow> string" where
  "text_of nss = concat (map (\<lambda>ns. numbers (CHR '' '') ns @ [NL]) nss)"

lemma text_of_simps [simp]:
  "text_of [] = []" "text_of (ns # nss) = numbers (CHR '' '') ns @ NL # text_of nss"
  by (simp_all add: text_of_def)

definition small_line :: "nat list \<Rightarrow> bool" where
  "small_line ns \<longleftrightarrow> length ns = 3 \<and> (\<forall>n \<in> set ns. n < 2 ^ 31)"

lemma numeral_no_char: "\<not> digit_val d < 10 \<Longrightarrow> d \<notin> set (numeral_of 10 n)"
  using numeral_digits [of 10 n] by auto

lemma line_plain:
  assumes "small_line ns"
  shows "NL \<notin> set (numbers (CHR '' '') ns)" and "NUL \<notin> set (numbers (CHR '' '') ns)"
    and "length (numbers (CHR '' '') ns) \<le> 1000"
    and "tokens (CHR '' '') (numbers (CHR '' '') ns) = map (numeral_of 10) ns"
proof -
  have "c \<notin> set (numbers (CHR '' '') ns)" if "\<not> digit_val c < 10" "c \<noteq> CHR '' ''" for c
    using numbers_set [of c "CHR '' ''" ns] numeral_no_char [OF that(1)] that(2) by blast
  then show "NL \<notin> set (numbers (CHR '' '') ns)" "NUL \<notin> set (numbers (CHR '' '') ns)"
    by (simp_all add: digit_val_def code_def)
  have "\<forall>n \<in> set ns. n < 10 ^ 10" using assms by (auto simp: small_line_def)
  with numbers_length [of ns 10 "CHR '' ''"] assms show "length (numbers (CHR '' '') ns) \<le> 1000"
    by (simp add: small_line_def)
  have "CHR '' '' \<notin> set (numeral_of 10 n)" for n by (rule numeral_no_char) (simp add: digit_val_def code_def)
  moreover have "ns \<noteq> []" using assms by (auto simp: small_line_def)
  ultimately have "tokens (CHR '' '') (join (CHR '' '') (map (numeral_of 10) ns) @ [])
      = butlast (map (numeral_of 10) ns) @ [last (map (numeral_of 10) ns) @ []]"
    by (intro tokens_join) auto
  with \<open>ns \<noteq> []\<close> show "tokens (CHR '' '') (numbers (CHR '' '') ns) = map (numeral_of 10) ns"
    by (simp add: numbers_def)
qed

lemma copy_line_text:
  "NL \<notin> set l \<Longrightarrow> length l \<le> 1000 \<Longrightarrow> copy_line (l @ NL # s) = Some (l, NL # s)"
  "NL \<notin> set l \<Longrightarrow> copy_line l = None"
  by (auto simp: copy_line_def Let_def takeWhile_append takeWhile_eq_all_conv)

lemma c_text_plain: "NUL \<notin> set l \<Longrightarrow> c_text l (NUL # u) = Some l"
  by (auto simp: c_text_def takeWhile_append takeWhile_eq_all_conv)

lemma skip_lines_text:
  "\<forall>ns \<in> set nss. small_line ns \<Longrightarrow> i \<le> length nss \<Longrightarrow> skip_lines i (text_of nss) = Some (text_of (drop i nss))"
proof (induction i arbitrary: nss)
  case (Suc i)
  then obtain ns nss' where nss: "nss = ns # nss'" by (cases nss) auto
  have "dropWhile (\<lambda>c. c \<noteq> NL) (numbers (CHR '' '') ns @ NL # text_of nss') = NL # text_of nss'"
    using line_plain(1) [of ns] Suc.prems(1) nss by (subst dropWhile_append2) auto
  with Suc nss show ?case by simp
qed simp

lemma strtoll_last: "n < 2 ^ 31 \<Longrightarrow> strtoll (numeral_of 10 n) = int n"
proof -
  assume n: "n < 2 ^ 31"
  have s: "sign (dropWhile isspace (numeral_of 10 n)) = (False, numeral_of 10 n)" by (rule sign_numeral) simp_all
  have "digits 10 (numeral_of 10 n) 0 = (n, [])" by (rule digits_numeral) simp_all
  with s n show ?thesis by (simp add: strtoll_def)
qed

lemma cc_numbers_line:
  assumes "small_line ns"
  shows "cc_numbers j (map (numeral_of 10) ns) = (word_of_nat (ns ! 0), word_of_nat (ns ! 1), 10)"
proof -
  have "strtoll (numeral_of 10 (ns ! i)) = int (ns ! i)" if "i < 3" for i
    using assms that by (intro strtoll_last) (simp add: small_line_def)
  with assms show ?thesis by (simp add: cc_numbers_def small_line_def split: prod.splits)
qed

lemma octets_line:
  assumes "small_line ns"
  shows "octets j (map (numeral_of 10) ns) r = Some (map word_of_nat ns @ [word_of_nat (r mod 256)])"
proof -
  have "token_values (map (numeral_of 10) ns) = Some (map int ns)"
    unfolding token_values_def map_map using assms atoi_numeral [of _ "[]"]
    by (intro those_map) (auto simp: small_line_def)
  with assms show ?thesis by (simp add: octets_def small_line_def comp_def)
qed

text \<open>A request for the line \<open>ns\<close> of flows, with the address \<open>a\<close>.\<close>

definition request_of :: "(bytes \<Rightarrow> u16) \<Rightarrow> nat list \<Rightarrow> bytes \<Rightarrow> bytes \<Rightarrow> bytes" where
  "request_of cksum ns a p = ip_bytes cksum a
     @ get_header_bytes (request_header (word_of_nat (ns ! 0), word_of_nat (ns ! 1), 10)) @ p"

definition addr_of :: "nat list list \<Rightarrow> client_env \<Rightarrow> bytes" where
  "addr_of pre v = map word_of_nat (pre ! (rand1 v mod 97375)) @ [word_of_nat (rand2 v mod 256)]"

definition env_ok :: "nat list list \<Rightarrow> client_env \<Rightarrow> bool" where
  "env_ok pre v \<longleftrightarrow> rand1 v mod 97375 < length pre \<and> (\<exists>u. flow_after v = NUL # u) \<and> (\<exists>u. prefix_after v = NUL # u)"

lemma smaction_line:
  assumes "small_line ns" and "\<forall>l \<in> set pre. small_line l" and "env_ok pre v"
  shows "smaction cksum v \<lparr>buffer = numbers (CHR '' '') ns @ NL # s, buffer2 = text_of pre\<rparr> p
    = Some (\<lparr>buffer = s, buffer2 = text_of pre\<rparr>, request_of cksum ns (addr_of pre v) p)"
proof -
  let ?i = "rand1 v mod 97375"
  have i: "?i < length pre" using assms(3) by (simp add: env_ok_def)
  then have l: "small_line (pre ! ?i)" using assms(2) by simp
  have "skip_lines ?i (text_of pre) = Some (numbers (CHR '' '') (pre ! ?i) @ NL # text_of (drop (Suc ?i) pre))"
    using skip_lines_text [OF assms(2), of ?i] i by (simp add: Cons_nth_drop_Suc [symmetric])
  then show ?thesis
    using assms(3) line_plain [OF assms(1)] line_plain [OF l]
    by (auto simp: smaction_def env_ok_def copy_line_text c_text_plain cc_numbers_line [OF assms(1)] octets_line [OF l]
        Let_def request_of_def addr_of_def)
qed

text \<open>The fields of a request behind an Ethernet header.\<close>

lemma request_fields:
  assumes "length e = 14" and "length a = 4"
  shows "length (e @ request_of cksum ns a p) = 130 + length p"
    and "get8 (e @ request_of cksum ns a p) 14 = 0x45" and "get16 (e @ request_of cksum ns a p) 16 = bswap16 116"
    and "get8 (e @ request_of cksum ns a p) 34 = 160" and "get8 (e @ request_of cksum ns a p) 44 = 0"
    and "get32 (e @ request_of cksum ns a p) 114 = word_of_nat (ns ! 0)"
    and "get32 (e @ request_of cksum ns a p) 118 = word_of_nat (ns ! 1)"
    and "slice (e @ request_of cksum ns a p) 62 16 = replicate 15 0 @ [10]"
    and "slice (e @ request_of cksum ns a p) 78 20 = replicate 19 0 @ [100]"
    and "slice (e @ request_of cksum ns a p) 26 4 = a" and "slice (e @ request_of cksum ns a p) 30 4 = a"
  using assms
  by (simp_all add: request_of_def ip_bytes_def get_header_bytes_def request_header_def within_simps buf_simps Let_def)
    (simp_all add: slice_def)

text \<open>What \<open>click_in_cksum\<close> is for.\<close>

definition cksum_law :: "(bytes \<Rightarrow> u16) \<Rightarrow> bool" where
  "cksum_law cksum \<longleftrightarrow> (\<forall>hh. length hh = 20 \<and> get16 hh 10 = 0 \<longrightarrow> header_verifies (put hh 10 (le_bytes 2 (cksum hh))) 0)"

lemma header_verifies_shift:
  assumes "length e = k" and "length h = 20"
  shows "header_verifies (e @ h @ p) k \<longleftrightarrow> header_verifies h 0"
proof -
  have "words_nat (e @ h @ p) k = words_nat h 0"
    using assms by (simp add: words_nat_def within_simps numeral_2_eq_2)
  with assms show ?thesis by (simp add: header_verifies_iff)
qed

lemma ip_bytes_verify:
  assumes "cksum_law cksum" and "length a = 4"
  shows "length (ip_bytes cksum a) = 20" and "header_verifies (ip_bytes cksum a) 0"
proof -
  let ?hh = "[0x45, 0] @ le_bytes 2 (bswap16 116) @ [0, 0, 0, 0, 255, 10, 0, 0] @ a @ a"
  have "get16 ?hh 10 = 0" by (simp add: within_simps get16_def) (simp add: slice_def un_le.simps)
  moreover have "length ?hh = 20" using assms(2) by simp
  ultimately show "header_verifies (ip_bytes cksum a) 0"
    using assms(1) unfolding cksum_law_def ip_bytes_def Let_def by blast
  show "length (ip_bytes cksum a) = 20" using assms(2) by (simp add: ip_bytes_def Let_def)
qed

definition asks_for :: "bytes \<Rightarrow> nat list \<Rightarrow> bytes \<Rightarrow> bool" where
  "asks_for f ns a \<longleftrightarrow> get8 f 34 = 160 \<and> get32 f 114 = word_of_nat (ns ! 0) \<and> get32 f 118 = word_of_nat (ns ! 1)
     \<and> slice f 26 4 = a \<and> slice f 30 4 = a \<and> header_verifies f 14"

lemma client_run_lines:
  assumes "\<forall>l \<in> set pre. small_line l"
  shows "\<lbrakk>\<forall>l \<in> set fs. small_line l; \<forall>(v, p) \<in> set ps. env_ok pre v; length ps \<le> length fs\<rbrakk> \<Longrightarrow>
    client_run cksum (ps @ ts) \<lparr>buffer = text_of fs @ s, buffer2 = text_of pre\<rparr> = do {
      (c, qs) \<leftarrow> client_run cksum ts \<lparr>buffer = text_of (drop (length ps) fs) @ s, buffer2 = text_of pre\<rparr>;
      Some (c, map (\<lambda>(ns, v, p). request_of cksum ns (addr_of pre v) p) (zip fs ps) @ qs) }"
proof (induction ps arbitrary: fs)
  case Nil
  then show ?case by (cases "client_run cksum ts \<lparr>buffer = text_of fs @ s, buffer2 = text_of pre\<rparr>") auto
next
  case (Cons vp ps)
  obtain v p where vp: "vp = (v, p)" by (cases vp) auto
  from Cons.prems(3) obtain ns fs' where fs: "fs = ns # fs'" by (cases fs) auto
  have step: "smaction cksum v \<lparr>buffer = numbers (CHR '' '') ns @ NL # text_of fs' @ s, buffer2 = text_of pre\<rparr> p
    = Some (\<lparr>buffer = text_of fs' @ s, buffer2 = text_of pre\<rparr>, request_of cksum ns (addr_of pre v) p)"
    using Cons.prems fs vp by (intro smaction_line assms) auto
  note IH = Cons.IH [of fs']
  show ?case
    using IH Cons.prems fs vp step
    by (cases "client_run cksum ts \<lparr>buffer = text_of (drop (length ps) fs') @ s, buffer2 = text_of pre\<rparr>") auto
qed

text \<open>C21: A run of the client. With files of numbers, zeros behind the lines in the arrays and random numbers within the file of prefixes, the client makes one
  request for every packet, and request \<open>i\<close> carries the two numbers of line \<open>i\<close> of the file of flows, in the byte
  order of the host, comes from the address of a line of the prefixes completed by a random byte, goes to the same address, and has an IPv4
  header that verifies. It does not stop: the packet after the last line is undefined behaviour.\<close>

theorem client_reads_flows:
  assumes "cksum_law cksum" and "\<forall>l \<in> set pre. small_line l" and "\<forall>l \<in> set fs. small_line l"
    and "\<forall>(v, p) \<in> set ps. env_ok pre v" and "length ps \<le> length fs" and "length e = 14"
  shows "\<exists>qs. client_run cksum ps \<lparr>buffer = text_of fs, buffer2 = text_of pre\<rparr>
      = Some (\<lparr>buffer = text_of (drop (length ps) fs), buffer2 = text_of pre\<rparr>, qs)
    \<and> length qs = length ps
    \<and> (\<forall>i < length ps. length (qs ! i) = 116 + length (snd (ps ! i)) \<and> asks_for (e @ qs ! i) (fs ! i) (addr_of pre (fst (ps ! i))))
    \<and> (length ps = length fs \<longrightarrow> (\<forall>v p. client_run cksum (ps @ [(v, p)]) \<lparr>buffer = text_of fs, buffer2 = text_of pre\<rparr> = None))"
proof -
  let ?qs = "map (\<lambda>(ns, v, p). request_of cksum ns (addr_of pre v) p) (zip fs ps)"
  have run: "client_run cksum ps \<lparr>buffer = text_of fs, buffer2 = text_of pre\<rparr>
      = Some (\<lparr>buffer = text_of (drop (length ps) fs), buffer2 = text_of pre\<rparr>, ?qs)"
    using client_run_lines [OF assms(2-5), of cksum "[]" "[]"] by simp
  have "length (?qs ! i) = 116 + length (snd (ps ! i)) \<and> asks_for (e @ ?qs ! i) (fs ! i) (addr_of pre (fst (ps ! i)))"
    if "i < length ps" for i
  proof -
    obtain v p where vp: "ps ! i = (v, p)" by (cases "ps ! i") auto
    have q: "?qs ! i = request_of cksum (fs ! i) (addr_of pre v) p" using that assms(5) vp by simp
    have "env_ok pre v" using assms(4) that vp by (metis (no_types, lifting) case_prodD nth_mem)
    then have a: "length (addr_of pre v) = 4" using assms(2) by (simp add: addr_of_def env_ok_def small_line_def)
    note f = request_fields [OF assms(6) a]
    have "header_verifies (e @ request_of cksum (fs ! i) (addr_of pre v) p) 14"
      unfolding request_of_def using ip_bytes_verify [OF assms(1) a] header_verifies_shift [OF assms(6)] by blast
    with f [of cksum "fs ! i" p] assms(6) show ?thesis unfolding q vp by (simp add: asks_for_def)
  qed
  moreover have "client_run cksum (ps @ [(v, p)]) \<lparr>buffer = text_of fs, buffer2 = text_of pre\<rparr> = None"
    if "length ps = length fs" for v p
    using client_run_lines [OF assms(2-5), of cksum "[(v, p)]" "[]"] that
    by (simp add: smaction_def copy_line_text(2) [of "[]", simplified])
  ultimately show ?thesis using run assms(5) by (intro exI [of _ ?qs]) simp
qed

definition sample_env :: client_env where
  "sample_env = \<lparr>flow_after = [NUL], prefix_after = [NUL], cc_junk = (0, 0, 0), octets_junk = [0, 0, 0], rand1 = 0, rand2 = 300\<rparr>"

definition rte_cksum :: "bytes \<Rightarrow> u16" where
  "rte_cksum hh = the (rte_ipv4_cksum hh 0)"

lemma rte_cksum_law: "cksum_law rte_cksum"
proof -
  have "header_verifies (put hh 10 (le_bytes 2 (rte_cksum hh))) 0" if "length hh = 20" "get16 hh 10 = 0" for hh
    using rte_ipv4_cksum_correct [of 0 hh] that by (auto simp: rte_cksum_def buf_simps)
  then show ?thesis by (simp add: cksum_law_def)
qed

lemma sample_lines: "small_line [10, 0, 1]" "small_line [3, 4, 5]" "env_ok [[10, 0, 1]] sample_env"
  by (simp_all add: small_line_def env_ok_def sample_env_def)

theorem client_reads_flows_witness:
  "\<exists>q. client_run rte_cksum [(sample_env, [])] \<lparr>buffer = text_of [[3, 4, 5]], buffer2 = text_of [[10, 0, 1]]\<rparr>
      = Some (\<lparr>buffer = [], buffer2 = text_of [[10, 0, 1]]\<rparr>, [q])
    \<and> asks_for (replicate 14 0 @ q) [3, 4, 5] [10, 0, 1, 44]"
proof -
  have "addr_of [[10, 0, 1]] sample_env = [10, 0, 1, 44]" by (simp add: addr_of_def sample_env_def)
  with client_reads_flows [OF rte_cksum_law, of "[[10, 0, 1]]" "[[3, 4, 5]]" "[(sample_env, [])]" "replicate 14 0"] sample_lines
  show ?thesis by (auto simp: length_Suc_conv)
qed

section \<open>From the client to the next domain\<close>

text \<open>A frame as the manager has it in a packet buffer, with room for an identifier.\<close>

definition received_as :: "bytes \<Rightarrow> mbuf \<Rightarrow> bool" where
  "received_as f m \<longleftrightarrow> frame m = f \<and> length f < 65000 \<and> data_len m = word_of_nat (length f) \<and> pkt_len m = word_of_nat (length f)
     \<and> length f + 4 \<le> length (mdata m) \<and> length (mdata m) < 65536"

lemma received_as_L: "received_as f m \<Longrightarrow> unat (data_len m) = length f"
  using unat_word_of_nat [of "length f", where 'a = 16] by (simp add: received_as_def)

lemma request_valid:
  assumes "received_as (e @ request_of cksum ns a p) m" and "length e = 14" and "length a = 4"
  shows "valid_request m"
proof -
  let ?f = "e @ request_of cksum ns a p"
  note f = request_fields [OF assms(2,3), of cksum ns p]
  note L = received_as_L [OF assms(1)]
  have n: "length ?f = 130 + length p" "length ?f + 4 \<le> length (mdata m)" "length ?f < 65000"
    using f(1) assms(1) by (simp_all add: received_as_def)
  have "get8 (mdata m) 14 = 0x45" "get16 (mdata m) 16 = bswap16 116"
    using f(2,3) L n get_frame(1) [of 14 m] get_frame(2) [of 16 m] assms(1) by (simp_all add: received_as_def)
  moreover have "drop_bit 4 (0x45 :: u8) = 4" "\<not> (0x45 AND 0xf :: u8) < 5" "\<not> bswap16 (bswap16 116 + 4) < 20" by code_simp+
  moreover have "\<not> pkt_len m < 20"
  proof -
    have "pkt_len m = word_of_nat (length ?f)" using assms(1) by (simp only: received_as_def)
    moreover have "unat (word_of_nat (length ?f) :: u32) = length ?f" using n(3) by (intro unat_word_of_nat) simp
    ultimately have "unat (pkt_len m) = length ?f" by simp
    then show ?thesis using n(1) by (simp add: word_less_nat_alt)
  qed
  moreover have "46 \<le> data_len m" using L n(1) by (simp add: word_le_nat_alt)
  ultimately show ?thesis
    using n L by (simp add: valid_request_def room_for_pid_def is_valid_ipv4_pkt_def buf_simps)
qed

text \<open>C3: From the client to the border of the domain. The request that the client makes of a line of flows
  is one the resource manager forwards: it appends the identifier of one of its three paths and counts it, and a border router at the far end of that path
  sends the packet on along that identifier. The service that is asked for and the numbers of the flow come out as the client put them in.\<close>

theorem client_request_crosses_domain:
  assumes "small_line ns" and "\<forall>l \<in> set pre. small_line l" and "env_ok pre w" and "length e = 14"
    and "rr_ok s" and "length p < 60000"
  shows "\<exists>q. smaction cksum w \<lparr>buffer = numbers (CHR '' '') ns @ NL # t, buffer2 = text_of pre\<rparr> p
        = Some (\<lparr>buffer = t, buffer2 = text_of pre\<rparr>, q)
    \<and> (\<forall>m. received_as (e @ q) m \<longrightarrow> (\<exists>k m' s'. get_packets_forward mac m s = Some (Transmit (word_of_nat k) m', s') \<and> k \<in> {1, 2, 3}
        \<and> (\<forall>r v. my_addr ops r (bswap32 (IPv4 192 168 (word_of_nat (k + 1)) 2)) \<longrightarrow> (\<exists>out.
            push ops v 0 (frame m') r = Some (r, Some (nic_to ops r (next_hop ops r (pid_chars (0x30 + word_of_nat k))), out))
            \<and> get32 out 30 = next_hop ops r (pid_chars (0x30 + word_of_nat k))
            \<and> length out = 134 + length p \<and> drop (130 + length p) out = pid_chars (0x30 + word_of_nat k) \<and> get8 out 44 = 1
            \<and> slice out 78 20 = replicate 19 0 @ [100]
            \<and> get32 out 114 = word_of_nat (ns ! 0) \<and> get32 out 118 = word_of_nat (ns ! 1)))))"
proof -
  let ?a = "addr_of pre w" and ?q = "request_of cksum ns (addr_of pre w) p"
  have a: "length ?a = 4" using assms(2,3) by (simp add: addr_of_def env_ok_def small_line_def)
  note f = request_fields [OF assms(4) a, of cksum ns p]
  have "\<exists>k m' s'. get_packets_forward mac m s = Some (Transmit (word_of_nat k) m', s') \<and> k \<in> {1, 2, 3}
        \<and> (\<forall>r v. my_addr ops r (bswap32 (IPv4 192 168 (word_of_nat (k + 1)) 2)) \<longrightarrow> (\<exists>out.
            push ops v 0 (frame m') r = Some (r, Some (nic_to ops r (next_hop ops r (pid_chars (0x30 + word_of_nat k))), out))
            \<and> get32 out 30 = next_hop ops r (pid_chars (0x30 + word_of_nat k))
            \<and> length out = 134 + length p \<and> drop (130 + length p) out = pid_chars (0x30 + word_of_nat k) \<and> get8 out 44 = 1
            \<and> slice out 78 20 = replicate 19 0 @ [100]
            \<and> get32 out 114 = word_of_nat (ns ! 0) \<and> get32 out 118 = word_of_nat (ns ! 1)))"
    if m: "received_as (e @ ?q) m" for m
  proof -
    have L: "unat (data_len m) = 130 + length p" using received_as_L [OF m] f(1) by simp
    have fr: "frame m = e @ ?q" "length (mdata m) < 65536" using m by (simp_all add: received_as_def)
    have md: "slice (mdata m) q n = slice (e @ ?q) q n" if "q + n \<le> 130 + length p" for q n
      using slice_frame [of q n m] that L fr(1) by simp
    have v: "get8 (mdata m) 34 = 160" "get8 (mdata m) 44 = 0"
      using f(4,5) get_frame(1) [of 34 m] get_frame(1) [of 44 m] L fr(1) by simp_all
    have wide: "110 \<le> unat (data_len m)" using L by simp
    obtain k m' s' where k: "get_packets_forward mac m s = Some (Transmit (word_of_nat k) m', s')" "k \<in> {1, 2, 3}"
      and g: "length (frame m') = unat (data_len m) + 4" "get8 (frame m') 34 = 160"
        "get32 (frame m') 30 = bswap32 (IPv4 192 168 (word_of_nat (k + 1)) 2)" "color_len (frame m') + 34 = length (frame m')"
        "last_pid (frame m') = pid_chars (0x30 + word_of_nat k)" "get8 (frame m') 44 = get8 (mdata m) 44 + 1"
        "slice (frame m') 45 (unat (data_len m) - 45) = slice (mdata m) 45 (unat (data_len m) - 45)"
      using forwarded_frame [OF assms(5) request_valid [OF m assms(4) a] v(1) wide fr(2), of mac] by blast
    have sl: "slice (frame m') q n = slice (e @ ?q) q n" if "45 \<le> q" "q + n \<le> 130 + length p" for q n
    proof -
      have "slice (slice (frame m') 45 (unat (data_len m) - 45)) (q - 45) n = slice (frame m') q n"
        using that L by (subst slice_slice) simp_all
      moreover have "slice (slice (mdata m) 45 (unat (data_len m) - 45)) (q - 45) n = slice (mdata m) q n"
        using that L by (subst slice_slice) simp_all
      ultimately show ?thesis using g(7) md [of q n] that(2) by simp
    qed
    have key: "key_of (pid_chars (0x30 + word_of_nat k)) = pid_chars (0x30 + word_of_nat k)"
      using k(2) by (intro key_of_id) (auto simp: pid_chars_def)
    have "\<exists>out. push ops v 0 (frame m') r = Some (r, Some (nic_to ops r (next_hop ops r (pid_chars (0x30 + word_of_nat k))), out))
            \<and> get32 out 30 = next_hop ops r (pid_chars (0x30 + word_of_nat k))
            \<and> length out = 134 + length p \<and> drop (130 + length p) out = pid_chars (0x30 + word_of_nat k) \<and> get8 out 44 = 1
            \<and> slice out 78 20 = replicate 19 0 @ [100]
            \<and> get32 out 114 = word_of_nat (ns ! 0) \<and> get32 out 118 = word_of_nat (ns ! 1)"
      if r: "my_addr ops r (bswap32 (IPv4 192 168 (word_of_nat (k + 1)) 2))" for r v
    proof -
      let ?out = "snd (sent_to ops r (next_hop ops r (pid_chars (0x30 + word_of_nat k))) (frame m'))"
      have push: "push ops v 0 (frame m') r = Some (r, Some (sent_to ops r (next_hop ops r (pid_chars (0x30 + word_of_nat k))) (frame m')))"
        using push_request [of ops r "frame m'" v] r g(1-5) key L by simp
      have o: "length ?out = 134 + length p" "slice ?out q n = slice (frame m') q n" "get8 ?out q = get8 (frame m') q"
        if "34 \<le> q" for q n
        using that g(1) L by (simp_all add: sent_to_def)
      have d: "drop q xs = slice xs q (length xs - q)" for q and xs :: bytes by (simp add: slice_def)
      have "drop (130 + length p) ?out = slice (frame m') (130 + length p) 4"
        using o(1,2) [of "130 + length p"] unfolding d by simp
      also have "\<dots> = last_pid (frame m')" using g(1,4) L by (simp add: last_pid_def)
      finally have "drop (130 + length p) ?out = pid_chars (0x30 + word_of_nat k)" by (simp only: g(5))
      moreover have "get32 ?out 30 = next_hop ops r (pid_chars (0x30 + word_of_nat k))"
        using g(1) L by (simp add: sent_to_def)
      moreover have "slice ?out 78 20 = replicate 19 0 @ [100]" using o(2) [of 78 20] sl [of 78 20] f(9) by simp
      moreover have "get32 ?out 114 = word_of_nat (ns ! 0)" "get32 ?out 118 = word_of_nat (ns ! 1)"
        using o(2) [of 114 4] o(2) [of 118 4] sl [of 114 4] sl [of 118 4] f(6,7) by (simp_all add: get32_def)
      moreover have "get8 ?out 44 = 1" using o(3) [of 44] g(6) v(2) by simp
      moreover have "length ?out = 134 + length p" using o(1) [of 34] by simp
      ultimately show ?thesis using push by (intro exI [of _ ?out]) (simp add: sent_to_def)
    qed
    with k show ?thesis by blast
  qed
  with smaction_line [OF assms(1-3), of cksum t p] show ?thesis by blast
qed

theorem client_request_crosses_domain_witness:
  "\<exists>q m k m' s'. smaction rte_cksum sample_env \<lparr>buffer = numbers (CHR '' '') [3, 4, 5] @ NL # [], buffer2 = text_of [[10, 0, 1]]\<rparr> []
        = Some (\<lparr>buffer = [], buffer2 = text_of [[10, 0, 1]]\<rparr>, q)
    \<and> received_as (replicate 14 0 @ q) m \<and> get_packets_forward (\<lambda>_. 9) m rr_init = Some (Transmit (word_of_nat k) m', s')
    \<and> (\<exists>x. push fun_maps \<lparr>after = [], room = [], rawtime = 0\<rparr> 0 (frame m')
          ((IPBorderRouter fun_maps [])\<lparr>s_ip := \<lambda>_. bswap32 (IPv4 192 168 (word_of_nat (k + 1)) 2)\<rparr>) = Some x)"
proof -
  have small: "\<forall>l \<in> set [[10, 0, 1]]. small_line l" using sample_lines by simp
  have e: "length (replicate 14 (0 :: u8)) = 14" "length ([] :: bytes) < 60000" by simp_all
  from client_request_crosses_domain [OF sample_lines(2) small sample_lines(3) e(1) rr_ok_init e(2), where ops = fun_maps, of rte_cksum "[]" "\<lambda>_. 9"]
  obtain q where q: "smaction rte_cksum sample_env \<lparr>buffer = numbers (CHR '' '') [3, 4, 5] @ NL # [], buffer2 = text_of [[10, 0, 1]]\<rparr> []
        = Some (\<lparr>buffer = [], buffer2 = text_of [[10, 0, 1]]\<rparr>, q)"
    and out: "\<And>m. received_as (replicate 14 0 @ q) m \<Longrightarrow> \<exists>k m' s'. get_packets_forward (\<lambda>_. 9) m rr_init = Some (Transmit (word_of_nat k) m', s')
        \<and> (\<forall>r v. my_addr fun_maps r (bswap32 (IPv4 192 168 (word_of_nat (k + 1)) 2)) \<longrightarrow> (\<exists>x. push fun_maps v 0 (frame m') r = Some x))"
  proof (elim exE conjE, goal_cases)
    case (1 q)
    show ?case
    proof (rule 1(1) [OF 1(2)], goal_cases)
      case (1 m)
      with \<open>\<forall>m. _ m \<longrightarrow> _ m\<close> show ?case by meson
    qed
  qed
  have "length q = 116"
    using smaction_line [OF sample_lines(2) small sample_lines(3), of rte_cksum "[]" "[]"] q
      request_fields(1) [OF e(1), of "addr_of [[10, 0, 1]] sample_env" rte_cksum "[3, 4, 5]" "[]"]
    by (auto simp: addr_of_def sample_env_def)
  then have "received_as (replicate 14 0 @ q) \<lparr>mid = 0, mdata = replicate 14 0 @ q @ replicate 4 0, data_len = 130, pkt_len = 130, rx_ipv4 = True\<rparr>"
    by (simp add: received_as_def frame_def)
  moreover have "my_addr fun_maps ((IPBorderRouter fun_maps [])\<lparr>s_ip := \<lambda>_. a\<rparr>) a" for a
    by (simp add: my_addr_def fun_maps_def fun_map_def)
  ultimately show ?thesis using q out by blast
qed

end
