(* ===== verification/Core_Timers.thy ===== *)
theory Core_Timers
  imports Pid_Chain Pid_Select
begin

text \<open>
  The clocks of the resource manager in \<open>RM/main.c\<close>: the alarm that flips the mode flag
  (\<open>set_timer\<close> with \<open>signal_handler\<close>), the part of \<open>main_loop\<close> before its loop, the part of a round
  that lets the timer library run on core 5, and the callback \<open>timer0_cb\<close>.

  The timer library of DPDK is not under \<open>src/\<close>: whether a call of \<open>rte_timer_manage\<close> runs the callback is
  an argument. The callback looks for the paths on which this side would start a negotiation; the call that would
  send the request is a comment, so what it finds is shown in its result only for the theorems.
\<close>

section \<open>The alarm\<close>

record itimerval =
  it_interval_sec :: nat
  it_interval_usec :: nat
  it_value_sec :: nat
  it_value_usec :: nat

definition set_timer :: itimerval where
  "set_timer = \<lparr>it_interval_sec = 1000, it_interval_usec = 0, it_value_sec = 1000, it_value_usec = 0\<rparr>"

text \<open>An interval timer expires when its value has run off, and then at every interval; a value of zero disarms it,
  an interval of zero makes it expire once.\<close>

definition usecs :: "nat \<Rightarrow> nat \<Rightarrow> nat" where
  "usecs sec usec = sec * 1000000 + usec"

definition expirations :: "itimerval \<Rightarrow> nat \<Rightarrow> nat" where
  "expirations t now =
     (let v = usecs (it_value_sec t) (it_value_usec t); i = usecs (it_interval_sec t) (it_interval_usec t)
      in if v = 0 \<or> now < v then 0 else if i = 0 then 1 else (now - v) div i + 1)"

text \<open>The mode flag, initially 0, so many microseconds after the start.\<close>

definition biaozhi_at :: "nat \<Rightarrow> int" where
  "biaozhi_at now = (signal_handler ^^ expirations set_timer now) 0"

lemma signal_handler_power: "(signal_handler ^^ n) 0 = int (n mod 2)"
proof (induction n)
  case (Suc n)
  then show ?case by (cases "even n") (auto simp: signal_handler_def even_iff_mod_2_eq_zero mod_Suc)
qed simp

text \<open>The mode flag alternates every thousand seconds: it is 0 in the seconds 0 to 999, 1 in the next
  thousand, and so on, and never another value.\<close>

theorem mode_alternates: "biaozhi_at now = int ((now div 1000000000) mod 2)"
proof -
  have "expirations set_timer now = now div 1000000000"
    by (simp add: expirations_def set_timer_def usecs_def div_if [of now])
  then show ?thesis by (simp add: biaozhi_at_def signal_handler_power)
qed

section \<open>The start of a worker\<close>

definition US_PER_S :: u64 where "US_PER_S = 1000000"
definition BURST_TX_DRAIN_US :: u64 where "BURST_TX_DRAIN_US = 100"
definition PID_run_lcore :: nat where "PID_run_lcore = 5"

text \<open>The cycles between two drains, from the frequency of the time stamp counter.\<close>

definition drain_cycles :: "u64 \<Rightarrow> u64" where
  "drain_cycles hz = (hz + US_PER_S - 1) div US_PER_S * BURST_TX_DRAIN_US"

record worker =
  w_core :: nat
  w_drain :: u64
  w_timer :: "u64 option"
  w_prev :: u64

text \<open>A core without receive queues returns; core 5 arms the timer with a period of 100 seconds.\<close>

definition start_worker :: "nat \<Rightarrow> nat \<Rightarrow> u64 \<Rightarrow> worker option" where
  "start_worker lcore_id n_rx_queue hz =
     (if n_rx_queue = 0 then None
      else Some \<lparr>w_core = lcore_id, w_drain = drain_cycles hz,
        w_timer = (if lcore_id = PID_run_lcore then Some (100 * hz) else None), w_prev = 0\<rparr>)"

section \<open>The callback\<close>

text \<open>The inner loop: the first path to the neighbour of which this host is the lesser end.\<close>

fun sponsor :: "nid \<Rightarrow> nid \<Rightarrow> path_entry list \<Rightarrow> path_entry option" where
  "sponsor h n [] = None"
| "sponsor h n (e # tab) =
     (if to_neighbour h n e \<and> compare_nid (eid1 e) (eid2 e) \<le> 0 then Some e else sponsor h n tab)"

text \<open>The callback counts its calls in an \<open>int\<close> and looks at every neighbour.\<close>

definition timer0_cb :: "nid \<Rightarrow> path_entry list \<Rightarrow> pid_info list \<Rightarrow> int \<Rightarrow> (int \<times> path_entry option list) option" where
  "timer0_cb h tab chain negotiation_cycle = do {
     guard (negotiation_cycle < 2147483647);
     Some (negotiation_cycle + 1, map (\<lambda>n. sponsor h (EID n) tab) chain) }"

text \<open>The part of a round that is run on core 5. The library has at most one timer; \<open>due\<close> says
  whether it runs it at this call.\<close>

definition timer_part :: "(u64 \<Rightarrow> bool) \<Rightarrow> nid \<Rightarrow> path_entry list \<Rightarrow> pid_info list \<Rightarrow> u64 \<Rightarrow> u64 \<Rightarrow> worker \<times> int \<Rightarrow>
    (worker \<times> int) option" where
  "timer_part due h tab chain hz cur_tsc2 s = (case s of (w, cycle) \<Rightarrow>
     if w_core w = PID_run_lcore \<and> cur_tsc2 - w_prev w > hz div 1000 then do {
       cycle \<leftarrow> (if w_timer w \<noteq> None \<and> due cur_tsc2 then do { (c, _) \<leftarrow> timer0_cb h tab chain cycle; Some c } else Some cycle);
       Some (w\<lparr>w_prev := cur_tsc2\<rparr>, cycle) }
     else Some (w, cycle))"

fun timer_parts :: "(u64 \<Rightarrow> bool) \<Rightarrow> nid \<Rightarrow> path_entry list \<Rightarrow> pid_info list \<Rightarrow> u64 \<Rightarrow> u64 list \<Rightarrow> worker \<times> int \<Rightarrow>
    (worker \<times> int) option" where
  "timer_parts due h tab chain hz [] s = Some s"
| "timer_parts due h tab chain hz (t # ts) s = do { s \<leftarrow> timer_part due h tab chain hz t s; timer_parts due h tab chain hz ts s }"

section \<open>What the callback finds\<close>

lemma sponsor_None: "sponsor h n tab = None \<longleftrightarrow> (\<forall>e \<in> set tab. eid1 e = h \<and> eid2 e = n \<longrightarrow> \<not> h \<le> n)"
  by (induction tab) (auto simp: to_neighbour_def less_eq_nid_def)

text \<open>A path between two hosts, in either direction.\<close>

definition joins :: "nid \<Rightarrow> nid \<Rightarrow> path_entry \<Rightarrow> bool" where
  "joins a b e \<longleftrightarrow> eid1 e = a \<and> eid2 e = b \<or> eid1 e = b \<and> eid2 e = a"

lemma align_joins: "a \<noteq> b \<Longrightarrow> eid1 (align_entry a e) = a \<and> eid2 (align_entry a e) = b \<longleftrightarrow> joins a b e"
  by (auto simp: align_entry_def joins_def)

lemma sponsor_aligned:
  "a \<noteq> b \<Longrightarrow> sponsor a b (aligment_configure a tab) \<noteq> None \<longleftrightarrow> (\<exists>e \<in> set tab. joins a b e) \<and> a < b"
  using align_joins [of a b] by (auto simp: sponsor_None aligment_configure_def order.strict_iff_order)

text \<open>Exactly one of the two ends of a path is to start a negotiation: for two different hosts whose path tables
  join them, both aligned at start-up, the callback of exactly the one with the lesser identifier finds a path to the other;
  without a path, neither does.\<close>

theorem one_end_sponsors:
  assumes "a \<noteq> b" and "\<forall>e. joins a b e \<longrightarrow> e \<in> set tab_a \<longleftrightarrow> e \<in> set tab_b"
    and "c < 2147483647" and "d < 2147483647"
  shows "timer0_cb a (aligment_configure a tab_a) [\<lparr>EID = b, ID = i, pid_change_time = x, number_pid = n, pid = ps\<rparr>] c
      = Some (c + 1, [sponsor a b (aligment_configure a tab_a)])
    \<and> timer0_cb b (aligment_configure b tab_b) [\<lparr>EID = a, ID = j, pid_change_time = y, number_pid = m, pid = qs\<rparr>] d
      = Some (d + 1, [sponsor b a (aligment_configure b tab_b)])
    \<and> (if \<exists>e \<in> set tab_a. joins a b e
       then (sponsor a b (aligment_configure a tab_a) \<noteq> None) \<noteq> (sponsor b a (aligment_configure b tab_b) \<noteq> None)
         \<and> (sponsor a b (aligment_configure a tab_a) \<noteq> None \<longleftrightarrow> a < b)
       else sponsor a b (aligment_configure a tab_a) = None \<and> sponsor b a (aligment_configure b tab_b) = None)"
proof -
  have "joins b a e = joins a b e" for e by (auto simp: joins_def)
  then have "(\<exists>e \<in> set tab_b. joins b a e) = (\<exists>e \<in> set tab_a. joins a b e)" using assms(2) by blast
  with sponsor_aligned [OF assms(1), of tab_a] sponsor_aligned [OF assms(1) [symmetric], of tab_b] assms(1,3,4) show ?thesis
    by (cases "a < b"; cases "\<exists>e \<in> set tab_a. joins a b e") (auto simp add: timer0_cb_def not_less_iff_gr_or_eq)
qed

theorem one_end_sponsors_witness:
  "let e = \<lparr>eid1 = Nid [2], ip1 = 1, path_pid = 9, ip2 = 2, eid2 = Nid [1]\<rparr> in
   (sponsor (Nid [1]) (Nid [2]) (aligment_configure (Nid [1]) [e]) \<noteq> None)
     \<noteq> (sponsor (Nid [2]) (Nid [1]) (aligment_configure (Nid [2]) [e]) \<noteq> None)"
  using one_end_sponsors [of "Nid [1]" "Nid [2]" "[\<lparr>eid1 = Nid [2], ip1 = 1, path_pid = 9, ip2 = 2, eid2 = Nid [1]\<rparr>]"
      "[\<lparr>eid1 = Nid [2], ip1 = 1, path_pid = 9, ip2 = 2, eid2 = Nid [1]\<rparr>]" 0 0]
  by (simp add: joins_def Let_def)

section \<open>The rounds\<close>

text \<open>The timer part of a round: on another core than core 5 nothing ever happens; on core 5 the
  counter of negotiations never falls and grows by at most one for each reading of the clock at which the timer is due, so
  it is untouched if it is never due, and it cannot overflow before two thousand million rounds.\<close>

theorem timer_part_bounded:
  assumes "start_worker lcore n_rx hz = Some w" and "0 \<le> cycle" and "cycle + int (length ts) \<le> 2147483647"
  shows "(lcore \<noteq> PID_run_lcore \<longrightarrow> timer_parts due h tab chain hz ts (w, cycle) = Some (w, cycle))
    \<and> (\<exists>w' cycle'. timer_parts due h tab chain hz ts (w, cycle) = Some (w', cycle')
        \<and> cycle \<le> cycle' \<and> cycle' \<le> cycle + int (length (filter due ts)))"
proof -
  have step: "\<exists>w' c'. timer_part due h tab chain hz t (w, c) = Some (w', c') \<and> c \<le> c' \<and> c' \<le> c + (if due t then 1 else 0)
      \<and> w_core w' = w_core w \<and> (w_core w \<noteq> PID_run_lcore \<longrightarrow> w' = w \<and> c' = c)" if "c < 2147483647" for t w c
    using that by (auto simp: timer_part_def timer0_cb_def)
  have all: "\<exists>w' c'. timer_parts due h tab chain hz ts (w, c) = Some (w', c') \<and> c \<le> c'
      \<and> c' \<le> c + int (length (filter due ts)) \<and> (w_core w \<noteq> PID_run_lcore \<longrightarrow> w' = w \<and> c' = c)"
    if "c + int (length ts) \<le> 2147483647" for w c
    using that
  proof (induction ts arbitrary: w c)
    case (Cons t ts)
    then have "c < 2147483647" by simp
    from step [OF this, of t w] obtain w1 c1 where 1: "timer_part due h tab chain hz t (w, c) = Some (w1, c1)" "c \<le> c1"
      "c1 \<le> c + (if due t then 1 else 0)" "w_core w1 = w_core w" "w_core w \<noteq> PID_run_lcore \<longrightarrow> w1 = w \<and> c1 = c" by blast
    have "c1 + int (length ts) \<le> 2147483647" using 1(3) Cons.prems by (simp split: if_splits)
    from Cons.IH [OF this, of w1] 1 show ?case by (fastforce split: if_splits)
  qed simp
  have "w_core w = lcore" using assms(1) by (auto simp: start_worker_def split: if_splits)
  with all [OF assms(3), of w] show ?thesis by auto
qed

theorem timer_part_bounded_witness:
  "\<exists>w w' cycle'. start_worker 5 1 2000 = Some w \<and> timer_parts (\<lambda>t. t = 9) host_nid [] [] 2000 [9, 10, 13] (w, 0) = Some (w', cycle')
     \<and> cycle' \<le> 1"
proof -
  let ?w = "\<lparr>w_core = 5, w_drain = drain_cycles 2000, w_timer = Some (100 * 2000), w_prev = 0\<rparr> :: worker"
  have w: "start_worker 5 1 2000 = Some ?w" by (simp add: start_worker_def PID_run_lcore_def)
  from timer_part_bounded [OF w, of 0 "[9, 10, 13]" "\<lambda>t. t = 9" host_nid "[]" "[]"] w show ?thesis by auto
qed

end
