(* ===== verification/Tx_Buffer.thy ===== *)
theory Tx_Buffer
  imports Prelude
begin

text \<open>
  The transmit buffers of the resource manager (\<open>RM/main.c\<close>): \<open>struct mbuf_table\<close>, one per
  port and core, and \<open>send_burst\<close>, \<open>send_single_packet\<close> and \<open>send_packetsx4\<close> with its two
  interleaved switch/while copies.

  \<open>rte_eth_tx_burst\<close> belongs to the driver: it is a function from the packets offered to the
  number accepted, always a prefix of them. What the code does with packets is a list of
  events. Slots of the table that were never written are \<open>None\<close>; counts are far below the
  width of their C types and are natural numbers.
\<close>

definition MAX_PKT_BURST :: nat where
  "MAX_PKT_BURST = 32"

definition MAX_TX_BURST :: nat where
  "MAX_TX_BURST = 16"

datatype 'p event = Sent (pkt: 'p) | Free (pkt: 'p)

record 'p mbuf_table =
  len :: nat
  m_table :: "'p option list"

definition empty_table :: "'p mbuf_table" where
  "empty_table = \<lparr>len = 0, m_table = replicate MAX_PKT_BURST None\<rparr>"

text \<open>An access to an array of packet pointers.\<close>

definition at :: "'p option list \<Rightarrow> nat \<Rightarrow> 'p option" where
  "at m i = (if i < length m then m ! i else None)"

section \<open>Bursts\<close>

text \<open>The \<open>do ... while (++ret < n)\<close> that frees what the driver refused.\<close>

fun free_rest :: "'p option list \<Rightarrow> nat \<Rightarrow> nat \<Rightarrow> 'p event list option" where
  "free_rest m ret 0 = Some []"
| "free_rest m ret (Suc k) = do {
     p \<leftarrow> at m ret;
     es \<leftarrow> free_rest m (Suc ret) k;
     Some (Free p # es) }"

fun packets :: "'p option list \<Rightarrow> nat \<Rightarrow> 'p list option" where
  "packets m 0 = Some []"
| "packets m (Suc n) = do { ps \<leftarrow> packets m n; p \<leftarrow> at m n; Some (ps @ [p]) }"

definition tx_and_free :: "('p list \<Rightarrow> nat) \<Rightarrow> 'p option list \<Rightarrow> nat \<Rightarrow> 'p event list option" where
  "tx_and_free burst m n = do {
     ps \<leftarrow> packets m n;
     let ret = burst ps;
     fs \<leftarrow> (if ret < n then free_rest m ret (n - ret) else Some []);
     Some (map Sent (take ret ps) @ fs) }"

definition send_burst :: "('p list \<Rightarrow> nat) \<Rightarrow> 'p mbuf_table \<Rightarrow> nat \<Rightarrow> 'p event list option" where
  "send_burst burst q n = tx_and_free burst (m_table q) n"

section \<open>One packet\<close>

definition store :: "'p option list \<Rightarrow> nat \<Rightarrow> 'p option \<Rightarrow> 'p option list option" where
  "store t i p = (if i < length t then Some (t[i := p]) else None)"

definition send_single_packet ::
  "('p list \<Rightarrow> nat) \<Rightarrow> 'p mbuf_table \<Rightarrow> 'p \<Rightarrow> ('p mbuf_table \<times> 'p event list) option" where
  "send_single_packet burst q m = do {
     t \<leftarrow> store (m_table q) (len q) (Some m);
     let q = q\<lparr>m_table := t\<rparr>;
     let n = len q + 1;
     if n = MAX_PKT_BURST then do {
       es \<leftarrow> send_burst burst q MAX_PKT_BURST;
       Some (q\<lparr>len := 0\<rparr>, es) }
     else Some (q\<lparr>len := n\<rparr>, []) }"

section \<open>Many packets\<close>

text \<open>One \<open>case\<close> of the switch copies a packet pointer (whatever the source array holds there)
  and counts; \<open>copies k\<close> falls through \<open>k\<close> of them. The \<open>while\<close> around the cases re-enters at
  \<open>case 0\<close>, so each further round copies four.\<close>

fun copies :: "nat \<Rightarrow> 'p option list \<Rightarrow> nat \<Rightarrow> nat \<Rightarrow> nat \<Rightarrow> 'p option list \<Rightarrow> 'p option list option"
where
  "copies 0 m src dst j t = Some t"
| "copies (Suc k) m src dst j t = do {
     guard (src + j < length m);
     t \<leftarrow> store t (dst + j) (m ! (src + j));
     copies k m src dst (Suc j) t }"

function duff_while ::
  "nat \<Rightarrow> 'p option list \<Rightarrow> nat \<Rightarrow> nat \<Rightarrow> nat \<Rightarrow> 'p option list \<Rightarrow> 'p option list option" where
  "duff_while n m src dst j t =
     (if j < n then do { t \<leftarrow> copies 4 m src dst j t; duff_while n m src dst (j + 4) t }
      else Some t)"
  by pat_completeness auto
termination by (relation "measure (\<lambda>(n, m, src, dst, j, t). n - j)") auto

definition duff_copy ::
  "nat \<Rightarrow> 'p option list \<Rightarrow> nat \<Rightarrow> nat \<Rightarrow> 'p option list \<Rightarrow> 'p option list option" where
  "duff_copy n m src dst t = (let k = (if n mod 4 = 0 then 4 else n mod 4) in
     do { t \<leftarrow> copies k m src dst 0 t; duff_while n m src dst k t })"

text \<open>\<open>m\<close> is the array from the packet pointer passed in to its end, of which the first \<open>num\<close> are
  the packets to send.\<close>

definition send_packetsx4 :: "('p list \<Rightarrow> nat) \<Rightarrow> 'p mbuf_table \<Rightarrow> 'p option list \<Rightarrow> nat \<Rightarrow>
    ('p mbuf_table \<times> 'p event list) option" where
  "send_packetsx4 burst q m num =
     (if num \<ge> MAX_TX_BURST \<and> len q = 0 then do {
        es \<leftarrow> tx_and_free burst m num;
        Some (q, es) }
      else do {
        let n = len q + num;
        let n = (if n > MAX_PKT_BURST then MAX_PKT_BURST - len q else num);
        t \<leftarrow> duff_copy n m 0 (len q) (m_table q);
        let q = q\<lparr>m_table := t\<rparr>;
        let l = len q + n;
        if l = MAX_PKT_BURST then do {
          es \<leftarrow> send_burst burst q MAX_PKT_BURST;
          let l = num - n;
          t \<leftarrow> duff_copy l m n 0 (m_table q);
          Some (q\<lparr>m_table := t, len := l\<rparr>, es) }
        else Some (q\<lparr>len := l\<rparr>, []) })"

section \<open>The interleaved copy\<close>

definition blit :: "nat \<Rightarrow> 'p option list \<Rightarrow> nat \<Rightarrow> nat \<Rightarrow> 'p option list \<Rightarrow> 'p option list" where
  "blit n m src dst t = take dst t @ take n (drop src m) @ drop (dst + n) t"

lemma blit_0 [simp]: "dst \<le> length t \<Longrightarrow> blit 0 m src dst t = t"
  by (simp add: blit_def)

lemma length_blit [simp]:
  "src + n \<le> length m \<Longrightarrow> dst + n \<le> length t \<Longrightarrow> length (blit n m src dst t) = length t"
  by (simp add: blit_def)

lemma blit_nth:
  assumes "src + n \<le> length m" and "dst + n \<le> length t"
  shows "blit n m src dst t ! i = (if dst \<le> i \<and> i < dst + n then m ! (src + (i - dst)) else t ! i)"
proof -
  have "length (take n (drop src m)) = n" "length (take dst t) = dst" using assms by auto
  then show ?thesis
    using assms by (auto simp: blit_def nth_append)
qed

lemma blit_Suc:
  assumes "src + j < length m" and "dst + j < length t"
  shows "(blit j m src dst t)[dst + j := m ! (src + j)] = blit (Suc j) m src dst t"
  by (rule nth_equalityI) (use assms in \<open>auto simp: blit_nth nth_list_update\<close>)

lemma copies_blit:
  "src + (j + k) \<le> length m \<Longrightarrow> dst + (j + k) \<le> length t \<Longrightarrow>
   copies k m src dst j (blit j m src dst t) = Some (blit (j + k) m src dst t)"
  by (induction k arbitrary: j) (simp_all add: store_def blit_Suc)

lemma duff_while_blit:
  "4 dvd n - j \<Longrightarrow> src + n \<le> length m \<Longrightarrow> dst + n \<le> length t \<Longrightarrow> j \<le> n \<Longrightarrow>
   duff_while n m src dst j (blit j m src dst t) = Some (blit n m src dst t)"
proof (induction "n - j" arbitrary: j rule: less_induct)
  case less
  show ?case
  proof (cases "j < n")
    case True
    with less.prems(1) have "j + 4 \<le> n" using dvd_imp_le [of 4 "n - j"] by simp
    moreover from this have "4 dvd n - (j + 4)"
      using less.prems(1) by (metis dvd_diff_nat dvd_refl diff_diff_left)
    ultimately show ?thesis
      using True less.prems less.hyps [of "j + 4"] by (simp add: copies_blit)
  next
    case False
    with less.prems show ?thesis by simp
  qed
qed

declare duff_while.simps [simp del]

lemma duff_copy_blit:
  assumes "0 < n" and "src + n \<le> length m" and "dst + n \<le> length t"
  shows "duff_copy n m src dst t = Some (blit n m src dst t)"
proof -
  let ?k = "if n mod 4 = 0 then 4 else n mod 4"
  have k: "?k \<le> n" "4 dvd n - ?k"
    using assms(1) by (auto simp: dvd_minus_mod dest: dvd_imp_le)
  then have "copies ?k m src dst 0 t = Some (blit ?k m src dst t)"
    using copies_blit [of src 0 ?k m dst t] assms by simp
  then show ?thesis
    using duff_while_blit [OF k(2) assms(2,3) k(1)] by (simp add: duff_copy_def Let_def)
qed

section \<open>What happens to the packets\<close>

lemma packets_Some:
  "packets m n = Some ps \<longleftrightarrow> n \<le> length m \<and> map Some ps = take n m"
proof (induction n arbitrary: ps)
  case 0
  then show ?case by auto
next
  case (Suc n)
  show ?case
    by (cases ps rule: rev_cases)
      (auto simp: bind_eq_Some_conv Suc.IH at_def take_Suc_conv_app_nth split: if_splits)
qed

lemma free_rest_eq:
  "map Some ps = take (ret + k) m \<Longrightarrow> ret + k \<le> length m \<Longrightarrow>
   free_rest m ret k = Some (map Free (drop ret ps))"
proof (induction k arbitrary: ret)
  case 0
  then have "length ps \<le> ret" by (metis length_map length_take min.cobounded2 add_0_right)
  then show ?case by simp
next
  case (Suc k)
  from Suc.prems have l: "length ps = ret + Suc k"
    by (metis length_map length_take min.absorb2)
  have "m ! ret = take (ret + Suc k) m ! ret" by simp
  also have "\<dots> = map Some ps ! ret" by (simp only: Suc.prems(1))
  finally have "m ! ret = Some (ps ! ret)" using l by simp
  then show ?case
    using Suc.IH [of "Suc ret"] Suc.prems l by (simp add: at_def Cons_nth_drop_Suc [symmetric])
qed

lemma tx_and_free_eq:
  assumes "map Some ps = take n m" and "n \<le> length m"
  shows "tx_and_free burst m n = Some (map Sent (take (burst ps) ps) @ map Free (drop (burst ps) ps))"
proof -
  have "packets m n = Some ps" and l: "length ps = n"
    using assms by (auto simp: packets_Some) (metis length_map length_take min.absorb2)
  then show ?thesis
    using free_rest_eq [of ps "burst ps" "n - burst ps" m] assms
    by (cases "burst ps < n") (simp_all add: tx_and_free_def Let_def)
qed

lemma tx_and_free_ok:
  assumes "map Some ps = take n m" and "n \<le> length m"
  shows "\<exists>es. tx_and_free burst m n = Some es \<and> map pkt es = ps"
  unfolding tx_and_free_eq [OF assms] by (simp add: comp_def)

definition queue_ok :: "'p mbuf_table \<Rightarrow> bool" where
  "queue_ok q \<longleftrightarrow> length (m_table q) = MAX_PKT_BURST \<and> len q < MAX_PKT_BURST
     \<and> (\<forall>i < len q. m_table q ! i \<noteq> None)"

definition pending :: "'p mbuf_table \<Rightarrow> 'p list" where
  "pending q = map the (take (len q) (m_table q))"

text \<open>The contract of an operation that accepts packets: none is lost, none is duplicated, and
  they are handled in the order in which they came.\<close>

locale packet_sink =
  fixes push :: "'p mbuf_table \<Rightarrow> 'a \<Rightarrow> ('p mbuf_table \<times> 'p event list) option"
    and arrivals :: "'a \<Rightarrow> 'p list"
    and admissible :: "'a \<Rightarrow> bool"
  assumes push_ok: "queue_ok q \<Longrightarrow> admissible x \<Longrightarrow> \<exists>q' es. push q x = Some (q', es) \<and> queue_ok q'
    \<and> pending q @ arrivals x = map pkt es @ pending q'"
begin

fun push_all :: "'p mbuf_table \<Rightarrow> 'a list \<Rightarrow> ('p mbuf_table \<times> 'p event list) option" where
  "push_all q [] = Some (q, [])"
| "push_all q (x # xs) = do {
     (q, es) \<leftarrow> push q x;
     (q, fs) \<leftarrow> push_all q xs;
     Some (q, es @ fs) }"

lemma push_all_fifo:
  "queue_ok q \<Longrightarrow> \<forall>x \<in> set xs. admissible x \<Longrightarrow>
   \<exists>q' es. push_all q xs = Some (q', es) \<and> queue_ok q'
     \<and> pending q @ concat (map arrivals xs) = map pkt es @ pending q'"
proof (induction xs arbitrary: q)
  case (Cons x xs)
  from push_ok [OF Cons.prems(1), of x] Cons.prems(2) obtain q1 es where
    1: "push q x = Some (q1, es)" "queue_ok q1" "pending q @ arrivals x = map pkt es @ pending q1"
    by auto
  from Cons.IH [OF 1(2)] Cons.prems(2) obtain q2 fs where
    2: "push_all q1 xs = Some (q2, fs)" "queue_ok q2"
    "pending q1 @ concat (map arrivals xs) = map pkt fs @ pending q2" by auto
  have "pending q @ concat (map arrivals (x # xs)) = map pkt (es @ fs) @ pending q2"
    using 1(3) 2(3) by (metis append_assoc concat.simps(2) list.map(2) map_append)
  with 1(1) 2(1,2) show ?case by auto
qed simp

end

lemma pending_prefix:
  assumes "queue_ok q" and "n \<le> len q"
  shows "map Some (take n (pending q)) = take n (m_table q)"
proof (rule nth_equalityI)
  show "length (map Some (take n (pending q))) = length (take n (m_table q))"
    using assms by (simp add: pending_def queue_ok_def min_def)
  fix i
  assume "i < length (map Some (take n (pending q)))"
  then have "i < n" "i < len q" "i < length (m_table q)"
    using assms by (auto simp: pending_def queue_ok_def)
  with assms show "map Some (take n (pending q)) ! i = take n (m_table q) ! i"
    by (auto simp: pending_def queue_ok_def)
qed

lemma queue_keep:
  assumes "map Some ps = take l t" and "length t = MAX_PKT_BURST" and "l < MAX_PKT_BURST"
  shows "queue_ok (q\<lparr>m_table := t, len := l\<rparr>)" and "pending (q\<lparr>m_table := t, len := l\<rparr>) = ps"
proof -
  have "t ! i = map Some ps ! i" if "i < l" for i
    using that by (simp add: assms(1))
  moreover have "length ps = l"
    using assms by (metis length_map length_take less_imp_le min.absorb2)
  ultimately show "queue_ok (q\<lparr>m_table := t, len := l\<rparr>)"
    using assms(2,3) by (simp add: queue_ok_def)
  show "pending (q\<lparr>m_table := t, len := l\<rparr>) = ps"
    by (simp add: pending_def assms(1) [symmetric] comp_def)
qed

lemma queue_flush:
  assumes "map Some ps = take MAX_PKT_BURST t" and "length t = MAX_PKT_BURST"
  shows "\<exists>es. send_burst burst (q\<lparr>m_table := t\<rparr>) MAX_PKT_BURST = Some es \<and> map pkt es = ps"
  using tx_and_free_ok [OF assms(1)] assms(2) by (simp add: send_burst_def)

lemma send_single_ok:
  assumes "queue_ok q"
  shows "\<exists>q' es. send_single_packet burst q m = Some (q', es) \<and> queue_ok q'
    \<and> pending q @ [m] = map pkt es @ pending q'"
proof -
  let ?t = "(m_table q)[len q := Some m]"
  from assms have l: "length (m_table q) = MAX_PKT_BURST" "len q < MAX_PKT_BURST"
    by (simp_all add: queue_ok_def)
  have all: "map Some (pending q @ [m]) = take (len q + 1) ?t"
    using pending_prefix [OF assms, of "len q"] l
    by (simp add: take_Suc_conv_app_nth pending_def)
  show ?thesis
  proof (cases "len q + 1 = MAX_PKT_BURST")
    case True
    with queue_flush [of "pending q @ [m]" ?t burst q] all l obtain es where
      "send_burst burst (q\<lparr>m_table := ?t\<rparr>) MAX_PKT_BURST = Some es" "map pkt es = pending q @ [m]"
      by auto
    moreover have "queue_ok (q\<lparr>m_table := ?t, len := 0\<rparr>)" "pending (q\<lparr>m_table := ?t, len := 0\<rparr>) = []"
      using queue_keep [of "[]" 0 ?t q] l by (simp_all add: MAX_PKT_BURST_def)
    ultimately show ?thesis
      using True l by (simp add: send_single_packet_def store_def Let_def)
  next
    case False
    with queue_keep [OF all, of q] l show ?thesis
      by (simp add: send_single_packet_def store_def Let_def)
  qed
qed

interpretation single: packet_sink "send_single_packet burst" "\<lambda>m. [m]" "\<lambda>_. True" for burst
  by unfold_locales (simp add: send_single_ok)

text \<open>The arrays \<open>send_packetsx4\<close> can be called with: one to 32 packets, and four readable slots
  behind them.\<close>

definition batch_ok :: "'p option list \<times> nat \<Rightarrow> bool" where
  "batch_ok x \<longleftrightarrow> (case x of (m, num) \<Rightarrow> 0 < num \<and> num \<le> MAX_PKT_BURST \<and> num + 4 \<le> length m
     \<and> (\<forall>i < num. m ! i \<noteq> None))"

definition batch :: "'p option list \<times> nat \<Rightarrow> 'p list" where
  "batch x = map the (take (snd x) (fst x))"

lemma map_Some_the: "\<forall>x \<in> set xs. x \<noteq> None \<Longrightarrow> map Some (map the xs) = xs"
  by (induction xs) auto

lemma batch_Some:
  "batch_ok (m, num) \<Longrightarrow> map Some (batch (m, num)) = take num m"
  unfolding batch_def fst_conv snd_conv
  by (rule map_Some_the) (auto simp: batch_ok_def in_set_conv_nth)

lemma duff_copy_0:
  "src + 4 \<le> length m \<Longrightarrow> dst + 4 \<le> length t \<Longrightarrow>
   duff_copy 0 m src dst t = Some (blit 4 m src dst t)"
  using copies_blit [of src 0 4 m dst t] by (simp add: duff_copy_def duff_while.simps)

lemma send_packetsx4_ok:
  assumes q: "queue_ok q" and x: "batch_ok (m, num)"
  shows "\<exists>q' es. send_packetsx4 burst q m num = Some (q', es) \<and> queue_ok q'
    \<and> pending q @ batch (m, num) = map pkt es @ pending q'"
proof (cases "num \<ge> MAX_TX_BURST \<and> len q = 0")
  case True
  from tx_and_free_ok [OF batch_Some [OF x], of burst] x obtain es where
    "tx_and_free burst m num = Some es" "map pkt es = batch (m, num)"
    by (auto simp: batch_ok_def)
  with True q show ?thesis
    by (simp add: send_packetsx4_def pending_def)
next
  case False
  from q have l: "length (m_table q) = MAX_PKT_BURST" "len q < MAX_PKT_BURST"
    by (simp_all add: queue_ok_def)
  from x have n: "0 < num" "num \<le> MAX_PKT_BURST" "num + 4 \<le> length m"
    by (simp_all add: batch_ok_def)
  define k where "k = (if len q + num > MAX_PKT_BURST then MAX_PKT_BURST - len q else num)"
  have k: "0 < k" "k \<le> num" "len q + k \<le> MAX_PKT_BURST"
    using l n by (auto simp: k_def)
  let ?t = "blit k m 0 (len q) (m_table q)"
  have t: "length ?t = MAX_PKT_BURST" using k l n by simp
  have copy: "duff_copy k m 0 (len q) (m_table q) = Some ?t"
    using k l n by (intro duff_copy_blit) simp_all
  have "take (len q + k) ?t = take (len q) (m_table q) @ take k m"
    using k l n by (simp add: blit_def)
  also have "\<dots> = map Some (pending q @ take k (batch (m, num)))"
    using pending_prefix [OF q, of "len q"] batch_Some [OF x] k(2)
    by (simp add: pending_def take_map [symmetric] min_def)
  finally have all: "map Some (pending q @ take k (batch (m, num))) = take (len q + k) ?t" ..
  show ?thesis
  proof (cases "len q + k = MAX_PKT_BURST")
    case False2: False
    then have "k = num" using k by (auto simp: k_def split: if_splits)
    moreover have "length (batch (m, num)) \<le> num" by (simp add: batch_def)
    ultimately show ?thesis
      using queue_keep [OF all t, of q] copy False False2 k
      by (auto simp: send_packetsx4_def k_def [symmetric] Let_def)
  next
    case full: True
    from queue_flush [of _ ?t burst q] all t full obtain es where
      es: "send_burst burst (q\<lparr>m_table := ?t\<rparr>) MAX_PKT_BURST = Some es"
        "map pkt es = pending q @ take k (batch (m, num))" by metis
    have "\<exists>t'. duff_copy (num - k) m k 0 ?t = Some t' \<and> length t' = MAX_PKT_BURST
      \<and> take (num - k) t' = take (num - k) (drop k m)"
    proof (cases "num - k = 0")
      case True
      with duff_copy_0 [of k m 0 ?t] n k t show ?thesis by (simp add: MAX_PKT_BURST_def)
    next
      case False
      with duff_copy_blit [of "num - k" k m 0 ?t] n k t show ?thesis
        by (simp add: blit_def)
    qed
    then obtain t' where t': "duff_copy (num - k) m k 0 ?t = Some t'" "length t' = MAX_PKT_BURST"
      "take (num - k) t' = take (num - k) (drop k m)" by blast
    have "map Some (drop k (batch (m, num))) = take (num - k) t'"
      using batch_Some [OF x] k by (simp add: t'(3) drop_map [symmetric] drop_take)
    note keep = queue_keep [OF this t'(2), of q]
    have "num - k < MAX_PKT_BURST" using n k by simp
    with keep es t' copy full show ?thesis
      unfolding send_packetsx4_def if_not_P [OF False] by (simp add: k_def [symmetric] Let_def)
  qed
qed

interpretation many: packet_sink "\<lambda>q (m, num). send_packetsx4 burst q m num" batch batch_ok for burst
  by unfold_locales (use send_packetsx4_ok in \<open>auto split: prod.split\<close>)

lemma empty_table_ok: "queue_ok empty_table" "pending empty_table = []"
  by (simp_all add: queue_ok_def pending_def empty_table_def MAX_PKT_BURST_def)

text \<open>The single-packet path loses and duplicates nothing and keeps the order: sending any list
  of packets through an initially empty buffer, whatever the driver accepts, hands each of them to
  the driver or frees it exactly once, in order, apart from at most 31 that are still buffered.\<close>

theorem send_single_fifo:
  "\<exists>q es. single.push_all burst empty_table ms = Some (q, es) \<and> queue_ok q
     \<and> ms = map pkt es @ pending q \<and> length (pending q) < 32"
proof -
  have "length (pending q) < 32" if "queue_ok q" for q :: "'a mbuf_table"
    using that by (simp add: queue_ok_def pending_def MAX_PKT_BURST_def)
  with single.push_all_fifo [OF empty_table_ok(1), of ms burst] show ?thesis
    by (auto simp: empty_table_ok(2))
qed

text \<open>C10: The batched path is correct for every split of the packets into batches of one to 32,
  provided four slots behind each batch can be read: the two copies by interleaved switch and
  while (Duff's device) move exactly the packets they should, a full buffer is flushed in
  between, and nothing is lost, duplicated or reordered.\<close>

theorem send_packetsx4_fifo:
  assumes "\<forall>x \<in> set xs. batch_ok x"
  shows "\<exists>q es. many.push_all burst empty_table xs = Some (q, es) \<and> queue_ok q
    \<and> concat (map batch xs) = map pkt es @ pending q"
  using many.push_all_fifo [OF empty_table_ok(1) assms, of burst] by (auto simp: empty_table_ok(2))

lemma batch_padded:
  "0 < length ps \<Longrightarrow> length ps \<le> MAX_PKT_BURST \<Longrightarrow> batch_ok (map Some ps @ replicate 4 None, length ps)"
  "batch (map Some ps @ replicate 4 None, length ps) = ps"
  by (auto simp: batch_ok_def batch_def nth_append comp_def)

theorem send_packetsx4_fifo_witness:
  "\<exists>q es. many.push_all (\<lambda>ps. 3) empty_table
      [(map Some [0..<15] @ replicate 4 None, length [0..<15]),
       (map Some [15..<40] @ replicate 4 None, length [15..<40])] = Some (q, es)
    \<and> [0..<15] @ [15..<40] = map pkt es @ pending q"
proof -
  let ?xs = "[(map Some [0..<15] @ replicate 4 None, length [0..<15]),
       (map Some [15..<40] @ replicate 4 None, length [15..<40])]"
  have "0 < length [0..<15]" "length [0..<15] \<le> MAX_PKT_BURST" "0 < length [15..<40]"
    "length [15..<40] \<le> MAX_PKT_BURST" by (simp_all add: MAX_PKT_BURST_def)
  then have "\<forall>x \<in> set ?xs. batch_ok x"
    using batch_padded(1) [of "[0..<15]"] batch_padded(1) [of "[15..<40]"]
    unfolding list.set by blast
  note fifo = send_packetsx4_fifo [OF this, of "\<lambda>ps. 3"]
  have "concat (map batch ?xs) = [0..<15] @ [15..<40]"
    unfolding list.map batch_padded(2) by (simp del: upt_rec_numeral upt.simps)
  with fifo show ?thesis by metis
qed

text \<open>The interleaved copy of zero packets is not empty: entered at \<open>case 0\<close> it copies four
  pointers. So when a batch fills the buffer exactly, \<open>send_packetsx4\<close> reads four slots behind
  the batch, and with an array that ends with its packets the access is out of bounds.\<close>

theorem send_packetsx4_overread:
  assumes "queue_ok q" and "0 < num" and "len q + num = MAX_PKT_BURST" and "0 < len q"
    and "length m = num"
  shows "send_packetsx4 burst q m num = None"
proof -
  have "copies (Suc k) m num 0 0 t = None" for k t
    using assms(5) by simp
  from this [of 3] have over: "duff_copy 0 m num 0 t = None" for t
    by (simp add: duff_copy_def)
  obtain t where "duff_copy num m 0 (len q) (m_table q) = Some t"
    using duff_copy_blit [of num 0 m "len q" "m_table q"] assms by (simp add: queue_ok_def)
  with assms(3,4) over show ?thesis
    by (cases "send_burst burst (q\<lparr>m_table := t\<rparr>) MAX_PKT_BURST")
      (simp_all add: send_packetsx4_def Let_def)
qed

theorem send_packetsx4_overread_witness:
  "send_packetsx4 (\<lambda>ps. 32) \<lparr>len = 31, m_table = replicate 31 (Some 7) @ [None]\<rparr> [Some 8] 1 = None"
proof -
  have "queue_ok \<lparr>len = 31, m_table = replicate 31 (Some 7) @ [None]\<rparr>"
    by (simp add: queue_ok_def MAX_PKT_BURST_def nth_append)
  then show ?thesis
    using send_packetsx4_overread [of "\<lparr>len = 31, m_table = replicate 31 (Some 7) @ [None]\<rparr>" 1
        "[Some 8]"] by (simp add: MAX_PKT_BURST_def)
qed

end
