(* ===== verification/Trap_Rm.thy ===== *)
theory Trap_Rm
  imports Packet Tx_Buffer
begin

text \<open>
  The monitoring packets inside the resource manager (\<open>RM/main.c\<close>, \<open>RM/trap.h\<close>): a monitoring
  station (\<open>NetworkMonitoringTools\<close>) announces itself with a \<open>trap_get_header\<close>, which the manager
  turns into a request for data and sends back (\<open>get_trap_message\<close>), and reports its port counters
  with a \<open>trap_data_header\<close>, whose first counter the manager keeps (\<open>data_trap_message\<close>).

  Offsets from the start of the frame, the same in both headers: \<open>version_type\<close> 14, \<open>sid\<close> 48,
  \<open>nid\<close> 68; \<open>port1\<close> is at 128.
\<close>

section \<open>The two handlers\<close>

text \<open>\<open>compare_sid_nid\<close> stops at the first difference.\<close>

fun compare_sid_nid :: "bytes \<Rightarrow> bytes \<Rightarrow> nat \<Rightarrow> bool option" where
  "compare_sid_nid [] b p = Some True"
| "compare_sid_nid (x # xs) b p = do {
     y \<leftarrow> rd8 b p;
     if x = y then compare_sid_nid xs b (Suc p) else Some False }"

definition trap_hello_sid :: bytes where "trap_hello_sid = replicate 19 0 @ [2]"
definition trap_hello_sid2 :: bytes where "trap_hello_sid2 = replicate 19 0 @ [3]"

text \<open>\<open>trap_hello_nid_3\<close> to \<open>trap_hello_nid_5\<close>: the names \<open>pc-3\<close>, \<open>pc-4\<close>, \<open>pc-5\<close>.\<close>

definition trap_hello_nid :: "nat \<Rightarrow> bytes" where
  "trap_hello_nid k = [0x70, 0x63, 0x2d, 0x30 + word_of_nat k] @ replicate 12 0"

record traffic =
  pc3_port :: u64
  pc4_port :: u64
  pc5_port :: u64

definition get_trap_message :: "(u8 \<Rightarrow> 48 word) \<Rightarrow> (mbuf list \<Rightarrow> nat) \<Rightarrow> mbuf \<Rightarrow> mbuf mbuf_table \<Rightarrow>
    (mbuf \<times> mbuf mbuf_table \<times> mbuf event list) option" where
  "get_trap_message ports_eth_addr burst m q = do {
     v \<leftarrow> rd8 (mdata m) 14;
     if v = 0xa0 then do {
       hello \<leftarrow> compare_sid_nid trap_hello_sid (mdata m) 48;
       if hello then do {
         b \<leftarrow> wr8 (mdata m) 67 3;
         let m = m\<lparr>mdata := b\<rparr>;
         let reply = (\<lambda>port. do {
           b \<leftarrow> wrn b 6 (le_bytes 6 (ports_eth_addr port));
           let m = m\<lparr>mdata := b\<rparr>;
           (q, es) \<leftarrow> send_single_packet burst q m;
           Some (m, q, es) });
         pc3 \<leftarrow> compare_sid_nid (trap_hello_nid 3) b 68;
         if pc3 then reply 0 else do {
           pc4 \<leftarrow> compare_sid_nid (trap_hello_nid 4) b 68;
           if pc4 then reply 1 else do {
             pc5 \<leftarrow> compare_sid_nid (trap_hello_nid 5) b 68;
             if pc5 then reply 2 else Some (m, q, []) } } }
       else Some (m, q, []) }
     else Some (m, q, []) }"

definition data_trap_message :: "mbuf \<Rightarrow> traffic \<Rightarrow> (traffic \<times> mbuf event list) option" where
  "data_trap_message m t = do {
     let b = mdata m;
     let is_data = (\<lambda>k. do {
       n \<leftarrow> compare_sid_nid (trap_hello_nid k) b 68;
       if n then compare_sid_nid trap_hello_sid2 b 48 else Some False });
     pc3 \<leftarrow> is_data 3;
     if pc3 then do { port1 \<leftarrow> rd64 b 128; Some (t\<lparr>pc3_port := port1\<rparr>, [Free m]) }
     else do {
       pc4 \<leftarrow> is_data 4;
       if pc4 then do { port1 \<leftarrow> rd64 b 128; Some (t\<lparr>pc4_port := port1\<rparr>, [Free m]) }
       else do {
         pc5 \<leftarrow> is_data 5;
         if pc5 then do { port1 \<leftarrow> rd64 b 128; Some (t\<lparr>pc5_port := port1\<rparr>, [Free m]) }
         else Some (t, []) } } }"

section \<open>What they do\<close>

lemma compare_sid_nid_eq:
  "p + length xs \<le> length b \<Longrightarrow> compare_sid_nid xs b p = Some (slice b p (length xs) = xs)"
proof (induction xs arbitrary: p)
  case Nil
  show ?case by (simp add: slice_def)
next
  case (Cons x xs)
  then have "p < length b" by simp
  then have "slice b p (Suc (length xs)) = b ! p # slice b (Suc p) (length xs)"
    by (simp add: slice_def Cons_nth_drop_Suc [symmetric])
  with Cons show ?case
    by (auto simp: buf_simps get8_nth)
qed

lemma compare_sid_nid_iff: "compare_sid_nid xs b p = Some c \<Longrightarrow> c \<longleftrightarrow> slice b p (length xs) = xs"
proof (induction xs arbitrary: p)
  case Nil
  then show ?case by (simp add: slice_def)
next
  case (Cons x xs)
  then have "p < length b" by (auto simp: rd8_def split: if_splits)
  then have "slice b p (Suc (length xs)) = b ! p # slice b (Suc p) (length xs)"
    by (simp add: slice_def Cons_nth_drop_Suc [symmetric])
  with Cons \<open>p < length b\<close> show ?case by (auto simp: rd8_def split: if_splits)
qed

lemma trap_lengths [simp]:
  "length trap_hello_sid = 20" "length trap_hello_sid2 = 20" "length (trap_hello_nid k) = 16"
  by (simp_all add: trap_hello_sid_def trap_hello_sid2_def trap_hello_nid_def)

lemma trap_names_differ [simp]:
  "trap_hello_nid 3 \<noteq> trap_hello_nid 4" "trap_hello_nid 3 \<noteq> trap_hello_nid 5"
  "trap_hello_nid 4 \<noteq> trap_hello_nid 5" "trap_hello_nid 4 \<noteq> trap_hello_nid 3"
  "trap_hello_nid 5 \<noteq> trap_hello_nid 3" "trap_hello_nid 5 \<noteq> trap_hello_nid 4"
  "trap_hello_sid \<noteq> trap_hello_sid2" "trap_hello_sid2 \<noteq> trap_hello_sid"
  by (simp_all add: trap_hello_nid_def trap_hello_sid_def trap_hello_sid2_def)

definition station :: "bytes \<Rightarrow> nat option" where
  "station b = List.find (\<lambda>k. slice b 68 16 = trap_hello_nid k) [3, 4, 5]"

lemma station_cases:
  "station b = (if slice b 68 16 = trap_hello_nid 3 then Some 3
     else if slice b 68 16 = trap_hello_nid 4 then Some 4
     else if slice b 68 16 = trap_hello_nid 5 then Some 5 else None)"
  by (simp add: station_def)

lemma get_trap_message_run:
  assumes "116 \<le> length (mdata m)" and "get8 (mdata m) 14 = 0xa0"
  shows "get_trap_message mac burst m q = (if slice (mdata m) 48 20 \<noteq> trap_hello_sid
      then Some (m, q, [])
      else case station (mdata m) of
        Some k \<Rightarrow> (let x = m\<lparr>mdata := put (put (mdata m) 67 [3]) 6
            (le_bytes 6 (mac (word_of_nat (k - 3))))\<rparr>
          in do { (q, es) \<leftarrow> send_single_packet burst q x; Some (x, q, es) })
      | None \<Rightarrow> Some (m\<lparr>mdata := put (mdata m) 67 [3]\<rparr>, q, []))"
  using assms
  by (simp add: get_trap_message_def buf_simps compare_sid_nid_eq station_cases Let_def)

text \<open>What the handler adds to the transmit queue, for any packet: the answer to an announcement of a known
  station, and nothing for the others.\<close>

definition hello_replies :: "(u8 \<Rightarrow> 48 word) \<Rightarrow> mbuf \<Rightarrow> mbuf list" where
  "hello_replies mac m =
     (if get8 (mdata m) 14 = 0xa0 \<and> slice (mdata m) 48 20 = trap_hello_sid
      then case station (mdata m) of
          Some k \<Rightarrow> [m\<lparr>mdata := put (put (mdata m) 67 [3]) 6 (le_bytes 6 (mac (word_of_nat (k - 3))))\<rparr>]
        | None \<Rightarrow> []
      else [])"

lemma get_trap_message_queues:
  assumes "get_trap_message mac burst m q = Some (m', q', es)"
  shows "hello_replies mac m = [] \<and> q' = q \<and> es = []
    \<or> (\<exists>x. hello_replies mac m = [x] \<and> send_single_packet burst q x = Some (q', es))"
proof -
  obtain v where v: "rd8 (mdata m) 14 = Some v" using assms by (auto simp: get_trap_message_def elim!: ub_elims)
  then have get: "get8 (mdata m) 14 = v" by (auto simp: rd8_def get8_nth split: if_splits)
  show ?thesis
  proof (cases "v = 0xa0")
    case False
    with assms v get show ?thesis by (simp add: get_trap_message_def hello_replies_def)
  next
    case True
    obtain hello where h: "compare_sid_nid trap_hello_sid (mdata m) 48 = Some hello"
      using assms v True by (auto simp: get_trap_message_def elim!: ub_elims)
    note is_hello = compare_sid_nid_iff [OF h, unfolded trap_lengths]
    show ?thesis
    proof (cases hello)
      case False
      with assms v True h is_hello show ?thesis by (simp add: get_trap_message_def hello_replies_def)
    next
      case hello: True
      then have "length (slice (mdata m) 48 20) = 20" using is_hello by simp
      then have len: "68 \<le> length (mdata m)" by (simp add: slice_def)
      then have same: "slice (put (mdata m) 67 [3]) 68 n = slice (mdata m) 68 n" for n by (simp add: buf_simps)
      let ?b = "put (mdata m) 67 [3]"
      let ?x = "\<lambda>k. m\<lparr>mdata := put ?b 6 (le_bytes 6 (mac k))\<rparr>"
      let ?reply = "\<lambda>k. do { (q, es) \<leftarrow> send_single_packet burst q (?x k); Some (?x k, q, es) }"
      have "get_trap_message mac burst m q = do {
          pc3 \<leftarrow> compare_sid_nid (trap_hello_nid 3) ?b 68;
          if pc3 then ?reply 0 else do {
            pc4 \<leftarrow> compare_sid_nid (trap_hello_nid 4) ?b 68;
            if pc4 then ?reply 1 else do {
              pc5 \<leftarrow> compare_sid_nid (trap_hello_nid 5) ?b 68;
              if pc5 then ?reply 2 else Some (m\<lparr>mdata := ?b\<rparr>, q, []) } } }"
        using v True h hello len by (simp add: get_trap_message_def Let_def buf_simps cong: if_cong)
      with assms obtain k where
        "station (mdata m) = Some k \<and> ?reply (word_of_nat (k - 3)) = Some (m', q', es)
          \<or> station (mdata m) = None \<and> q' = q \<and> es = []"
        by (auto simp: station_cases same dest!: compare_sid_nid_iff elim!: ub_elims split: if_splits)
      then show ?thesis
        using get True is_hello hello by (auto simp: hello_replies_def elim!: ub_elims)
    qed
  qed
qed

lemma data_trap_message_run:
  assumes "136 \<le> length (mdata m)"
  shows "station (mdata m) = None \<or> slice (mdata m) 48 20 \<noteq> trap_hello_sid2 \<Longrightarrow>
      data_trap_message m t = Some (t, [])"
    and "station (mdata m) = Some k \<Longrightarrow> slice (mdata m) 48 20 = trap_hello_sid2 \<Longrightarrow>
      \<exists>t'. data_trap_message m t = Some (t', [Free m])"
  using assms
  by (auto simp: data_trap_message_def station_cases compare_sid_nid_eq buf_simps Let_def
      split: if_splits)

text \<open>The announcement of a known station is answered with the same frame, turned into a request
  for data: the service identifier becomes the data identifier, the source address becomes that of
  the manager's port for the station, nothing else changes, and the frame joins the transmit queue
  without loss. A frame with another service identifier is left alone; and one from an unknown
  station is changed but neither sent nor freed, so its buffer is lost.\<close>

theorem get_trap_message_answers:
  assumes "queue_ok q" and "116 \<le> length (mdata m)" and "get8 (mdata m) 14 = 0xa0"
  shows "case station (mdata m) of
      Some k \<Rightarrow> slice (mdata m) 48 20 = trap_hello_sid \<longrightarrow>
        (\<exists>m' q' es. get_trap_message mac burst m q = Some (m', q', es) \<and> queue_ok q'
          \<and> pending q @ [m'] = map pkt es @ pending q'
          \<and> slice (mdata m') 48 20 = trap_hello_sid2
          \<and> slice (mdata m') 6 6 = le_bytes 6 (mac (word_of_nat (k - 3)))
          \<and> slice (mdata m') 68 48 = slice (mdata m) 68 48)
    | None \<Rightarrow> \<exists>m'. get_trap_message mac burst m q = Some (m', q, [])"
proof -
  let ?b = "put (mdata m) 67 [3]"
  have sid2: "slice (put b 67 [3]) 48 20 = trap_hello_sid2"
    if "slice b 48 20 = trap_hello_sid" "116 \<le> length b" for b
  proof -
    have "slice (put b 67 [3]) 48 (19 + 1) = slice b 48 19 @ [3]"
      using that(2) by (simp only: slice_split) (simp add: buf_simps within_simps)
    moreover have "take 19 (slice b 48 20) = slice b 48 19"
      by (simp add: slice_def)
    ultimately show ?thesis
      using that(1) by (simp add: trap_hello_sid_def trap_hello_sid2_def)
  qed
  have send: "\<exists>q' es. send_single_packet burst q x = Some (q', es) \<and> queue_ok q'
      \<and> pending q @ [x] = map pkt es @ pending q'" for x
    by (rule send_single_ok [OF assms(1)])
  note run = get_trap_message_run [OF assms(2,3), of mac burst q]
  show ?thesis
  proof (cases "station (mdata m)")
    case None
    then show ?thesis by (simp add: run)
  next
    case (Some k)
    show ?thesis
      using Some assms(2) send [of "m\<lparr>mdata := put ?b 6 (le_bytes 6 (mac (word_of_nat (k - 3))))\<rparr>"]
      by (auto simp: run Let_def buf_simps sid2)
  qed
qed

definition sample_hello :: mbuf where
  "sample_hello = \<lparr>mid = 3, mdata = replicate 14 0 @ [0xa0] @ replicate 33 0 @ trap_hello_sid
     @ trap_hello_nid 4 @ replicate 60 0, data_len = 116, pkt_len = 116, rx_ipv4 = False\<rparr>"

theorem get_trap_message_answers_witness:
  "\<exists>m' q' es. get_trap_message (\<lambda>p. ucast p) (\<lambda>_. 0) sample_hello empty_table = Some (m', q', es)
     \<and> slice (mdata m') 48 20 = trap_hello_sid2 \<and> slice (mdata m') 6 6 = le_bytes 6 (1 :: 48 word)"
proof -
  have "queue_ok (empty_table :: mbuf mbuf_table)"
    by (simp add: queue_ok_def empty_table_def MAX_PKT_BURST_def)
  moreover have "116 \<le> length (mdata sample_hello)" "get8 (mdata sample_hello) 14 = 0xa0"
    "station (mdata sample_hello) = Some 4" "slice (mdata sample_hello) 48 20 = trap_hello_sid"
    by code_simp+
  ultimately show ?thesis
    using get_trap_message_answers [of empty_table sample_hello "\<lambda>p. ucast p" "\<lambda>_. 0"] by auto
qed

definition counter_of :: "nat \<Rightarrow> traffic \<Rightarrow> u64" where
  "counter_of k t = (if k = 3 then pc3_port t else if k = 4 then pc4_port t else pc5_port t)"

text \<open>A report of a known station sets that station's counter to the reported first port, leaves
  the counters of the others, and frees the packet once. Any other packet with version \<open>0xa1\<close> changes
  nothing and is not freed: nobody owns its buffer any more.\<close>

theorem data_trap_message_counts:
  assumes "136 \<le> length (mdata m)"
  shows "\<exists>t' es. data_trap_message m t = Some (t', es)
    \<and> (case station (mdata m) of
        Some k \<Rightarrow> if slice (mdata m) 48 20 = trap_hello_sid2
          then es = [Free m] \<and> rd64 (mdata m) 128 = Some (counter_of k t')
            \<and> (\<forall>j \<in> {3, 4, 5} - {k}. counter_of j t' = counter_of j t)
          else t' = t \<and> es = []
      | None \<Rightarrow> t' = t \<and> es = [])"
  using assms
  by (simp add: data_trap_message_def station_cases compare_sid_nid_eq buf_simps Let_def
      counter_of_def) auto

definition sample_report :: mbuf where
  "sample_report = \<lparr>mid = 5, mdata = replicate 48 0 @ trap_hello_sid2 @ trap_hello_nid 5
     @ replicate 44 0 @ [7, 1] @ replicate 14 0, data_len = 144, pkt_len = 144, rx_ipv4 = False\<rparr>"

theorem data_trap_message_counts_witness:
  "\<exists>t'. data_trap_message sample_report \<lparr>pc3_port = 1, pc4_port = 2, pc5_port = 3\<rparr> =
     Some (t', [Free sample_report]) \<and> pc3_port t' = 1 \<and> pc5_port t' = 263"
proof -
  have r: "136 \<le> length (mdata sample_report)" "station (mdata sample_report) = Some 5"
    "slice (mdata sample_report) 48 20 = trap_hello_sid2"
    "rd64 (mdata sample_report) 128 = Some 263" by code_simp+
  obtain t' where "data_trap_message sample_report \<lparr>pc3_port = 1, pc4_port = 2, pc5_port = 3\<rparr> =
      Some (t', [Free sample_report])" "263 = counter_of 5 t'"
    and others: "\<forall>j \<in> {3, 4, 5} - {5}. counter_of j t' = counter_of j \<lparr>pc3_port = 1, pc4_port = 2, pc5_port = 3\<rparr>"
    using data_trap_message_counts [OF r(1), of "\<lparr>pc3_port = 1, pc4_port = 2, pc5_port = 3\<rparr>"] r(2-)
    by auto
  moreover have "(3 :: nat) \<in> {3, 4, 5} - {5}" by simp
  note bspec [OF others this]
  ultimately show ?thesis by (simp add: counter_of_def)
qed

end
