(* ===== verification/Flow_Gen.thy ===== *)
theory Flow_Gen
  imports Trap_Rm
begin

text \<open>
  The flow generator of the server (\<open>server/flow_generator2.c\<close>): the loop of \<open>main\<close> takes requests from
  the network, and for each a thread \<open>send_data_packets\<close> sends a flow of data packets.

  The frame buffer of a thread is the bytes up to the length that is sent. A send reports success or
  not, by the number of the call; a failure ends the program. The argument of a thread is a pointer to
  the one variable \<open>A\<close> of \<open>main\<close>, so that starting and copying are separate steps of the model.
\<close>

section \<open>A flow\<close>

record flow_request =
  flow_packets :: u32
  flow_size :: u32
  flow_time :: u32

definition Send_Bufsize :: int where "Send_Bufsize = 8162000"

text \<open>\<open>sizeof(struct data_header)\<close> is 84; the header that \<open>main\<close> fills in.\<close>

definition data_header :: bytes where
  "data_header = [0xa1, 255] @ replicate 8 0 @ [1, 0] @ replicate 16 0 @ replicate 15 0 @ [1]
     @ replicate 19 0 @ [100] @ replicate 15 0 @ [1] @ [1, 0, 0, 0]"

text \<open>What \<open>sbuf\<close> holds: the Ethernet header, the data header, \<open>psize\<close> ones and zeros.\<close>

definition flow_header :: bytes where
  "flow_header = replicate 12 255 @ [8, 0] @ data_header"

definition sbuf :: "int \<Rightarrow> int \<Rightarrow> bytes" where
  "sbuf psize l = take (nat l) (flow_header @ replicate (nat psize) 1 @ replicate (nat (Send_Bufsize - 98 - psize)) 0)"

record shape =
  packets :: u32
  psize :: int
  lastpsize :: int
  len1 :: int
  len2 :: int
  duration :: int

text \<open>The sizes, in the order of the assignments. Dividing by no packets and filling a negative size are
  undefined.\<close>

definition flow_shape :: "flow_request \<Rightarrow> shape option" where
  "flow_shape B = do {
     guard (flow_packets B \<noteq> 0);
     let lastpsize = sint (flow_size B mod flow_packets B);
     let psize = sint (flow_size B div flow_packets B);
     let duration = sint (flow_time B div flow_packets B);
     let l = 98 + psize;
     let l2 = 98 + lastpsize;
     let n = flow_packets B;
     let (psize, lastpsize, n, l, l2) =
       (if psize > 1514 then
          let lastpsize = sint (flow_size B mod 1514);
              n = (if lastpsize = 0 then flow_size B div 1514 else flow_size B div 1514 + 1)
          in (1300, lastpsize, n, 1400, 98 + lastpsize)
        else (psize, lastpsize, n, l, l2));
     let lastpsize = (if lastpsize > 1514 then 1514 else lastpsize);
     let l2 = (if l2 > 1400 then 1400 else l2);
     let l = (if l > 1400 then 1400 else l);
     guard (0 \<le> psize \<and> 98 + psize \<le> Send_Bufsize);
     let duration = (if duration = 0 \<and> n > 1 then 1 else duration);
     let duration = (if duration > 60000000 then 60000000 else duration);
     Some \<lparr>packets = n, psize = psize, lastpsize = lastpsize, len1 = l, len2 = l2, duration = duration\<rparr> }"

datatype flow_event = Frame bytes | Usleep nat

fun send_loop :: "(nat \<Rightarrow> bool) \<Rightarrow> nat \<Rightarrow> bytes \<Rightarrow> flow_event list \<Rightarrow> nat \<Rightarrow> bool \<times> flow_event list" where
  "send_loop ok 0 frame pause k = (True, [])"
| "send_loop ok (Suc n) frame pause k =
     (if ok k then let (r, es) = send_loop ok n frame pause (Suc k) in (r, Frame frame # pause @ es)
      else (False, []))"

text \<open>\<open>send_data_packets\<close>: whether the thread ends by itself (and not the program with it), and what is
  sent. The counter is an \<open>int\<close>, which overflows after \<open>2^31\<close> packets.\<close>

definition send_data_packets :: "(nat \<Rightarrow> bool) \<Rightarrow> flow_request \<Rightarrow> (bool \<times> flow_event list) option" where
  "send_data_packets ok B = do {
     s \<leftarrow> flow_shape B;
     let d = duration s;
     guard (0 \<le> len1 s \<and> 0 \<le> len2 s);
     if lastpsize s = 0 then do {
       guard (unat (packets s) < 2 ^ 31);
       let pause = (if d \<noteq> 0 \<and> d > 10000 then [Usleep 1000] else if d \<noteq> 0 \<and> d < 10000 then [Usleep 1] else []);
       Some (send_loop ok (unat (packets s)) (sbuf (psize s) (len1 s)) pause 0) }
     else do {
       let n = unat (packets s - 1);
       guard (n < 2 ^ 31);
       let pause = (if d \<noteq> 0 \<and> d > 10000 then [Usleep 1000] else if d \<noteq> 0 \<and> d \<le> 10000 then [Usleep 1] else []);
       let (r, es) = send_loop ok n (sbuf (psize s) (len1 s)) pause 0;
       if r then (if ok n then Some (True, es @ [Frame (sbuf (psize s) (len2 s))]) else Some (False, es))
       else Some (False, es) } }"

section \<open>The requests\<close>

definition Rec_Bufsize :: nat where "Rec_Bufsize = 1024"

text \<open>\<open>waiting\<close> counts the threads that have not copied \<open>A\<close> yet, \<open>served\<close> lists what the others copied.\<close>

record generator =
  rbuf :: bytes
  arg_A :: flow_request
  waiting :: nat
  served :: "flow_request list"
  running :: bool

definition is_request :: "bytes \<Rightarrow> bool" where
  "is_request b \<longleftrightarrow> get8 b 34 = 0xa0"

definition request_of :: "bytes \<Rightarrow> flow_request" where
  "request_of b = \<lparr>flow_packets = get32 b 114, flow_size = get32 b 118, flow_time = get32 b 122\<rparr>"

definition receive_request :: "bytes \<Rightarrow> generator \<Rightarrow> generator" where
  "receive_request frame g =
     (let f = take Rec_Bufsize frame;
          g = g\<lparr>rbuf := f @ drop (length f) (rbuf g)\<rparr>;
          r = request_of (rbuf g)
      in if is_request (rbuf g) then
           let g = g\<lparr>arg_A := r\<rparr> in
           if flow_time r = 0 \<and> flow_packets r > 10 then g\<lparr>running := False\<rparr>
           else g\<lparr>waiting := waiting g + 1\<rparr>
         else g)"

definition start_thread :: "generator \<Rightarrow> generator" where
  "start_thread g = g\<lparr>waiting := waiting g - 1, served := served g @ [arg_A g]\<rparr>"

text \<open>The steps of the loop and of the threads, in any order.\<close>

inductive gen_step :: "generator \<Rightarrow> generator \<Rightarrow> bool" where
  Receive: "running g \<Longrightarrow> gen_step g (receive_request frame g)"
| Start: "running g \<Longrightarrow> 0 < waiting g \<Longrightarrow> gen_step g (start_thread g)"

inductive_cases gen_stepE: "gen_step g g'"

definition gen_start :: generator where
  "gen_start = \<lparr>rbuf = replicate Rec_Bufsize 0, arg_A = \<lparr>flow_packets = 0, flow_size = 0, flow_time = 0\<rparr>,
     waiting = 0, served = [], running = True\<rparr>"

section \<open>What a flow sends\<close>

fun frames :: "flow_event list \<Rightarrow> bytes list" where
  "frames [] = []"
| "frames (Frame f # es) = f # frames es"
| "frames (Usleep n # es) = frames es"

lemma frames_append [simp]: "frames (es @ es') = frames es @ frames es'"
  by (induction es rule: frames.induct) auto

definition payload :: "bytes list \<Rightarrow> nat" where
  "payload fs = (\<Sum>f \<leftarrow> fs. length f - 98)"

lemma length_flow_header [simp]: "length flow_header = 98" "length data_header = 84"
  by (simp_all add: flow_header_def data_header_def)

lemma sbuf_header: "98 \<le> l \<Longrightarrow> sbuf q l = flow_header @ take (nat (l - 98))
    (replicate (nat q) 1 @ replicate (nat (Send_Bufsize - 98 - q)) 0)"
  by (simp add: sbuf_def nat_diff_distrib)

lemma length_sbuf:
  "98 \<le> l \<Longrightarrow> l \<le> 1400 \<Longrightarrow> 0 \<le> q \<Longrightarrow> q \<le> 1514 \<Longrightarrow> length (sbuf q l) = nat l"
  by (simp add: sbuf_header Send_Bufsize_def)

lemma send_loop_all: "\<forall>k. ok k \<Longrightarrow> send_loop ok n f p k = (True, concat (replicate n (Frame f # p)))"
  by (induction n arbitrary: k) auto

lemma send_loop_frames: "frames p = [] \<Longrightarrow> set (frames (snd (send_loop ok n f p k))) \<subseteq> {f}"
proof (induction n arbitrary: k)
  case (Suc n)
  then show ?case using Suc.IH [of "Suc k"] by (auto simp: split_def Let_def)
qed simp

lemma frames_concat: "frames p = [] \<Longrightarrow> frames (concat (replicate n (Frame f # p))) = replicate n f"
  by (induction n) auto

lemma sint_small: "uint w < 2 ^ 31 \<Longrightarrow> sint w = uint w" for w :: u32
  unfolding sint_uint by (rule signed_take_bit_int_eq_self) (simp_all add: order_trans [of _ 0])

lemma sint_large: "2 ^ 31 \<le> uint w \<Longrightarrow> sint w < 0" for w :: u32
proof -
  assume "2 ^ 31 \<le> uint w"
  moreover have "uint w < 2 ^ 32" using uint_bounded [of w] by simp
  ultimately have "uint w div 2 ^ 31 = 1"
    by (intro int_div_pos_eq [where r = "uint w - 2 ^ 31"]) simp_all
  then show ?thesis
    by (simp only: sint_uint) (simp add: signed_take_bit_negative_iff bit_iff_odd)
qed

lemma sint_mod_div:
  "uint (v :: u32) mod uint w < 2 ^ 31 \<Longrightarrow> sint (v mod w) = uint v mod uint w"
  "uint v div uint w < 2 ^ 31 \<Longrightarrow> sint (v div w) = uint v div uint w"
  by (simp_all add: sint_small uint_mod uint_div)

lemma unat_div_small:
  fixes v w :: u32
  assumes "w \<noteq> 0" and "unat w < 2 ^ 31" and "unat v div unat w \<le> 1302"
  shows "sint (v div w) = int (unat v div unat w)" and "sint (v mod w) = int (unat v mod unat w)"
proof -
  have "0 < unat w" using assms(1) by (simp add: unat_gt_0)
  then have "unat v mod unat w < unat w" by simp
  with assms(2) have "unat v mod unat w < 2 ^ 31" by linarith
  then have "int (unat v mod unat w) < 2 ^ 31" by (metis of_nat_less_iff of_nat_numeral of_nat_power)
  moreover have "unat v div unat w < 2 ^ 31" using assms(3) by (rule order_le_less_trans) simp
  then have "int (unat v div unat w) < 2 ^ 31" by (metis of_nat_less_iff of_nat_numeral of_nat_power)
  ultimately show "sint (v div w) = int (unat v div unat w)" and "sint (v mod w) = int (unat v mod unat w)"
    by (simp_all only: sint_mod_div uint_nat zdiv_int [symmetric] zmod_int [symmetric])
qed

lemma flow_shape_small:
  assumes "flow_packets B \<noteq> 0" and "unat (flow_packets B) < 2 ^ 31"
    and "unat (flow_size B) div unat (flow_packets B) \<le> 1302"
  defines "q \<equiv> int (unat (flow_size B) div unat (flow_packets B))"
    and "r \<equiv> int (unat (flow_size B) mod unat (flow_packets B))"
  shows "\<exists>d. flow_shape B = Some \<lparr>packets = flow_packets B, psize = q, lastpsize = min r 1514,
    len1 = 98 + q, len2 = 98 + min r 1302, duration = d\<rparr>"
proof -
  have "sint (flow_size B div flow_packets B) = q" "sint (flow_size B mod flow_packets B) = r"
    using unat_div_small [OF assms(1-3)] by (simp_all add: q_def r_def)
  moreover have "0 \<le> q" "q \<le> 1302" "0 \<le> r" using assms(3) by (simp_all add: q_def r_def)
  ultimately show ?thesis
    using assms(1) by (simp add: flow_shape_def Let_def Send_Bufsize_def min_def)
qed

lemma payload_append [simp]: "payload (xs @ ys) = payload xs + payload ys"
  by (simp add: payload_def)

lemma payload_replicate [simp]: "payload (replicate n f) = n * (length f - 98)"
  by (simp add: payload_def sum_list_replicate)

lemma flow_sent:
  assumes "flow_shape B = Some s" and "\<forall>k. ok k" and "0 \<le> len1 s" and "0 \<le> len2 s"
    and "unat (packets s) < 2 ^ 31" and "packets s \<noteq> 0"
  shows "\<exists>es. send_data_packets ok B = Some (True, es) \<and> frames es =
    (if lastpsize s = 0 then replicate (unat (packets s)) (sbuf (psize s) (len1 s))
     else replicate (unat (packets s) - 1) (sbuf (psize s) (len1 s)) @ [sbuf (psize s) (len2 s)])"
proof -
  have "unat (packets s - 1) = unat (packets s) - 1" using assms(6) by (simp add: unat_minus_one)
  moreover have "unat (packets s) - 1 < 2 ^ 31" using assms(5) by linarith
  ultimately show ?thesis
    using assms by (simp add: send_data_packets_def Let_def send_loop_all frames_concat)
qed

lemma flow_frames:
  assumes "flow_packets B \<noteq> 0" and "unat (flow_packets B) < 2 ^ 31"
    and "unat (flow_size B) div unat (flow_packets B) \<le> 1302" and "\<forall>k. ok k"
  defines "P \<equiv> unat (flow_packets B)" and "q \<equiv> unat (flow_size B) div unat (flow_packets B)"
    and "r \<equiv> unat (flow_size B) mod unat (flow_packets B)"
  shows "\<exists>es. send_data_packets ok B = Some (True, es) \<and> frames es =
    (if r = 0 then replicate P (sbuf (int q) (98 + int q))
     else replicate (P - 1) (sbuf (int q) (98 + int q)) @ [sbuf (int q) (98 + min (int r) 1302)])"
proof -
  obtain d where shape: "flow_shape B = Some \<lparr>packets = flow_packets B, psize = int q, lastpsize = min (int r) 1514,
      len1 = 98 + int q, len2 = 98 + min (int r) 1302, duration = d\<rparr>"
    using flow_shape_small [OF assms(1-3)] by (auto simp: q_def r_def)
  show ?thesis
    using flow_sent [OF shape assms(4)] assms(1,2) by (simp add: P_def min_def split: if_splits)
qed

text \<open>A flow has the number of packets that was asked for but, unless the size is a multiple of it, not
  the size: the remainder is sent in place of a full packet and not in addition to it, so that the
  payload falls short by the size of one packet, and a remainder over 1302 bytes is cut as well.\<close>

theorem flow_falls_short:
  assumes "flow_packets B \<noteq> 0" and "unat (flow_packets B) < 2 ^ 31"
    and "unat (flow_size B) div unat (flow_packets B) \<le> 1302" and "\<forall>k. ok k"
  shows "\<exists>es. send_data_packets ok B = Some (True, es) \<and> length (frames es) = unat (flow_packets B)
    \<and> payload (frames es) = (let q = unat (flow_size B) div unat (flow_packets B);
        r = unat (flow_size B) mod unat (flow_packets B)
      in if r = 0 then unat (flow_size B) else unat (flow_size B) - q - (r - 1302))"
proof -
  define P q r where "P = unat (flow_packets B)" and "q = unat (flow_size B) div P" and "r = unat (flow_size B) mod P"
  have P: "0 < P" using assms(1) by (simp add: P_def unat_gt_0)
  have lengths: "length (sbuf (int q) (98 + int q)) = 98 + q"
    "length (sbuf (int q) (98 + min (int r) 1302)) = 98 + min r 1302"
    using assms(3) by (simp_all add: length_sbuf q_def P_def nat_add_distrib min_def)
  obtain es where es: "send_data_packets ok B = Some (True, es)" "frames es =
    (if r = 0 then replicate P (sbuf (int q) (98 + int q))
     else replicate (P - 1) (sbuf (int q) (98 + int q)) @ [sbuf (int q) (98 + min (int r) 1302)])"
    using flow_frames [OF assms] by (auto simp: P_def q_def r_def)
  have size: "unat (flow_size B) = P * q + r" by (simp add: q_def r_def)
  have "payload (frames es) = (if r = 0 then unat (flow_size B) else unat (flow_size B) - q - (r - 1302))"
  proof (cases "r = 0")
    case False
    obtain p where "P = Suc p" using P by (cases P) auto
    with False show ?thesis
      by (simp add: es(2) lengths size payload_def [of "[_]"])
  qed (simp add: es(2) lengths size)
  with es P show ?thesis by (auto simp: P_def q_def r_def Let_def)
qed

theorem flow_falls_short_witness:
  "\<exists>es. send_data_packets (\<lambda>_. True) \<lparr>flow_packets = 10, flow_size = 1009, flow_time = 0\<rparr> = Some (True, es)
    \<and> length (frames es) = 10 \<and> payload (frames es) = 909"
  using flow_falls_short [of "\<lparr>flow_packets = 10, flow_size = 1009, flow_time = 0\<rparr>" "\<lambda>_. True"] by simp

text \<open>A request takes the generator down: with no packets the division faults, and with \<open>2^31\<close> or more
  bytes a packet the fill of the buffer gets a negative size.\<close>

theorem malformed_flow_crashes:
  assumes "flow_packets B = 0 \<or> 2 ^ 31 \<le> unat (flow_size B) div unat (flow_packets B)"
  shows "send_data_packets ok B = None"
proof (cases "flow_packets B = 0")
  case False
  with assms have "2 ^ 31 \<le> unat (flow_size B) div unat (flow_packets B)" by simp
  then have "int (2 ^ 31) \<le> int (unat (flow_size B) div unat (flow_packets B))" by (simp only: of_nat_le_iff)
  moreover have "uint (flow_size B div flow_packets B) = int (unat (flow_size B) div unat (flow_packets B))"
    by (subst uint_div) (simp only: uint_nat zdiv_int)
  ultimately have "2 ^ 31 \<le> uint (flow_size B div flow_packets B)"
    by (simp only: of_nat_power of_nat_numeral)
  then have "sint (flow_size B div flow_packets B) < 0" by (rule sint_large)
  then obtain n where "sint (flow_size B div flow_packets B) = n" "n < 0" by blast
  with False have "flow_shape B = None" by (simp add: flow_shape_def Let_def)
  then show ?thesis by (simp add: send_data_packets_def)
qed (simp add: send_data_packets_def flow_shape_def)

theorem malformed_flow_crashes_witness:
  "send_data_packets (\<lambda>_. True) \<lparr>flow_packets = 0, flow_size = 5, flow_time = 1\<rparr> = None"
  by (rule malformed_flow_crashes) simp

lemma sint_mod_nonneg:
  fixes v w :: u32
  assumes "w \<noteq> 0" and "unat (w - 1) < 2 ^ 31"
  shows "0 \<le> sint (v mod w)"
proof -
  have "0 < unat w" using assms(1) by (simp add: unat_gt_0)
  then have "unat v mod unat w < unat w" by simp
  moreover have "unat w - 1 < 2 ^ 31" using assms by (simp add: unat_minus_one)
  ultimately have "unat v mod unat w < 2 ^ 31" by simp
  then have "int (unat v mod unat w) < 2 ^ 31" by (metis of_nat_less_iff of_nat_numeral of_nat_power)
  moreover have "uint (v mod w) = int (unat v mod unat w)"
    by (subst uint_mod) (simp only: uint_nat zmod_int)
  ultimately have "sint (v mod w) = int (unat v mod unat w)" by (simp only: sint_small)
  then show ?thesis by (simp only: of_nat_0_le_iff)
qed

lemma flow_shape_bounds:
  assumes "flow_shape B = Some s"
  shows "0 \<le> psize s \<and> psize s \<le> 1514 \<and> 98 \<le> len1 s \<and> len1 s \<le> 1400 \<and> len2 s \<le> 1400
    \<and> (unat (packets s - 1) < 2 ^ 31 \<longrightarrow> 98 \<le> len2 s)"
proof -
  have B: "flow_packets B \<noteq> 0" using assms by (auto simp: flow_shape_def elim!: ub_elims)
  obtain q r where qr: "sint (flow_size B div flow_packets B) = q" "sint (flow_size B mod flow_packets B) = r" by blast
  have r: "unat (flow_packets B - 1) < 2 ^ 31 \<Longrightarrow> 0 \<le> r"
    using sint_mod_nonneg [OF B, of "flow_size B"] qr by simp
  show ?thesis
  proof (cases "1514 < q")
    case True
    obtain r' where "sint (flow_size B mod 1514) = r'" "0 \<le> r'"
      using sint_mod_nonneg [of 1514 "flow_size B"] by simp
    with True assms qr show ?thesis
      by (auto simp: flow_shape_def Let_def elim!: ub_elims)
  next
    case False
    with assms qr r show ?thesis
      by (auto simp: flow_shape_def Let_def elim!: ub_elims)
  qed
qed

lemma sent_cases:
  assumes "flow_shape B = Some s" and "send_data_packets ok B = Some (r, es)"
  shows "\<exists>p n. frames p = [] \<and> (es = snd (send_loop ok n (sbuf (psize s) (len1 s)) p 0)
    \<or> unat (packets s - 1) < 2 ^ 31
      \<and> es = snd (send_loop ok n (sbuf (psize s) (len1 s)) p 0) @ [Frame (sbuf (psize s) (len2 s))])"
proof (cases "lastpsize s = 0")
  case True
  let ?p = "if duration s \<noteq> 0 \<and> duration s > 10000 then [Usleep 1000]
    else if duration s \<noteq> 0 \<and> duration s < 10000 then [Usleep 1] else []"
  show ?thesis
    by (rule exI [of _ ?p], rule exI [of _ "unat (packets s)"])
      (use True assms in \<open>auto simp: send_data_packets_def Let_def elim!: ub_elims\<close>)
next
  case False
  let ?p = "if duration s \<noteq> 0 \<and> duration s > 10000 then [Usleep 1000]
    else if duration s \<noteq> 0 \<and> duration s \<le> 10000 then [Usleep 1] else []"
  obtain r' es' where loop: "send_loop ok (unat (packets s - 1)) (sbuf (psize s) (len1 s)) ?p 0 = (r', es')"
    by fastforce
  show ?thesis
    by (rule exI [of _ ?p], rule exI [of _ "unat (packets s - 1)"])
      (use False assms loop in \<open>auto simp: send_data_packets_def Let_def elim!: ub_elims split: if_splits\<close>)
qed

lemma sent_frames:
  assumes "send_data_packets ok B = Some (r, es)" and "f \<in> set (frames es)"
  shows "\<exists>q l. f = sbuf q l \<and> 0 \<le> q \<and> q \<le> 1514 \<and> 98 \<le> l \<and> l \<le> 1400"
proof -
  obtain s where s: "flow_shape B = Some s" using assms(1) by (auto simp: send_data_packets_def elim!: ub_elims)
  obtain p n where "frames p = []" and "es = snd (send_loop ok n (sbuf (psize s) (len1 s)) p 0)
    \<or> unat (packets s - 1) < 2 ^ 31
      \<and> es = snd (send_loop ok n (sbuf (psize s) (len1 s)) p 0) @ [Frame (sbuf (psize s) (len2 s))]"
    using sent_cases [OF s assms(1)] by blast
  then have "f = sbuf (psize s) (len1 s) \<or> f = sbuf (psize s) (len2 s) \<and> unat (packets s - 1) < 2 ^ 31"
    using assms(2) send_loop_frames [of p ok n "sbuf (psize s) (len1 s)" 0] by auto
  with flow_shape_bounds [OF s] show ?thesis by blast
qed

text \<open>Whatever is asked for, every frame of a flow carries the headers complete and has at most 1400
  bytes, also those sent before a send fails.\<close>

theorem flow_frames_bounded:
  assumes "send_data_packets ok B = Some (r, es)" and "f \<in> set (frames es)"
  shows "take 98 f = flow_header \<and> 98 \<le> length f \<and> length f \<le> 1400"
proof -
  obtain q l where "f = sbuf q l" "0 \<le> q" "q \<le> 1514" "98 \<le> l" "l \<le> 1400"
    using sent_frames [OF assms] by blast
  then have "length f = nat l" "98 \<le> nat l" "nat l \<le> 1400" "take 98 f = flow_header"
    by (simp_all add: length_sbuf) (simp add: sbuf_header)
  then show ?thesis by simp
qed

theorem flow_frames_bounded_witness:
  "\<exists>es f. send_data_packets (\<lambda>k. k < 3) \<lparr>flow_packets = 4, flow_size = 9000, flow_time = 0\<rparr> = Some (False, es)
    \<and> f \<in> set (frames es) \<and> take 98 f = flow_header \<and> length f \<le> 1400"
proof -
  have "flow_shape \<lparr>flow_packets = 4, flow_size = 9000, flow_time = 0\<rparr> =
      Some \<lparr>packets = 6, psize = 1300, lastpsize = 1430, len1 = 1400, len2 = 1400, duration = 1\<rparr>"
    by code_simp
  then obtain es f where run: "send_data_packets (\<lambda>k. k < 3) \<lparr>flow_packets = 4, flow_size = 9000, flow_time = 0\<rparr> = Some (False, es)"
    "f \<in> set (frames es)"
  proof -
    have "send_loop (\<lambda>k. k < 3) 5 f p 0 = (False, Frame f # p @ Frame f # p @ Frame f # p)" for f p
      by (simp add: eval_nat_numeral)
    with \<open>flow_shape _ = _\<close> that show ?thesis by (simp add: send_data_packets_def Let_def)
  qed
  from flow_frames_bounded [OF this] run show ?thesis by blast
qed

section \<open>Which requests are served\<close>

definition acceptable :: "flow_request \<Rightarrow> bool" where
  "acceptable r \<longleftrightarrow> \<not> (flow_time r = 0 \<and> flow_packets r > 10)"

definition request_frame :: "bytes \<Rightarrow> bool" where
  "request_frame f \<longleftrightarrow> 126 \<le> length f \<and> length f \<le> Rec_Bufsize \<and> is_request f \<and> acceptable (request_of f)"

lemma request_prefix:
  "126 \<le> length f \<Longrightarrow> is_request (f @ xs) = is_request f \<and> request_of (f @ xs) = request_of f"
  by (simp add: is_request_def request_of_def within_simps)

lemma receive_request_frame:
  "request_frame f \<Longrightarrow> receive_request f g =
    g\<lparr>rbuf := f @ drop (length f) (rbuf g), arg_A := request_of f, waiting := waiting g + 1\<rparr>"
  by (auto simp: receive_request_def request_frame_def request_prefix acceptable_def Let_def)

lemma gen_receive: "running g \<Longrightarrow> gen_step\<^sup>*\<^sup>* g0 g \<Longrightarrow> gen_step\<^sup>*\<^sup>* g0 (receive_request f g)"
  by (meson gen_step.Receive rtranclp.rtrancl_into_rtrancl)

lemma gen_start_thread: "running g \<Longrightarrow> 0 < waiting g \<Longrightarrow> gen_step\<^sup>*\<^sup>* g0 g \<Longrightarrow> gen_step\<^sup>*\<^sup>* g0 (start_thread g)"
  by (meson gen_step.Start rtranclp.rtrancl_into_rtrancl)

lemma prompt_schedule:
  assumes "\<forall>f \<in> set fs. request_frame f" and "running g" and "waiting g = 0"
  shows "\<exists>g'. gen_step\<^sup>*\<^sup>* g g' \<and> running g' \<and> served g' = served g @ map request_of fs \<and> waiting g' = 0"
  using assms
proof (induction fs arbitrary: g)
  case (Cons f fs)
  let ?g = "start_thread (receive_request f g)"
  have "request_frame f" using Cons.prems by simp
  then have g: "running (receive_request f g)" "0 < waiting (receive_request f g)"
    "running ?g" "waiting ?g = 0" "served ?g = served g @ [request_of f]"
    using Cons.prems(2,3) by (simp_all add: receive_request_frame start_thread_def)
  then have "gen_step\<^sup>*\<^sup>* g ?g"
    using Cons.prems(2) gen_receive [of g g f] gen_start_thread by blast
  moreover obtain g' where "gen_step\<^sup>*\<^sup>* ?g g'" "running g'" "served g' = served ?g @ map request_of fs" "waiting g' = 0"
    using Cons.IH [of ?g] Cons.prems(1) g by auto
  ultimately show ?case using g(5) by (auto intro: rtranclp_trans)
qed auto

lemma receive_all:
  assumes "\<forall>f \<in> set fs. request_frame f" and "running g" and "fs \<noteq> []"
  shows "\<exists>g'. gen_step\<^sup>*\<^sup>* g g' \<and> running g' \<and> served g' = served g \<and> waiting g' = waiting g + length fs
    \<and> arg_A g' = request_of (last fs)"
  using assms
proof (induction fs rule: rev_induct)
  case (snoc f fs)
  have "\<exists>g'. gen_step\<^sup>*\<^sup>* g g' \<and> running g' \<and> served g' = served g \<and> waiting g' = waiting g + length fs"
    using snoc by (cases "fs = []") auto
  then obtain g' where g': "gen_step\<^sup>*\<^sup>* g g'" "running g'" "served g' = served g" "waiting g' = waiting g + length fs"
    by blast
  have "request_frame f" using snoc.prems by simp
  with g' gen_receive [OF g'(2,1), of f] show ?case
    by (intro exI [of _ "receive_request f g'"]) (simp add: receive_request_frame)
qed simp

lemma start_all:
  "running g \<Longrightarrow> \<exists>g'. gen_step\<^sup>*\<^sup>* g g' \<and> served g' = served g @ replicate (waiting g) (arg_A g) \<and> waiting g' = 0"
proof (induction "waiting g" arbitrary: g)
  case (Suc n)
  let ?g = "start_thread g"
  have "gen_step g ?g" by (rule gen_step.Start) (use Suc in simp_all)
  moreover have "n = waiting ?g" "running ?g" "served ?g = served g @ [arg_A g]" "arg_A ?g = arg_A g"
    using Suc.hyps(2) Suc.prems by (simp_all add: start_thread_def)
  ultimately have g: "n = waiting ?g" "running ?g" "gen_step g ?g" "served ?g = served g @ [arg_A g]" "arg_A ?g = arg_A g"
    by blast+
  obtain g' where "gen_step\<^sup>*\<^sup>* ?g g'" "served g' = served ?g @ replicate (waiting ?g) (arg_A ?g)" "waiting g' = 0"
    using Suc.hyps(1) [OF g(1,2)] by blast
  with g Suc.hyps(2) show ?case
    by (metis append.assoc append_Cons append_Nil converse_rtranclp_into_rtranclp replicate_Suc)
qed auto

text \<open>C26: Which flows are sent depends on the schedule. Threads that start at once serve the requests as
  they came; threads that start late all serve the last one, because they share the variable their
  argument points to, so that all other requests are lost.\<close>

theorem served_requests_depend_on_schedule:
  assumes "\<forall>f \<in> set fs. request_frame f" and "fs \<noteq> []"
  shows "(\<exists>g. gen_step\<^sup>*\<^sup>* gen_start g \<and> waiting g = 0 \<and> served g = map request_of fs)
    \<and> (\<exists>g. gen_step\<^sup>*\<^sup>* gen_start g \<and> waiting g = 0 \<and> served g = replicate (length fs) (request_of (last fs)))"
proof
  have start: "running gen_start" "waiting gen_start = 0" "served gen_start = []"
    by (simp_all add: gen_start_def)
  show "\<exists>g. gen_step\<^sup>*\<^sup>* gen_start g \<and> waiting g = 0 \<and> served g = map request_of fs"
    using prompt_schedule [OF assms(1) start(1,2)] start(3) by auto
  obtain g where g: "gen_step\<^sup>*\<^sup>* gen_start g" "running g" "served g = []" "waiting g = length fs" "arg_A g = request_of (last fs)"
    using receive_all [OF assms(1) start(1) assms(2)] start by auto
  obtain g' where "gen_step\<^sup>*\<^sup>* g g'" "served g' = replicate (length fs) (request_of (last fs))" "waiting g' = 0"
    using start_all [OF g(2)] g by auto
  with g(1) show "\<exists>g. gen_step\<^sup>*\<^sup>* gen_start g \<and> waiting g = 0 \<and> served g = replicate (length fs) (request_of (last fs))"
    by (meson rtranclp_trans)
qed

definition order_frame :: "u8 \<Rightarrow> bytes" where
  "order_frame n = replicate 34 0 @ [0xa0] @ replicate 79 0 @ [n, 0, 0, 0, 200, 0, 0, 0, 1, 0, 0, 0]"

theorem served_requests_depend_on_schedule_witness:
  "\<exists>g. gen_step\<^sup>*\<^sup>* gen_start g \<and> served g = [request_of (order_frame 5), request_of (order_frame 5)]"
proof -
  have "request_frame (order_frame 3)" "request_frame (order_frame 5)" by code_simp+
  then show ?thesis
    using served_requests_depend_on_schedule [of "[order_frame 3, order_frame 5]"] by fastforce
qed

lemma receive_keeps:
  "served (receive_request f g) = served g"
  "running (receive_request f g) \<Longrightarrow> acceptable (arg_A g) \<Longrightarrow> acceptable (arg_A (receive_request f g))"
proof -
  obtain b where b: "take Rec_Bufsize f @ drop (length (take Rec_Bufsize f)) (rbuf g) = b" by blast
  show "served (receive_request f g) = served g"
    by (simp add: receive_request_def Let_def)
  show "running (receive_request f g) \<Longrightarrow> acceptable (arg_A g) \<Longrightarrow> acceptable (arg_A (receive_request f g))"
    by (auto simp: receive_request_def Let_def acceptable_def b split: if_splits)
qed

text \<open>No thread serves a request of more than ten packets in no time, in whatever order requests and
  threads come: such a request ends the program.\<close>

theorem only_acceptable_requests_served:
  assumes "gen_step\<^sup>*\<^sup>* gen_start g"
  shows "\<forall>r \<in> set (served g). acceptable r"
proof -
  have "(running g \<longrightarrow> acceptable (arg_A g)) \<and> (\<forall>r \<in> set (served g). acceptable r)"
    using assms
  proof (induction rule: rtranclp_induct)
    case base
    show ?case by (simp add: gen_start_def acceptable_def)
  next
    case (step g g')
    from step(2) show ?case
    proof (rule gen_stepE)
      fix frame
      assume "g' = receive_request frame g" "running g"
      with step(3) receive_keeps [of frame g] show ?thesis by simp
    next
      assume "g' = start_thread g" "running g"
      with step(3) show ?thesis by (simp add: start_thread_def)
    qed
  qed
  then show ?thesis by blast
qed

theorem only_acceptable_requests_served_witness:
  "\<exists>g. gen_step\<^sup>*\<^sup>* gen_start g \<and> served g \<noteq> [] \<and> (\<forall>r \<in> set (served g). acceptable r)"
proof -
  have "request_frame (order_frame 3)" by code_simp
  then obtain g where "gen_step\<^sup>*\<^sup>* gen_start g" "served g = [request_of (order_frame 3)]"
    using prompt_schedule [of "[order_frame 3]" gen_start] by (auto simp: gen_start_def)
  with only_acceptable_requests_served [of g] show ?thesis by (intro exI [of _ g]) simp
qed

lemma get_tail:
  assumes "drop 34 b = drop 34 b'" and "34 \<le> k"
  shows "get8 b k = get8 b' k" and "get32 b k = get32 b' k"
proof -
  have "drop k b = drop k b'"
    using assms by (metis drop_drop le_add_diff_inverse2)
  then show "get8 b k = get8 b' k" and "get32 b k = get32 b' k"
    by (simp_all add: get8_def get32_def slice_def)
qed

text \<open>A short frame repeats the last request: the buffer is not cleared, so that every frame that ends
  before the CoLoR header is read together with the request before it and starts its flow again.\<close>

theorem short_frames_repeat_request:
  assumes "request_frame f" and "\<forall>s \<in> set ss. length s \<le> 34" and "length (rbuf g) = Rec_Bufsize"
  shows "waiting (fold receive_request ss (receive_request f g)) = waiting g + 1 + length ss
    \<and> arg_A (fold receive_request ss (receive_request f g)) = request_of f"
proof -
  have again: "waiting (fold receive_request ss g) = waiting g + length ss \<and> arg_A (fold receive_request ss g) = r"
    if "\<forall>s \<in> set ss. length s \<le> 34" "length (rbuf g) = Rec_Bufsize" "is_request (rbuf g)" "request_of (rbuf g) = r"
      "acceptable r" "arg_A g = r" for ss g r
    using that
  proof (induction ss arbitrary: g)
    case (Cons s ss)
    let ?b = "s @ drop (length s) (rbuf g)"
    have s: "length s \<le> 34" "length ?b = Rec_Bufsize" using Cons.prems(1,2) by (simp_all add: Rec_Bufsize_def)
    have "drop 34 ?b = drop 34 (rbuf g)" using s(1) by simp
    then have "get8 ?b 34 = get8 (rbuf g) 34" and "request_of ?b = request_of (rbuf g)"
      using get_tail [of ?b "rbuf g"] by (simp_all add: request_of_def)
    then have "receive_request s g = g\<lparr>rbuf := ?b, waiting := waiting g + 1\<rparr>"
      using Cons.prems s by (auto simp: receive_request_def is_request_def acceptable_def Rec_Bufsize_def Let_def)
    with Cons s \<open>request_of ?b = request_of (rbuf g)\<close> \<open>get8 ?b 34 = get8 (rbuf g) 34\<close> show ?case
      by (simp add: is_request_def)
  qed simp
  show ?thesis
    using again [of ss "receive_request f g" "request_of f"] assms
    by (simp add: receive_request_frame) (simp add: request_frame_def request_prefix)
qed

theorem short_frames_repeat_request_witness:
  "waiting (fold receive_request [replicate 34 1, []] (receive_request (order_frame 3) gen_start)) = 3"
proof -
  have "request_frame (order_frame 3)" by code_simp
  then show ?thesis
    using short_frames_repeat_request [of "order_frame 3" "[replicate 34 1, []]" gen_start]
    by (simp add: gen_start_def)
qed

text \<open>The packets of a flow drain the resource manager: it takes every one for a report of a station,
  finds none, and neither forwards nor frees the buffer.\<close>

theorem flow_packets_are_lost:
  assumes "send_data_packets ok B = Some (r, es)" and "mdata m \<in> set (frames es)"
  shows "get8 (mdata m) 14 = 0xa1 \<and> data_trap_message m t = Some (t, [])"
proof -
  obtain q l where m: "mdata m = sbuf q l" "98 \<le> l" "l \<le> 1400" "0 \<le> q" "q \<le> 1514"
    using sent_frames [OF assms] by blast
  then obtain xs where xs: "mdata m = flow_header @ xs" by (simp add: sbuf_header)
  have "get8 flow_header 14 = 0xa1" "slice flow_header 68 16 = replicate 9 0 @ [100] @ replicate 6 0"
    by code_simp+
  then have "get8 (mdata m) 14 = 0xa1" "slice (mdata m) 68 16 = replicate 9 0 @ [100] @ replicate 6 0"
    by (simp_all add: xs within_simps)
  moreover have "replicate 9 0 @ [100] @ replicate 6 0 \<noteq> trap_hello_nid k" for k
  proof
    assume "replicate 9 0 @ [100] @ replicate 6 0 = trap_hello_nid k"
    then have "hd (replicate 9 0 @ [100] @ replicate 6 0) = hd (trap_hello_nid k)" by (rule arg_cong)
    then show False by (simp add: trap_hello_nid_def hd_append)
  qed
  moreover have "98 \<le> length (mdata m)" by (simp add: xs)
  ultimately show ?thesis
    by (simp add: data_trap_message_def compare_sid_nid_eq Let_def)
qed

theorem flow_packets_are_lost_witness:
  "\<exists>es f. send_data_packets (\<lambda>_. True) \<lparr>flow_packets = 10, flow_size = 1009, flow_time = 0\<rparr> = Some (True, es)
    \<and> f \<in> set (frames es)
    \<and> data_trap_message (sample_report\<lparr>mdata := f\<rparr>) \<lparr>pc3_port = 1, pc4_port = 2, pc5_port = 3\<rparr> =
        Some (\<lparr>pc3_port = 1, pc4_port = 2, pc5_port = 3\<rparr>, [])"
proof -
  obtain es where es: "send_data_packets (\<lambda>_. True) \<lparr>flow_packets = 10, flow_size = 1009, flow_time = 0\<rparr> = Some (True, es)"
    "frames es \<noteq> []"
    using flow_frames [of "\<lparr>flow_packets = 10, flow_size = 1009, flow_time = 0\<rparr>" "\<lambda>_. True"] by auto
  then have "hd (frames es) \<in> set (frames es)" by simp
  with es(1) flow_packets_are_lost [OF es(1), of "sample_report\<lparr>mdata := hd (frames es)\<rparr>"] show ?thesis
    by auto
qed

end
