(* ===== verification/Lookup.thy ===== *)
theory Lookup
  imports Nid_Table
begin

text \<open>
  The exact-match tables of the resource manager: the route arrays, the conversion of their keys,
  the population of the hash tables at start-up and the look-ups of the forwarding path
  (\<open>RM/wenxingbeng.c\<close>, and the IPv6 table of \<open>RM/main.c\<close>).

  \<open>rte_hash\<close> is a library outside the repository: its state, \<open>rte_hash_add_key\<close> and
  \<open>rte_hash_lookup\<close> are arguments of the definitions, and \<open>hash_laws\<close> is what its manual promises.
  The value arrays the code keeps beside a table are functions of the position; an access at or
  beyond their length is undefined.
\<close>

section \<open>The hash library\<close>

definition L3FWD_HASH_ENTRIES :: nat where
  "L3FWD_HASH_ENTRIES = 1024 * 1024 * 4"

text \<open>A successful addition answers a position of the table, the look-up of the key then answers
  that position, other keys keep theirs, and no two keys share one. A key that was never added is
  not found.\<close>

definition hash_laws ::
  "('h \<Rightarrow> bytes \<Rightarrow> int \<times> 'h) \<Rightarrow> ('h \<Rightarrow> bytes \<Rightarrow> int) \<Rightarrow> 'h \<Rightarrow> bool" where
  "hash_laws add look h0 \<longleftrightarrow> (\<forall>k. look h0 k < 0)
     \<and> (\<forall>h k r h'. add h k = (r, h') \<and> 0 \<le> r \<longrightarrow>
          nat r < L3FWD_HASH_ENTRIES \<and> look h' k = r
          \<and> (\<forall>k'. k' \<noteq> k \<longrightarrow> look h' k' = look h k' \<and> look h k' \<noteq> r))"

text \<open>The loop all the populate functions share: convert the key of an entry, add it, store the
  entry's value at the position. \<open>rte_exit\<close> on a failed addition is \<open>Inl\<close> of the entry's
  number.\<close>

fun populate :: "('h \<Rightarrow> bytes \<Rightarrow> int \<times> 'h) \<Rightarrow> ('e \<Rightarrow> bytes) \<Rightarrow> ('e \<Rightarrow> 'v) \<Rightarrow> nat \<Rightarrow> 'e list \<Rightarrow>
    'h \<Rightarrow> (nat \<Rightarrow> 'v) \<Rightarrow> (nat + 'h \<times> (nat \<Rightarrow> 'v)) option"
where
  "populate add convert out i [] h arr = Some (Inr (h, arr))"
| "populate add convert out i (entry # rest) h arr =
     (case add h (convert entry) of (ret, h') \<Rightarrow>
        if ret < 0 then Some (Inl i)
        else do {
          guard (nat ret < L3FWD_HASH_ENTRIES);
          populate add convert out (Suc i) rest h' (arr(nat ret := out entry)) })"

definition found :: "('h \<Rightarrow> bytes \<Rightarrow> int) \<Rightarrow> 'h \<Rightarrow> (nat \<Rightarrow> 'v) \<Rightarrow> bytes \<Rightarrow> 'v option" where
  "found look h arr k = (if look h k < 0 then None else Some (arr (nat (look h k))))"

text \<open>The specification: the last entry of the route array with the wanted key.\<close>

fun route_for :: "('e \<Rightarrow> bytes) \<Rightarrow> 'e list \<Rightarrow> bytes \<Rightarrow> 'e option" where
  "route_for convert [] k = None"
| "route_for convert (e # rows) k =
     (case route_for convert rows k of
        Some e' \<Rightarrow> Some e'
      | None \<Rightarrow> if convert e = k then Some e else None)"

lemma populate_found:
  assumes "hash_laws add look h0"
  shows "populate add convert out i rows h arr = Some (Inr (h', arr')) \<Longrightarrow>
    found look h' arr' k =
      (case route_for convert rows k of Some e \<Rightarrow> Some (out e) | None \<Rightarrow> found look h arr k)"
proof (induction rows arbitrary: i h arr)
  case Nil
  then show ?case by simp
next
  case (Cons e rows)
  obtain r h1 where add: "add h (convert e) = (r, h1)" by (cases "add h (convert e)")
  with Cons.prems have r: "\<not> r < 0"
    and rest: "populate add convert out (Suc i) rows h1 (arr(nat r := out e)) = Some (Inr (h', arr'))"
    by (auto elim!: ub_elims split: if_splits)
  from assms add r have laws: "look h1 (convert e) = r"
    "\<And>k'. k' \<noteq> convert e \<Longrightarrow> look h1 k' = look h k' \<and> look h k' \<noteq> r"
    by (auto simp: hash_laws_def not_less)
  have "found look h1 (arr(nat r := out e)) k =
      (if convert e = k then Some (out e) else found look h arr k)"
    using laws(1) laws(2) [of k] r by (auto simp: found_def)
  then show ?case
    using Cons.IH [OF rest] by (auto split: option.splits)
qed

lemma populate_defined:
  assumes "hash_laws add look h0"
  shows "\<exists>res. populate add convert out i rows h arr = Some res"
proof (induction rows arbitrary: i h arr)
  case Nil
  show ?case by simp
next
  case (Cons e rows)
  obtain r h1 where add: "add h (convert e) = (r, h1)" by (cases "add h (convert e)")
  with assms have "\<not> r < 0 \<Longrightarrow> nat r < L3FWD_HASH_ENTRIES"
    by (auto simp: hash_laws_def not_less)
  with add Cons show ?case by auto
qed

section \<open>The route arrays and their keys\<close>

record ipv4_route =
  ip_dst :: u32
  if_out :: u8

definition ipv4_route_array :: "ipv4_route list" where
  "ipv4_route_array =
     [\<lparr>ip_dst = IPv4 192 168 8 2, if_out = 1\<rparr>, \<lparr>ip_dst = IPv4 172 16 17 124, if_out = 1\<rparr>,
      \<lparr>ip_dst = IPv4 172 16 17 0, if_out = 88\<rparr>, \<lparr>ip_dst = IPv4 211 0 0 0, if_out = 3\<rparr>]"

definition convert_ipv4 :: "ipv4_route \<Rightarrow> bytes" where
  "convert_ipv4 e = le_bytes 4 (bswap32 (ip_dst e)) @ replicate 12 0"

record sid_route =
  nid_sid :: bytes
  l_sid :: bytes
  nid_out :: bytes
  flag_out :: u8
  pid_out :: u32
  ipv4_out :: u32

definition sid_route_array :: "sid_route list" where
  "sid_route_array =
     [\<lparr>nid_sid = [1,2,3,4,5,6,7,8,9,10,11,12,13,14,15,16],
       l_sid = [1,2,3,4,5,6,7,8,9,10,11,12,13,14,15,16,17,18,19,20],
       nid_out = [1,2,3,4,5,6,7,8,9,10,11,12,13,14,15,16], flag_out = 1,
       pid_out = PID 0x50 0x49 0x44 0x32, ipv4_out = IPv4 192 168 8 2\<rparr>,
      \<lparr>nid_sid = replicate 16 0, l_sid = replicate 19 0 @ [1], nid_out = replicate 16 0,
       flag_out = 1, pid_out = 0x1111000B, ipv4_out = IPv4 172 16 17 1\<rparr>,
      \<lparr>nid_sid = replicate 16 0, l_sid = replicate 19 0 @ [2], nid_out = replicate 16 0,
       flag_out = 1, pid_out = 0x1111000C, ipv4_out = IPv4 172 16 17 2\<rparr>,
      \<lparr>nid_sid = replicate 16 0, l_sid = replicate 19 0 @ [3], nid_out = replicate 16 0,
       flag_out = 1, pid_out = 0x1111000D, ipv4_out = IPv4 172 16 17 3\<rparr>]"

definition convert_sid :: "sid_route \<Rightarrow> bytes" where
  "convert_sid e = nid_sid e @ l_sid e @ replicate 12 0"

text \<open>The four value arrays of the service table, position by position.\<close>

record sid_out =
  sid_out_ipv4 :: u32
  sid_out_pid :: u32
  sid_out_flag :: u8
  sid_out_nid :: bytes

definition sid_values :: "sid_route \<Rightarrow> sid_out" where
  "sid_values e = \<lparr>sid_out_ipv4 = bswap32 (ipv4_out e), sid_out_pid = pid_out e,
     sid_out_flag = flag_out e, sid_out_nid = nid_out e\<rparr>"

definition populate_ipv4_few_flow_into_table_wxb where
  "populate_ipv4_few_flow_into_table_wxb add = populate add convert_ipv4 if_out 0 ipv4_route_array"

definition populate_sid_few_flow_into_table where
  "populate_sid_few_flow_into_table add = populate add convert_sid sid_values 0 sid_route_array"

text \<open>\<open>setup_hash_wxb\<close> creates both tables of a socket and fills them. \<open>create\<close> is
  \<open>rte_hash_create\<close>; its failure and a failed addition end the program.\<close>

record 'h wxb_tables =
  ipv4_hash :: 'h
  ipv4_out_if :: "nat \<Rightarrow> u8"
  sid_hash :: 'h
  sid_arrays :: "nat \<Rightarrow> sid_out"

definition setup_hash_wxb :: "('h \<Rightarrow> bytes \<Rightarrow> int \<times> 'h) \<Rightarrow> 'h option \<Rightarrow> 'h option \<Rightarrow>
    (nat \<Rightarrow> u8) \<Rightarrow> (nat \<Rightarrow> sid_out) \<Rightarrow> (string + 'h wxb_tables) option" where
  "setup_hash_wxb add create_ipv4 create_sid if0 sid0 =
     (case create_ipv4 of
        None \<Rightarrow> Some (Inl ''Unable to create the ipv4_hash hash'')
      | Some h \<Rightarrow> do {
          r \<leftarrow> populate_ipv4_few_flow_into_table_wxb add h if0;
          case r of
            Inl i \<Rightarrow> Some (Inl ''Unable to add entry'')
          | Inr (h4, out4) \<Rightarrow>
             (case create_sid of
                None \<Rightarrow> Some (Inl ''Unable to create the sid_hash hash'')
              | Some h \<Rightarrow> do {
                  r \<leftarrow> populate_sid_few_flow_into_table add h sid0;
                  case r of
                    Inl i \<Rightarrow> Some (Inl ''Unable to add entry'')
                  | Inr (hs, outs) \<Rightarrow> Some (Inr \<lparr>ipv4_hash = h4, ipv4_out_if = out4,
                      sid_hash = hs, sid_arrays = outs\<rparr>) }) })"

section \<open>Look-ups on the forwarding path\<close>

definition and_bytes :: "bytes \<Rightarrow> bytes \<Rightarrow> bytes" where
  "and_bytes xs ys = map2 (AND) xs ys"

text \<open>\<open>_mm_set_epi32(0, 0, 0, 0xFFFFFFFF)\<close>: the mask keeps the four low bytes.\<close>

definition mask02 :: bytes where
  "mask02 = replicate 4 0xff @ replicate 12 0"

definition array_at :: "('h \<Rightarrow> bytes \<Rightarrow> int) \<Rightarrow> 'h \<Rightarrow> (nat \<Rightarrow> 'v) \<Rightarrow> bytes \<Rightarrow> 'v \<Rightarrow> 'v option" where
  "array_at look h arr k dflt = (let ret = look h k in
     if ret < 0 then Some dflt
     else do { guard (nat ret < L3FWD_HASH_ENTRIES); Some (arr (nat ret)) })"

definition get_ipv4_dst_port_wxb ::
  "('h \<Rightarrow> bytes \<Rightarrow> int) \<Rightarrow> 'h wxb_tables \<Rightarrow> bytes \<Rightarrow> nat \<Rightarrow> u8 \<Rightarrow> u8 option" where
  "get_ipv4_dst_port_wxb look t b ip portid = do {
     data \<leftarrow> rdn b (ip + 16) 16;
     array_at look (ipv4_hash t) (ipv4_out_if t) (and_bytes data mask02) portid }"

definition sid_key :: "bytes \<Rightarrow> nat \<Rightarrow> bytes option" where
  "sid_key b ip = do {
     n \<leftarrow> rdn b (ip + 20 + 28) 16;
     l \<leftarrow> rdn b (ip + 20 + 44) 20;
     Some (n @ l @ replicate 12 0) }"

definition get_sid_dst_ipv4 ::
  "('h \<Rightarrow> bytes \<Rightarrow> int) \<Rightarrow> 'h wxb_tables \<Rightarrow> bytes \<Rightarrow> nat \<Rightarrow> u32 option" where
  "get_sid_dst_ipv4 look t b ip = do {
     input_ipv4 \<leftarrow> rd32 b (ip + 12);
     key \<leftarrow> sid_key b ip;
     array_at look (sid_hash t) (\<lambda>i. sid_out_ipv4 (sid_arrays t i)) key input_ipv4 }"

definition get_sid_dst_pid ::
  "('h \<Rightarrow> bytes \<Rightarrow> int) \<Rightarrow> 'h wxb_tables \<Rightarrow> bytes \<Rightarrow> nat \<Rightarrow> u32 option" where
  "get_sid_dst_pid look t b ip = do {
     key \<leftarrow> sid_key b ip;
     array_at look (sid_hash t) (\<lambda>i. sid_out_pid (sid_arrays t i)) key 0 }"

definition get_sid_dst_flag ::
  "('h \<Rightarrow> bytes \<Rightarrow> int) \<Rightarrow> 'h wxb_tables \<Rightarrow> bytes \<Rightarrow> nat \<Rightarrow> u8 option" where
  "get_sid_dst_flag look t b ip = do {
     key \<leftarrow> sid_key b ip;
     array_at look (sid_hash t) (\<lambda>i. sid_out_flag (sid_arrays t i)) key 0 }"

definition get_sid_dst_nid ::
  "('h \<Rightarrow> bytes \<Rightarrow> int) \<Rightarrow> 'h wxb_tables \<Rightarrow> bytes \<Rightarrow> nat \<Rightarrow> bytes option" where
  "get_sid_dst_nid look t b ip = do {
     key \<leftarrow> sid_key b ip;
     array_at look (sid_hash t) (\<lambda>i. sid_out_nid (sid_arrays t i)) key (replicate 16 0) }"

section \<open>Correctness of the look-ups\<close>

definition positions_ok :: "('h \<Rightarrow> bytes \<Rightarrow> int) \<Rightarrow> 'h \<Rightarrow> bool" where
  "positions_ok look h \<longleftrightarrow> (\<forall>k. 0 \<le> look h k \<longrightarrow> nat (look h k) < L3FWD_HASH_ENTRIES)"

lemma positions_ok_empty: "hash_laws add look h0 \<Longrightarrow> positions_ok look h0"
  unfolding hash_laws_def positions_ok_def by (meson not_less)

lemma populate_positions:
  assumes "hash_laws add look h0"
  shows "populate add convert out i rows h arr = Some (Inr (h', arr')) \<Longrightarrow>
    positions_ok look h \<Longrightarrow> positions_ok look h'"
proof (induction rows arbitrary: i h arr)
  case (Cons e rows)
  obtain r h1 where add: "add h (convert e) = (r, h1)" by (cases "add h (convert e)")
  with Cons.prems have r: "\<not> r < 0"
    and rest: "populate add convert out (Suc i) rows h1 (arr(nat r := out e)) = Some (Inr (h', arr'))"
    by (auto elim!: ub_elims split: if_splits)
  from assms add r have laws: "nat r < L3FWD_HASH_ENTRIES" "look h1 (convert e) = r"
    "\<And>k'. k' \<noteq> convert e \<Longrightarrow> look h1 k' = look h k'"
    by (auto simp: hash_laws_def not_less)
  have "positions_ok look h1"
    using laws Cons.prems(2) unfolding positions_ok_def by metis
  with Cons.IH rest show ?case by blast
qed simp

lemma array_at_found:
  assumes "positions_ok look h"
  shows "array_at look h (\<lambda>i. f (arr i)) k dflt =
    Some (case found look h arr k of Some v \<Rightarrow> f v | None \<Rightarrow> dflt)"
  using assms by (auto simp: array_at_def found_def positions_ok_def Let_def not_less)

lemma route_for_distinct:
  "distinct (map convert rows) \<Longrightarrow> route_for convert rows k = List.find (\<lambda>e. convert e = k) rows"
proof (induction rows)
  case (Cons e rows)
  then have "convert e = k \<Longrightarrow> List.find (\<lambda>e. convert e = k) rows = None"
    by (metis (mono_tags, lifting) distinct.simps(2) find_None_iff image_eqI list.map(2) set_map)
  with Cons show ?case by (auto split: option.splits)
qed simp

lemma and_bytes_append:
  "length xs = length us \<Longrightarrow> and_bytes (xs @ ys) (us @ vs) = and_bytes xs us @ and_bytes ys vs"
  by (simp add: and_bytes_def)

lemma and_bytes_ff: "length xs = n \<Longrightarrow> and_bytes xs (replicate n 0xff) = xs"
  by (induction xs arbitrary: n) (auto simp: and_bytes_def)

lemma and_bytes_zero: "length xs = n \<Longrightarrow> and_bytes xs (replicate n 0) = replicate n 0"
  by (induction xs arbitrary: n) (auto simp: and_bytes_def)

lemma and_mask02:
  assumes "q + 16 \<le> length b"
  shows "and_bytes (slice b q 16) mask02 = le_bytes 4 (get32 b q) @ replicate 12 0"
proof -
  have "slice b q 16 = slice b q 4 @ slice b (q + 4) 12"
    using slice_split [of b q 4 12] by simp
  with assms show ?thesis
    by (simp add: mask02_def and_bytes_append and_bytes_ff and_bytes_zero le_bytes_get)
qed

lemma distinct_routes:
  "distinct (map convert_ipv4 ipv4_route_array)" "distinct (map convert_sid sid_route_array)"
  by code_simp+

definition sid_default :: "u32 \<Rightarrow> sid_out" where
  "sid_default ip = \<lparr>sid_out_ipv4 = ip, sid_out_pid = 0, sid_out_flag = 0,
     sid_out_nid = replicate 16 0\<rparr>"

lemma setup_found:
  assumes "hash_laws add look h0"
    and "setup_hash_wxb add (Some h0) (Some h0) if0 sid0 = Some (Inr t)"
  shows "found look (ipv4_hash t) (ipv4_out_if t) k =
      map_option if_out (List.find (\<lambda>e. convert_ipv4 e = k) ipv4_route_array)"
    and "found look (sid_hash t) (sid_arrays t) k =
      map_option sid_values (List.find (\<lambda>e. convert_sid e = k) sid_route_array)"
    and "positions_ok look (ipv4_hash t)" and "positions_ok look (sid_hash t)"
proof -
  from assms(2) obtain h4 out4 hs outs where t:
    "populate add convert_ipv4 if_out 0 ipv4_route_array h0 if0 = Some (Inr (h4, out4))"
    "populate add convert_sid sid_values 0 sid_route_array h0 sid0 = Some (Inr (hs, outs))"
    "t = \<lparr>ipv4_hash = h4, ipv4_out_if = out4, sid_hash = hs, sid_arrays = outs\<rparr>"
    by (auto simp: setup_hash_wxb_def populate_ipv4_few_flow_into_table_wxb_def
        populate_sid_few_flow_into_table_def elim!: ub_elims split: sum.splits)
  note f4 = populate_found [OF assms(1) t(1), of k]
  note fs = populate_found [OF assms(1) t(2), of k]
  show "found look (ipv4_hash t) (ipv4_out_if t) k =
      map_option if_out (List.find (\<lambda>e. convert_ipv4 e = k) ipv4_route_array)"
    using f4 assms(1) by (simp add: t(3) route_for_distinct distinct_routes found_def hash_laws_def split: option.splits)
  show "found look (sid_hash t) (sid_arrays t) k =
      map_option sid_values (List.find (\<lambda>e. convert_sid e = k) sid_route_array)"
    using fs assms(1) by (simp add: t(3) route_for_distinct distinct_routes found_def hash_laws_def split: option.splits)
  show "positions_ok look (ipv4_hash t)" "positions_ok look (sid_hash t)"
    using populate_positions [OF assms(1) t(1)] populate_positions [OF assms(1) t(2)]
      positions_ok_empty [OF assms(1)] by (simp_all add: t(3))
qed

lemma lookup_results:
  assumes "hash_laws add look h0"
    and "setup_hash_wxb add (Some h0) (Some h0) if0 sid0 = Some (Inr t)"
    and "ip + 84 \<le> length b"
  shows "get_ipv4_dst_port_wxb look t b ip portid =
      Some (case List.find (\<lambda>e. bswap32 (ip_dst e) = get32 b (ip + 16)) ipv4_route_array of
              Some e \<Rightarrow> if_out e | None \<Rightarrow> portid)
    \<and> (let v = (case List.find (\<lambda>e. nid_sid e = slice b (ip + 48) 16 \<and> l_sid e = slice b (ip + 64) 20)
                    sid_route_array of
                 Some e \<Rightarrow> sid_values e | None \<Rightarrow> sid_default (get32 b (ip + 12)))
       in get_sid_dst_ipv4 look t b ip = Some (sid_out_ipv4 v)
          \<and> get_sid_dst_pid look t b ip = Some (sid_out_pid v)
          \<and> get_sid_dst_flag look t b ip = Some (sid_out_flag v)
          \<and> get_sid_dst_nid look t b ip = Some (sid_out_nid v))"
proof -
  note f = setup_found [OF assms(1,2)]
  have k4: "convert_ipv4 e = and_bytes (slice b (ip + 16) 16) mask02
      \<longleftrightarrow> bswap32 (ip_dst e) = get32 b (ip + 16)" for e
    using assms(3) by (simp add: and_mask02 convert_ipv4_def)
  have port: "get_ipv4_dst_port_wxb look t b ip portid =
      Some (case List.find (\<lambda>e. bswap32 (ip_dst e) = get32 b (ip + 16)) ipv4_route_array of
              Some e \<Rightarrow> if_out e | None \<Rightarrow> portid)"
    using assms(3) array_at_found [OF f(3), of "\<lambda>x. x" "ipv4_out_if t"]
    by (simp add: get_ipv4_dst_port_wxb_def buf_simps f(1) k4 split: option.splits)
  let ?key = "slice b (ip + 48) 16 @ slice b (ip + 64) 20 @ replicate 12 0"
  have key: "sid_key b ip = Some ?key"
    using assms(3) by (simp add: sid_key_def buf_simps add.assoc)
  have "List.find (\<lambda>e. convert_sid e = ?key) sid_route_array =
      List.find (\<lambda>e. nid_sid e = slice b (ip + 48) 16 \<and> l_sid e = slice b (ip + 64) 20)
        sid_route_array"
  proof (rule find_cong)
    fix e
    assume "e \<in> set sid_route_array"
    then have "length (nid_sid e) = 16" "length (l_sid e) = 20"
      by (auto simp: sid_route_array_def)
    with assms(3) show "convert_sid e = ?key \<longleftrightarrow>
        nid_sid e = slice b (ip + 48) 16 \<and> l_sid e = slice b (ip + 64) 20"
      by (simp add: convert_sid_def append_eq_append_conv)
  qed simp
  then have "found look (sid_hash t) (sid_arrays t) ?key = map_option sid_values
      (List.find (\<lambda>e. nid_sid e = slice b (ip + 48) 16 \<and> l_sid e = slice b (ip + 64) 20)
        sid_route_array)"
    by (simp add: f(2))
  note val = array_at_found [OF f(4), where arr = "sid_arrays t" and k = ?key, unfolded this]
  show ?thesis
    unfolding port get_sid_dst_ipv4_def get_sid_dst_pid_def get_sid_dst_flag_def get_sid_dst_nid_def
    using assms(3) by (auto simp: key val buf_simps sid_default_def Let_def split: option.splits)
qed

text \<open>C31: The look-ups of the forwarding path answer what the route arrays say. Once both tables are
  set up, a packet's output port is the one of the route to its destination address, or the
  receiving port where there is none; and the four look-ups of its service answer the address, path
  identifier, flag and node of the service's route, or the packet's own source address, zero, zero
  and the zero node where there is none.\<close>

theorem lookups_follow_routes:
  assumes "hash_laws add look h0"
    and "setup_hash_wxb add (Some h0) (Some h0) if0 sid0 = Some (Inr t)"
    and "ip + 84 \<le> length b"
  shows "get_ipv4_dst_port_wxb look t b ip portid =
      Some (case List.find (\<lambda>e. bswap32 (ip_dst e) = get32 b (ip + 16)) ipv4_route_array of
              Some e \<Rightarrow> if_out e | None \<Rightarrow> portid)
    \<and> (let v = (case List.find (\<lambda>e. nid_sid e = slice b (ip + 48) 16 \<and> l_sid e = slice b (ip + 64) 20)
                    sid_route_array of
                 Some e \<Rightarrow> sid_values e | None \<Rightarrow> sid_default (get32 b (ip + 12)))
       in get_sid_dst_ipv4 look t b ip = Some (sid_out_ipv4 v)
          \<and> get_sid_dst_pid look t b ip = Some (sid_out_pid v)
          \<and> get_sid_dst_flag look t b ip = Some (sid_out_flag v)
          \<and> get_sid_dst_nid look t b ip = Some (sid_out_nid v))"
  using assms by (rule lookup_results)

text \<open>A table that keeps its keys in a list has the promised behaviour.\<close>

definition list_look :: "bytes list \<Rightarrow> bytes \<Rightarrow> int" where
  "list_look h k = (if k \<in> set h then int (length (takeWhile (\<lambda>x. x \<noteq> k) h)) else -2)"

definition list_add :: "bytes list \<Rightarrow> bytes \<Rightarrow> int \<times> bytes list" where
  "list_add h k =
     (if k \<in> set h \<and> length h \<le> L3FWD_HASH_ENTRIES then (list_look h k, h)
      else if length h < L3FWD_HASH_ENTRIES then (int (length h), h @ [k]) else (-28, h))"

lemma takeWhile_snoc:
  "x \<in> set h \<Longrightarrow> takeWhile (\<lambda>y. y \<noteq> x) (h @ ys) = takeWhile (\<lambda>y. y \<noteq> x) h"
  by (induction h) auto

lemma length_takeWhile_less: "x \<in> set h \<Longrightarrow> length (takeWhile (\<lambda>y. y \<noteq> x) h) < length h"
  by (induction h) auto

lemma takeWhile_eq_inject:
  "x \<in> set h \<Longrightarrow> y \<in> set h \<Longrightarrow>
   length (takeWhile (\<lambda>z. z \<noteq> x) h) = length (takeWhile (\<lambda>z. z \<noteq> y) h) \<Longrightarrow> x = y"
  by (induction h) (auto split: if_splits)

lemma takeWhile_fresh: "x \<notin> set h \<Longrightarrow> takeWhile (\<lambda>y. y \<noteq> x) (h @ [x]) = h"
  by (induction h) auto

lemma list_hash_laws: "hash_laws list_add list_look []"
proof -
  have "nat r < L3FWD_HASH_ENTRIES \<and> list_look h' k = r
      \<and> (\<forall>k'. k' \<noteq> k \<longrightarrow> list_look h' k' = list_look h k' \<and> list_look h k' \<noteq> r)"
    if add: "list_add h k = (r, h')" and r: "0 \<le> r" for h k r h'
  proof (cases "k \<in> set h \<and> length h \<le> L3FWD_HASH_ENTRIES")
    case True
    with add have "r = list_look h k" "h' = h" by (auto simp: list_add_def)
    with True length_takeWhile_less [of k h] takeWhile_eq_inject [of _ h k] show ?thesis
      by (auto simp: list_look_def)
  next
    case False
    with add r have h: "length h < L3FWD_HASH_ENTRIES" "r = int (length h)" "h' = h @ [k]" "k \<notin> set h"
      by (auto simp: list_add_def split: if_splits)
    have "list_look h' k' = list_look h k' \<and> list_look h k' \<noteq> r" if "k' \<noteq> k" for k'
      using that h(2,3) length_takeWhile_less [of k' h]
      by (cases "k' \<in> set h") (simp_all add: list_look_def takeWhile_snoc)
    moreover have "list_look h' k = r"
      using h by (simp add: list_look_def takeWhile_fresh)
    ultimately show ?thesis using h(1,2) by simp
  qed
  moreover have "list_look [] k < 0" for k by (simp add: list_look_def)
  ultimately show ?thesis
    unfolding hash_laws_def by blast
qed

lemma list_add_ok:
  "length h < L3FWD_HASH_ENTRIES \<Longrightarrow> \<exists>r h'. list_add h k = (r, h') \<and> 0 \<le> r
     \<and> nat r < L3FWD_HASH_ENTRIES \<and> length h' \<le> Suc (length h)"
  using length_takeWhile_less [of k h] by (auto simp: list_add_def list_look_def)

lemma list_populate_ok:
  "length h + length rows \<le> L3FWD_HASH_ENTRIES \<Longrightarrow>
   \<exists>h' arr'. populate list_add convert out i rows h arr = Some (Inr (h', arr'))"
proof (induction rows arbitrary: i h arr)
  case (Cons e rows)
  then obtain r h' where "list_add h (convert e) = (r, h')" "0 \<le> r"
    "nat r < L3FWD_HASH_ENTRIES" "length h' \<le> Suc (length h)"
    using list_add_ok [of h "convert e"] by auto
  with Cons show ?case by simp
qed simp

lemma list_setup_ok:
  "\<exists>t. setup_hash_wxb list_add (Some []) (Some []) if0 sid0 = Some (Inr t)"
proof -
  have "length ipv4_route_array \<le> L3FWD_HASH_ENTRIES" "length sid_route_array \<le> L3FWD_HASH_ENTRIES"
    by (simp_all add: ipv4_route_array_def sid_route_array_def L3FWD_HASH_ENTRIES_def)
  with list_populate_ok [of "[]" ipv4_route_array convert_ipv4 if_out 0 if0]
    list_populate_ok [of "[]" sid_route_array convert_sid sid_values 0 sid0]
  show ?thesis
    by (auto simp: setup_hash_wxb_def populate_ipv4_few_flow_into_table_wxb_def
        populate_sid_few_flow_into_table_def)
qed

theorem lookups_follow_routes_witness:
  "\<exists>t. setup_hash_wxb list_add (Some []) (Some []) (\<lambda>_. 0) (\<lambda>_. sid_default 0) = Some (Inr t)
     \<and> get_ipv4_dst_port_wxb list_look t (replicate 16 0 @ [192, 168, 8, 2] @ replicate 64 0) 0 7
       = Some 1"
proof -
  obtain t where t: "setup_hash_wxb list_add (Some []) (Some []) (\<lambda>_. 0) (\<lambda>_. sid_default 0)
      = Some (Inr t)"
    using list_setup_ok by blast
  have "List.find (\<lambda>e. bswap32 (ip_dst e) = get32 (replicate 16 0 @ [192, 168, 8, 2] @ replicate 64 0) 16)
      ipv4_route_array = Some \<lparr>ip_dst = IPv4 192 168 8 2, if_out = 1\<rparr>"
    by code_simp
  with lookups_follow_routes [OF list_hash_laws t, of 0
      "replicate 16 0 @ [192, 168, 8, 2] @ replicate 64 0" 7]
  have "get_ipv4_dst_port_wxb list_look t (replicate 16 0 @ [192, 168, 8, 2] @ replicate 64 0) 0 7
       = Some 1" by simp
  with t show ?thesis by blast
qed

end
