(* ===== verification/Lookup6.thy ===== *)
theory Lookup6
  imports Lookup
begin

text \<open>
  The IPv6 table of the resource manager (\<open>RM/main.c\<close>): the route array, the conversion of its
  five-tuples, the two population functions, \<open>setup_hash\<close> and \<open>get_ipv6_dst_port\<close>. The masks
  the look-up applies are globals that only the population functions set.
\<close>

section \<open>Routes and keys\<close>

record ipv6_route =
  ip6_dst :: bytes
  ip6_src :: bytes
  port_dst :: u16
  port_src :: u16
  proto :: u8
  if6_out :: u8

definition ipv6_l3fwd_route_array :: "ipv6_route list" where
  "ipv6_l3fwd_route_array =
     [\<lparr>ip6_dst = [0xfe, 0x80, 0, 0, 0, 0, 0, 0, 0x02, 0x1e, 0x67, 0xff, 0xfe, 0, 0, 0],
       ip6_src = [0xfe, 0x80, 0, 0, 0, 0, 0, 0, 0x02, 0x1b, 0x21, 0xff, 0xfe, 0x91, 0x38, 0x05],
       port_dst = 101, port_src = 11, proto = 6, if6_out = 0\<rparr>,
      \<lparr>ip6_dst = [0xfe, 0x90, 0, 0, 0, 0, 0, 0, 0x02, 0x1e, 0x67, 0xff, 0xfe, 0, 0, 0],
       ip6_src = [0xfe, 0x90, 0, 0, 0, 0, 0, 0, 0x02, 0x1b, 0x21, 0xff, 0xfe, 0x91, 0x38, 0x05],
       port_dst = 102, port_src = 12, proto = 6, if6_out = 1\<rparr>,
      \<lparr>ip6_dst = [0xfe, 0xa0, 0, 0, 0, 0, 0, 0, 0x02, 0x1e, 0x67, 0xff, 0xfe, 0, 0, 0],
       ip6_src = [0xfe, 0xa0, 0, 0, 0, 0, 0, 0, 0x02, 0x1b, 0x21, 0xff, 0xfe, 0x91, 0x38, 0x05],
       port_dst = 101, port_src = 11, proto = 6, if6_out = 2\<rparr>,
      \<lparr>ip6_dst = [0xfe, 0xb0, 0, 0, 0, 0, 0, 0, 0x02, 0x1e, 0x67, 0xff, 0xfe, 0, 0, 0],
       ip6_src = [0xfe, 0xb0, 0, 0, 0, 0, 0, 0, 0x02, 0x1b, 0x21, 0xff, 0xfe, 0x91, 0x38, 0x05],
       port_dst = 102, port_src = 12, proto = 6, if6_out = 3\<rparr>]"

definition convert_ipv6_5tuple :: "ipv6_route \<Rightarrow> bytes" where
  "convert_ipv6_5tuple e = [0, 0, proto e, 0] @ ip6_src e @ ip6_dst e
     @ le_bytes 2 (bswap16 (port_src e)) @ le_bytes 2 (bswap16 (port_dst e)) @ replicate 8 0"

text \<open>The generated flows of \<open>populate_ipv6_many_flow_into_table\<close>.\<close>

definition many_flow :: "nat \<Rightarrow> ipv6_route" where
  "many_flow i =
     (let q = i div 4; entry = ipv6_l3fwd_route_array ! (i mod 4) in
      entry\<lparr>ip6_dst := (ip6_dst entry)
        [13 := word_of_nat (q div (256 * 256)), 14 := word_of_nat (q div 256 mod 256),
         15 := word_of_nat (q mod 256)]\<rparr>)"

record 'h ipv6_table =
  ipv6_hash :: 'h
  ipv6_l3fwd_out_if :: "nat \<Rightarrow> u8"
  mask1 :: bytes
  mask2 :: bytes

definition set_mask1 :: bytes where
  "set_mask1 = [0, 0, 0xff, 0] @ replicate 12 0xff"

definition set_mask2 :: bytes where
  "set_mask2 = replicate 8 0xff @ replicate 8 0"

definition populate_ipv6 ::
  "('h \<Rightarrow> bytes \<Rightarrow> int \<times> 'h) \<Rightarrow> ipv6_route list \<Rightarrow> 'h ipv6_table \<Rightarrow> (nat + 'h ipv6_table) option"
where
  "populate_ipv6 add rows t = do {
     r \<leftarrow> populate add convert_ipv6_5tuple if6_out 0 rows (ipv6_hash t) (ipv6_l3fwd_out_if t);
     case r of
       Inl i \<Rightarrow> Some (Inl i)
     | Inr (h, out) \<Rightarrow> Some (Inr \<lparr>ipv6_hash = h, ipv6_l3fwd_out_if = out,
         mask1 = set_mask1, mask2 = set_mask2\<rparr>) }"

definition populate_ipv6_few_flow_into_table where
  "populate_ipv6_few_flow_into_table add t = populate_ipv6 add ipv6_l3fwd_route_array t"

definition populate_ipv6_many_flow_into_table where
  "populate_ipv6_many_flow_into_table add nr_flow t =
     populate_ipv6 add (map many_flow [0..<nr_flow]) t"

definition HASH_ENTRY_NUMBER_DEFAULT :: u32 where
  "HASH_ENTRY_NUMBER_DEFAULT = 4"

definition setup_hash ::
  "('h \<Rightarrow> bytes \<Rightarrow> int \<times> 'h) \<Rightarrow> 'h option \<Rightarrow> int \<Rightarrow> u32 \<Rightarrow> 'h ipv6_table \<Rightarrow>
    (string + 'h ipv6_table) option" where
  "setup_hash add create ipv6 hash_entry_number t =
     (case create of
        None \<Rightarrow> Some (Inl ''Unable to create the l3fwd hash'')
      | Some h \<Rightarrow>
          let t = t\<lparr>ipv6_hash := h\<rparr> in
          if ipv6 = 0 then Some (Inr t)
          else do {
            r \<leftarrow> (if hash_entry_number \<noteq> HASH_ENTRY_NUMBER_DEFAULT
                  then populate_ipv6_many_flow_into_table add (unat hash_entry_number) t
                  else populate_ipv6_few_flow_into_table add t);
            case r of Inl i \<Rightarrow> Some (Inl ''Unable to add entry'') | Inr t \<Rightarrow> Some (Inr t) })"

definition get_ipv6_dst_port ::
  "('h \<Rightarrow> bytes \<Rightarrow> int) \<Rightarrow> 'h ipv6_table \<Rightarrow> bytes \<Rightarrow> nat \<Rightarrow> u8 \<Rightarrow> u8 option" where
  "get_ipv6_dst_port look t b ip portid = do {
     data0 \<leftarrow> rdn b (ip + 4) 16;
     data1 \<leftarrow> rdn b (ip + 20) 16;
     data2 \<leftarrow> rdn b (ip + 36) 16;
     array_at look (ipv6_hash t) (ipv6_l3fwd_out_if t)
       (and_bytes data0 (mask1 t) @ data1 @ and_bytes data2 (mask2 t)) portid }"

text \<open>\<open>get_ipv6_5tuple\<close> builds the same key from a packet whose IPv6 header is at 14.\<close>

definition get_ipv6_5tuple :: "bytes \<Rightarrow> bytes \<Rightarrow> bytes \<Rightarrow> bytes option" where
  "get_ipv6_5tuple b m0 m1 = do {
     tmpdata0 \<leftarrow> rdn b 18 16;
     tmpdata1 \<leftarrow> rdn b 34 16;
     tmpdata2 \<leftarrow> rdn b 50 16;
     Some (and_bytes tmpdata0 m0 @ tmpdata1 @ and_bytes tmpdata2 m1) }"

section \<open>The generated flows\<close>

lemma many_flow_split:
  fixes i :: nat
  assumes "i < 4 * 256 * 256 * 256"
  shows "i = 4 * (256 * 256 * (i div 4 div (256 * 256)) + 256 * (i div 4 div 256 mod 256)
      + i div 4 mod 256) + i mod 4"
    and "i div 4 div (256 * 256) < 256"
proof -
  show "i div 4 div (256 * 256) < 256" using assms by auto
  have "i div 4 = 256 * (i div 4 div 256) + i div 4 mod 256"
    "i div 4 div 256 = 256 * (i div 4 div (256 * 256)) + i div 4 div 256 mod 256"
    unfolding div_mult2_eq by simp_all
  then have "i div 4 = 256 * 256 * (i div 4 div (256 * 256)) + 256 * (i div 4 div 256 mod 256)
      + i div 4 mod 256" by linarith
  then show "i = 4 * (256 * 256 * (i div 4 div (256 * 256)) + 256 * (i div 4 div 256 mod 256)
      + i div 4 mod 256) + i mod 4"
    using arg_cong [of _ _ "\<lambda>q. 4 * q + i mod 4"] by (metis mult_div_mod_eq)
qed

lemma route_array_fields:
  fixes i :: nat
  shows "length (ip6_src (ipv6_l3fwd_route_array ! (i mod 4))) = 16
    \<and> length (ip6_dst (ipv6_l3fwd_route_array ! (i mod 4))) = 16
    \<and> ip6_dst (ipv6_l3fwd_route_array ! (i mod 4)) ! 1 = word_of_nat (128 + 16 * (i mod 4))"
proof -
  have "i mod 4 < 4" by simp
  then consider "i mod 4 = 0" | "i mod 4 = 1" | "i mod 4 = 2" | "i mod 4 = 3"
    by linarith
  then show ?thesis
    by cases (simp_all add: ipv6_l3fwd_route_array_def)
qed

lemma many_flow_fields:
  "length (ip6_src (many_flow i)) = 16" "length (ip6_dst (many_flow i)) = 16"
  "ip6_dst (many_flow i) ! 1 = word_of_nat (128 + 16 * (i mod 4))"
  "ip6_dst (many_flow i) ! 13 = word_of_nat (i div 4 div (256 * 256))"
  "ip6_dst (many_flow i) ! 14 = word_of_nat (i div 4 div 256 mod 256)"
  "ip6_dst (many_flow i) ! 15 = word_of_nat (i div 4 mod 256)"
  using route_array_fields [of i] by (simp_all add: many_flow_def Let_def)

lemma word8_of_nat_inject:
  "m < 256 \<Longrightarrow> n < 256 \<Longrightarrow> (word_of_nat m :: u8) = word_of_nat n \<longleftrightarrow> m = n"
  by (simp add: word_of_nat_eq_iff take_bit_nat_eq_self)

lemma many_flow_inject:
  assumes "i < 4 * 256 * 256 * 256" and "j < 4 * 256 * 256 * 256"
    and "ip6_dst (many_flow i) = ip6_dst (many_flow j)"
  shows "i = j"
proof -
  have a: "i div 4 mod 256 = j div 4 mod 256"
    and b: "i div 4 div 256 mod 256 = j div 4 div 256 mod 256"
    using many_flow_fields(5,6) [of i] many_flow_fields(5,6) [of j] assms(3)
    by (simp_all add: word8_of_nat_inject)
  have c: "i div 4 div (256 * 256) = j div 4 div (256 * 256)"
    using many_flow_fields(4) [of i] many_flow_fields(4) [of j] assms(3)
      many_flow_split(2) [OF assms(1)] many_flow_split(2) [OF assms(2)]
    by (simp add: word8_of_nat_inject)
  have "128 + 16 * (i mod 4) < 256" "128 + 16 * (j mod 4) < 256"
    using mod_less_divisor [of 4 i] mod_less_divisor [of 4 j] by linarith+
  then have d: "i mod 4 = j mod 4"
    using many_flow_fields(3) [of i] many_flow_fields(3) [of j] assms(3)
      word8_of_nat_inject [of "128 + 16 * (i mod 4)" "128 + 16 * (j mod 4)"] by simp
  show ?thesis
    using many_flow_split(1) [OF assms(1)] many_flow_split(1) [OF assms(2)]
    unfolding a b c d by simp
qed

lemma flows_distinct:
  assumes "nr_flow \<le> L3FWD_HASH_ENTRIES"
  shows "distinct (map convert_ipv6_5tuple (map many_flow [0..<nr_flow]))"
proof -
  have "inj_on (\<lambda>i. convert_ipv6_5tuple (many_flow i)) {0..<nr_flow}"
  proof (rule inj_onI)
    fix i j
    assume "i \<in> {0..<nr_flow}" "j \<in> {0..<nr_flow}"
      and eq: "convert_ipv6_5tuple (many_flow i) = convert_ipv6_5tuple (many_flow j)"
    then have "i < 4 * 256 * 256 * 256" "j < 4 * 256 * 256 * 256"
      using assms by (simp_all add: L3FWD_HASH_ENTRIES_def)
    moreover have "ip6_dst (many_flow i) = ip6_dst (many_flow j)"
      using eq by (simp add: convert_ipv6_5tuple_def append_eq_append_conv many_flow_fields)
    ultimately show "i = j" by (rule many_flow_inject)
  qed
  then show ?thesis by (simp add: distinct_map comp_def)
qed

text \<open>The flows that \<open>populate_ipv6_many_flow_into_table\<close> generates are pairwise different keys for
  every number of flows the command line can ask for (\<open>L3FWD_HASH_ENTRIES\<close> at most), so no flow
  overwrites the route of another.\<close>

theorem many_flows_distinct:
  assumes "nr_flow \<le> L3FWD_HASH_ENTRIES"
  shows "distinct (map convert_ipv6_5tuple (map many_flow [0..<nr_flow]))"
  using assms by (rule flows_distinct)

theorem many_flows_distinct_witness:
  "distinct (map convert_ipv6_5tuple (map many_flow [0..<4194304]))"
  by (rule many_flows_distinct) (simp add: L3FWD_HASH_ENTRIES_def)

section \<open>The look-up\<close>

lemma slice_4: "q + 4 \<le> length b \<Longrightarrow> slice b q 4 = [b ! q, b ! (q + 1), b ! (q + 2), b ! (q + 3)]"
  by (rule nth_equalityI) (auto simp: slice_def nth_Cons numeral_eq_Suc split: nat.splits)

text \<open>The header of the packet a route is for.\<close>

definition matches6 :: "bytes \<Rightarrow> nat \<Rightarrow> ipv6_route \<Rightarrow> bool" where
  "matches6 b ip e \<longleftrightarrow> get8 b (ip + 6) = proto e \<and> slice b (ip + 8) 16 = ip6_src e
     \<and> slice b (ip + 24) 16 = ip6_dst e
     \<and> get16 b (ip + 40) = bswap16 (port_src e) \<and> get16 b (ip + 42) = bswap16 (port_dst e)"

lemma key6:
  assumes "ip + 52 \<le> length b" and "length (ip6_src e) = 16" and "length (ip6_dst e) = 16"
  shows "convert_ipv6_5tuple e = and_bytes (slice b (ip + 4) 16) set_mask1 @ slice b (ip + 20) 16
      @ and_bytes (slice b (ip + 36) 16) set_mask2 \<longleftrightarrow> matches6 b ip e"
proof -
  have "slice b (ip + 4) 16 = slice b (ip + 4) 4 @ slice b (ip + 8) 12"
    using slice_split [of b "ip + 4" 4 12] by (simp add: add.assoc)
  moreover have "and_bytes (slice b (ip + 4) 4) [0, 0, 0xff, 0] = [0, 0, get8 b (ip + 6), 0]"
    using assms(1) by (simp add: slice_4 and_bytes_def get8_nth add.assoc add.commute [of 6])
  ultimately have d0: "and_bytes (slice b (ip + 4) 16) set_mask1 =
      [0, 0, get8 b (ip + 6), 0] @ slice b (ip + 8) 12"
    using assms(1) and_bytes_append [of "slice b (ip + 4) 4" "[0, 0, 0xff, 0]"]
    by (simp add: set_mask1_def and_bytes_ff)
  have "slice b (ip + 36) 16 = slice b (ip + 36) 8 @ slice b (ip + 44) 8"
    using slice_split [of b "ip + 36" 8 8] by (simp add: add.assoc)
  then have d2: "and_bytes (slice b (ip + 36) 16) set_mask2 = slice b (ip + 36) 8 @ replicate 8 0"
    using assms(1) by (simp add: set_mask2_def and_bytes_append and_bytes_ff and_bytes_zero)
  have "slice b (ip + 8) 12 @ slice b (ip + 20) 16 @ slice b (ip + 36) 8 = slice b (ip + 8) 16
      @ slice b (ip + 24) 16 @ slice b (ip + 40) 2 @ slice b (ip + 42) 2"
    using slice_split [of b "ip + 8" 12 4] slice_split [of b "ip + 20" 4 12]
      slice_split [of b "ip + 24" 12 4] slice_split [of b "ip + 36" 4 4]
      slice_split [of b "ip + 40" 2 2]
    by (simp add: add.assoc add.commute [of 42])
  then have "and_bytes (slice b (ip + 4) 16) set_mask1 @ slice b (ip + 20) 16
      @ and_bytes (slice b (ip + 36) 16) set_mask2 = [0, 0, get8 b (ip + 6), 0] @ slice b (ip + 8) 16
      @ slice b (ip + 24) 16 @ le_bytes 2 (get16 b (ip + 40)) @ le_bytes 2 (get16 b (ip + 42))
      @ replicate 8 0"
    unfolding d0 d2 using assms(1) by (simp add: le_bytes_get)
  then show ?thesis
    using assms by (auto simp: convert_ipv6_5tuple_def matches6_def append_eq_append_conv)
qed

definition route6_for :: "bytes \<Rightarrow> nat \<Rightarrow> ipv6_route list \<Rightarrow> ipv6_route option" where
  "route6_for b ip rows = List.find (matches6 b ip) rows"

lemma populate_ipv6_found:
  assumes "hash_laws add look h0" and "ipv6_hash t0 = h0"
    and "populate_ipv6 add rows t0 = Some (Inr t)" and "distinct (map convert_ipv6_5tuple rows)"
    and "\<forall>e \<in> set rows. length (ip6_src e) = 16 \<and> length (ip6_dst e) = 16"
    and "ip + 52 \<le> length b"
  shows "get_ipv6_dst_port look t b ip portid =
    Some (case route6_for b ip rows of Some e \<Rightarrow> if6_out e | None \<Rightarrow> portid)"
proof -
  from assms(2,3) obtain h arr where
    pop: "populate add convert_ipv6_5tuple if6_out 0 rows h0 (ipv6_l3fwd_out_if t0) = Some (Inr (h, arr))"
    and t: "t = \<lparr>ipv6_hash = h, ipv6_l3fwd_out_if = arr, mask1 = set_mask1, mask2 = set_mask2\<rparr>"
    by (auto simp: populate_ipv6_def elim!: ub_elims split: sum.splits)
  let ?key = "and_bytes (slice b (ip + 4) 16) set_mask1 @ slice b (ip + 20) 16
      @ and_bytes (slice b (ip + 36) 16) set_mask2"
  have "List.find (\<lambda>e. convert_ipv6_5tuple e = ?key) rows = route6_for b ip rows"
    unfolding route6_for_def by (rule find_cong) (use key6 assms(5,6) in auto)
  moreover have "found look h0 (ipv6_l3fwd_out_if t0) ?key = None"
    using assms(1) by (simp add: found_def hash_laws_def)
  ultimately have "found look h arr ?key = map_option if6_out (route6_for b ip rows)"
    using populate_found [OF assms(1) pop, of ?key]
    by (simp add: route_for_distinct [OF assms(4)] split: option.splits)
  moreover have "positions_ok look h"
    using populate_positions [OF assms(1) pop] positions_ok_empty [OF assms(1)] by blast
  ultimately show ?thesis
    using assms(6) array_at_found [of look h "\<lambda>x. x" arr ?key portid]
    by (simp add: get_ipv6_dst_port_def t buf_simps split: option.splits)
qed

lemma array_routes6:
  "distinct (map convert_ipv6_5tuple ipv6_l3fwd_route_array)"
  "\<forall>e \<in> set ipv6_l3fwd_route_array. length (ip6_src e) = 16 \<and> length (ip6_dst e) = 16"
  by code_simp+

text \<open>With IPv6 forwarding switched on, whatever the number of hash entries asked for, a packet
  leaves through the port of the route (of the array, or of the generated flows) whose five-tuple
  its header carries, and through the receiving port where there is none; with it switched off
  every packet keeps the receiving port.\<close>

theorem ipv6_lookup_follows_routes:
  assumes "hash_laws add look h0" and "unat hash_entry_number \<le> L3FWD_HASH_ENTRIES"
    and "setup_hash add (Some h0) ipv6 hash_entry_number t0 = Some (Inr t)"
    and "ip + 52 \<le> length b"
  shows "get_ipv6_dst_port look t b ip portid =
    Some (case route6_for b ip (if ipv6 = 0 then []
            else if hash_entry_number = HASH_ENTRY_NUMBER_DEFAULT then ipv6_l3fwd_route_array
            else map many_flow [0..<unat hash_entry_number]) of
       Some e \<Rightarrow> if6_out e | None \<Rightarrow> portid)"
proof (cases "ipv6 = 0")
  case True
  then have t: "t = t0\<lparr>ipv6_hash := h0\<rparr>"
    using assms(3) by (simp add: setup_hash_def)
  have "look h0 k < 0" for k using assms(1) by (simp add: hash_laws_def)
  with True assms(4) show ?thesis
    by (simp add: t get_ipv6_dst_port_def buf_simps array_at_def route6_for_def)
next
  case False
  let ?t1 = "t0\<lparr>ipv6_hash := h0\<rparr>"
  let ?rows = "if hash_entry_number = HASH_ENTRY_NUMBER_DEFAULT then ipv6_l3fwd_route_array
            else map many_flow [0..<unat hash_entry_number]"
  have "populate_ipv6 add ?rows ?t1 = Some (Inr t)"
    using assms(3) False
    by (auto simp: setup_hash_def populate_ipv6_few_flow_into_table_def
        populate_ipv6_many_flow_into_table_def elim!: ub_elims split: sum.splits if_splits)
  moreover have "distinct (map convert_ipv6_5tuple ?rows)"
    using array_routes6(1) flows_distinct [OF assms(2)] by simp
  moreover have "\<forall>e \<in> set ?rows. length (ip6_src e) = 16 \<and> length (ip6_dst e) = 16"
    using array_routes6(2) by (auto simp: many_flow_fields)
  ultimately show ?thesis
    using populate_ipv6_found [OF assms(1) _ _ _ _ assms(4), of ?t1 ?rows t portid] False by simp
qed

lemma list_setup6:
  "\<exists>t. setup_hash list_add (Some []) 1 4 \<lparr>ipv6_hash = [], ipv6_l3fwd_out_if = \<lambda>_. 0, mask1 = [],
      mask2 = []\<rparr> = Some (Inr t)"
proof -
  have "length ipv6_l3fwd_route_array \<le> L3FWD_HASH_ENTRIES"
    by (simp add: ipv6_l3fwd_route_array_def L3FWD_HASH_ENTRIES_def)
  with list_populate_ok [of "[]" ipv6_l3fwd_route_array convert_ipv6_5tuple if6_out 0 "\<lambda>_. 0"]
  show ?thesis
    by (auto simp: setup_hash_def populate_ipv6_few_flow_into_table_def populate_ipv6_def
        HASH_ENTRY_NUMBER_DEFAULT_def)
qed

theorem ipv6_lookup_follows_routes_witness:
  "\<exists>t. setup_hash list_add (Some []) 1 4 \<lparr>ipv6_hash = [], ipv6_l3fwd_out_if = \<lambda>_. 0, mask1 = [],
      mask2 = []\<rparr> = Some (Inr t)
    \<and> get_ipv6_dst_port list_look t (replicate 60 0) 0 9 = Some 9"
proof -
  obtain t where t: "setup_hash list_add (Some []) 1 4 \<lparr>ipv6_hash = [],
      ipv6_l3fwd_out_if = \<lambda>_. 0, mask1 = [], mask2 = []\<rparr> = Some (Inr t)"
    using list_setup6 by blast
  have "route6_for (replicate 60 0) 0 ipv6_l3fwd_route_array = None" by code_simp
  then have "get_ipv6_dst_port list_look t (replicate 60 0) 0 9 = Some 9"
    using ipv6_lookup_follows_routes [OF list_hash_laws _ t, of 0 "replicate 60 0" 9]
    by (simp add: L3FWD_HASH_ENTRIES_def HASH_ENTRY_NUMBER_DEFAULT_def)
  with t show ?thesis by blast
qed

end
