(* ===== verification/Forward.thy ===== *)
theory Forward
  imports Lookup6 Packet Tx_Buffer
begin

text \<open>
  \<open>l3fwd_simple_forward\<close> of \<open>RM/main.c\<close>: the forwarding of one packet by its service identifier
  (IPv4) or its 5-tuple (IPv6), onto the transmit buffer of the chosen port. The route look-ups,
  the rewriting of the packet and the buffer are those of the theories imported here; the tables,
  the port addresses and the port mask are the configuration \<open>fwd\<close>.
\<close>

section \<open>The function\<close>

record ('h, 'k) fwd =
  wxb :: "'h wxb_tables"
  wxb_look :: "'h \<Rightarrow> bytes \<Rightarrow> int"
  six :: "'k ipv6_table"
  six_look :: "'k \<Rightarrow> bytes \<Rightarrow> int"
  ports_eth_addr :: "u8 \<Rightarrow> 48 word"
  enabled_port_mask :: u32
  RTE_MAX_ETHPORTS :: nat

text \<open>The port a packet really leaves through.\<close>

definition usable_port :: "('h, 'k) fwd \<Rightarrow> u8 \<Rightarrow> u8 \<Rightarrow> u8" where
  "usable_port f dst_port portid =
     (if unat dst_port \<ge> RTE_MAX_ETHPORTS f \<or> \<not> bit (enabled_port_mask f) (unat dst_port)
      then portid else dst_port)"

text \<open>The Ethernet addresses: eight bytes are stored over the destination \<open>02:00:00:00:00:xx\<close> and
  the first two bytes of the source, which is stored next.\<close>

definition set_ether :: "('h, 'k) fwd \<Rightarrow> u8 \<Rightarrow> bytes \<Rightarrow> bytes option" where
  "set_ether f dst_port b = do {
     b \<leftarrow> wr64 b 0 (0x02 + push_bit 40 (ucast dst_port));
     wrn b 6 (le_bytes 6 (ports_eth_addr f dst_port)) }"

text \<open>The packet is freed (\<open>None\<close>) or goes to a port.\<close>

definition forward_ipv4 :: "('h, 'k) fwd \<Rightarrow> mbuf \<Rightarrow> u8 \<Rightarrow> (u8 \<times> mbuf) option option" where
  "forward_ipv4 f m portid = do {
     sid_ip \<leftarrow> get_sid_dst_ipv4 (wxb_look f) (wxb f) (mdata m) 14;
     b \<leftarrow> update_IP (mdata m) 14 sid_ip;
     sid_pid \<leftarrow> get_sid_dst_pid (wxb_look f) (wxb f) b 14;
     sid_flag \<leftarrow> get_sid_dst_flag (wxb_look f) (wxb f) b 14;
     sid_nid \<leftarrow> get_sid_dst_nid (wxb_look f) (wxb f) b 14;
     m \<leftarrow> (if sid_flag \<noteq> 0 then update_PID (m\<lparr>mdata := b\<rparr>) sid_pid else Some (m\<lparr>mdata := b\<rparr>));
     v \<leftarrow> is_valid_ipv4_pkt (mdata m) 14 (pkt_len m);
     if v < 0 then Some None
     else do {
       dst_port \<leftarrow> get_ipv4_dst_port_wxb (wxb_look f) (wxb f) (mdata m) 14 portid;
       let dst_port = usable_port f dst_port portid;
       ttl \<leftarrow> rd8 (mdata m) 22;
       ck \<leftarrow> rd16 (mdata m) 24;
       b \<leftarrow> wr64 (mdata m) 0 (0x02 + push_bit 40 (ucast dst_port));
       b \<leftarrow> wr8 b 22 (ttl - 1);
       b \<leftarrow> wr16 b 24 (ck + 1);
       b \<leftarrow> wrn b 6 (le_bytes 6 (ports_eth_addr f dst_port));
       Some (Some (dst_port, m\<lparr>mdata := b\<rparr>)) } }"

definition forward_ipv6 :: "('h, 'k) fwd \<Rightarrow> mbuf \<Rightarrow> u8 \<Rightarrow> (u8 \<times> mbuf) option option" where
  "forward_ipv6 f m portid = do {
     dst_port \<leftarrow> get_ipv6_dst_port (six_look f) (six f) (mdata m) 14 portid;
     let dst_port = usable_port f dst_port portid;
     b \<leftarrow> set_ether f dst_port (mdata m);
     Some (Some (dst_port, m\<lparr>mdata := b\<rparr>)) }"

text \<open>The buffers of all ports and their drivers are functions of the port.\<close>

definition l3fwd_simple_forward :: "('h, 'k) fwd \<Rightarrow> (u8 \<Rightarrow> mbuf list \<Rightarrow> nat) \<Rightarrow> mbuf \<Rightarrow> u8 \<Rightarrow>
    (u8 \<Rightarrow> mbuf mbuf_table) \<Rightarrow> ((u8 \<Rightarrow> mbuf mbuf_table) \<times> mbuf event list) option" where
  "l3fwd_simple_forward f burst m portid txs = do {
     r \<leftarrow> (if rx_ipv4 m then forward_ipv4 f m portid else forward_ipv6 f m portid);
     case r of
       None \<Rightarrow> Some (txs, [Free m])
     | Some (dst_port, m) \<Rightarrow> do {
         (q, es) \<leftarrow> send_single_packet (burst dst_port) (txs dst_port) m;
         Some (txs(dst_port := q), es) } }"

section \<open>The way of an IPv4 packet\<close>








lemma take_le_bytes: "m \<le> n \<Longrightarrow> take m (le_bytes n w) = le_bytes m w"
proof (induction n arbitrary: m w)
  case (Suc n)
  then show ?case by (cases m) (simp_all add: le_bytes.simps)
qed (simp add: le_bytes.simps)

lemma le_bytes_prefix [within_simps]: "m \<le> n \<Longrightarrow> slice (le_bytes n w) 0 m = le_bytes m w"
  by (simp add: slice_def take_le_bytes)




definition sample_fwd :: "bytes list wxb_tables \<Rightarrow> (bytes list, unit) fwd" where
  "sample_fwd t = \<lparr>wxb = t, wxb_look = list_look,
     six = \<lparr>ipv6_hash = (), ipv6_l3fwd_out_if = \<lambda>_. 0, mask1 = [], mask2 = []\<rparr>,
     six_look = \<lambda>_ _. -1, ports_eth_addr = \<lambda>p. ucast p, enabled_port_mask = 0xf,
     RTE_MAX_ETHPORTS = 32\<rparr>"

definition sample_packet :: mbuf where
  "sample_packet = \<lparr>mid = 1, mdata = replicate 14 0 @ [0x45, 0, 0, 116] @ replicate 44 0
     @ [1,2,3,4,5,6,7,8,9,10,11,12,13,14,15,16] @ [1,2,3,4,5,6,7,8,9,10,11,12,13,14,15,16,17,18,19,20]
     @ replicate 60 0, data_len = 130, pkt_len = 130, rx_ipv4 = True\<rparr>"


text \<open>Without a matching flow, or for a flow to a disabled port, an IPv6 packet leaves through the
  port it came from; the function changes nothing of it but the two Ethernet addresses, and queues
  it without loss.\<close>

theorem l3fwd_forwards_ipv6:
  fixes portid :: u8
  assumes "\<not> rx_ipv4 m" and "66 \<le> length (mdata m)"
    and "get_ipv6_dst_port (six_look f) (six f) (mdata m) 14 portid = Some d"
    and "queue_ok (txs (usable_port f d portid))"
  shows "\<exists>m' q es. l3fwd_simple_forward f burst m portid txs =
      Some (txs(usable_port f d portid := q), es)
    \<and> queue_ok q \<and> pending (txs (usable_port f d portid)) @ [m'] = map pkt es @ pending q
    \<and> slice (mdata m') 0 6 = le_bytes 6 (0x02 + push_bit 40 (ucast (usable_port f d portid)) :: u64)
    \<and> slice (mdata m') 6 6 = le_bytes 6 (ports_eth_addr f (usable_port f d portid))
    \<and> drop 12 (mdata m') = drop 12 (mdata m) \<and> data_len m' = data_len m
    \<and> (d = portid \<or> \<not> bit (enabled_port_mask f) (unat d) \<longrightarrow> usable_port f d portid = portid)"
proof -
  let ?p = "usable_port f d portid"
  let ?b = "put (put (mdata m) 0 (le_bytes 8 (0x02 + push_bit 40 (ucast ?p) :: u64))) 6
    (le_bytes 6 (ports_eth_addr f ?p))"
  have b: "set_ether f ?p (mdata m) = Some ?b"
    using assms(2) by (simp add: set_ether_def buf_simps)
  have rest: "drop 12 ?b = drop 12 (mdata m)"
    using assms(2) by (simp add: put_def wrn_def)
  obtain q es where "send_single_packet (burst ?p) (txs ?p) (m\<lparr>mdata := ?b\<rparr>) = Some (q, es)"
    "queue_ok q" "pending (txs ?p) @ [m\<lparr>mdata := ?b\<rparr>] = map pkt es @ pending q"
    using send_single_ok [OF assms(4), of "burst ?p" "m\<lparr>mdata := ?b\<rparr>"] by blast
  moreover have "slice ?b 0 6 = le_bytes 6 (0x02 + push_bit 40 (ucast ?p) :: u64)"
    "slice ?b 6 6 = le_bytes 6 (ports_eth_addr f ?p)"
    using assms(2) by (simp_all add: buf_simps within_simps)
  ultimately show ?thesis
    using assms(1,3) b rest
    by (intro exI [of _ "m\<lparr>mdata := ?b\<rparr>"] exI [of _ q] exI [of _ es])
      (auto simp: l3fwd_simple_forward_def forward_ipv6_def Let_def usable_port_def)
qed

theorem l3fwd_forwards_ipv6_witness:
  "\<forall>t. \<exists>q es. l3fwd_simple_forward (sample_fwd t) (\<lambda>_ _. 0)
      (sample_packet\<lparr>rx_ipv4 := False\<rparr>) 2 (\<lambda>_. empty_table) = Some ((\<lambda>_. empty_table)(2 := q), es)"
proof
  fix t
  have d: "get_ipv6_dst_port (six_look (sample_fwd t)) (six (sample_fwd t))
      (mdata (sample_packet\<lparr>rx_ipv4 := False\<rparr>)) 14 2 = Some 2"
    by (simp add: get_ipv6_dst_port_def sample_fwd_def array_at_def sample_packet_def buf_simps)
  have "queue_ok (empty_table :: mbuf mbuf_table)"
    by (simp add: queue_ok_def empty_table_def MAX_PKT_BURST_def)
  from l3fwd_forwards_ipv6 [OF _ _ d, of "\<lambda>_. empty_table" "\<lambda>_ _. 0"] this
  show "\<exists>q es. l3fwd_simple_forward (sample_fwd t) (\<lambda>_ _. 0)
      (sample_packet\<lparr>rx_ipv4 := False\<rparr>) 2 (\<lambda>_. empty_table) = Some ((\<lambda>_. empty_table)(2 := q), es)"
    by (fastforce simp: sample_packet_def usable_port_def)
qed

end
