(* ===== verification/Timer_List.thy ===== *)
theory Timer_List
  imports Prelude
begin

text \<open>
  The timers of a monitoring station (\<open>local_timer.c\<close>, and \<open>sig_func\<close> of \<open>main.c\<close>): a doubly linked
  list ordered by time. The operations work on an explicit store of nodes, where a dereference of
  \<open>NULL\<close> or of a freed node is undefined; they are shown to refine functions on lists.

  Times are in seconds; \<open>int elapse = difftime(a, b)\<close> is undefined where the difference does not fit
  an \<open>int\<close>.
\<close>

section \<open>The store\<close>

type_synonym addr = nat

record timer_info =
  timer_id :: int
  flag :: int
  elapse :: int
  time :: int

record timer_node = timer_info +
  pre :: "addr option"
  nxt :: "addr option"

type_synonym store = "addr \<Rightarrow> timer_node option"

definition deref :: "store \<Rightarrow> addr option \<Rightarrow> timer_node option" where
  "deref h p = Option.bind p h"

definition modify :: "store \<Rightarrow> addr option \<Rightarrow> (timer_node \<Rightarrow> timer_node) \<Rightarrow> store option" where
  "modify h p f = do { a \<leftarrow> p; n \<leftarrow> h a; Some (h(a \<mapsto> f n)) }"

definition free :: "store \<Rightarrow> addr \<Rightarrow> store" where
  "free h a = h(a := None)"

definition difftime :: "int \<Rightarrow> int \<Rightarrow> int option" where
  "difftime a b = do { guard (- (2 ^ 31) \<le> a - b \<and> a - b < 2 ^ 31); Some (a - b) }"

section \<open>The operations\<close>

definition delete_repete_timer :: "store \<Rightarrow> addr \<Rightarrow> (store \<times> addr option) option" where
  "delete_repete_timer h p = do {
     n \<leftarrow> h p;
     if pre n = None then
       if nxt n = None then Some (free h p, None)
       else do {
         h \<leftarrow> modify h (nxt n) (\<lambda>m. m\<lparr>pre := None\<rparr>);
         Some (free h p, nxt n) }
     else if nxt n \<noteq> None then do {
       h \<leftarrow> modify h (nxt n) (\<lambda>m. m\<lparr>pre := pre n\<rparr>);
       h \<leftarrow> modify h (pre n) (\<lambda>m. m\<lparr>nxt := nxt n\<rparr>);
       Some (free h p, nxt n) }
     else do {
       h \<leftarrow> modify h (pre n) (\<lambda>m. m\<lparr>nxt := None\<rparr>);
       Some (free h p, None) } }"

text \<open>\<open>pnew\<close> becomes the only node.\<close>

definition only_timer :: "int \<Rightarrow> store \<Rightarrow> addr \<Rightarrow> (store \<times> addr option) option" where
  "only_timer now h pnew = do {
     n \<leftarrow> h pnew;
     e \<leftarrow> difftime (time n) now;
     h \<leftarrow> modify h (Some pnew) (\<lambda>m. m\<lparr>pre := None, nxt := None, elapse := e\<rparr>);
     Some (h, Some pnew) }"

text \<open>After the loop: \<open>pnew\<close> goes to the end unless it was inserted.\<close>

definition insert_last :: "addr \<Rightarrow> store \<Rightarrow> addr option \<Rightarrow> addr \<Rightarrow> bool \<Rightarrow> (store \<times> addr option) option" where
  "insert_last pnew h head p_end insert_flag =
     (if \<not> insert_flag then do {
        h \<leftarrow> modify h (Some pnew) (\<lambda>m. m\<lparr>pre := Some p_end\<rparr>);
        h \<leftarrow> modify h (Some p_end) (\<lambda>m. m\<lparr>nxt := Some pnew\<rparr>);
        n \<leftarrow> h pnew;
        e \<leftarrow> h p_end;
        d \<leftarrow> difftime (time n) (time e);
        h \<leftarrow> modify h (Some pnew) (\<lambda>m. m\<lparr>elapse := d, nxt := None\<rparr>);
        Some (h, head) }
      else Some (h, head))"

text \<open>Insertion before \<open>p\<close>, a node that has a predecessor.\<close>

definition insert_before :: "addr \<Rightarrow> store \<Rightarrow> addr \<Rightarrow> int \<Rightarrow> store option" where
  "insert_before pnew h p el = do {
     q \<leftarrow> h p;
     h \<leftarrow> modify h (pre q) (\<lambda>m. m\<lparr>nxt := Some pnew\<rparr>);
     h \<leftarrow> modify h (Some pnew) (\<lambda>m. m\<lparr>nxt := Some p\<rparr>);
     q \<leftarrow> h p;
     h \<leftarrow> modify h (Some pnew) (\<lambda>m. m\<lparr>pre := pre q\<rparr>);
     h \<leftarrow> modify h (Some p) (\<lambda>m. m\<lparr>pre := Some pnew, elapse := el\<rparr>);
     n \<leftarrow> h pnew;
     b \<leftarrow> deref h (pre n);
     d \<leftarrow> difftime (time n) (time b);
     modify h (Some pnew) (\<lambda>m. m\<lparr>elapse := d\<rparr>) }"

text \<open>The removal of an earlier timer with the same identifier and flag, which gives the node to go on with.\<close>

definition drop_repeat :: "addr \<Rightarrow> store \<Rightarrow> addr \<Rightarrow> bool \<Rightarrow> (store \<times> addr option \<times> bool) option" where
  "drop_repeat pnew h p repete_flag =
     (if repete_flag then Some (h, Some p, True)
      else do {
        q \<leftarrow> h p;
        n \<leftarrow> h pnew;
        if timer_id q = timer_id n \<and> flag q = flag n then do {
          (h, p) \<leftarrow> delete_repete_timer h p;
          Some (h, p, True) }
        else Some (h, Some p, False) })"

definition try_insert :: "addr \<Rightarrow> store \<Rightarrow> addr \<Rightarrow> bool \<Rightarrow> (store \<times> bool) option" where
  "try_insert pnew h p insert_flag =
     (if insert_flag then Some (h, True)
      else do {
        q \<leftarrow> h p;
        n \<leftarrow> h pnew;
        el \<leftarrow> difftime (time q) (time n);
        if 0 \<le> el then do {
          h \<leftarrow> insert_before pnew h p el;
          Some (h, True) }
        else Some (h, False) })"

partial_function (option) insert_loop :: "addr \<Rightarrow> store \<Rightarrow> addr option \<Rightarrow> addr \<Rightarrow> addr option \<Rightarrow> bool \<Rightarrow> bool \<Rightarrow>
    (store \<times> addr option) option" where
  "insert_loop pnew h head p_end p insert_flag repete_flag =
     (case p of
        None \<Rightarrow> insert_last pnew h head p_end insert_flag
      | Some a \<Rightarrow>
          if insert_flag \<and> repete_flag then Some (h, head)
          else do {
            (h, p, repete_flag) \<leftarrow> drop_repeat pnew h a repete_flag;
            case p of
              None \<Rightarrow> insert_last pnew h head p_end insert_flag
            | Some a \<Rightarrow> do {
                (h, insert_flag) \<leftarrow> try_insert pnew h a insert_flag;
                q \<leftarrow> h a;
                insert_loop pnew h head a (nxt q) insert_flag repete_flag } })"

definition insert_first :: "int \<Rightarrow> addr \<Rightarrow> store \<Rightarrow> addr \<Rightarrow> int \<Rightarrow> store option" where
  "insert_first now pnew h p el = do {
     h \<leftarrow> modify h (Some pnew) (\<lambda>m. m\<lparr>pre := None, nxt := Some p\<rparr>);
     h \<leftarrow> modify h (Some p) (\<lambda>m. m\<lparr>pre := Some pnew\<rparr>);
     n \<leftarrow> h pnew;
     e \<leftarrow> difftime (time n) now;
     h \<leftarrow> modify h (Some pnew) (\<lambda>m. m\<lparr>elapse := e\<rparr>);
     modify h (Some p) (\<lambda>m. m\<lparr>elapse := el\<rparr>) }"

definition insert_a_timer :: "int \<Rightarrow> store \<Rightarrow> addr option \<Rightarrow> addr \<Rightarrow> (store \<times> addr option) option" where
  "insert_a_timer now h head pnew = do {
     n \<leftarrow> h pnew;
     el \<leftarrow> difftime (time n) now;
     if el < 0 then Some (h, head)
     else case head of
       None \<Rightarrow> only_timer now h pnew
     | Some p \<Rightarrow> do {
         (h, head, repete_flag) \<leftarrow> drop_repeat pnew h p False;
         case head of
           None \<Rightarrow> only_timer now h pnew
         | Some p \<Rightarrow> do {
             q \<leftarrow> h p;
             el \<leftarrow> difftime (time q) (time n);
             (h, head, insert_flag) \<leftarrow>
               (if 0 \<le> el then do {
                  h \<leftarrow> insert_first now pnew h p el;
                  Some (h, Some pnew, True) }
                else Some (h, head, False));
             q \<leftarrow> h p;
             insert_loop pnew h head p (nxt q) insert_flag repete_flag } } }"

partial_function (option) del_loop :: "store \<Rightarrow> addr option \<Rightarrow> addr \<Rightarrow> int \<Rightarrow> (store \<times> addr option) option" where
  "del_loop h head p v = do {
     n \<leftarrow> h p;
     case nxt n of
       Some q \<Rightarrow>
         if timer_id n = v then do {
           h \<leftarrow> modify h (nxt n) (\<lambda>m. m\<lparr>pre := pre n\<rparr>);
           h \<leftarrow> modify h (pre n) (\<lambda>m. m\<lparr>nxt := nxt n\<rparr>);
           Some (free h p, head) }
         else del_loop h head q v
     | None \<Rightarrow>
         if timer_id n = v then do {
           h \<leftarrow> modify h (pre n) (\<lambda>m. m\<lparr>nxt := None\<rparr>);
           Some (free h p, head) }
         else Some (h, head) }"

definition del_a_timer :: "store \<Rightarrow> addr option \<Rightarrow> int \<Rightarrow> (store \<times> addr option) option" where
  "del_a_timer h head v =
     (case head of
        None \<Rightarrow> Some (h, None)
      | Some p \<Rightarrow> do {
          n \<leftarrow> h p;
          if timer_id n = v then
            (case nxt n of
               None \<Rightarrow> Some (h, None)
             | Some q \<Rightarrow> do {
                 h \<leftarrow> modify h (nxt n) (\<lambda>m. m\<lparr>pre := None\<rparr>);
                 Some (free h p, nxt n) })
          else del_loop h head (case nxt n of Some q \<Rightarrow> q | None \<Rightarrow> p) v })"

section \<open>Lists in the store\<close>

definition first :: "'a list \<Rightarrow> 'a option \<Rightarrow> 'a option" where
  "first as s = (case as of [] \<Rightarrow> s | a # as \<Rightarrow> Some a)"

definition final :: "'a option \<Rightarrow> 'a list \<Rightarrow> 'a option" where
  "final p as = (if as = [] then p else Some (last as))"

lemma first_simps [simp]: "first [] s = s" "first (a # as) s = Some a"
  by (simp_all add: first_def)

lemma first_append [simp]: "first (as @ bs) s = first as (first bs s)"
  by (cases as) simp_all

lemma final_simps [simp]: "final p [] = p" "final p (a # as) = final (Some a) as" "final p (as @ [a]) = Some a"
  by (simp_all add: final_def)

lemma final_append [simp]: "final p (as @ bs) = final (final p as) bs"
  by (simp add: final_def)

text \<open>\<open>dll h p as s\<close>: the nodes \<open>as\<close> are linked in this order, after the node \<open>p\<close> and before the node
  \<open>s\<close>.\<close>

fun dll :: "store \<Rightarrow> addr option \<Rightarrow> addr list \<Rightarrow> addr option \<Rightarrow> bool" where
  "dll h p [] s \<longleftrightarrow> True"
| "dll h p (a # as) s \<longleftrightarrow>
     (\<exists>n. h a = Some n \<and> pre n = p \<and> nxt n = first as s \<and> dll h (Some a) as s)"

lemma dll_append [simp]:
  "dll h p (as @ bs) s \<longleftrightarrow> dll h p as (first bs s) \<and> dll h (final p as) bs s"
  by (induction as arbitrary: p) auto

lemma dll_frame [simp]: "a \<notin> set as \<Longrightarrow> dll (h(a := v)) p as s \<longleftrightarrow> dll h p as s"
  by (induction as arbitrary: p) auto

lemma dll_nodes: "dll h p as s \<Longrightarrow> a \<in> set as \<Longrightarrow> \<exists>n. h a = Some n"
  by (induction as arbitrary: p) auto

definition info :: "store \<Rightarrow> addr \<Rightarrow> timer_info option" where
  "info h a = map_option timer_info.truncate (h a)"

definition infos :: "store \<Rightarrow> addr list \<Rightarrow> timer_info list" where
  "infos h as = map (\<lambda>a. the (info h a)) as"

lemma infos_simps [simp]:
  "infos h [] = []" "infos h (a # as) = the (info h a) # infos h as"
  "infos h (as @ bs) = infos h as @ infos h bs"
  by (simp_all add: infos_def)

lemma infos_cong: "\<forall>a \<in> set as. info h' a = info h a \<Longrightarrow> infos h' as = infos h as"
  by (simp add: infos_def)

lemma modify_Some [simp]: "h a = Some n \<Longrightarrow> modify h (Some a) f = Some (h(a \<mapsto> f n))"
  by (simp add: modify_def)

lemma truncate_links [simp]:
  "timer_info.truncate (n\<lparr>pre := p\<rparr>) = timer_info.truncate n"
  "timer_info.truncate (n\<lparr>nxt := q\<rparr>) = timer_info.truncate n"
  "timer_info.truncate (n\<lparr>elapse := e\<rparr>) = (timer_info.truncate n)\<lparr>elapse := e\<rparr>"
  by (simp_all add: timer_info.truncate_def)

lemma truncate_sels [simp]:
  "timer_id (timer_info.truncate n) = timer_id n" "flag (timer_info.truncate n) = flag n"
  "elapse (timer_info.truncate n) = elapse n" "time (timer_info.truncate n) = time n"
  by (simp_all add: timer_info.truncate_def)

lemma split_at: "xs = [] \<or> (\<exists>us u. xs = us @ [u])"
  by (cases xs rule: rev_cases) auto

lemma delete_repete_timer_list:
  assumes "dll h None (xs @ a # ys) None" and "distinct (xs @ a # ys)"
  shows "\<exists>h'. delete_repete_timer h a = Some (h', first ys None) \<and> dll h' None (xs @ ys) None
    \<and> h' a = None \<and> (\<forall>b. b \<noteq> a \<longrightarrow> info h' b = info h b) \<and> (\<forall>b. b \<notin> set (xs @ a # ys) \<longrightarrow> h' b = h b)"
proof -
  obtain n where n: "h a = Some n" "pre n = final None xs" "nxt n = first ys None" using assms(1) by auto
  consider (one) "xs = []" "ys = []" | (front) y vs where "xs = []" "ys = y # vs"
    | (mid) us u y vs where "xs = us @ [u]" "ys = y # vs" | (rear) us u where "xs = us @ [u]" "ys = []"
    using split_at [of xs] by (metis neq_Nil_conv)
  then show ?thesis
  proof cases
    case one
    with n show ?thesis by (simp add: delete_repete_timer_def free_def info_def)
  next
    case front
    with assms obtain m where "h y = Some m" by auto
    with front n assms show ?thesis
      by (auto simp: delete_repete_timer_def free_def info_def)
  next
    case mid
    with assms obtain m k where "h y = Some m" "h u = Some k" by auto
    with mid n assms show ?thesis
      by (auto simp: delete_repete_timer_def free_def info_def)
  next
    case rear
    with assms obtain k where "h u = Some k" by auto
    with rear n assms show ?thesis
      by (auto simp: delete_repete_timer_def free_def info_def)
  qed
qed

section \<open>Deletion\<close>

fun drop_first :: "('a \<Rightarrow> bool) \<Rightarrow> 'a list \<Rightarrow> 'a list" where
  "drop_first P [] = []"
| "drop_first P (x # xs) = (if P x then xs else x # drop_first P xs)"

text \<open>Unlinking a node that is not the head, as \<open>del_a_timer\<close> does it.\<close>

lemma unlink_middle:
  assumes "dll h None (xs @ a # y # ys) None" and "distinct (xs @ a # y # ys)" and "xs \<noteq> []"
    and "h a = Some n"
  shows "\<exists>h1 h'. modify h (nxt n) (\<lambda>m. m\<lparr>pre := pre n\<rparr>) = Some h1
    \<and> modify h1 (pre n) (\<lambda>m. m\<lparr>nxt := nxt n\<rparr>) = Some h' \<and> dll (free h' a) None (xs @ y # ys) None
    \<and> (\<forall>b. b \<noteq> a \<longrightarrow> info (free h' a) b = info h b)
    \<and> (\<forall>b. b \<notin> set (xs @ a # y # ys) \<longrightarrow> free h' a b = h b)"
proof -
  obtain us u where xs: "xs = us @ [u]" using assms(3) split_at [of xs] by blast
  with assms obtain m k where "h y = Some m" "h u = Some k" by auto
  with xs assms show ?thesis by (auto simp: free_def info_def)
qed

lemma unlink_last:
  assumes "dll h None (xs @ [a]) None" and "distinct (xs @ [a])" and "xs \<noteq> []" and "h a = Some n"
  shows "\<exists>h'. modify h (pre n) (\<lambda>m. m\<lparr>nxt := None\<rparr>) = Some h' \<and> dll (free h' a) None xs None
    \<and> (\<forall>b. b \<noteq> a \<longrightarrow> info (free h' a) b = info h b)
    \<and> (\<forall>b. b \<notin> set (xs @ [a]) \<longrightarrow> free h' a b = h b)"
proof -
  obtain us u where xs: "xs = us @ [u]" using assms(3) split_at [of xs] by blast
  with assms obtain k where "h u = Some k" by auto
  with xs assms show ?thesis by (auto simp: free_def info_def)
qed

lemma info_sel:
  "h a = Some n \<Longrightarrow> timer_id (the (info h a)) = timer_id n"
  "h a = Some n \<Longrightarrow> flag (the (info h a)) = flag n"
  "h a = Some n \<Longrightarrow> time (the (info h a)) = time n"
  by (simp_all add: info_def)

text \<open>The result holds a list of the nodes \<open>as\<close>; those that are left over were freed, but for those of \<open>lk\<close>, which
  are still allocated, and no other node was touched.\<close>

definition refines :: "addr set \<Rightarrow> store \<Rightarrow> addr list \<Rightarrow> store \<times> addr option \<Rightarrow> timer_info list \<Rightarrow> bool" where
  "refines lk h as r xs \<longleftrightarrow> (\<exists>as'. snd r = first as' None \<and> dll (fst r) None as' None \<and> distinct as'
     \<and> set as' \<subseteq> set as \<and> infos (fst r) as' = xs \<and> (\<forall>b. b \<notin> set as \<longrightarrow> fst r b = h b)
     \<and> (\<forall>b \<in> set as - set as'. if b \<in> lk then fst r b \<noteq> None else fst r b = None))"

lemma refinesI:
  assumes "p = first as' None" and "dll h' None as' None" and "distinct as'" and "set as' \<subseteq> set as"
    and "infos h' as' = xs" and "\<And>b. b \<notin> set as \<Longrightarrow> h' b = h b"
    and "\<And>b. b \<in> set as \<Longrightarrow> b \<notin> set as' \<Longrightarrow> if b \<in> lk then h' b \<noteq> None else h' b = None"
  shows "refines lk h as (h', p) xs"
  unfolding refines_def fst_conv snd_conv
  by (intro exI [of _ as'] conjI allI impI ballI) (use assms in blast)+

lemma del_loop_list:
  assumes "dll h None (xs @ a # ys) None" and "distinct (xs @ a # ys)"
    and "xs \<noteq> [] \<or> ys = [] \<and> timer_id (the (info h a)) \<noteq> v"
  shows "\<exists>r. del_loop h (first (xs @ a # ys) None) a v = Some r
    \<and> refines {} h (xs @ a # ys) r (infos h xs @ drop_first (\<lambda>x. timer_id x = v) (infos h (a # ys)))"
  using assms
proof (induction ys arbitrary: xs a)
  case Nil
  obtain n where n: "h a = Some n" "nxt n = None" "pre n = final None xs" using Nil.prems(1) by auto
  show ?case
  proof (cases "timer_id n = v")
    case True
    then have "xs \<noteq> []" using Nil.prems(3) n(1) by (simp add: info_sel)
    with unlink_last [OF Nil.prems(1,2) _ n(1)] obtain h' where
      h': "modify h (pre n) (\<lambda>m. m\<lparr>nxt := None\<rparr>) = Some h'" "dll (free h' a) None xs None"
      "\<forall>b. b \<noteq> a \<longrightarrow> info (free h' a) b = info h b" "\<forall>b. b \<notin> set (xs @ [a]) \<longrightarrow> free h' a b = h b"
      by blast
    have "del_loop h (first (xs @ [a]) None) a v = Some (free h' a, first (xs @ [a]) None)"
      using n h'(1) True by (subst del_loop.simps) simp
    moreover have "first (xs @ [a]) None = first xs None" using \<open>xs \<noteq> []\<close> by (cases xs) simp_all
    moreover have "infos (free h' a) xs = infos h xs"
      using h'(3) Nil.prems(2) by (intro infos_cong) auto
    ultimately show ?thesis
      using h'(2,4) Nil.prems(2) True n(1)
      by (intro exI [of _ "(free h' a, first (xs @ [a]) None)"] conjI refinesI [of _ xs])
        (auto simp: info_sel free_def)
  next
    case False
    have "del_loop h (first (xs @ [a]) None) a v = Some (h, first (xs @ [a]) None)"
      using n False by (subst del_loop.simps) simp
    with False Nil.prems n show ?thesis
      by (intro exI [of _ "(h, first (xs @ [a]) None)"] conjI refinesI [of _ "xs @ [a]"])
        (simp_all add: info_sel)
  qed
next
  case (Cons y ys)
  have xs: "xs \<noteq> []" using Cons.prems(3) by simp
  obtain n where n: "h a = Some n" "nxt n = Some y" using Cons.prems(1) by auto
  show ?case
  proof (cases "timer_id n = v")
    case True
    from unlink_middle [OF Cons.prems(1,2) xs n(1)] obtain h1 h' where
      h': "modify h (nxt n) (\<lambda>m. m\<lparr>pre := pre n\<rparr>) = Some h1" "modify h1 (pre n) (\<lambda>m. m\<lparr>nxt := nxt n\<rparr>) = Some h'"
      "dll (free h' a) None (xs @ y # ys) None" "\<forall>b. b \<noteq> a \<longrightarrow> info (free h' a) b = info h b"
      "\<forall>b. b \<notin> set (xs @ a # y # ys) \<longrightarrow> free h' a b = h b" by blast
    have "del_loop h (first (xs @ a # y # ys) None) a v = Some (free h' a, first (xs @ a # y # ys) None)"
      using n h'(1,2) True by (subst del_loop.simps) simp
    moreover have "first (xs @ a # y # ys) None = first (xs @ y # ys) None" using xs by (cases xs) simp_all
    moreover have "infos (free h' a) (xs @ y # ys) = infos h (xs @ y # ys)"
      using h'(4) Cons.prems(2) by (intro infos_cong) auto
    moreover have "distinct (xs @ y # ys)" "set (xs @ y # ys) \<subseteq> set (xs @ a # y # ys)"
      using Cons.prems(2) by auto
    moreover have "free h' a b = None" if "b \<in> set (xs @ a # y # ys)" "b \<notin> set (xs @ y # ys)" for b
      using Cons.prems(2) that by (auto simp: free_def)
    ultimately show ?thesis
      using h'(3,5) True n(1)
      by (intro exI [of _ "(free h' a, first (xs @ a # y # ys) None)"] conjI refinesI [of _ "xs @ y # ys"])
        (simp_all add: info_sel)
  next
    case False
    have "del_loop h (first (xs @ a # y # ys) None) a v = del_loop h (first (xs @ a # y # ys) None) y v"
      using n False by (subst del_loop.simps) simp
    with Cons.IH [of "xs @ [a]" y] Cons.prems(1,2) False n(1) show ?thesis by (simp add: info_sel)
  qed
qed

lemma del_a_timer_list:
  assumes "dll h None as None" and "distinct as"
  shows "\<exists>r. del_a_timer h (first as None) v = Some r
    \<and> refines (if length as = 1 then set as else {}) h as r (drop_first (\<lambda>x. timer_id x = v) (infos h as))"
proof (cases as)
  case Nil
  then show ?thesis
    by (intro exI [of _ "(h, None)"]) (auto simp: del_a_timer_def intro!: refinesI [of _ "[]"])
next
  case (Cons a ys)
  with assms obtain n where n: "h a = Some n" "nxt n = first ys None" "pre n = None" by auto
  show ?thesis
  proof (cases "timer_id n = v")
    case False
    show ?thesis
    proof (cases ys)
      case Nil
      with n Cons have "del_a_timer h (first as None) v = Some (h, Some a)"
        using False by (simp add: del_a_timer_def del_loop.simps)
      with assms Cons Nil n False show ?thesis
        by (intro exI [of _ "(h, Some a)"] conjI refinesI [of _ as]) (simp_all add: info_sel)
    next
      case (Cons y zs)
      with del_loop_list [of h "[a]" y zs v] assms \<open>as = a # ys\<close> n False show ?thesis
        by (simp add: del_a_timer_def info_sel)
    qed
  next
    case True
    show ?thesis
    proof (cases ys)
      case Nil
      with True n Cons have "del_a_timer h (first as None) v = Some (h, None)"
        by (simp add: del_a_timer_def)
      then show ?thesis
        using Nil Cons True n by (intro exI [of _ "(h, None)"]) (auto simp: info_sel intro: refinesI [of _ "[]"])
    next
      case (Cons y zs)
      with assms \<open>as = a # ys\<close> obtain m where m: "h y = Some m" by auto
      let ?h = "(h(y \<mapsto> m\<lparr>pre := None\<rparr>))(a := None)"
      have "del_a_timer h (first as None) v = Some (?h, Some y)"
        using Cons \<open>as = a # ys\<close> n True m assms by (auto simp: del_a_timer_def free_def)
      moreover have "infos ?h ys = infos h ys"
        using m assms(2) Cons \<open>as = a # ys\<close> by (intro infos_cong) (auto simp: info_def)
      moreover have "dll ?h None ys None" using assms Cons \<open>as = a # ys\<close> m by auto
      ultimately show ?thesis
        using assms(2) Cons \<open>as = a # ys\<close> True n
        by (intro exI [of _ "(?h, Some y)"]) (auto simp: info_sel intro!: refinesI [of _ ys])
    qed
  qed
qed

text \<open>Deleting a timer takes the first timer with this identifier out of the list, links its
  neighbours, frees it, and leaves every other node of the store alone; without such a timer nothing changes. But
  the only timer of a list is not freed.\<close>

theorem del_a_timer_refines:
  assumes "dll h None as None" and "distinct as"
  shows "\<exists>r. del_a_timer h (first as None) v = Some r
    \<and> refines (if length as = 1 then set as else {}) h as r (drop_first (\<lambda>x. timer_id x = v) (infos h as))"
  using assms by (rule del_a_timer_list)

section \<open>Insertion\<close>

text \<open>What insertion means for the list: the first timer with the same identifier and flag goes, the
  new one comes before the first that is not earlier, and the delays of these two are set.\<close>

definition repeats :: "timer_info \<Rightarrow> timer_info \<Rightarrow> bool" where
  "repeats n x \<longleftrightarrow> timer_id x = timer_id n \<and> flag x = flag n"

fun place :: "int \<Rightarrow> timer_info \<Rightarrow> timer_info list \<Rightarrow> timer_info list" where
  "place b n [] = [n\<lparr>elapse := time n - b\<rparr>]"
| "place b n (x # xs) =
     (if time n \<le> time x then n\<lparr>elapse := time n - b\<rparr> # x\<lparr>elapse := time x - time n\<rparr> # xs
      else x # place (time x) n xs)"

definition insert_spec :: "int \<Rightarrow> timer_info \<Rightarrow> timer_info list \<Rightarrow> timer_info list" where
  "insert_spec now n xs = (if time n < now then xs else place now n (drop_first (repeats n) xs))"

text \<open>Times before 2038 have differences that fit an \<open>int\<close>.\<close>

definition in_era :: "int \<Rightarrow> bool" where
  "in_era t \<longleftrightarrow> 0 \<le> t \<and> t < 2 ^ 31"

lemma difftime_era: "in_era a \<Longrightarrow> in_era b \<Longrightarrow> difftime a b = Some (a - b)"
  by (simp add: difftime_def in_era_def)

definition rest :: "bool \<Rightarrow> timer_info \<Rightarrow> timer_info list \<Rightarrow> timer_info list" where
  "rest repete_flag n xs = (if repete_flag then xs else drop_first (repeats n) xs)"

lemma rest_True [simp]: "rest True n xs = xs"
  by (simp add: rest_def)

lemma rest_Nil [simp]: "rest r n [] = []"
  by (simp add: rest_def)

lemma drop_repeat_list:
  assumes "dll h None (xs @ a # zs) None" and "distinct (xs @ a # zs)" and "h pnew = Some n" and "pnew \<noteq> a"
  shows "\<exists>h1 ys1 rep1. drop_repeat pnew h a rep = Some (h1, first ys1 None, rep1)
    \<and> dll h1 None (xs @ ys1) None \<and> distinct (xs @ ys1) \<and> set ys1 \<subseteq> set (a # zs)
    \<and> (\<forall>b \<in> set (xs @ ys1) \<union> {pnew}. info h1 b = info h b) \<and> (\<forall>b. b \<notin> set (xs @ a # zs) \<longrightarrow> h1 b = h b)
    \<and> (\<forall>b \<in> set (a # zs) - set ys1. h1 b = None)
    \<and> rest rep (timer_info.truncate n) (infos h (a # zs))
      = (case ys1 of [] \<Rightarrow> [] | b # bs \<Rightarrow> the (info h1 b) # rest rep1 (timer_info.truncate n) (infos h1 bs))
    \<and> (ys1 = [] \<longrightarrow> rest rep (timer_info.truncate n) (infos h (a # zs)) = []) \<and> length ys1 \<le> length (a # zs)"
proof -
  obtain q where q: "h a = Some q" "nxt q = first zs None" using assms(1) by auto
  show ?thesis
  proof (cases "\<not> rep \<and> timer_id q = timer_id n \<and> flag q = flag n")
    case True
    obtain h1 where h1: "delete_repete_timer h a = Some (h1, first zs None)" "dll h1 None (xs @ zs) None"
      "\<forall>b. b \<noteq> a \<longrightarrow> info h1 b = info h b" "\<forall>b. b \<notin> set (xs @ a # zs) \<longrightarrow> h1 b = h b" "h1 a = None"
      using delete_repete_timer_list [OF assms(1,2)] by blast
    have "drop_repeat pnew h a rep = Some (h1, first zs None, True)"
      using True q assms(3) h1(1) by (simp add: drop_repeat_def)
    moreover have same: "infos h1 zs = infos h zs" using h1(3) assms(2) by (intro infos_cong) auto
    moreover have r: "rest rep (timer_info.truncate n) (infos h (a # zs)) = infos h zs"
      using True q by (simp add: rest_def repeats_def info_sel)
    moreover have "infos h zs
        = (case zs of [] \<Rightarrow> [] | b # bs \<Rightarrow> the (info h1 b) # rest True (timer_info.truncate n) (infos h1 bs))"
      unfolding same [symmetric] by (cases zs) simp_all
    moreover have "distinct (xs @ zs)" "set zs \<subseteq> set (a # zs)" "length zs \<le> length (a # zs)"
      "\<forall>b \<in> set (xs @ zs) \<union> {pnew}. info h1 b = info h b" "zs = [] \<longrightarrow> infos h zs = []"
      "\<forall>b \<in> set (a # zs) - set zs. h1 b = None"
      using h1(3,5) assms(2,4) by auto
    ultimately show ?thesis
      using h1(2,4) by (intro exI [of _ h1] exI [of _ zs] exI [of _ True]) (simp only: simp_thms)
  next
    case False
    then have "drop_repeat pnew h a rep = Some (h, Some a, rep)"
      using q assms(3) by (auto simp: drop_repeat_def)
    moreover have "rest rep (timer_info.truncate n) (infos h (a # zs))
        = the (info h a) # rest rep (timer_info.truncate n) (infos h zs)"
      using False q by (auto simp: rest_def repeats_def info_sel)
    ultimately show ?thesis
      using assms by (intro exI [of _ h] exI [of _ "a # zs"] exI [of _ rep]) auto
  qed
qed

lemma insert_last_list:
  assumes "dll h None xs None" and "distinct xs" and "xs \<noteq> []" and "h pnew = Some n" and "pnew \<notin> set xs"
    and "\<forall>b \<in> set xs. in_era (time (the (info h b)))" and "in_era (time n)"
  shows "\<exists>h'. insert_last pnew h head (last xs) False = Some (h', head) \<and> dll h' None (xs @ [pnew]) None
    \<and> infos h' (xs @ [pnew]) = infos h xs @ place (time (the (info h (last xs)))) (timer_info.truncate n) []
    \<and> (\<forall>b. b \<notin> set (pnew # xs) \<longrightarrow> h' b = h b)"
proof -
  obtain us u where xs: "xs = us @ [u]" using assms(3) split_at [of xs] by blast
  with assms(1) obtain k where k: "h u = Some k" by auto
  with assms xs have d: "difftime (time n) (time k) = Some (time n - time k)"
    by (intro difftime_era) (auto simp: info_sel)
  let ?h = "h(pnew \<mapsto> n\<lparr>pre := Some u, elapse := time n - time k, nxt := None\<rparr>, u \<mapsto> k\<lparr>nxt := Some pnew\<rparr>)"
  have "insert_last pnew h head (last xs) False = Some (?h, head)"
    using assms(4,5) xs k d by (auto simp: insert_last_def fun_upd_twist)
  moreover have "infos ?h us = infos h us"
    using assms(2,5) xs by (intro infos_cong) (auto simp: info_def)
  ultimately show ?thesis
    using assms(1,2,5) xs k by (intro exI [of _ ?h]) (auto simp: info_def)
qed

lemma insert_before_list:
  assumes "dll h None (xs @ a # zs) None" and "distinct (xs @ a # zs)" and "xs \<noteq> []" and "h pnew = Some n"
    and "pnew \<notin> set (xs @ a # zs)" and "\<forall>b \<in> set xs. in_era (time (the (info h b)))" and "in_era (time n)"
  shows "\<exists>h'. insert_before pnew h a el = Some h' \<and> dll h' None (xs @ pnew # a # zs) None
    \<and> infos h' xs = infos h xs \<and> infos h' zs = infos h zs
    \<and> info h' pnew = Some ((timer_info.truncate n)\<lparr>elapse := time n - time (the (info h (last xs)))\<rparr>)
    \<and> info h' a = Some ((the (info h a))\<lparr>elapse := el\<rparr>)
    \<and> (\<forall>b. b \<notin> set (pnew # xs @ a # zs) \<longrightarrow> h' b = h b)"
proof -
  obtain us u where xs: "xs = us @ [u]" using assms(3) split_at [of xs] by blast
  with assms(1) obtain k q where k: "h u = Some k" "h a = Some q" "pre q = Some u" by auto
  with assms xs have d: "difftime (time n) (time k) = Some (time n - time k)"
    by (intro difftime_era) (auto simp: info_sel)
  let ?h = "h(u \<mapsto> k\<lparr>nxt := Some pnew\<rparr>, pnew \<mapsto> n\<lparr>nxt := Some a, pre := Some u, elapse := time n - time k\<rparr>,
    a \<mapsto> q\<lparr>pre := Some pnew, elapse := el\<rparr>)"
  have "insert_before pnew h a el = Some ?h"
    using assms(2,4,5) xs k d by (auto simp: insert_before_def deref_def fun_upd_twist)
  moreover have "infos ?h us = infos h us" "infos ?h zs = infos h zs"
    using assms(2,5) xs by (auto intro!: infos_cong simp: info_def)
  ultimately show ?thesis
    using assms(1,2,5) xs k by (intro exI [of _ ?h]) (auto simp: info_def)
qed

lemma infos_eqD: "infos h' as = infos h as \<Longrightarrow> b \<in> set as \<Longrightarrow> the (info h' b) = the (info h b)"
  by (simp add: infos_def)

lemma try_insert_list:
  assumes "dll h None (xs @ a # zs) None" and "distinct (xs @ a # zs)" and "xs \<noteq> []" and "h pnew = Some n"
    and "if ins then pnew \<in> set xs else pnew \<notin> set (xs @ a # zs)"
    and "\<forall>b \<in> set (xs @ a # zs). in_era (time (the (info h b)))" and "in_era (time n)"
  shows "\<exists>h' ins' us n'. try_insert pnew h a ins = Some (h', ins') \<and> dll h' None ((xs @ us @ [a]) @ zs) None
    \<and> distinct ((xs @ us @ [a]) @ zs) \<and> set us \<subseteq> {pnew} \<and> infos h' xs = infos h xs \<and> infos h' zs = infos h zs
    \<and> (if ins' then pnew \<in> set (xs @ us) else us = [] \<and> h' = h \<and> \<not> ins)
    \<and> h' pnew = Some n' \<and> timer_id n' = timer_id n \<and> flag n' = flag n \<and> time n' = time n
    \<and> (\<forall>b \<in> set ((xs @ us @ [a]) @ zs). in_era (time (the (info h' b))))
    \<and> (\<forall>b. b \<notin> set (pnew # xs @ a # zs) \<longrightarrow> h' b = h b)
    \<and> (\<forall>Z. infos h' (us @ [a]) @ (if ins' then Z else place (time (the (info h' a))) (timer_info.truncate n) Z)
        = (if ins then the (info h a) # Z
           else place (time (the (info h (last xs)))) (timer_info.truncate n) (the (info h a) # Z)))"
proof -
  obtain q where q: "h a = Some q" using assms(1) by auto
  have t: "time (the (info h a)) = time q" using q by (simp add: info_sel)
  show ?thesis
  proof (cases "\<not> ins \<and> time n \<le> time q")
    case True
    then have new: "pnew \<notin> set (xs @ a # zs)" using assms(5) by simp
    let ?el = "time q - time n"
    obtain h' where h': "insert_before pnew h a ?el = Some h'" "dll h' None (xs @ pnew # a # zs) None"
      "infos h' xs = infos h xs" "infos h' zs = infos h zs"
      "info h' pnew = Some ((timer_info.truncate n)\<lparr>elapse := time n - time (the (info h (last xs)))\<rparr>)"
      "info h' a = Some ((the (info h a))\<lparr>elapse := ?el\<rparr>)"
      "\<forall>b. b \<notin> set (pnew # xs @ a # zs) \<longrightarrow> h' b = h b"
      using insert_before_list [OF assms(1-4) new _ assms(7), of ?el] assms(6) by auto
    have "try_insert pnew h a ins = Some (h', True)"
      using True q assms(4,6,7) h'(1) difftime_era [of "time q" "time n"] t by (simp add: try_insert_def)
    moreover obtain n' where n': "h' pnew = Some n'" "timer_info.truncate n'
        = (timer_info.truncate n)\<lparr>elapse := time n - time (the (info h (last xs)))\<rparr>"
      using h'(5) by (auto simp: info_def)
    moreover have "timer_id n' = timer_id n" "flag n' = flag n" "time n' = time n"
      using arg_cong [OF n'(2), of timer_id] arg_cong [OF n'(2), of flag] arg_cong [OF n'(2), of time] by simp_all
    moreover have "\<forall>b \<in> set (xs @ pnew # a # zs). in_era (time (the (info h' b)))"
      using assms(6,7) infos_eqD [OF h'(3)] infos_eqD [OF h'(4)] h'(5,6) by auto
    moreover have "\<forall>Z. infos h' ([pnew] @ [a]) @ (if True then Z else W Z) = (if ins then the (info h a) # Z
        else place (time (the (info h (last xs)))) (timer_info.truncate n) (the (info h a) # Z))" for W
      using True by (simp add: h'(5,6) t)
    moreover have "distinct ((xs @ [pnew] @ [a]) @ zs)" "if True then pnew \<in> set (xs @ [pnew]) else W" for W
      using new assms(2) by auto
    ultimately show ?thesis
      using h'(2-4,7) True t
      by (intro exI [of _ h'] exI [of _ True] exI [of _ "[pnew]"] exI [of _ n'] conjI) simp_all
  next
    case False
    then have "try_insert pnew h a ins = Some (h, ins)"
      using q assms(4,6,7) difftime_era [of "time q" "time n"] t by (auto simp: try_insert_def)
    then show ?thesis
      using False assms t
      by (intro exI [of _ h] exI [of _ ins] exI [of _ "[]"] exI [of _ n]) auto
  qed
qed

lemma repeats_cong:
  "timer_id m = timer_id n \<Longrightarrow> flag m = flag n \<Longrightarrow> repeats (timer_info.truncate m) = repeats (timer_info.truncate n)"
  by (simp add: repeats_def fun_eq_iff)

lemma refines_step:
  assumes "refines {} h1 as1 r xs" and "set as1 \<subseteq> set as" and "\<And>b. b \<notin> set as \<Longrightarrow> h1 b = h b"
    and "\<And>b. b \<in> set as \<Longrightarrow> b \<notin> set as1 \<Longrightarrow> h1 b = None"
  shows "refines {} h as r xs"
proof -
  obtain as' where as': "snd r = first as' None" "dll (fst r) None as' None" "distinct as'" "set as' \<subseteq> set as1"
    "infos (fst r) as' = xs" "\<forall>b. b \<notin> set as1 \<longrightarrow> fst r b = h1 b" "\<forall>b \<in> set as1 - set as'. fst r b = None"
    using assms(1) by (auto simp: refines_def)
  have "fst r b = None" if "b \<in> set as" "b \<notin> set as'" for b
    using that as'(6,7) assms(4) [of b] by (cases "b \<in> set as1") auto
  moreover have "fst r b = h b" if "b \<notin> set as" for b using that as'(6) assms(2,3) by auto
  ultimately show ?thesis
    unfolding refines_def using as'(1-5) assms(2) by (intro exI [of _ as']) auto
qed

lemma first_last: "xs \<noteq> [] \<Longrightarrow> first xs s = Some (hd xs)"
  by (cases xs) simp_all

lemma insert_loop_list:
  assumes "dll h None (xs @ ys) None" and "distinct (xs @ ys)" and "xs \<noteq> []" and "h pnew = Some n"
    and "if ins then pnew \<in> set xs \<and> repeats (timer_info.truncate n) = repeats tn
         else pnew \<notin> set (xs @ ys) \<and> timer_info.truncate n = tn"
    and "\<forall>b \<in> set (xs @ ys). in_era (time (the (info h b)))" and "in_era (time n)"
  shows "\<exists>r. insert_loop pnew h (first xs None) (last xs) (first ys None) ins rep = Some r
    \<and> refines {} h (pnew # xs @ ys) r (infos h xs @ (if ins then rest rep tn (infos h ys)
        else place (time (the (info h (last xs)))) tn (rest rep tn (infos h ys))))"
  using assms
proof (induction "length ys" arbitrary: h xs ys n ins rep rule: less_induct)
  case less
  note prems = less.prems
  have last: "\<exists>r. insert_last pnew h1 (first xs None) (last xs) ins = Some r
      \<and> refines {} h1 (pnew # xs) r (infos h1 xs @ (if ins then [] else place (time (the (info h1 (last xs)))) tn []))"
    if "dll h1 None xs None" "h1 pnew = Some n1" "if ins then pnew \<in> set xs else pnew \<notin> set xs"
      "\<not> ins \<Longrightarrow> timer_info.truncate n1 = tn" "\<forall>b \<in> set xs. in_era (time (the (info h1 b)))" "in_era (time n1)"
    for h1 n1
  proof (cases ins)
    case True
    with that(1,3) prems(2) show ?thesis
      by (intro exI [of _ "(h1, first xs None)"]) (auto simp: insert_last_def intro!: refinesI [of _ xs])
  next
    case False
    with that(3,4) have new: "pnew \<notin> set xs" "timer_info.truncate n1 = tn" by auto
    have dist: "distinct xs" using prems(2) by simp
    from insert_last_list [OF that(1) dist prems(3) that(2) new(1) that(5,6), of "first xs None"] obtain h'
      where h': "insert_last pnew h1 (first xs None) (last xs) False = Some (h', first xs None)"
        "dll h' None (xs @ [pnew]) None"
        "infos h' (xs @ [pnew]) = infos h1 xs @ place (time (the (info h1 (last xs)))) tn []"
        "\<forall>b. b \<notin> set (pnew # xs) \<longrightarrow> h' b = h1 b" using new(2) by blast
    with False new(1) dist prems(3) show ?thesis
      by (intro exI [of _ "(h', first xs None)"])
        (auto intro!: refinesI [of _ "xs @ [pnew]"] simp: first_last simp del: infos_simps)
  qed
  show ?case
  proof (cases ys)
    case Nil
    with last [of h n] prems show ?thesis by (subst insert_loop.simps) (auto simp: split: if_splits)
  next
    case (Cons a zs)
    from prems(1) obtain q where q: "h a = Some q" using Cons by auto
    show ?thesis
    proof (cases "ins \<and> rep")
      case True
      then have "insert_loop pnew h (first xs None) (last xs) (first ys None) ins rep = Some (h, first xs None)"
        using Cons by (subst insert_loop.simps) simp
      with True prems(1-3,5) show ?thesis
        by (intro exI [of _ "(h, first xs None)"] conjI refinesI [of _ "xs @ ys"])
          (auto simp: first_last)
    next
      case False
      note live = False
      have "pnew \<noteq> a" using prems(2,5) Cons by (auto split: if_splits)
      from drop_repeat_list [OF prems(1,2) [unfolded Cons] prems(4) this, of rep]
      obtain h1 ys1 rep1 where d: "drop_repeat pnew h a rep = Some (h1, first ys1 None, rep1)"
        "dll h1 None (xs @ ys1) None" "distinct (xs @ ys1)" "set ys1 \<subseteq> set ys"
        "\<forall>b \<in> set (xs @ ys1) \<union> {pnew}. info h1 b = info h b" "\<forall>b. b \<notin> set (xs @ ys) \<longrightarrow> h1 b = h b"
        and gone: "\<forall>b \<in> set ys - set ys1. h1 b = None" and d2:
        "rest rep (timer_info.truncate n) (infos h ys)
          = (case ys1 of [] \<Rightarrow> [] | b # bs \<Rightarrow> the (info h1 b) # rest rep1 (timer_info.truncate n) (infos h1 bs))"
        "length ys1 \<le> length ys" unfolding Cons by blast
      have same: "repeats (timer_info.truncate n) = repeats tn" using prems(5) by (auto split: if_splits)
      have R: "rest r (timer_info.truncate n) = rest r tn" for r
        by (rule ext) (simp only: rest_def same)
      obtain n1 where n1: "h1 pnew = Some n1" "timer_info.truncate n1 = timer_info.truncate n"
        using d(5) prems(4) by (auto simp: info_def)
      have xs1: "infos h1 xs = infos h xs" using d(5) by (intro infos_cong) auto
      have names: "timer_id n1 = timer_id n" "flag n1 = flag n" "time n1 = time n"
        using arg_cong [OF n1(2), of timer_id] arg_cong [OF n1(2), of flag] arg_cong [OF n1(2), of time] by simp_all
      have era1: "\<forall>b \<in> set (xs @ ys1). in_era (time (the (info h1 b)))" using d(4,5) prems(6) by auto
      have where1: "if ins then pnew \<in> set xs else pnew \<notin> set (xs @ ys1)"
        using prems(5) d(4) by (auto split: if_splits)
      show ?thesis
      proof (cases ys1)
        case Nil
        have "\<exists>r. insert_last pnew h1 (first xs None) (last xs) ins = Some r
          \<and> refines {} h1 (pnew # xs) r (infos h1 xs @ (if ins then [] else place (time (the (info h1 (last xs)))) tn []))"
          using last [of h1 n1] d(2) n1 where1 era1 prems(5,7) names Nil by (auto split: if_splits)
        then obtain r where r: "insert_last pnew h1 (first xs None) (last xs) ins = Some r"
          "refines {} h1 (pnew # xs) r (infos h1 xs @ (if ins then [] else place (time (the (info h1 (last xs)))) tn []))"
          by blast
        have "insert_loop pnew h (first xs None) (last xs) (first ys None) ins rep = Some r"
          using live d(1) r(1) Nil Cons by (subst insert_loop.simps) auto
        moreover have "refines {} h (pnew # xs @ ys) r (infos h1 xs @ (if ins then [] else place (time (the (info h1 (last xs)))) tn []))"
          using d(6) gone Nil by (intro refines_step [OF r(2)]) auto
        moreover have "info h1 (last xs) = info h (last xs)" using d(5) prems(3) by simp
        ultimately show ?thesis using d2(1) R xs1 Nil by auto
      next
        case (Cons b bs)
        note ys1 = Cons
        have "in_era (time n1)" using prems(7) names by simp
        from try_insert_list [OF d(2,3) [unfolded ys1] prems(3) n1(1) where1 [unfolded ys1] era1 [unfolded ys1] this]
        obtain h' ins' us n' where t: "try_insert pnew h1 b ins = Some (h', ins')" "dll h' None ((xs @ us @ [b]) @ bs) None"
          "distinct ((xs @ us @ [b]) @ bs)" "set us \<subseteq> {pnew}" "infos h' xs = infos h1 xs" "infos h' bs = infos h1 bs"
          "if ins' then pnew \<in> set (xs @ us) else us = [] \<and> h' = h1 \<and> \<not> ins" "h' pnew = Some n'"
          "timer_id n' = timer_id n1" "flag n' = flag n1" "time n' = time n1"
          "\<forall>b \<in> set ((xs @ us @ [b]) @ bs). in_era (time (the (info h' b)))"
          "\<forall>c. c \<notin> set (pnew # xs @ b # bs) \<longrightarrow> h' c = h1 c"
          and val: "\<forall>Z. infos h' (us @ [b]) @ (if ins' then Z else place (time (the (info h' b))) (timer_info.truncate n1) Z)
            = (if ins then the (info h1 b) # Z
               else place (time (the (info h1 (last xs)))) (timer_info.truncate n1) (the (info h1 b) # Z))"
          by (elim exE conjE) (rule that)
        obtain q' where q': "h' b = Some q'" "nxt q' = first bs None" using t(2) by auto
        have step: "insert_loop pnew h (first xs None) (last xs) (first ys None) ins rep
            = insert_loop pnew h' (first (xs @ us @ [b]) None) (last (xs @ us @ [b])) (first bs None) ins' rep1"
          using live d(1) t(1) q' \<open>ys = a # zs\<close> ys1 prems(3) by (subst insert_loop.simps) (auto simp: first_last)
        have "length bs < length ys" using d2(2) ys1 by simp
        have inv: "if ins' then pnew \<in> set (xs @ us @ [b]) \<and> repeats (timer_info.truncate n') = repeats tn
            else pnew \<notin> set ((xs @ us @ [b]) @ bs) \<and> timer_info.truncate n' = tn"
        proof (cases ins')
          case True
          then show ?thesis using t(7,9,10) names repeats_cong [of n' n] same by auto
        next
          case False
          then have "us = []" "h' = h1" "\<not> ins" using t(7) by auto
          with False show ?thesis using t(8) n1 prems(5) where1 ys1 by auto
        qed
        have "xs @ us @ [b] \<noteq> []" "in_era (time n')" using t(11) names(3) prems(7) by simp_all
        from less.hyps [OF \<open>length bs < length ys\<close> t(2,3) this(1) t(8) inv t(12) this(2), of rep1]
        obtain r where r: "insert_loop pnew h' (first (xs @ us @ [b]) None) (last (xs @ us @ [b])) (first bs None) ins' rep1 = Some r"
          "refines {} h' (pnew # (xs @ us @ [b]) @ bs) r (infos h' (xs @ us @ [b]) @ (if ins' then rest rep1 tn (infos h' bs)
            else place (time (the (info h' (last (xs @ us @ [b]))))) tn (rest rep1 tn (infos h' bs))))"
          by blast
        let ?Z = "rest rep1 tn (infos h' bs)"
        have "last xs \<in> set (xs @ ys1) \<union> {pnew}" using prems(3) by simp
        with d(5) have l: "info h1 (last xs) = info h (last xs)" by blast
        have "infos h' (us @ [b]) @ (if ins' then ?Z else place (time (the (info h' b))) tn ?Z)
            = (if ins then rest rep tn (infos h ys) else place (time (the (info h (last xs)))) tn (rest rep tn (infos h ys)))"
          using val [rule_format, of ?Z] d2(1) R t(6,7) n1(2) prems(5) l ys1 by (auto split: if_splits)
        then have eq: "infos h' (xs @ us @ [b]) @ (if ins' then ?Z else place (time (the (info h' (last (xs @ us @ [b]))))) tn ?Z)
            = infos h xs @ (if ins then rest rep tn (infos h ys) else place (time (the (info h (last xs)))) tn (rest rep tn (infos h ys)))"
        proof -
          have "last (xs @ us @ [b]) = b" "infos h' (xs @ us @ [b]) = infos h xs @ infos h' (us @ [b])"
            using t(5) xs1 by simp_all
          then show ?thesis
            using \<open>infos h' (us @ [b]) @ _ = _\<close> by (simp only: append_assoc)
        qed
        have "refines {} h (pnew # xs @ ys) r (infos h' (xs @ us @ [b])
            @ (if ins' then ?Z else place (time (the (info h' (last (xs @ us @ [b]))))) tn ?Z))"
        proof (rule refines_step [OF r(2)])
          show "set (pnew # (xs @ us @ [b]) @ bs) \<subseteq> set (pnew # xs @ ys)" using t(4) d(4) ys1 by auto
          show "h' c = h c" if "c \<notin> set (pnew # xs @ ys)" for c
          proof -
            have "c \<notin> set (pnew # xs @ b # bs)" "c \<notin> set (xs @ ys)" using that d(4) ys1 by auto
            with t(13) d(6) show ?thesis by simp
          qed
          show "h' c = None" if "c \<in> set (pnew # xs @ ys)" "c \<notin> set (pnew # (xs @ us @ [b]) @ bs)" for c
            using that t(13) gone ys1 by auto
        qed
        with eq step r(1) show ?thesis by (intro exI [of _ r]) simp
      qed
    qed
  qed
qed

lemma only_timer_list:
  assumes "h pnew = Some n" and "in_era now" and "in_era (time n)" and "\<And>b. b \<in> set as \<Longrightarrow> b \<noteq> pnew \<Longrightarrow> h b = None"
  shows "\<exists>r. only_timer now h pnew = Some r \<and> refines {} h (pnew # as) r (place now (timer_info.truncate n) [])"
proof -
  let ?h = "h(pnew \<mapsto> n\<lparr>pre := None, nxt := None, elapse := time n - now\<rparr>)"
  have "only_timer now h pnew = Some (?h, Some pnew)"
    using assms by (simp add: only_timer_def difftime_era)
  then show ?thesis
    using assms(4) by (intro exI [of _ "(?h, Some pnew)"]) (auto simp: info_def intro!: refinesI [of _ "[pnew]"])
qed

lemma insert_first_list:
  assumes "dll h None (a # zs) None" and "distinct (a # zs)" and "h pnew = Some n" and "pnew \<notin> set (a # zs)"
    and "in_era (time n)" and "in_era now"
  shows "\<exists>h' n'. insert_first now pnew h a el = Some h' \<and> dll h' None (pnew # a # zs) None
    \<and> infos h' zs = infos h zs \<and> h' pnew = Some n' \<and> time n' = time n \<and> timer_id n' = timer_id n \<and> flag n' = flag n
    \<and> info h' pnew = Some ((timer_info.truncate n)\<lparr>elapse := time n - now\<rparr>)
    \<and> info h' a = Some ((the (info h a))\<lparr>elapse := el\<rparr>)
    \<and> (\<forall>b. b \<notin> set (pnew # a # zs) \<longrightarrow> h' b = h b)"
proof -
  obtain q where q: "h a = Some q" using assms(1) by auto
  let ?n = "n\<lparr>pre := None, nxt := Some a, elapse := time n - now\<rparr>"
  let ?h = "h(pnew \<mapsto> ?n, a \<mapsto> q\<lparr>pre := Some pnew, elapse := el\<rparr>)"
  have "insert_first now pnew h a el = Some ?h"
    using assms q by (auto simp: insert_first_def difftime_era fun_upd_twist)
  moreover have "infos ?h zs = infos h zs"
    using assms(2,4) by (intro infos_cong) (auto simp: info_def)
  ultimately show ?thesis
    using assms q by (intro exI [of _ ?h] exI [of _ ?n]) (auto simp: info_def)
qed

lemma insert_a_timer_list:
  assumes "dll h None as None" and "distinct as" and "h pnew = Some n" and "pnew \<notin> set as"
    and "\<forall>b \<in> set as. in_era (time (the (info h b)))" and "in_era (time n)" and "in_era now"
  shows "\<exists>r. insert_a_timer now h (first as None) pnew = Some r
    \<and> refines (if time n < now then {pnew} else {}) h (pnew # as) r
        (insert_spec now (timer_info.truncate n) (infos h as))"
proof -
  let ?tn = "timer_info.truncate n"
  note dn = difftime_era [OF assms(6,7)]
  consider (past) "time n < now" | (empty) "now \<le> time n" "as = []" | (list) a zs where "now \<le> time n" "as = a # zs"
    by (metis neq_Nil_conv not_less)
  then show ?thesis
  proof cases
    case past
    then have "insert_a_timer now h (first as None) pnew = Some (h, first as None)"
      using dn assms(3) by (simp add: insert_a_timer_def)
    with past assms show ?thesis
      by (intro exI [of _ "(h, first as None)"] conjI refinesI [of _ as]) (auto simp: insert_spec_def)
  next
    case empty
    with only_timer_list [of h pnew n now as] dn assms(3,6,7) show ?thesis
      by (simp add: insert_a_timer_def insert_spec_def)
  next
    case list
    from list assms(4) have "pnew \<noteq> a" by auto
    from drop_repeat_list [of h "[]" a zs pnew n False] assms(1-3) list this
    obtain h1 ys1 rep1 where d: "drop_repeat pnew h a False = Some (h1, first ys1 None, rep1)"
      "dll h1 None ys1 None" "distinct ys1" "set ys1 \<subseteq> set as"
      "\<forall>b \<in> set ys1 \<union> {pnew}. info h1 b = info h b" "\<forall>b. b \<notin> set as \<longrightarrow> h1 b = h b"
      and gone: "\<forall>b \<in> set as - set ys1. h1 b = None" and val: "rest False ?tn (infos h as)
        = (case ys1 of [] \<Rightarrow> [] | b # bs \<Rightarrow> the (info h1 b) # rest rep1 ?tn (infos h1 bs))"
      by (auto simp del: infos_simps)
    have n1: "h1 pnew = Some n" using d(6) assms(3,4) by simp
    have spec: "insert_spec now ?tn (infos h as) = place now ?tn (rest False ?tn (infos h as))"
      using list(1) by (simp add: insert_spec_def rest_def)
    show ?thesis
    proof (cases ys1)
      case Nil
      obtain r where r: "only_timer now h1 pnew = Some r" "refines {} h1 (pnew # as) r (place now ?tn [])"
        using only_timer_list [of h1 pnew n now as] n1 assms(6,7) gone Nil by auto
      have "insert_a_timer now h (first as None) pnew = Some r"
        using list dn assms(3) d(1) r(1) Nil by (simp add: insert_a_timer_def)
      moreover have "refines {} h (pnew # as) r (insert_spec now ?tn (infos h as))"
        unfolding spec val Nil list.case using d(6) by (intro refines_step [OF r(2)]) auto
      ultimately show ?thesis using list(1) by auto
    next
      case (Cons b bs)
      obtain q where q: "h1 b = Some q" "nxt q = first bs None" using d(2) Cons by auto
      have t: "time (the (info h1 b)) = time q" using q by (simp add: info_sel)
      have "\<forall>c \<in> set ys1. in_era (time (the (info h1 c)))" using d(4,5) assms(5) by auto
      then have eras: "in_era (time q)" "\<forall>c \<in> set ys1. in_era (time (the (info h1 c)))" using t Cons by auto
      have fresh: "pnew \<notin> set ys1" using d(4) assms(4) by auto
      note dq = difftime_era [OF eras(1) assms(6)]
      obtain h2 us n2 where h2: "dll h2 None ((us @ [b]) @ bs) None" "distinct ((us @ [b]) @ bs)" "set us \<subseteq> {pnew}"
        "h2 pnew = Some n2" "in_era (time n2)" "\<forall>c \<in> set ((us @ [b]) @ bs). in_era (time (the (info h2 c)))"
        "\<forall>c. c \<notin> set (pnew # ys1) \<longrightarrow> h2 c = h1 c"
        and ins: "if time n \<le> time q then pnew \<in> set (us @ [b]) \<and> repeats (timer_info.truncate n2) = repeats ?tn
          else pnew \<notin> set ((us @ [b]) @ bs) \<and> timer_info.truncate n2 = ?tn"
        and run: "insert_a_timer now h (first as None) pnew
          = insert_loop pnew h2 (first (us @ [b]) None) (last (us @ [b])) (first bs None) (time n \<le> time q) rep1"
        and infos: "\<And>Z. infos h2 (us @ [b]) @ (if time n \<le> time q then Z else place (time (the (info h2 (last (us @ [b]))))) ?tn Z)
          = place now ?tn (the (info h1 b) # Z)" "infos h2 bs = infos h1 bs"
      proof (cases "time n \<le> time q")
        case True
        obtain h2 n2 where h2: "insert_first now pnew h1 b (time q - time n) = Some h2" "dll h2 None (pnew # b # bs) None"
          "infos h2 bs = infos h1 bs" "h2 pnew = Some n2" "time n2 = time n" "timer_id n2 = timer_id n" "flag n2 = flag n"
          "info h2 pnew = Some (?tn\<lparr>elapse := time n - now\<rparr>)"
          "info h2 b = Some ((the (info h1 b))\<lparr>elapse := time q - time n\<rparr>)"
          "\<forall>c. c \<notin> set (pnew # b # bs) \<longrightarrow> h2 c = h1 c"
          using insert_first_list [of h1 b bs pnew n now] d(2,3) n1 fresh assms(6,7) unfolding Cons by metis
        obtain q2 where q2: "h2 b = Some q2" "nxt q2 = first bs None" using h2(2) by auto
        show thesis
        proof (rule that [of h2 "[pnew]" n2])
          show "insert_a_timer now h (first as None) pnew = insert_loop pnew h2 (first ([pnew] @ [b]) None)
            (last ([pnew] @ [b])) (first bs None) (time n \<le> time q) rep1"
            using list dn assms(3) d(1) Cons q dq True h2(1) q2 by (simp add: insert_a_timer_def)
          show "\<forall>c \<in> set (([pnew] @ [b]) @ bs). in_era (time (the (info h2 c)))"
            using eras(2) h2(8,9) infos_eqD [OF h2(3)] assms(6) Cons by auto
          show "infos h2 ([pnew] @ [b]) @ (if time n \<le> time q then Z
              else place (time (the (info h2 (last ([pnew] @ [b]))))) ?tn Z) = place now ?tn (the (info h1 b) # Z)" for Z
            using True t h2(8,9) by simp
          show "if time n \<le> time q then pnew \<in> set ([pnew] @ [b]) \<and> repeats (timer_info.truncate n2) = repeats ?tn
              else pnew \<notin> set (([pnew] @ [b]) @ bs) \<and> timer_info.truncate n2 = ?tn"
            using True repeats_cong [OF h2(6,7)] by simp
        qed (use h2 d(3) fresh Cons assms(6) in auto)
      next
        case False
        show thesis
        proof (rule that [of h1 "[]" n])
          show "insert_a_timer now h (first as None) pnew = insert_loop pnew h1 (first ([] @ [b]) None)
            (last ([] @ [b])) (first bs None) (time n \<le> time q) rep1"
            using list dn assms(3) d(1) Cons q dq False by (simp add: insert_a_timer_def)
          show "infos h1 ([] @ [b]) @ (if time n \<le> time q then Z
              else place (time (the (info h1 (last ([] @ [b]))))) ?tn Z) = place now ?tn (the (info h1 b) # Z)" for Z
            using False t by simp
          show "if time n \<le> time q then pnew \<in> set ([] @ [b]) \<and> repeats ?tn = repeats ?tn
              else pnew \<notin> set (([] @ [b]) @ bs) \<and> ?tn = ?tn"
            using False fresh Cons by simp
        qed (use d(2,3) eras(2) n1 assms(6) Cons in auto)
      qed
      let ?Z = "rest rep1 ?tn (infos h2 bs)"
      obtain r where r: "insert_loop pnew h2 (first (us @ [b]) None) (last (us @ [b])) (first bs None)
          (time n \<le> time q) rep1 = Some r"
        "refines {} h2 (pnew # (us @ [b]) @ bs) r (infos h2 (us @ [b]) @ (if time n \<le> time q then ?Z
          else place (time (the (info h2 (last (us @ [b]))))) ?tn ?Z))"
        using insert_loop_list [OF h2(1,2) _ h2(4) ins h2(6,5), of rep1] by blast
      have "refines {} h (pnew # as) r (infos h2 (us @ [b]) @ (if time n \<le> time q then ?Z
          else place (time (the (info h2 (last (us @ [b]))))) ?tn ?Z))"
      proof (rule refines_step [OF r(2)])
        show "set (pnew # (us @ [b]) @ bs) \<subseteq> set (pnew # as)" using h2(3) d(4) Cons by auto
        show "h2 c = h c" if "c \<notin> set (pnew # as)" for c
        proof -
          have "c \<notin> set (pnew # ys1)" "c \<notin> set as" using that d(4) by auto
          with h2(7) d(6) show ?thesis by simp
        qed
        show "h2 c = None" if "c \<in> set (pnew # as)" "c \<notin> set (pnew # (us @ [b]) @ bs)" for c
          using that h2(7) gone Cons by auto
      qed
      also have "infos h2 (us @ [b]) @ (if time n \<le> time q then ?Z
          else place (time (the (info h2 (last (us @ [b]))))) ?tn ?Z) = insert_spec now ?tn (infos h as)"
        unfolding infos(1) spec val Cons infos(2) by simp
      finally show ?thesis using run r(1) list(1) by auto
    qed
  qed
qed

text \<open>C12: Setting a timer does on the linked nodes what \<open>insert_spec\<close> says on the list: with a time not in
  the past, the first timer with the same identifier and flag is unlinked and its node is freed, the new one is
  linked before the first that is not earlier, its delay and that of its successor are set, no other node is freed and no
  node outside the list is touched. With a time in the past the list stays as it is, and the new node stays allocated outside
  it: it is lost. The operation always ends and never follows a dangling or null pointer.\<close>

theorem insert_a_timer_refines:
  assumes "dll h None as None" and "distinct as" and "h pnew = Some n" and "pnew \<notin> set as"
    and "\<forall>b \<in> set as. in_era (time (the (info h b)))" and "in_era (time n)" and "in_era now"
  shows "\<exists>r. insert_a_timer now h (first as None) pnew = Some r
    \<and> refines (if time n < now then {pnew} else {}) h (pnew # as) r
        (insert_spec now (timer_info.truncate n) (infos h as))"
  using assms by (rule insert_a_timer_list)

section \<open>A store with two timers\<close>

definition sample_store :: store where
  "sample_store = [1 \<mapsto> \<lparr>timer_id = 0, flag = 0, elapse = 5, time = 15, pre = None, nxt = Some 2\<rparr>,
     2 \<mapsto> \<lparr>timer_id = 1, flag = 0, elapse = 10, time = 25, pre = Some 1, nxt = None\<rparr>,
     3 \<mapsto> \<lparr>timer_id = 1, flag = 0, elapse = 0, time = 30, pre = None, nxt = None\<rparr>]"

lemma sample_infos:
  "dll sample_store None [1, 2] None" "infos sample_store [1, 2]
    = [\<lparr>timer_id = 0, flag = 0, elapse = 5, time = 15\<rparr>, \<lparr>timer_id = 1, flag = 0, elapse = 10, time = 25\<rparr>]"
  by (simp_all add: sample_store_def info_def timer_info.truncate_def)

theorem del_a_timer_refines_witness:
  "\<exists>r. del_a_timer sample_store (Some 1) 0 = Some r
    \<and> refines {} sample_store [1, 2] r [\<lparr>timer_id = 1, flag = 0, elapse = 10, time = 25\<rparr>]"
  using del_a_timer_refines [OF sample_infos(1), of 0] unfolding sample_infos(2) by simp

theorem insert_a_timer_refines_witness:
  "\<exists>r. insert_a_timer 10 sample_store (Some 1) 3 = Some r
    \<and> refines {} sample_store [3, 1, 2] r [\<lparr>timer_id = 0, flag = 0, elapse = 5, time = 15\<rparr>,
        \<lparr>timer_id = 1, flag = 0, elapse = 15, time = 30\<rparr>]"
proof -
  have n: "sample_store 3 = Some \<lparr>timer_id = 1, flag = 0, elapse = 0, time = 30, pre = None, nxt = None\<rparr>"
    by (simp add: sample_store_def)
  have "\<forall>b \<in> set [1, 2]. in_era (time (the (info sample_store b)))" "in_era 30" "in_era 10"
    by (simp_all add: sample_store_def info_def timer_info.truncate_def in_era_def)
  with insert_a_timer_refines [OF sample_infos(1) _ n, of 10] show ?thesis
    unfolding sample_infos(2) by (simp add: insert_spec_def repeats_def timer_info.truncate_def)
qed

end
