(* ===== verification/Station_Timers.thy ===== *)
theory Station_Timers
  imports Timer_List
begin

text \<open>
  What a monitoring station does with its timers: \<open>sig_func\<close> of \<open>main.c\<close> fires them every second;
  \<open>set_timer_id\<close>, \<open>set_child_timer\<close> and the launching and ending functions of \<open>local_timer.c\<close>;
  \<open>parse_timer_message\<close> of \<open>local_comm.c\<close>, which sets timers on the request of the manager.

  Starting and killing the process of a port are events. The functions of a timer follow from its
  flag, with which they are set. \<open>mktime\<close> is an argument.
\<close>

section \<open>Firing\<close>

datatype event = Launch int | End int

definition timer_event :: "timer_info \<Rightarrow> event" where
  "timer_event x = (if flag x \<noteq> 0 then End (timer_id x) else Launch (timer_id x))"

text \<open>\<open>timer_proc_launch\<close> and \<open>timer_proc_end\<close>.\<close>

definition timer_proc :: "store \<Rightarrow> addr option \<Rightarrow> (store \<times> addr option \<times> event) option" where
  "timer_proc h timer_info = do {
     n \<leftarrow> deref h timer_info;
     (h, head) \<leftarrow> del_a_timer h timer_info (timer_id n);
     Some (h, head, timer_event (timer_info.truncate n)) }"

definition set_elapse :: "int \<Rightarrow> store \<Rightarrow> addr option \<Rightarrow> store option" where
  "set_elapse t h head = do {
     n \<leftarrow> deref h head;
     e \<leftarrow> difftime (time n) t;
     modify h head (\<lambda>m. m\<lparr>elapse := e\<rparr>) }"

partial_function (option) late_loop :: "int \<Rightarrow> store \<Rightarrow> addr option \<Rightarrow> (store \<times> addr option \<times> event list) option"
where
  "late_loop t h head = do {
     n \<leftarrow> deref h head;
     if elapse n < 0 then do {
       (h, head, ev) \<leftarrow> timer_proc h head;
       if head = None then Some (h, None, [ev])
       else do {
         h \<leftarrow> set_elapse t h head;
         (h, head, evs) \<leftarrow> late_loop t h head;
         Some (h, head, ev # evs) } }
     else Some (h, head, []) }"

partial_function (option) due_loop :: "store \<Rightarrow> addr option \<Rightarrow> (store \<times> addr option \<times> event list) option"
where
  "due_loop h head = do {
     n \<leftarrow> deref h head;
     if elapse n = 0 then do {
       (h, head, ev) \<leftarrow> timer_proc h head;
       if head = None then Some (h, None, [ev])
       else do {
         (h, head, evs) \<leftarrow> due_loop h head;
         Some (h, head, ev # evs) } }
     else Some (h, head, []) }"

definition sig_func :: "int \<Rightarrow> store \<Rightarrow> addr option \<Rightarrow> (store \<times> addr option \<times> event list) option" where
  "sig_func t h head =
     (if head = None then Some (h, None, [])
      else do {
        h \<leftarrow> set_elapse t h head;
        (h, head, es) \<leftarrow> late_loop t h head;
        (h, head, fs) \<leftarrow> due_loop h head;
        Some (h, head, es @ fs) })"

section \<open>The timers of a station\<close>

definition holds :: "store \<Rightarrow> addr option \<Rightarrow> timer_info list \<Rightarrow> bool" where
  "holds h head xs \<longleftrightarrow> (\<exists>as. head = first as None \<and> dll h None as None \<and> distinct as \<and> infos h as = xs)"

lemma refines_holds: "refines lk h as r xs \<Longrightarrow> holds (fst r) (snd r) xs"
  by (auto simp: refines_def holds_def)

lemma first_eq_None [simp]: "first as None = None \<longleftrightarrow> as = []" "None = first as None \<longleftrightarrow> as = []"
  by (cases as; simp)+

lemma infos_eq_Nil [simp]: "infos h as = [] \<longleftrightarrow> as = []"
  by (simp add: infos_def)

lemma holds_None [simp]: "holds h None xs \<longleftrightarrow> xs = []"
  by (auto simp: holds_def)

lemma holds_Nil [simp]: "holds h head [] \<longleftrightarrow> head = None"
  by (auto simp: holds_def)

lemma holds_ConsE:
  assumes "holds h head (x # xs)"
  obtains a as where "head = Some a" "dll h None (a # as) None" "distinct (a # as)" "infos h (a # as) = x # xs"
proof -
  obtain as where as: "head = first as None" "dll h None as None" "distinct as" "infos h as = x # xs"
    using assms by (auto simp: holds_def)
  from as(4) obtain a bs where "as = a # bs" by (cases as) auto
  with as that show ?thesis by simp
qed

lemma holds_head:
  assumes "holds h head (x # xs)"
  shows "\<exists>n. deref h head = Some n \<and> timer_info.truncate n = x \<and> timer_id n = timer_id x \<and> elapse n = elapse x
    \<and> time n = time x"
  using assms by (elim holds_ConsE) (auto simp: deref_def info_def)

lemma timer_proc_holds:
  assumes "holds h head (x # xs)"
  shows "\<exists>h' head'. timer_proc h head = Some (h', head', timer_event x) \<and> holds h' head' xs"
proof -
  obtain as where as: "head = first as None" "dll h None as None" "distinct as" "infos h as = x # xs"
    using assms by (auto simp: holds_def)
  obtain n where n: "deref h head = Some n" "timer_info.truncate n = x" "timer_id n = timer_id x"
    using holds_head [OF assms] by blast
  obtain r where r: "del_a_timer h head (timer_id n) = Some r"
    "refines (if length as = 1 then set as else {}) h as r (drop_first (\<lambda>y. timer_id y = timer_id n) (infos h as))"
    using del_a_timer_list [OF as(2,3), of "timer_id n"] as(1) by blast
  have "holds (fst r) (snd r) xs" using refines_holds [OF r(2)] as(4) n(3) by simp
  with r(1) n show ?thesis
    by (intro exI [of _ "fst r"] exI [of _ "snd r"]) (simp add: timer_proc_def split_def)
qed

lemma set_elapse_holds:
  assumes "holds h head (x # xs)" and "in_era (time x)" and "in_era t"
  shows "\<exists>h'. set_elapse t h head = Some h' \<and> holds h' head (x\<lparr>elapse := time x - t\<rparr> # xs)"
proof -
  obtain a as where as: "head = Some a" "dll h None (a # as) None" "distinct (a # as)" "infos h (a # as) = x # xs"
    by (rule holds_ConsE [OF assms(1)])
  then obtain n where n: "h a = Some n" by auto
  then have "time n = time x" "timer_info.truncate n = x" using as(4) by (auto simp: info_def)
  then have "set_elapse t h head = Some (h(a \<mapsto> n\<lparr>elapse := time x - t\<rparr>))" (is "_ = Some ?h")
    using n as(1) assms(2,3) by (simp add: set_elapse_def deref_def difftime_era)
  moreover have "infos ?h as = infos h as" using as(3) by (intro infos_cong) (auto simp: info_def)
  ultimately show ?thesis
    using as n \<open>timer_info.truncate n = x\<close>
    by (intro exI [of _ ?h]) (auto simp: holds_def info_def intro!: exI [of _ "a # as"])
qed

definition now_at :: "int \<Rightarrow> timer_info list \<Rightarrow> timer_info list" where
  "now_at t xs = (case xs of [] \<Rightarrow> [] | y # ys \<Rightarrow> y\<lparr>elapse := time y - t\<rparr> # ys)"

lemma now_at_simps [simp]:
  "now_at t [] = []" "now_at t (y # ys) = y\<lparr>elapse := time y - t\<rparr> # ys"
  by (simp_all add: now_at_def)

lemma timer_event_elapse [simp]: "timer_event (x\<lparr>elapse := e\<rparr>) = timer_event x"
  by (simp add: timer_event_def)

lemma elapse_same [simp]: "elapse x = e \<Longrightarrow> x\<lparr>elapse := e\<rparr> = (x :: timer_info)"
  by (cases x) simp

lemma late_loop_holds:
  assumes "holds h head (x # xs)" and "elapse x = time x - t" and "\<forall>y \<in> set (x # xs). in_era (time y)" and "in_era t"
  shows "\<exists>h' head'. late_loop t h head
      = Some (h', head', map timer_event (takeWhile (\<lambda>y. time y < t) (x # xs)))
    \<and> holds h' head' (now_at t (dropWhile (\<lambda>y. time y < t) (x # xs)))"
  using assms
proof (induction xs arbitrary: h head x)
  case Nil
  obtain n where n: "deref h head = Some n" "elapse n = elapse x" using holds_head [OF Nil.prems(1)] by blast
  obtain h1 where "timer_proc h head = Some (h1, None, timer_event x)"
    using timer_proc_holds [OF Nil.prems(1)] by auto
  with n Nil.prems show ?case by (subst late_loop.simps) auto
next
  case (Cons y ys)
  obtain n where n: "deref h head = Some n" "elapse n = elapse x" using holds_head [OF Cons.prems(1)] by blast
  show ?case
  proof (cases "time x < t")
    case False
    with n Cons.prems show ?thesis by (subst late_loop.simps) auto
  next
    case True
    obtain h1 head1 where 1: "timer_proc h head = Some (h1, head1, timer_event x)" "holds h1 head1 (y # ys)"
      using timer_proc_holds [OF Cons.prems(1)] by blast
    obtain a1 where a1: "head1 = Some a1" by (rule holds_ConsE [OF 1(2)])
    obtain h2 where 2: "set_elapse t h1 head1 = Some h2" "holds h2 head1 (y\<lparr>elapse := time y - t\<rparr> # ys)"
      using set_elapse_holds [OF 1(2)] Cons.prems by auto
    obtain h' head' where 3: "late_loop t h2 head1 = Some (h', head',
        map timer_event (takeWhile (\<lambda>y. time y < t) (y\<lparr>elapse := time y - t\<rparr> # ys)))"
      "holds h' head' (now_at t (dropWhile (\<lambda>y. time y < t) (y\<lparr>elapse := time y - t\<rparr> # ys)))"
      using Cons.IH [OF 2(2)] Cons.prems(3,4) by auto
    have "late_loop t h head = Some (h', head', timer_event x
        # map timer_event (takeWhile (\<lambda>y. time y < t) (y\<lparr>elapse := time y - t\<rparr> # ys)))"
      using n True Cons.prems(2) 1(1) a1 2(1) 3(1) by (subst late_loop.simps) simp
    with 3(2) True show ?thesis by (auto split: if_splits)
  qed
qed

lemma due_loop_holds:
  assumes "holds h head (x # xs)"
  shows "\<exists>h' head'. due_loop h head
      = Some (h', head', map timer_event (takeWhile (\<lambda>y. elapse y = 0) (x # xs)))
    \<and> holds h' head' (dropWhile (\<lambda>y. elapse y = 0) (x # xs))"
  using assms
proof (induction xs arbitrary: h head x)
  case Nil
  obtain n where n: "deref h head = Some n" "elapse n = elapse x" using holds_head [OF Nil.prems(1)] by blast
  obtain h1 where "timer_proc h head = Some (h1, None, timer_event x)"
    using timer_proc_holds [OF Nil.prems(1)] by auto
  with n Nil.prems show ?case by (subst due_loop.simps) auto
next
  case (Cons y ys)
  obtain n where n: "deref h head = Some n" "elapse n = elapse x" using holds_head [OF Cons.prems(1)] by blast
  obtain h1 head1 where 1: "timer_proc h head = Some (h1, head1, timer_event x)" "holds h1 head1 (y # ys)"
    using timer_proc_holds [OF Cons.prems(1)] by blast
  obtain a1 where "head1 = Some a1" by (rule holds_ConsE [OF 1(2)])
  with n 1(1) Cons.IH [OF 1(2)] Cons.prems show ?case
    by (cases "elapse x = 0") (subst due_loop.simps, force)+
qed

text \<open>The delay of a timer is the time from its predecessor.\<close>

fun delays_ok :: "timer_info list \<Rightarrow> bool" where
  "delays_ok (x # y # ys) \<longleftrightarrow> elapse y = time y - time x \<and> delays_ok (y # ys)"
| "delays_ok _ \<longleftrightarrow> True"

lemma delays_ok_tl: "delays_ok (x # xs) \<Longrightarrow> delays_ok xs"
  by (cases xs) auto

lemma delays_ok_dropWhile: "delays_ok xs \<Longrightarrow> delays_ok (dropWhile P xs)"
  by (induction xs) (auto dest: delays_ok_tl)

lemma delays_ok_hd: "delays_ok (x # xs) \<Longrightarrow> delays_ok (x\<lparr>elapse := e\<rparr> # xs)"
  by (cases xs) auto

lemma due_takeWhile:
  "delays_ok (y # ys) \<Longrightarrow> sorted (map time (y # ys)) \<Longrightarrow> elapse y = time y - t \<Longrightarrow> t \<le> time y \<Longrightarrow>
   takeWhile (\<lambda>x. elapse x = 0) (y # ys) = takeWhile (\<lambda>x. time x \<le> t) (y # ys)
   \<and> dropWhile (\<lambda>x. elapse x = 0) (y # ys) = dropWhile (\<lambda>x. time x \<le> t) (y # ys)"
proof (induction ys arbitrary: y)
  case (Cons z zs)
  show ?case
  proof (cases "time y = t")
    case True
    with Cons.IH [of z] Cons.prems show ?thesis by auto
  qed (use Cons.prems in auto)
qed auto

lemma sorted_takeWhile:
  "sorted (map time xs) \<Longrightarrow> takeWhile (\<lambda>x. time x \<le> t) xs = filter (\<lambda>x. time x \<le> t) xs"
  "sorted (map time xs) \<Longrightarrow> dropWhile (\<lambda>x. time x \<le> t) xs = filter (\<lambda>x. t < time x) xs"
  by (induction xs) (auto simp: empty_filter_conv filter_empty_conv not_le intro!: filter_True [symmetric])

lemma late_then_due:
  "takeWhile (\<lambda>x. time x < t) xs @ takeWhile (\<lambda>x. time x \<le> t) (dropWhile (\<lambda>x. time x < t) xs)
    = takeWhile (\<lambda>x. time x \<le> t) xs"
  "dropWhile (\<lambda>x. time x \<le> t) (dropWhile (\<lambda>x. time x < t) xs) = dropWhile (\<lambda>x. time x \<le> t) xs"
  for t :: int
  by (induction xs) auto

definition timers_ok :: "int \<Rightarrow> timer_info list \<Rightarrow> bool" where
  "timers_ok t xs \<longleftrightarrow> sorted (map time xs) \<and> (\<forall>x \<in> set xs. in_era (time x)) \<and> in_era t"

definition key :: "timer_info \<Rightarrow> int \<times> int \<times> int" where
  "key x = (timer_id x, flag x, time x)"

lemma key_now_at [simp]: "map key (now_at t xs) = map key xs"
  by (cases xs) (simp_all add: key_def)

lemma sig_func_split:
  assumes "holds h head (x # xs)" and "timers_ok t (x # xs)"
  shows "\<exists>h1 head1 h2. set_elapse t h head = Some h1
    \<and> late_loop t h1 head = Some (h2, head1, map timer_event (takeWhile (\<lambda>y. time y < t) (x # xs)))
    \<and> holds h2 head1 (now_at t (dropWhile (\<lambda>y. time y < t) (x # xs)))"
proof -
  let ?x = "x\<lparr>elapse := time x - t\<rparr>"
  obtain h1 where 1: "set_elapse t h head = Some h1" "holds h1 head (?x # xs)"
    using set_elapse_holds [OF assms(1), of t] assms(2) by (auto simp: timers_ok_def)
  obtain h2 head1 where "late_loop t h1 head = Some (h2, head1, map timer_event (takeWhile (\<lambda>y. time y < t) (?x # xs)))"
    "holds h2 head1 (now_at t (dropWhile (\<lambda>y. time y < t) (?x # xs)))"
    using late_loop_holds [OF 1(2), of t] assms(2) by (auto simp: timers_ok_def)
  with 1(1) show ?thesis by (auto split: if_splits)
qed

text \<open>C13: The timers fire on time: at second \<open>t\<close>, provided not every timer is late, exactly the timers with
  a time up to \<open>t\<close> fire, in the order of their times; the others stay in the list unchanged except
  for the delay of the first, and their delays remain right.\<close>

theorem sig_func_fires_due_timers:
  assumes "holds h head xs" and "timers_ok t xs" and "delays_ok xs" and "\<exists>x \<in> set xs. t \<le> time x"
  shows "\<exists>h' head' ys. sig_func t h head
      = Some (h', head', map timer_event (filter (\<lambda>x. time x \<le> t) xs))
    \<and> holds h' head' ys \<and> map key ys = map key (filter (\<lambda>x. t < time x) xs) \<and> delays_ok ys"
proof -
  obtain x xs' where xs: "xs = x # xs'" using assms(4) by (cases xs) auto
  obtain h1 head1 h2 where 1: "set_elapse t h head = Some h1"
    "late_loop t h1 head = Some (h2, head1, map timer_event (takeWhile (\<lambda>y. time y < t) xs))"
    "holds h2 head1 (now_at t (dropWhile (\<lambda>y. time y < t) xs))"
    using sig_func_split [of h head x xs' t] assms(1,2) xs by blast
  obtain y ys where y: "dropWhile (\<lambda>y. time y < t) xs = y # ys"
    using assms(4) by (cases "dropWhile (\<lambda>y. time y < t) xs") (auto simp: dropWhile_eq_Nil_conv)
  let ?y = "y\<lparr>elapse := time y - t\<rparr>" and ?early = "takeWhile (\<lambda>y. time y < t) xs"
  have split: "xs = ?early @ y # ys" using takeWhile_dropWhile_id [of "\<lambda>y. time y < t" xs] y by simp
  have le: "t \<le> time y" using hd_dropWhile [of "\<lambda>y. time y < t" xs] y by simp
  have sorted: "sorted (map time (y # ys))" "sorted (map time xs)"
    using assms(2) split sorted_append [of "map time ?early" "map time (y # ys)"]
    by (simp_all add: timers_ok_def) (metis list.simps(9) map_append)
  have dy: "delays_ok (?y # ys)" using delays_ok_dropWhile [OF assms(3)] y delays_ok_hd by metis
  have "sorted (map time (?y # ys))" "elapse ?y = time ?y - t" "t \<le> time ?y" using sorted(1) le by simp_all
  note due = due_takeWhile [OF dy this]
  note later = delays_ok_dropWhile [OF dy, of "\<lambda>x. time x \<le> t"]
  obtain h' head' where 2: "due_loop h2 head1
      = Some (h', head', map timer_event (takeWhile (\<lambda>x. time x \<le> t) (?y # ys)))"
    "holds h' head' (dropWhile (\<lambda>x. time x \<le> t) (?y # ys))"
    using due_loop_holds [of h2 head1 ?y ys] 1(3) y due by (metis now_at_simps(2))
  have "map timer_event (takeWhile (\<lambda>x. time x \<le> t) (?y # ys)) = map timer_event (takeWhile (\<lambda>x. time x \<le> t) (y # ys))"
    by simp
  then have fired: "map timer_event ?early @ map timer_event (takeWhile (\<lambda>x. time x \<le> t) (?y # ys))
      = map timer_event (filter (\<lambda>x. time x \<le> t) xs)"
    using late_then_due(1) [of t xs] sorted_takeWhile(1) [OF sorted(2), of t] y by (metis map_append)
  have "map key (dropWhile (\<lambda>x. time x \<le> t) (?y # ys)) = map key (dropWhile (\<lambda>x. time x \<le> t) (y # ys))"
    by (simp add: key_def)
  then have left: "map key (dropWhile (\<lambda>x. time x \<le> t) (?y # ys)) = map key (filter (\<lambda>x. t < time x) xs)"
    using late_then_due(2) [of t xs] sorted_takeWhile(2) [OF sorted(2), of t] y by simp
  obtain a where a: "head = Some a" using assms(1) unfolding xs by (rule holds_ConsE)
  have "sig_func t h head = Some (h', head', map timer_event (filter (\<lambda>x. time x \<le> t) xs))"
    unfolding fired [symmetric] using 1(1,2) 2(1) a by (simp add: sig_func_def)
  with 2(2) later left show ?thesis by blast
qed

text \<open>When every timer is late, firing the last one ends with a dereference of \<open>NULL\<close>: the second
  loop of \<open>sig_func\<close> looks at the head of the list that the first has emptied.\<close>

theorem late_timers_crash:
  assumes "holds h head xs" and "timers_ok t xs" and "xs \<noteq> []" and "\<forall>x \<in> set xs. time x < t"
  shows "sig_func t h head = None"
proof -
  obtain x xs' where xs: "xs = x # xs'" using assms(3) by (cases xs) auto
  obtain h1 head1 h2 where 1: "set_elapse t h head = Some h1"
    "late_loop t h1 head = Some (h2, head1, map timer_event (takeWhile (\<lambda>y. time y < t) xs))"
    "holds h2 head1 (now_at t (dropWhile (\<lambda>y. time y < t) xs))"
    using sig_func_split [of h head x xs' t] assms(1,2) xs by blast
  obtain a where a: "head = Some a" using assms(1) unfolding xs by (rule holds_ConsE)
  have "dropWhile (\<lambda>y. time y < t) xs = []" using assms(4) by (simp add: dropWhile_eq_Nil_conv)
  with 1(3) have "head1 = None" by simp
  moreover have "due_loop h2 None = None" by (subst due_loop.simps) (simp add: deref_def)
  ultimately show ?thesis using 1(1,2) a by (simp add: sig_func_def)
qed

section \<open>Setting timers\<close>

definition name :: "timer_info \<Rightarrow> int \<times> int" where
  "name x = (timer_id x, flag x)"

lemma repeats_name: "repeats n x \<longleftrightarrow> name x = name n"
  by (auto simp: repeats_def name_def)

lemma mset_place: "mset (map key (place b n xs)) = add_mset (key n) (mset (map key xs))"
  by (induction xs arbitrary: b) (simp_all add: key_def)

lemma set_place: "key ` set (place b n xs) = insert (key n) (key ` set xs)"
  using arg_cong [OF mset_place, of set_mset b n xs] by simp

lemma in_key_times: "key ` set ys \<subseteq> key ` set xs \<Longrightarrow> y \<in> set ys \<Longrightarrow> \<exists>x \<in> set xs. time x = time y"
  by (force simp: key_def)

lemma sorted_place: "sorted (map time xs) \<Longrightarrow> sorted (map time (place b n xs))"
proof (induction xs arbitrary: b)
  case (Cons x xs)
  have "\<exists>z \<in> set (n # xs). time z = time y" if "y \<in> set (place (time x) n xs)" for y
    using in_key_times [of "place (time x) n xs" "n # xs" y] set_place [of "time x" n xs] that by auto
  with Cons show ?case by fastforce
qed simp

lemma delays_place: "delays_ok xs \<Longrightarrow> delays_ok (place b n xs)"
proof (induction xs arbitrary: b rule: delays_ok.induct)
  case (1 x y ys)
  then show ?case by (cases ys) auto
qed auto

lemma drop_first_filter: "distinct (map name xs) \<Longrightarrow> drop_first (repeats n) xs = filter (\<lambda>x. name x \<noteq> name n) xs"
proof (induction xs)
  case (Cons x xs)
  then have "name n = name x \<Longrightarrow> filter (\<lambda>y. name y \<noteq> name n) xs = xs"
    by (intro filter_True) (metis distinct.simps(2) image_eqI list.set_map list.simps(9))
  with Cons show ?case by (auto simp: repeats_name)
qed simp

lemma distinct_place:
  assumes "distinct (map name xs)" and "\<forall>x \<in> set xs. name x \<noteq> name n"
  shows "distinct (map name (place b n xs))"
proof -
  have "map name (place b n xs) = map (\<lambda>(i, f, t). (i, f)) (map key (place b n xs))"
    by (simp add: name_def key_def)
  then have "mset (map name (place b n xs)) = image_mset (\<lambda>(i, f, t). (i, f)) (mset (map key (place b n xs)))"
    by (simp only: mset_map)
  also have "\<dots> = mset (map name (n # xs))"
    unfolding mset_place by (simp add: key_def name_def [abs_def] image_mset.compositionality comp_def)
  finally have "mset (map name (place b n xs)) = mset (map name (n # xs))" .
  from mset_eq_imp_distinct_iff [OF this] assms show ?thesis by auto
qed

lemma insert_spec_keeps:
  assumes "timers_ok now xs" and "distinct (map name xs)" and "in_era (time n)"
  shows "timers_ok now (insert_spec now n xs)" and "distinct (map name (insert_spec now n xs))"
proof -
  let ?xs = "drop_first (repeats n) xs"
  have f: "?xs = filter (\<lambda>x. name x \<noteq> name n) xs" using drop_first_filter [OF assms(2)] .
  have "in_era (time y)" if "y \<in> set (place now n ?xs)" for y
  proof -
    have "key ` set (place now n ?xs) \<subseteq> key ` set (n # ?xs)" by (simp add: set_place)
    from in_key_times [OF this that] obtain z where "z \<in> set (n # ?xs)" "time z = time y" by blast
    with assms(1,3) show ?thesis by (auto simp: timers_ok_def f)
  qed
  moreover have "sorted (map time (place now n ?xs))"
    using assms(1) by (intro sorted_place) (simp add: timers_ok_def f sorted_filter)
  ultimately show "timers_ok now (insert_spec now n xs)"
    using assms(1) by (simp add: insert_spec_def timers_ok_def)
  show "distinct (map name (insert_spec now n xs))"
  proof (cases "time n < now")
    case False
    have "distinct (map name (place now n ?xs))"
    proof (rule distinct_place)
      show "distinct (map name ?xs)" unfolding f by (rule distinct_map_filter [OF assms(2)])
      show "\<forall>x \<in> set ?xs. name x \<noteq> name n" unfolding f by simp
    qed
    with False show ?thesis by (simp add: insert_spec_def)
  qed (simp add: insert_spec_def assms(2))
qed

text \<open>Setting a timer keeps the timers in order: afterwards the list is still linked, sorted by time and
  without two timers of the same port and kind; the new timer is in it; and the delays are right
  again if no timer was replaced.\<close>

theorem insert_keeps_timers:
  assumes "dll h None as None" and "distinct as" and "h pnew = Some n" and "pnew \<notin> set as"
    and "timers_ok now (infos h as)" and "distinct (map name (infos h as))" and "in_era (time n)"
    and "now \<le> time n"
  shows "\<exists>h' head' ys. insert_a_timer now h (first as None) pnew = Some (h', head') \<and> holds h' head' ys
    \<and> timers_ok now ys \<and> distinct (map name ys) \<and> key (timer_info.truncate n) \<in> key ` set ys
    \<and> (delays_ok (infos h as) \<and> name (timer_info.truncate n) \<notin> name ` set (infos h as) \<longrightarrow> delays_ok ys)"
proof -
  let ?xs = "infos h as" and ?n = "timer_info.truncate n"
  let ?ys = "insert_spec now ?n ?xs"
  have "\<forall>b \<in> set as. in_era (time (the (info h b)))" "in_era now"
    using assms(5) by (simp_all add: timers_ok_def infos_def)
  from insert_a_timer_list [OF assms(1-4) this(1) assms(7) this(2)] obtain r where
    r: "insert_a_timer now h (first as None) pnew = Some r" "refines (if time n < now then {pnew} else {}) h (pnew # as) r ?ys" by blast
  have "in_era (time ?n)" using assms(7) by simp
  note keeps = insert_spec_keeps [OF assms(5,6) this]
  show ?thesis
  proof (intro exI conjI impI)
    show "insert_a_timer now h (first as None) pnew = Some (fst r, snd r)" using r(1) by simp
    show "holds (fst r) (snd r) ?ys" by (rule refines_holds [OF r(2)])
    show "timers_ok now ?ys" "distinct (map name ?ys)" by (rule keeps)+
    show "key ?n \<in> key ` set ?ys"
      using assms(8) set_place [of now ?n "drop_first (repeats ?n) ?xs"] by (simp add: insert_spec_def)
    assume d: "delays_ok ?xs \<and> name ?n \<notin> name ` set ?xs"
    have "filter (\<lambda>x. name x \<noteq> name ?n) ?xs = ?xs" using d by (intro filter_True ballI notI) (metis image_eqI)
    with d drop_first_filter [OF assms(6), of ?n] show "delays_ok ?ys"
      by (simp add: insert_spec_def delays_place)
  qed
qed

text \<open>Replacing a timer makes its neighbour fire early: the delay of the timer behind a replaced one is
  not recomputed. If it was set for the same time as the replaced one, it then fires together with
  the timer before them, at an earlier time than its own.\<close>

theorem replaced_timer_fires_neighbour_early:
  assumes "dll h None as None" and "distinct as" and "h pnew = Some n" and "pnew \<notin> set as"
    and "infos h as = [a, b, c]" and "timers_ok now [a, b, c]" and "delays_ok [a, b, c]" and "in_era (time n)"
    and "now \<le> time a" and "time a < time b" and "time b = time c" and "time c < time n"
    and "repeats (timer_info.truncate n) b" and "\<not> repeats (timer_info.truncate n) a"
  shows "\<exists>h' head' h'' head''. insert_a_timer now h (first as None) pnew = Some (h', head')
    \<and> sig_func (time a) h' head' = Some (h'', head'', [timer_event a, timer_event c]) \<and> time a < time c"
proof -
  let ?n = "timer_info.truncate n"
  have "\<forall>b \<in> set as. in_era (time (the (info h b)))" "in_era now"
  proof -
    have "\<forall>x \<in> set (infos h as). in_era (time x)" "in_era now" using assms(5,6) by (simp_all add: timers_ok_def)
    then show "\<forall>b \<in> set as. in_era (time (the (info h b)))" "in_era now" by (simp_all add: infos_def)
  qed
  from insert_a_timer_list [OF assms(1-4) this(1) assms(8) this(2)] obtain r where
    r: "insert_a_timer now h (first as None) pnew = Some r"
    "refines (if time n < now then {pnew} else {}) h (pnew # as) r (insert_spec now ?n (infos h as))" by blast
  let ?ys = "[a, c, ?n\<lparr>elapse := time n - time c\<rparr>]"
  have ys: "insert_spec now ?n (infos h as) = ?ys"
    using assms(9-14) unfolding assms(5) by (simp add: insert_spec_def)
  have holds: "holds (fst r) (snd r) ?ys" using refines_holds [OF r(2)] unfolding ys .
  have ok: "timers_ok (time a) ?ys" using assms(6,8,10,11,12) by (auto simp: timers_ok_def)
  obtain h1 head1 h2 where 1: "set_elapse (time a) (fst r) (snd r) = Some h1"
    "late_loop (time a) h1 (snd r) = Some (h2, head1, map timer_event (takeWhile (\<lambda>y. time y < time a) ?ys))"
    "holds h2 head1 (now_at (time a) (dropWhile (\<lambda>y. time y < time a) ?ys))"
    using sig_func_split [OF holds ok] by blast
  then have "holds h2 head1 [a\<lparr>elapse := 0\<rparr>, c, ?n\<lparr>elapse := time n - time c\<rparr>]" by simp
  from due_loop_holds [OF this] obtain h3 head3 where
    2: "due_loop h2 head1 = Some (h3, head3, [timer_event a, timer_event c])"
    using assms(7,10,11,12) by auto
  obtain p where "snd r = Some p" by (rule holds_ConsE [OF holds])
  then have "sig_func (time a) (fst r) (snd r) = Some (h3, head3, [timer_event a, timer_event c])"
    using 1(1,2) 2 by (simp add: sig_func_def)
  with r(1) assms(10,11) show ?thesis
    by (intro exI [of _ "fst r"] exI [of _ "snd r"] exI [of _ h3] exI [of _ head3]) simp
qed

section \<open>Requests\<close>

text \<open>A port of the station as far as the timers use it.\<close>

record port_entry =
  dev_ip :: bytes
  port_type :: int

text \<open>The scan of the ports; it has no end of its own but a port of type 0.\<close>

fun set_timer_id :: "bytes \<Rightarrow> port_entry list \<Rightarrow> int \<Rightarrow> int option" where
  "set_timer_id ip [] i = None"
| "set_timer_id ip (p # ports) i =
     (if port_type p = 0 then Some (-1)
      else if ip = dev_ip p then Some i
      else set_timer_id ip ports (i + 1))"

record timer_message =
  msg_ip :: bytes
  msg_flag :: int
  msg_tm :: bytes

definition set_child_timer :: "(bytes \<Rightarrow> int) \<Rightarrow> int \<Rightarrow> store \<Rightarrow> addr option \<Rightarrow> addr \<Rightarrow> timer_message \<Rightarrow>
    port_entry list \<Rightarrow> (store \<times> addr option) option" where
  "set_child_timer mktime now h head pnew msg ports = do {
     i \<leftarrow> set_timer_id (msg_ip msg) ports 0;
     let n = \<lparr>timer_id = i, flag = msg_flag msg, elapse = 0, time = 0, pre = None, nxt = None\<rparr>;
     if i = -1 then Some (h(pnew \<mapsto> n), head)
     else insert_a_timer now (h(pnew \<mapsto> n\<lparr>time := mktime (msg_tm msg)\<rparr>)) head pnew }"

text \<open>A C string in a buffer.\<close>

definition cstring :: "bytes \<Rightarrow> nat \<Rightarrow> bytes option" where
  "cstring b p = (let s = drop p b in
     do { guard (0 \<in> set s); Some (takeWhile (\<lambda>c. c \<noteq> 0) s) })"

definition TIMER_MESSAGE :: "bytes \<Rightarrow> nat \<Rightarrow> timer_message option" where
  "TIMER_MESSAGE b p = do {
     ip \<leftarrow> cstring b p;
     f \<leftarrow> rd32 b (p + 16);
     tm \<leftarrow> rdn b (p + 24) 56;
     Some \<lparr>msg_ip = ip, msg_flag = sint f, msg_tm = tm\<rparr> }"

text \<open>The timers of a request; \<open>alloc\<close> gives the addresses of the new nodes.\<close>

fun parse_timers :: "(bytes \<Rightarrow> int) \<Rightarrow> int \<Rightarrow> bytes \<Rightarrow> nat \<Rightarrow> nat \<Rightarrow> (nat \<Rightarrow> addr) \<Rightarrow> port_entry list \<Rightarrow>
    store \<Rightarrow> addr option \<Rightarrow> (store \<times> addr option) option" where
  "parse_timers mktime now b i 0 alloc ports h head = Some (h, head)"
| "parse_timers mktime now b i (Suc k) alloc ports h head = do {
     msg \<leftarrow> TIMER_MESSAGE b (8 + 80 * i);
     (h, head) \<leftarrow> set_child_timer mktime now h head (alloc i) msg ports;
     parse_timers mktime now b (Suc i) k alloc ports h head }"

definition parse_timer_message :: "(bytes \<Rightarrow> int) \<Rightarrow> int \<Rightarrow> bytes \<Rightarrow> (nat \<Rightarrow> addr) \<Rightarrow> port_entry list \<Rightarrow>
    store \<Rightarrow> addr option \<Rightarrow> (store \<times> addr option) option" where
  "parse_timer_message mktime now b alloc ports h head = do {
     count \<leftarrow> rd32 b 4;
     parse_timers mktime now b 0 (nat (sint count)) alloc ports h head }"

lemma set_timer_id_correct:
  "set_timer_id ip ports i = Some j \<Longrightarrow> j = -1 \<or>
     (\<exists>k < length ports. j = i + int k \<and> dev_ip (ports ! k) = ip \<and> (\<forall>m \<le> k. port_type (ports ! m) \<noteq> 0))"
proof (induction ports arbitrary: i)
  case (Cons p ports)
  show ?case
  proof (cases "port_type p = 0 \<or> ip = dev_ip p")
    case True
    with Cons.prems show ?thesis by (auto split: if_splits intro!: exI [of _ 0])
  next
    case False
    with Cons.prems Cons.IH [of "i + 1"] consider "j = -1"
      | k where "k < length ports" "j = i + 1 + int k" "dev_ip (ports ! k) = ip" "\<forall>m \<le> k. port_type (ports ! m) \<noteq> 0"
      by auto
    then show ?thesis
    proof cases
      case 2
      with False show ?thesis
        by (intro disjI2 exI [of _ "Suc k"]) (auto simp: nth_Cons le_Suc_eq split: nat.splits)
    qed simp
  qed
qed simp

text \<open>No request ever sets a timer while the first port has type 0. The type of a port is only written
  by \<open>get_dest_ip\<close>, whose call in \<open>main\<close> is commented out, so this is the state the station runs in:
  whatever a request with any number of timers says, the list of timers stays as it is; only the
  nodes that were allocated for the timers leak.\<close>

theorem no_timer_is_ever_set:
  assumes "port_type (hd ports) = 0" and "ports \<noteq> []"
    and "parse_timer_message mktime now b alloc ports h head = Some (h', head')"
  shows "head' = head \<and> (\<forall>a. a \<notin> range alloc \<longrightarrow> h' a = h a)"
proof -
  have step: "set_timer_id ip ports 0 = Some (-1)" for ip
    using assms(1,2) by (cases ports) simp_all
  have "head' = head \<and> (\<forall>a. a \<notin> range alloc \<longrightarrow> h' a = h a)"
    if "parse_timers mktime now b i k alloc ports h head = Some (h', head')" for i k h
    using that by (induction k arbitrary: i h) (auto simp: set_child_timer_def step Let_def elim!: ub_elims)
  with assms(3) show ?thesis by (auto simp: parse_timer_message_def elim!: ub_elims)
qed

section \<open>Witnesses\<close>

lemma sample_holds: "holds sample_store (Some 1)
    [\<lparr>timer_id = 0, flag = 0, elapse = 5, time = 15\<rparr>, \<lparr>timer_id = 1, flag = 0, elapse = 10, time = 25\<rparr>]"
  unfolding holds_def using sample_infos by (intro exI [of _ "[1, 2]"]) simp

theorem sig_func_fires_due_timers_witness:
  "\<exists>h' head' ys. sig_func 15 sample_store (Some 1) = Some (h', head', [Launch 0])
    \<and> holds h' head' ys \<and> map key ys = [(1, 0, 25)] \<and> delays_ok ys"
  using sig_func_fires_due_timers [OF sample_holds, of 15]
  by (simp add: timers_ok_def in_era_def timer_event_def key_def)

theorem late_timers_crash_witness: "sig_func 30 sample_store (Some 1) = None"
  using late_timers_crash [OF sample_holds, of 30] by (simp add: timers_ok_def in_era_def)

theorem insert_keeps_timers_witness:
  "\<exists>h' head' ys. insert_a_timer 10 sample_store (Some 1) 3 = Some (h', head') \<and> holds h' head' ys
    \<and> timers_ok 10 ys"
proof -
  have n: "sample_store 3 = Some \<lparr>timer_id = 1, flag = 0, elapse = 0, time = 30, pre = None, nxt = None\<rparr>"
    by (simp add: sample_store_def)
  have "timers_ok 10 (infos sample_store [1, 2])" "distinct (map name (infos sample_store [1, 2]))" "in_era 30"
    unfolding sample_infos(2) by (simp_all add: timers_ok_def in_era_def name_def)
  with insert_keeps_timers [OF sample_infos(1) _ n, of 10] show ?thesis by auto
qed

definition three_timers :: store where
  "three_timers = [1 \<mapsto> \<lparr>timer_id = 0, flag = 0, elapse = 5, time = 15, pre = None, nxt = Some 2\<rparr>,
     2 \<mapsto> \<lparr>timer_id = 1, flag = 0, elapse = 10, time = 25, pre = Some 1, nxt = Some 4\<rparr>,
     4 \<mapsto> \<lparr>timer_id = 2, flag = 0, elapse = 0, time = 25, pre = Some 2, nxt = None\<rparr>,
     3 \<mapsto> \<lparr>timer_id = 1, flag = 0, elapse = 0, time = 30, pre = None, nxt = None\<rparr>]"

theorem replaced_timer_fires_neighbour_early_witness:
  "\<exists>h' head' h'' head''. insert_a_timer 10 three_timers (Some 1) 3 = Some (h', head')
    \<and> sig_func 15 h' head' = Some (h'', head'', [Launch 0, Launch 2])"
proof -
  let ?a = "\<lparr>timer_id = 0, flag = 0, elapse = 5, time = 15\<rparr>" and
    ?b = "\<lparr>timer_id = 1, flag = 0, elapse = 10, time = 25\<rparr>" and ?c = "\<lparr>timer_id = 2, flag = 0, elapse = 0, time = 25\<rparr>"
  have l: "dll three_timers None [1, 2, 4] None" "infos three_timers [1, 2, 4] = [?a, ?b, ?c]"
    by (simp_all add: three_timers_def info_def timer_info.truncate_def)
  have n: "three_timers 3 = Some \<lparr>timer_id = 1, flag = 0, elapse = 0, time = 30, pre = None, nxt = None\<rparr>"
    by (simp add: three_timers_def)
  have "timers_ok 10 [?a, ?b, ?c]" "delays_ok [?a, ?b, ?c]" by (simp_all add: timers_ok_def in_era_def)
  from replaced_timer_fires_neighbour_early [OF l(1) _ n _ l(2) this]
  show ?thesis by (simp add: in_era_def repeats_def timer_event_def timer_info.truncate_def)
qed

theorem no_timer_is_ever_set_witness:
  "\<exists>h'. parse_timer_message (\<lambda>_. 30) 10 (le_bytes 4 (1 :: u32) @ le_bytes 4 (1 :: u32) @ replicate 80 0) (\<lambda>i. 7 + i)
      [\<lparr>dev_ip = [], port_type = 0\<rparr>] Map.empty None = Some (h', None)"
proof -
  let ?b = "le_bytes 4 (1 :: u32) @ le_bytes 4 (1 :: u32) @ replicate 80 0"
  let ?run = "parse_timer_message (\<lambda>_. 30) 10 ?b (\<lambda>i. 7 + i) [\<lparr>dev_ip = [], port_type = 0\<rparr>] Map.empty None"
  have "case ?run of None \<Rightarrow> False | Some _ \<Rightarrow> True" by code_simp
  then have "?run \<noteq> None" by (auto split: option.splits)
  then obtain h' head' where r: "?run = Some (h', head')" by (cases ?run) auto
  from no_timer_is_ever_set [OF _ _ this] have "head' = None" by simp
  with r show ?thesis by blast
qed

end
