(* ===== verification/Timer_Sender.thy ===== *)
theory Timer_Sender
  imports Station_Timers Wire_Records C_Text
begin

text \<open>
  The manager's side of the timers, \<open>local_sender.c\<close>: \<open>get_timer_message\<close> reads the file \<open>timer.lst\<close>,
  \<open>main\<close> sends what it reads as one datagram to the station. \<open>scan_number\<close> is the loop that reads a
  number up to a separator, of which both \<open>local_sender.c\<close> and \<open>local_inform.c\<close> have six copies.

  A C string in a buffer is the list of the characters of the whole buffer, with a zero after the
  string. The content of the buffer before the first line is an argument.
\<close>

section \<open>Numbers\<close>

definition in_int :: "int \<Rightarrow> bool" where
  "in_int n \<longleftrightarrow> - (2 ^ 31) \<le> n \<and> n < 2 ^ 31"

definition next_num :: "int \<Rightarrow> char \<Rightarrow> int option" where
  "next_num num c = do {
     guard (in_int (num * 10));
     guard (in_int (num * 10 + char_int c));
     guard (in_int (num * 10 + char_int c - 48));
     Some (num * 10 + char_int c - 48) }"

function scan_number :: "char \<Rightarrow> string \<Rightarrow> nat \<Rightarrow> int \<Rightarrow> (int \<times> nat) option" where
  "scan_number stop str i num =
     (if length str \<le> i then None
      else if str ! i = stop then Some (num, i)
      else do { num \<leftarrow> next_num num (str ! i); scan_number stop str (i + 1) num })"
  by pat_completeness auto
termination by (relation "measure (\<lambda>(_, str, i, _). length str - i)") auto

declare scan_number.simps [simp del]

section \<open>A line\<close>

text \<open>The part of a \<open>TIMER_MESSAGE\<close> that is set.\<close>

record sent_timer =
  snd_ip :: string
  snd_flag :: int
  tm_sec :: int
  tm_min :: int
  tm_hour :: int
  tm_mday :: int
  tm_mon :: int
  tm_year :: int

text \<open>The address is stored from the place \<open>i - 2\<close> on.\<close>

function scan_ip :: "string \<Rightarrow> nat \<Rightarrow> string \<Rightarrow> (string \<times> nat) option" where
  "scan_ip str i ip =
     (if length str \<le> i \<or> i < 2 \<or> length ip \<le> i - 2 then None
      else if str ! i = CHR '' '' then Some (ip[i - 2 := NUL], i)
      else scan_ip str (i + 1) (ip[i - 2 := str ! i]))"
  by pat_completeness auto
termination by (relation "measure (\<lambda>(str, i, _). length str - i)") auto

declare scan_ip.simps [simp del]

function scan_seconds :: "nat \<Rightarrow> string \<Rightarrow> nat \<Rightarrow> int \<Rightarrow> int option" where
  "scan_seconds len str i num =
     (if length str \<le> i then None
      else if str ! i = NL then Some num
      else do {
        num \<leftarrow> next_num num (str ! i);
        if len \<le> i + 1 then Some num else scan_seconds len str (i + 1) num })"
  by pat_completeness auto
termination by (relation "measure (\<lambda>(_, str, i, _). length str - i)") auto

declare scan_seconds.simps [simp del]

definition strlen :: "string \<Rightarrow> nat option" where
  "strlen s = do { guard (NUL \<in> set s); Some (length (takeWhile (\<lambda>c. c \<noteq> NUL) s)) }"

definition read_timer :: "string \<Rightarrow> sent_timer option" where
  "read_timer str = do {
     len \<leftarrow> strlen str;
     (f, i) \<leftarrow> scan_number (CHR '' '') str 0 0;
     (ip, i) \<leftarrow> scan_ip str (i + 1) (replicate 16 NUL);
     (year, i) \<leftarrow> scan_number (CHR ''/'') str (i + 1) 0;
     (mon, i) \<leftarrow> scan_number (CHR ''/'') str (i + 1) 0;
     (mday, i) \<leftarrow> scan_number (CHR '','') str (i + 1) 0;
     (hour, i) \<leftarrow> scan_number (CHR '':'') str (i + 1) 0;
     (mi, i) \<leftarrow> scan_number (CHR '':'') str (i + 1) 0;
     s \<leftarrow> scan_seconds len str (i + 1) 0;
     guard (in_int (year - 1900));
     guard (in_int (mon - 1));
     Some \<lparr>snd_ip = ip, snd_flag = f, tm_sec = s, tm_min = mi, tm_hour = hour, tm_mday = mday, tm_mon = mon - 1,
       tm_year = year - 1900\<rparr> }"

section \<open>The file\<close>

function get_timer_loop :: "string \<Rightarrow> string \<Rightarrow> nat \<Rightarrow> sent_timer list option" where
  "get_timer_loop f str j =
     (let (str, f) = fgets 1024 f str in
      if 64 \<le> j then None
      else do {
        t \<leftarrow> read_timer str;
        if f = [] then Some [t]
        else do { ts \<leftarrow> get_timer_loop f str (j + 1); Some (t # ts) } })"
  by pat_completeness auto
termination by (relation "measure (\<lambda>(_, _, j). 64 - j)") auto

declare get_timer_loop.simps [simp del]

definition get_timer_message :: "string \<Rightarrow> string \<Rightarrow> sent_timer list option" where
  "get_timer_message f str = get_timer_loop f str 0"

section \<open>The datagram\<close>

definition of_int32 :: "int \<Rightarrow> bytes" where
  "of_int32 n = le_bytes 4 (word_of_int n :: u32)"

definition timer_bytes :: "sent_timer \<Rightarrow> bytes" where
  "timer_bytes t = map of_char (snd_ip t) @ of_int32 (snd_flag t) @ replicate 4 0
     @ of_int32 (tm_sec t) @ of_int32 (tm_min t) @ of_int32 (tm_hour t)
     @ of_int32 (tm_mday t) @ of_int32 (tm_mon t) @ of_int32 (tm_year t) @ replicate 32 0"

text \<open>\<open>main\<close>: the length it sends leaves out the four bytes of the count.\<close>

definition sender_main :: "string \<Rightarrow> string \<Rightarrow> bytes option" where
  "sender_main f str = do {
     ts \<leftarrow> get_timer_message f str;
     let send_buf = of_int32 1 @ of_int32 (int (length ts)) @ concat (map timer_bytes ts)
       @ replicate (80 * (64 - length ts)) 0;
     Some (take (4 + 80 * length ts) send_buf) }"

section \<open>Scanning\<close>

lemma char_int_digit: "d < 10 \<Longrightarrow> char_int (digit_char d) = 48 + int d"
  by (simp add: char_int_def digit_char_def code_def)

lemma next_num_digit:
  "0 \<le> num \<Longrightarrow> d < 10 \<Longrightarrow> num * 10 + int d < 2147483600 \<Longrightarrow> next_num num (digit_char d) = Some (num * 10 + int d)"
  by (simp add: next_num_def in_int_def char_int_digit)

lemma digits_mono: "acc \<le> fst (digits 10 ds acc)"
proof (induction ds arbitrary: acc)
  case (Cons d ds)
  have "acc \<le> acc * 10 + digit_val d" by simp
  also have "\<dots> \<le> fst (digits 10 ds (acc * 10 + digit_val d))" by (rule Cons.IH)
  finally show ?case by simp
qed simp

lemma scan_digits:
  "drop i str = map digit_char ds @ stop # suf \<Longrightarrow> \<forall>d \<in> set ds. d < 10 \<and> digit_char d \<noteq> stop \<Longrightarrow>
   n = fst (digits 10 (map digit_char ds) acc) \<Longrightarrow> n < 2147483600 \<Longrightarrow>
   scan_number stop str i (int acc) = Some (int n, i + length ds) \<and> drop (i + length ds + 1) str = suf"
proof (induction ds arbitrary: i acc)
  case Nil
  then show ?case using drop_split [of i str stop suf] by (simp add: scan_number.simps)
next
  case (Cons d ds)
  have i: "i < length str" "str ! i = digit_char d" "drop (i + 1) str = map digit_char ds @ stop # suf"
    using drop_split [of i str] Cons.prems(1) by auto
  have d: "d < 10" "digit_char d \<noteq> stop" using Cons.prems(2) by auto
  let ?acc = "acc * 10 + d"
  have n: "n = fst (digits 10 (map digit_char ds) ?acc)"
    using Cons.prems(3) d by (simp add: digit_val_char)
  then have "int ?acc < 2147483600" using digits_mono [of ?acc "map digit_char ds"] Cons.prems(4) by linarith
  then have "next_num (int acc) (str ! i) = Some (int ?acc)"
    using next_num_digit [of "int acc" d] d i(2) by simp
  moreover have "scan_number stop str (i + 1) (int ?acc) = Some (int n, i + 1 + length ds)
      \<and> drop (i + 1 + length ds + 1) str = suf"
    using Cons.IH [of "i + 1" ?acc] i(3) Cons.prems(2,4) n by simp
  ultimately show ?case using i d by (subst scan_number.simps) (simp add: add.assoc [symmetric])
qed

definition separator :: "char \<Rightarrow> bool" where
  "separator c \<longleftrightarrow> c \<in> {CHR '' '', CHR ''/'', CHR '','', CHR '':'', NUL, NL}"

lemma digit_not_separator: "d < 10 \<Longrightarrow> \<not> separator (digit_char d)"
  by (cases "d \<in> set [0..<10]") (auto simp: upt_rec separator_def digit_char_def char_of_def)

lemma scan_numeral:
  assumes "drop i str = numeral_of 10 n @ stop # suf" and "separator stop" and "n < 2147483600"
  shows "scan_number stop str i 0 = Some (int n, i + length (numeral_of 10 n))"
    and "drop (i + length (numeral_of 10 n) + 1) str = suf"
proof -
  obtain ds where ds: "numeral_of 10 n = map digit_char ds" "\<forall>d \<in> set ds. d < 10"
    using numeral_as_digits by blast
  have "n = fst (digits 10 (map digit_char ds) 0)" using digits_numeral [of 10 n] unfolding ds(1) by simp
  moreover have "\<forall>d \<in> set ds. d < 10 \<and> digit_char d \<noteq> stop" using ds(2) assms(2) digit_not_separator by blast
  ultimately have "scan_number stop str i (int 0) = Some (int n, i + length ds) \<and> drop (i + length ds + 1) str = suf"
    using assms(1,3) unfolding ds(1) by (intro scan_digits) simp_all
  then show "scan_number stop str i 0 = Some (int n, i + length (numeral_of 10 n))"
    and "drop (i + length (numeral_of 10 n) + 1) str = suf"
    unfolding ds(1) by simp_all
qed


lemma scan_numeral_ex:
  assumes "drop i str = numeral_of 10 n @ stop # suf" and "separator stop" and "n < 2147483600"
  shows "\<exists>k. scan_number stop str i 0 = Some (int n, k) \<and> drop (k + 1) str = suf"
  using scan_numeral [OF assms] by blast

lemma scan_ip_chars:
  "drop i str = cs @ CHR '' '' # suf \<Longrightarrow> CHR '' '' \<notin> set cs \<Longrightarrow> 2 \<le> i \<Longrightarrow> i - 2 + length cs < length dest \<Longrightarrow>
   scan_ip str i dest = Some (take (i - 2) dest @ cs @ NUL # drop (i - 1 + length cs) dest, i + length cs)
   \<and> drop (i + length cs + 1) str = suf"
proof (induction cs arbitrary: i dest)
  case Nil
  then show ?case using drop_split [of i str]
    by (subst scan_ip.simps) (auto simp: upd_conv_take_nth_drop Suc_diff_Suc numeral_2_eq_2)
next
  case (Cons c cs)
  have i: "i < length str" "str ! i = c" "drop (i + 1) str = cs @ CHR '' '' # suf"
    using drop_split [of i str] Cons.prems(1) by auto
  let ?dest = "dest[i - 2 := c]"
  have n: "i + 1 - 2 = Suc (i - 2)" using Cons.prems(3) by simp
  have "scan_ip str (i + 1) ?dest = Some (take (i + 1 - 2) ?dest @ cs @ NUL # drop (i + 1 - 1 + length cs) ?dest, i + 1 + length cs)
      \<and> drop (i + 1 + length cs + 1) str = suf"
    using Cons.prems by (intro Cons.IH i(3)) auto
  moreover have "take (i + 1 - 2) ?dest = take (i - 2) dest @ [c]"
    unfolding n using Cons.prems(4) by (simp add: take_Suc_conv_app_nth)
  moreover have "drop (i + 1 - 1 + length cs) ?dest = drop (i - 1 + length (c # cs)) dest"
    using Cons.prems(3) by (simp add: drop_update_cancel)
  moreover have "\<not> length dest \<le> i - 2" using Cons.prems(4) by simp
  ultimately show ?case using i Cons.prems(2,3) by (subst scan_ip.simps) auto
qed

lemma scan_seconds_digits:
  "drop i str = map digit_char ds @ c # suf \<Longrightarrow> \<forall>d \<in> set ds. d < 10 \<Longrightarrow>
   c = NL \<and> i + length ds < len \<or> ds \<noteq> [] \<and> len = i + length ds \<Longrightarrow>
   n = fst (digits 10 (map digit_char ds) acc) \<Longrightarrow> n < 2147483600 \<Longrightarrow>
   scan_seconds len str i (int acc) = Some (int n)"
proof (induction ds arbitrary: i acc)
  case Nil
  then show ?case using drop_split [of i str] by (simp add: scan_seconds.simps)
next
  case (Cons d ds)
  have i: "i < length str" "str ! i = digit_char d" "drop (i + 1) str = map digit_char ds @ c # suf"
    using drop_split [of i str] Cons.prems(1) by auto
  have d: "d < 10" "digit_char d \<noteq> NL"
    using Cons.prems(2) digit_not_separator [of d] by (auto simp: separator_def)
  let ?acc = "acc * 10 + d"
  have n: "n = fst (digits 10 (map digit_char ds) ?acc)"
    using Cons.prems(4) d by (simp add: digit_val_char)
  then have "int ?acc < 2147483600" using digits_mono [of ?acc "map digit_char ds"] Cons.prems(5) by linarith
  then have next_d: "next_num (int acc) (str ! i) = Some (int ?acc)"
    using next_num_digit [of "int acc" d] d i(2) by simp
  show ?case
  proof (cases "len \<le> i + 1")
    case True
    with Cons.prems(3) have "ds = []" by auto
    with True next_d i d n show ?thesis by (subst scan_seconds.simps) simp
  next
    case False
    then have "scan_seconds len str (i + 1) (int ?acc) = Some (int n)"
      using Cons.prems n by (intro Cons.IH i(3)) auto
    with False next_d i d show ?thesis by (subst scan_seconds.simps) simp
  qed
qed

lemma scan_seconds_numeral:
  assumes "drop i str = numeral_of 10 n @ c # suf" and "n < 2147483600"
    and "c = NL \<and> i + length (numeral_of 10 n) < len \<or> len = i + length (numeral_of 10 n)"
  shows "scan_seconds len str i 0 = Some (int n)"
proof -
  obtain ds where ds: "numeral_of 10 n = map digit_char ds" "\<forall>d \<in> set ds. d < 10"
    using numeral_as_digits by blast
  moreover have "ds \<noteq> []" using ds(1) by (metis list.map_disc_iff numeral_nonempty(1))
  moreover have "n = fst (digits 10 (map digit_char ds) 0)" using digits_numeral [of 10 n] unfolding ds(1) by simp
  ultimately have "scan_seconds len str i (int 0) = Some (int n)"
    using assms unfolding ds(1) by (intro scan_seconds_digits) auto
  then show ?thesis by simp
qed

section \<open>The text of a timer\<close>

record timer_entry =
  e_flag :: nat
  e_ip :: string
  e_year :: nat
  e_mon :: nat
  e_mday :: nat
  e_hour :: nat
  e_min :: nat
  e_sec :: nat

definition timer_line :: "timer_entry \<Rightarrow> string" where
  "timer_line e = numeral_of 10 (e_flag e) @ CHR '' '' # e_ip e @ CHR '' '' # numeral_of 10 (e_year e)
     @ CHR ''/'' # numeral_of 10 (e_mon e) @ CHR ''/'' # numeral_of 10 (e_mday e)
     @ CHR '','' # numeral_of 10 (e_hour e) @ CHR '':'' # numeral_of 10 (e_min e)
     @ CHR '':'' # numeral_of 10 (e_sec e)"

fun timer_text :: "bool \<Rightarrow> timer_entry list \<Rightarrow> string" where
  "timer_text nl [] = []"
| "timer_text nl [e] = timer_line e @ (if nl then [NL] else [])"
| "timer_text nl (e # es) = timer_line e @ NL # timer_text nl es"

definition entry_ok :: "timer_entry \<Rightarrow> bool" where
  "entry_ok e \<longleftrightarrow> e_flag e < 10 \<and> length (e_ip e) \<le> 15 \<and> set (e_ip e) \<inter> {CHR '' '', NUL, NL} = {}
     \<and> (\<forall>n \<in> {e_year e, e_mon e, e_mday e, e_hour e, e_min e, e_sec e}. n < 2147483600)"

definition sent_of :: "timer_entry \<Rightarrow> sent_timer" where
  "sent_of e = \<lparr>snd_ip = e_ip e @ replicate (16 - length (e_ip e)) NUL, snd_flag = int (e_flag e),
     tm_sec = int (e_sec e), tm_min = int (e_min e), tm_hour = int (e_hour e), tm_mday = int (e_mday e),
     tm_mon = int (e_mon e) - 1, tm_year = int (e_year e) - 1900\<rparr>"

lemma numeral_not_separator: "c \<in> set (numeral_of 10 n) \<Longrightarrow> \<not> separator c"
  using numeral_as_digits [of n] digit_not_separator by auto

lemma numeral_no_separator [simp]: "NUL \<notin> set (numeral_of 10 n)" "NL \<notin> set (numeral_of 10 n)"
  using numeral_not_separator [of _ n] by (auto simp: separator_def)

lemma timer_line_plain: "entry_ok e \<Longrightarrow> NUL \<notin> set (timer_line e) \<and> NL \<notin> set (timer_line e)"
  by (auto simp: timer_line_def entry_ok_def)

lemma timer_line_length:
  assumes "entry_ok e"
  shows "length (timer_line e) \<le> 83"
proof -
  have *: "length (numeral_of 10 n) \<le> 10" if "n < 2147483600" for n
    using numeral_length [of n 10] that by simp
  have "length (numeral_of 10 (e_flag e)) = 1" using assms by (simp add: entry_ok_def numeral_digit)
  then show ?thesis
    using assms * [of "e_year e"] * [of "e_mon e"] * [of "e_mday e"] * [of "e_hour e"] * [of "e_min e"] * [of "e_sec e"]
    by (simp add: timer_line_def entry_ok_def)
qed

lemma strlen_text: "NUL \<notin> set cs \<Longrightarrow> strlen (cs @ NUL # junk) = Some (length cs)"
proof -
  assume "NUL \<notin> set cs"
  then have "takeWhile (\<lambda>c. c \<noteq> NUL) (cs @ NUL # junk) = cs" by (subst takeWhile_append2) auto
  then show ?thesis by (simp add: strlen_def)
qed

lemma read_timer_line:
  assumes "entry_ok e" and "str = timer_line e @ suf" and "\<exists>junk. suf = NL # NUL # junk \<or> suf = NUL # junk"
  shows "read_timer str = Some (sent_of e)"
proof -
  note ok = assms(1) [unfolded entry_ok_def]
  note line = assms(2) [unfolded timer_line_def append_assoc append_Cons]
  have flag: "length (numeral_of 10 (e_flag e)) = 1" using ok by (simp add: numeral_digit)
  have "drop 0 str = numeral_of 10 (e_flag e) @ CHR '' '' # drop 2 str" using line flag by simp
  from scan_numeral [OF this] ok flag have 1: "scan_number (CHR '' '') str 0 0 = Some (int (e_flag e), 1)"
    by (simp add: separator_def)
  obtain s1 where s1: "drop 2 str = e_ip e @ CHR '' '' # numeral_of 10 (e_year e) @ CHR ''/'' # s1"
    and s1_def: "s1 = numeral_of 10 (e_mon e) @ CHR ''/'' # numeral_of 10 (e_mday e)
      @ CHR '','' # numeral_of 10 (e_hour e) @ CHR '':'' # numeral_of 10 (e_min e)
      @ CHR '':'' # numeral_of 10 (e_sec e) @ suf"
    using line flag by simp
  obtain i2 where 2: "scan_ip str 2 (replicate 16 NUL) = Some (snd_ip (sent_of e), i2)"
    "drop (i2 + 1) str = numeral_of 10 (e_year e) @ CHR ''/'' # s1"
    using scan_ip_chars [OF s1, of "replicate 16 NUL"] ok
    by (auto simp: sent_of_def Suc_diff_le replicate_Suc [symmetric] simp del: replicate_Suc)
  obtain i3 where 3: "scan_number (CHR ''/'') str (i2 + 1) 0 = Some (int (e_year e), i3)" "drop (i3 + 1) str = s1"
    using scan_numeral_ex [OF 2(2)] ok by (auto simp: separator_def)
  from scan_numeral_ex [OF 3(2) [unfolded s1_def]] ok obtain i4 where
    4: "scan_number (CHR ''/'') str (i3 + 1) 0 = Some (int (e_mon e), i4)"
    "drop (i4 + 1) str = numeral_of 10 (e_mday e) @ CHR '','' # numeral_of 10 (e_hour e)
       @ CHR '':'' # numeral_of 10 (e_min e) @ CHR '':'' # numeral_of 10 (e_sec e) @ suf"
    by (auto simp: separator_def)
  from scan_numeral_ex [OF 4(2)] ok obtain i5 where
    5: "scan_number (CHR '','') str (i4 + 1) 0 = Some (int (e_mday e), i5)"
    "drop (i5 + 1) str = numeral_of 10 (e_hour e) @ CHR '':'' # numeral_of 10 (e_min e) @ CHR '':'' # numeral_of 10 (e_sec e) @ suf"
    by (auto simp: separator_def)
  from scan_numeral_ex [OF 5(2)] ok obtain i6 where
    6: "scan_number (CHR '':'') str (i5 + 1) 0 = Some (int (e_hour e), i6)"
    "drop (i6 + 1) str = numeral_of 10 (e_min e) @ CHR '':'' # numeral_of 10 (e_sec e) @ suf"
    by (auto simp: separator_def)
  from scan_numeral_ex [OF 6(2)] ok obtain i7 where
    7: "scan_number (CHR '':'') str (i6 + 1) 0 = Some (int (e_min e), i7)"
    "drop (i7 + 1) str = numeral_of 10 (e_sec e) @ suf"
    by (auto simp: separator_def)
  have nz: "NUL \<notin> set (timer_line e)" using timer_line_plain [OF assms(1)] by simp
  have len: "length str = i7 + 1 + length (numeral_of 10 (e_sec e)) + length suf"
  proof -
    have "drop (i7 + 1) str \<noteq> []" using 7(2) by simp
    then have "i7 + 1 < length str" by simp
    with arg_cong [OF 7(2), of length] show ?thesis by simp
  qed
  have "\<exists>n. strlen str = Some n \<and> scan_seconds n str (i7 + 1) 0 = Some (int (e_sec e))"
    using assms(3)
  proof (elim exE disjE)
    fix junk
    assume s: "suf = NL # NUL # junk"
    have "strlen str = Some (length (timer_line e) + 1)"
      using nz strlen_text [of "timer_line e @ [NL]" junk] by (simp add: assms(2) s)
    moreover have "i7 + 1 + length (numeral_of 10 (e_sec e)) < length (timer_line e) + 1"
      using len by (simp add: assms(2))
    ultimately show ?thesis using scan_seconds_numeral [OF 7(2) [unfolded s]] ok by simp
  next
    fix junk
    assume s: "suf = NUL # junk"
    have "strlen str = Some (length (timer_line e))"
      using nz by (simp add: strlen_text assms(2) s)
    moreover have "length (timer_line e) = i7 + 1 + length (numeral_of 10 (e_sec e))"
      using len by (simp add: assms(2))
    ultimately show ?thesis using scan_seconds_numeral [OF 7(2) [unfolded s]] ok by simp
  qed
  then obtain n where "strlen str = Some n" "scan_seconds n str (i7 + 1) 0 = Some (int (e_sec e))" by blast
  moreover have "in_int (int (e_year e) - 1900)" "in_int (int (e_mon e) - 1)"
    using ok by (simp_all add: in_int_def)
  ultimately show ?thesis
    using 1 2(1) 3(1) 4(1) 5(1) 6(1) 7(1) by (simp add: read_timer_def sent_of_def numeral_2_eq_2)
qed


section \<open>The file of timers\<close>

lemma timer_text_Cons: "es \<noteq> [] \<Longrightarrow> timer_text nl (e # es) = timer_line e @ NL # timer_text nl es"
  by (cases es) auto

lemma timer_line_nonempty [simp]: "timer_line e \<noteq> []"
  by (simp add: timer_line_def)

lemma get_timer_loop_text:
  "es \<noteq> [] \<Longrightarrow> \<forall>e \<in> set es. entry_ok e \<Longrightarrow> j + length es \<le> 64 \<Longrightarrow>
   get_timer_loop (timer_text nl es) str j = Some (map sent_of es)"
proof (induction es arbitrary: str j)
  case (Cons e es)
  have e: "entry_ok e" "NL \<notin> set (timer_line e)" "length (timer_line e) \<le> 1000"
    using Cons.prems(2) timer_line_plain [of e] timer_line_length [of e] by auto
  have "length (timer_line e) + 1 < 1024" using e(3) by simp
  note line = fgets_line_text [OF e(2) this]
  show ?case
  proof (cases "es = []")
    case True
    let ?l = "timer_line e @ (if nl then [NL] else [])"
    let ?str = "?l @ NUL # drop (length ?l + 1) str"
    have "fgets 1024 (timer_text nl [e]) str = (?str, [])"
      using line by (simp add: fgets_def Let_def)
    moreover have "read_timer ?str = Some (sent_of e)"
      by (cases nl) (auto intro!: read_timer_line [OF e(1) refl])
    ultimately show ?thesis
      using True Cons.prems(3) by (subst get_timer_loop.simps) simp
  next
    case False
    let ?str = "timer_line e @ NL # NUL # drop (length (timer_line e) + 2) str"
    have "fgets 1024 (timer_text nl (e # es)) str = (?str, timer_text nl es)"
      using line(1) False by (simp add: fgets_def Let_def timer_text_Cons)
    moreover have "read_timer ?str = Some (sent_of e)"
      by (rule read_timer_line [OF e(1) refl]) auto
    moreover have "timer_text nl es \<noteq> []" using False by (cases es; cases "tl es") auto
    moreover have "get_timer_loop (timer_text nl es) ?str (j + 1) = Some (map sent_of es)"
      using Cons.prems(2,3) by (intro Cons.IH False) auto
    ultimately show ?thesis using Cons.prems(3) by (subst get_timer_loop.simps) simp
  qed
qed simp

section \<open>From the file to the station\<close>

definition timer_ok :: "sent_timer \<Rightarrow> bool" where
  "timer_ok t \<longleftrightarrow> length (snd_ip t) = 16"

lemma length_of_int32 [simp]: "length (of_int32 n) = 4"
  by (simp add: of_int32_def)

interpretation timer_records: wire_records timer_bytes timer_ok 80
  by unfold_locales (simp add: timer_bytes_def timer_ok_def)

lemma sent_of_ok [simp]: "entry_ok e \<Longrightarrow> timer_ok (sent_of e)"
  by (simp add: timer_ok_def sent_of_def entry_ok_def)

lemma sender_main_text:
  assumes "es \<noteq> []" and "\<forall>e \<in> set es. entry_ok e" and "length es \<le> 64"
  shows "sender_main (timer_text nl es) str = Some (take (4 + 80 * length es)
    (of_int32 1 @ of_int32 (int (length es)) @ concat (map timer_bytes (map sent_of es))))"
proof -
  have "length (concat (map timer_bytes (map sent_of es))) = 80 * length (map sent_of es)"
    using assms(2) by (intro timer_records.length_all) auto
  then show ?thesis
    using assms by (simp add: sender_main_def get_timer_message_def get_timer_loop_text)
qed

lemma un_of_int32: "un_le (of_int32 n) = (word_of_int n :: u32)"
  by (simp add: of_int32_def)

lemma sint_int: "in_int n \<Longrightarrow> sint (word_of_int n :: u32) = n"
  by (simp add: in_int_def sint_sbintrunc' signed_take_bit_int_eq_self)


lemma of_char_zero: "(of_char c :: u8) = 0 \<longleftrightarrow> c = NUL"
proof -
  have "(of_char c :: u8) = word_of_nat (of_char c)" by (simp only: of_nat_of_char)
  moreover have "(of_char c :: nat) < 256" by simp
  ultimately have "(of_char c :: u8) = 0 \<longleftrightarrow> (of_char c :: nat) = 0"
    using nat_dvd_not_less [of "of_char c" 256] by (cases "of_char c = (0 :: nat)") (simp_all add: word_of_nat_eq_0_iff)
  also have "\<dots> \<longleftrightarrow> (of_char c :: nat) = of_char NUL" by simp
  also have "\<dots> \<longleftrightarrow> c = NUL" by (rule of_char_eq_iff)
  finally show ?thesis .
qed

lemma cstring_slice:
  assumes "slice b p n = xs @ 0 # ys" and "0 \<notin> set xs"
  shows "cstring b p = Some xs"
proof -
  have "drop p b = slice b p n @ drop n (drop p b)" by (simp only: slice_def append_take_drop_id)
  then obtain zs where "drop p b = slice b p n @ zs" by blast
  then have "drop p b = xs @ 0 # ys @ zs" by (simp add: assms(1))
  moreover have "takeWhile (\<lambda>c. c \<noteq> 0) (xs @ 0 # zs) = xs" for zs
    using assms(2) by (subst takeWhile_append2) auto
  ultimately show ?thesis by (simp add: cstring_def)
qed

definition timer_request :: "timer_entry list \<Rightarrow> bytes" where
  "timer_request es = take (4 + 80 * length es)
    (of_int32 1 @ of_int32 (int (length es)) @ concat (map timer_bytes (map sent_of es)))"

lemma length_timer_request:
  assumes "\<forall>e \<in> set es. entry_ok e"
  shows "length (timer_request es) = 4 + 80 * length es"
proof -
  have "length (concat (map timer_bytes (map sent_of es))) = 80 * length (map sent_of es)"
    using assms by (intro timer_records.length_all) auto
  then show ?thesis by (simp add: timer_request_def)
qed

lemma request_slice:
  assumes "\<forall>e \<in> set es. entry_ok e" and "p + m \<le> 4 + 80 * length es" and "p + m \<le> length buf"
  shows "slice (recvfrom buf (timer_request es)) p m
    = slice ((of_int32 1 @ of_int32 (int (length es))) @ concat (map timer_bytes (map sent_of es)) @ []) p m"
proof -
  have "slice (recvfrom buf (timer_request es)) p m = slice (timer_request es) p m"
    using assms length_timer_request [OF assms(1)] by (intro slice_recvfrom) simp_all
  also have "\<dots> = slice (of_int32 1 @ of_int32 (int (length es)) @ concat (map timer_bytes (map sent_of es))) p m"
    unfolding timer_request_def by (rule slice_take [OF assms(2)])
  finally show ?thesis by simp
qed

lemma request_field:
  assumes "\<forall>e \<in> set es. entry_ok e" and "j < length es" and "k + m \<le> 76" and "8 + 80 * j + k + m \<le> length buf"
  shows "slice (recvfrom buf (timer_request es)) (8 + 80 * j + k) m = slice (timer_bytes (sent_of (es ! j))) k m"
proof -
  have "8 + 80 * j + k + m \<le> 4 + 80 * length es" using assms(2,3) by linarith
  then have "slice (recvfrom buf (timer_request es)) (8 + 80 * j + k) m = slice ((of_int32 1 @ of_int32 (int (length es)))
      @ concat (map timer_bytes (map sent_of es)) @ []) (8 + 80 * j + k) m"
    using assms by (intro request_slice) auto
  also have "\<dots> = slice (timer_bytes (map sent_of es ! j)) k m"
    using assms by (intro timer_records.field_after_header) auto
  finally show ?thesis using assms(2) by simp
qed

lemma request_header:
  assumes "\<forall>e \<in> set es. entry_ok e" and "es \<noteq> []" and "8 \<le> length buf"
  shows "rd32 (recvfrom buf (timer_request es)) 0 = Some 1"
    and "rd32 (recvfrom buf (timer_request es)) 4 = Some (word_of_nat (length es))"
proof -
  have "8 \<le> 4 + 80 * length es" using assms(2) by (cases es) auto
  then have "slice (recvfrom buf (timer_request es)) 0 4 = of_int32 1"
    "slice (recvfrom buf (timer_request es)) 4 4 = of_int32 (int (length es))"
    using assms by (simp_all add: request_slice slice_append slice_full)
  then show "rd32 (recvfrom buf (timer_request es)) 0 = Some 1"
    and "rd32 (recvfrom buf (timer_request es)) 4 = Some (word_of_nat (length es))"
    using assms(3) by (simp_all add: rd32_def rdn_slice un_of_int32)
qed

text \<open>C16: The timers of the file reach the station, within the bounds of the reader. Suppose \<open>timer.lst\<close> holds one
  to twelve lines of the form flag, blank, address, blank, year/month/day,hour:minute:second, with or without a newline at
  its end, where the flag is a single digit, the address has at most 15 characters and none of them is a blank, a newline or a
  zero, and each of the six numbers of the time is below 2147483600. Then whatever the receive buffer of the
  station held, the datagram that the manager sends is found there as a request of type 1 with the number of
  lines, and the message at the place of line \<open>j\<close> has the address, the flag and the broken-down time of that line, with the
  year counted from 1900 and the month from 0, although the datagram lacks its last four bytes. The bounds are
  those of the code: character \<open>i\<close> of the line is stored at place \<open>i - 2\<close> of the address, so that a flag of two digits would shift it; and
  a number is read as \<open>num * 10 + c - 48\<close> from the left, which overflows an \<open>int\<close> from 2147483600 on.\<close>

theorem timer_file_delivered:
  assumes "\<forall>e \<in> set es. entry_ok e" and "j < length es" and "length es \<le> 12" and "length buf = 1024"
  shows "\<exists>dg m. sender_main (timer_text nl es) str = Some dg
    \<and> rd32 (recvfrom buf dg) 0 = Some 1 \<and> rd32 (recvfrom buf dg) 4 = Some (word_of_nat (length es))
    \<and> TIMER_MESSAGE (recvfrom buf dg) (8 + 80 * j) = Some m
    \<and> msg_ip m = map of_char (e_ip (es ! j)) \<and> msg_flag m = int (e_flag (es ! j))
    \<and> take 36 (msg_tm m) = of_int32 (int (e_sec (es ! j))) @ of_int32 (int (e_min (es ! j)))
      @ of_int32 (int (e_hour (es ! j))) @ of_int32 (int (e_mday (es ! j)))
      @ of_int32 (int (e_mon (es ! j)) - 1) @ of_int32 (int (e_year (es ! j)) - 1900) @ replicate 12 0"
proof -
  let ?e = "es ! j" and ?rb = "recvfrom buf (timer_request es)" and ?p = "8 + 80 * j"
  let ?t = "timer_bytes (sent_of ?e)"
  have e: "entry_ok ?e" using assms(1,2) by simp
  then have ip: "length (e_ip ?e) \<le> 15" "NUL \<notin> set (e_ip ?e)" by (auto simp: entry_ok_def)
  have "es \<noteq> []" using assms(2) by auto
  note hdr = request_header [OF assms(1) this, of buf]
  have end_: "?p + 80 \<le> 1024 + 4" using assms(2,3) by simp
  note field = request_field [OF assms(1,2), of _ _ buf, unfolded assms(4)]
  have f0: "slice ?rb ?p 16 = map of_char (e_ip ?e) @ 0 # replicate (15 - length (e_ip ?e)) 0"
  proof -
    have "16 - length (e_ip ?e) = Suc (15 - length (e_ip ?e))" using ip(1) by simp
    then have t: "?t = (map of_char (e_ip ?e) @ 0 # replicate (15 - length (e_ip ?e)) 0) @ drop 16 ?t"
      using ip(1) by (simp add: timer_bytes_def sent_of_def)
    have "slice ?t 0 16 = map of_char (e_ip ?e) @ 0 # replicate (15 - length (e_ip ?e)) 0"
      using ip(1) by (subst t) (simp add: slice_append slice_full del: append_assoc)
    then show ?thesis using field [of 0 16] end_ by simp
  qed
  have f1: "slice ?rb (?p + 16) 4 = of_int32 (int (e_flag ?e))"
    using field [of 16 4] end_ sent_of_ok [OF e]
    by (simp add: timer_bytes_def timer_ok_def slice_append slice_full) (simp add: sent_of_def)
  have f2: "slice ?rb (?p + 24) 36 = of_int32 (int (e_sec ?e)) @ of_int32 (int (e_min ?e))
      @ of_int32 (int (e_hour ?e)) @ of_int32 (int (e_mday ?e))
      @ of_int32 (int (e_mon ?e) - 1) @ of_int32 (int (e_year ?e) - 1900) @ replicate 12 0"
    using field [of 24 36] end_ sent_of_ok [OF e]
    by (simp add: timer_bytes_def timer_ok_def slice_append) (simp add: sent_of_def slice_def)
  have "cstring ?rb ?p = Some (map of_char (e_ip ?e))"
    using ip(2) by (intro cstring_slice [OF f0]) (auto simp: of_char_zero)
  moreover have "in_int (int (e_flag ?e))" using e by (simp add: entry_ok_def in_int_def)
  then have "map_option sint (rd32 ?rb (?p + 16)) = Some (int (e_flag ?e))"
    using f1 end_ assms(4) sint_int [of "int (e_flag ?e)"] by (simp add: rd32_def rdn_slice un_of_int32)
  moreover have "rdn ?rb (?p + 24) 56 = Some (slice ?rb (?p + 24) 56)"
    using end_ assms(4) by (simp add: rdn_slice)
  moreover have "take 36 (slice ?rb (?p + 24) 56) = slice ?rb (?p + 24) 36" by (simp add: slice_def)
  moreover have "sender_main (timer_text nl es) str = Some (timer_request es)"
    using sender_main_text [OF \<open>es \<noteq> []\<close> assms(1)] assms(3) by (simp add: timer_request_def)
  ultimately show ?thesis
    using hdr f2 assms(4) by (auto simp: TIMER_MESSAGE_def)
qed


lemma TIMER_MESSAGE_beyond: "length b < p + 80 \<Longrightarrow> TIMER_MESSAGE b p = None"
  by (cases "cstring b p"; cases "rd32 b (p + 16)") (simp_all add: TIMER_MESSAGE_def rdn_def)

lemma parse_timers_beyond:
  "length b < 8 + 80 * (i + k) \<Longrightarrow> 0 < k \<Longrightarrow> parse_timers mktime now b i k alloc ports h head = None"
proof (induction k arbitrary: i h head)
  case (Suc k)
  show ?case
  proof (cases k)
    case 0
    with Suc.prems show ?thesis using TIMER_MESSAGE_beyond [of b "8 + 80 * i"] by simp
  next
    case (Suc k')
    then have "parse_timers mktime now b (Suc i) k alloc ports h head = None" for h head
      using Suc.IH [of "Suc i"] Suc.prems by simp
    then show ?thesis
      by (cases "TIMER_MESSAGE b (8 + 80 * i)") (auto simp: split_def bind_eq_None_conv)
  qed
qed simp

text \<open>Thirteen timers are too many. The file may hold 64, but from thirteen on the messages do not fit the
  receive buffer of the station, which follows the number in the request and reads beyond the end of
  its buffer.\<close>

theorem thirteen_timers_overrun:
  assumes "\<forall>e \<in> set es. entry_ok e" and "13 \<le> length es" and "length es \<le> 64" and "length buf = 1024"
  shows "\<exists>dg. sender_main (timer_text nl es) str = Some dg
    \<and> parse_timer_message mktime now (recvfrom buf dg) alloc ports h head = None"
proof -
  have ne: "es \<noteq> []" using assms(2) by auto
  have "sint (word_of_nat (length es) :: u32) = int (length es)"
    using sint_int [of "int (length es)"] assms(3) by (simp add: in_int_def)
  moreover have "parse_timers mktime now (recvfrom buf (timer_request es)) 0 (length es) alloc ports h head = None"
    using assms by (intro parse_timers_beyond) auto
  ultimately have "parse_timer_message mktime now (recvfrom buf (timer_request es)) alloc ports h head = None"
    using request_header(2) [OF assms(1) ne, of buf] assms(4) by (simp add: parse_timer_message_def)
  with sender_main_text [OF ne assms(1,3)] show ?thesis by (auto simp: timer_request_def)
qed

section \<open>Witnesses\<close>

definition sample_entry :: timer_entry where
  "sample_entry = \<lparr>e_flag = 0, e_ip = ''172.168.1.2'', e_year = 2015, e_mon = 5, e_mday = 18,
     e_hour = 16, e_min = 33, e_sec = 31\<rparr>"

lemma sample_entry_ok: "entry_ok sample_entry"
  by (simp add: entry_ok_def sample_entry_def)

theorem timer_file_delivered_witness:
  "timer_line sample_entry = ''0 172.168.1.2 2015/5/18,16:33:31''
   \<and> (\<exists>dg m. sender_main (timer_line sample_entry @ [NL]) [] = Some dg
     \<and> TIMER_MESSAGE (recvfrom (replicate 1024 7) dg) 8 = Some m \<and> msg_ip m = map of_char ''172.168.1.2''
     \<and> msg_flag m = 0)"
proof
  show "timer_line sample_entry = ''0 172.168.1.2 2015/5/18,16:33:31''" by code_simp
  have "\<forall>e \<in> set [sample_entry]. entry_ok e" by (simp add: sample_entry_ok)
  from timer_file_delivered [OF this, of 0 "replicate 1024 7" True "[]"]
  show "\<exists>dg m. sender_main (timer_line sample_entry @ [NL]) [] = Some dg
     \<and> TIMER_MESSAGE (recvfrom (replicate 1024 7) dg) 8 = Some m \<and> msg_ip m = map of_char ''172.168.1.2''
     \<and> msg_flag m = 0"
    by (auto simp: sample_entry_def)
qed

theorem thirteen_timers_overrun_witness:
  "\<exists>dg. sender_main (timer_text True (replicate 13 sample_entry)) [] = Some dg
    \<and> parse_timer_message (\<lambda>_. 0) 0 (recvfrom (replicate 1024 0) dg) (\<lambda>i. i) [] Map.empty None = None"
  by (rule thirteen_timers_overrun) (simp_all add: sample_entry_ok)

end
