(* ===== verification/Inform.thy ===== *)
theory Inform
  imports Timer_Sender
begin

text \<open>
  Asking a station for measurements: \<open>local_inform.c\<close> builds the requests for a number of ports and splits
  them over datagrams, \<open>parse_inform_message\<close> of \<open>local_comm.c\<close> answers one of them, \<open>local_listen\<close> and
  \<open>thread_local_listen\<close> of \<open>main.c\<close> dispatch what the station receives.

  The texts that the program has as global variables (address, information, kind and times) are arguments,
  as are the contents of memory before it is written.
\<close>

section \<open>The request of a port\<close>

definition TOTAL_PACKETS :: u32 where "TOTAL_PACKETS = 1"
definition RX_PACKETS :: u32 where "RX_PACKETS = 2"
definition TX_PACKETS :: u32 where "TX_PACKETS = 4"
definition TOTAL_BYTES :: u32 where "TOTAL_BYTES = 8"
definition RX_BYTES :: u32 where "RX_BYTES = 16"
definition TX_BYTES :: u32 where "TX_BYTES = 32"
definition RTT_AVG :: u32 where "RTT_AVG = 64"
definition PACKETS_LOSS :: u32 where "PACKETS_LOSS = 128"

lemmas request_bits = TOTAL_PACKETS_def RX_PACKETS_def TX_PACKETS_def TOTAL_BYTES_def RX_BYTES_def TX_BYTES_def
  RTT_AVG_def PACKETS_LOSS_def

definition to_lower :: "char \<Rightarrow> char" where
  "to_lower c = (if 65 \<le> code c \<and> code c \<le> 90 then char_of (code c + 32) else c)"

definition strcasecmp_eq :: "string \<Rightarrow> string \<Rightarrow> bool" where
  "strcasecmp_eq a b \<longleftrightarrow> map to_lower a = map to_lower b"

definition set_request :: "u32 \<Rightarrow> string \<Rightarrow> u32 \<times> nat" where
  "set_request request element =
     (if strcasecmp_eq element ''TOTAL_PACKETS'' then (request XOR TOTAL_PACKETS, 1)
      else if strcasecmp_eq element ''RX_PACKETS'' then (request XOR RX_PACKETS, 1)
      else if strcasecmp_eq element ''TX_PACKETS'' then (request XOR TX_PACKETS, 1)
      else if strcasecmp_eq element ''TOTAL_BYTES'' then (request XOR TOTAL_BYTES, 1)
      else if strcasecmp_eq element ''RX_BYTES'' then (request XOR RX_BYTES, 1)
      else if strcasecmp_eq element ''TX_BYTES'' then (request XOR TX_BYTES, 1)
      else if strcasecmp_eq element ''RTT_AVG'' then (request XOR RTT_AVG, 1)
      else if strcasecmp_eq element ''PACKETS_LOSS'' then (request XOR PACKETS_LOSS, 1)
      else (request, 0))"

text \<open>The loop of \<open>main\<close> over the words; \<open>element\<close> has 16 characters.\<close>

fun set_requests :: "string \<Rightarrow> string \<Rightarrow> u32 \<Rightarrow> nat \<Rightarrow> (u32 \<times> nat) option" where
  "set_requests [] element request cnt = do {
     guard (length element < 16);
     let (request, ret) = set_request request element;
     Some (request, cnt + ret) }"
| "set_requests (c # cs) element request cnt = do {
     guard (length element < 16);
     if c = CHR '' '' then
       let (request, ret) = set_request request element in set_requests cs [] request (cnt + ret)
     else set_requests cs (element @ [c]) request cnt }"

section \<open>Times\<close>

record TM =
  TM_sec :: int
  TM_min :: int
  TM_hour :: int
  TM_mday :: int
  TM_mon :: int
  TM_year :: int

definition insert_time :: "string \<Rightarrow> TM option" where
  "insert_time str = do {
     (year, i) \<leftarrow> scan_number (CHR ''/'') str 0 0;
     (mon, i) \<leftarrow> scan_number (CHR ''/'') str (i + 1) 0;
     (mday, i) \<leftarrow> scan_number (CHR '','') str (i + 1) 0;
     (hour, i) \<leftarrow> scan_number (CHR '':'') str (i + 1) 0;
     (mi, i) \<leftarrow> scan_number (CHR '':'') str (i + 1) 0;
     (s, i) \<leftarrow> scan_number NUL str (i + 1) 0;
     Some \<lparr>TM_sec = s, TM_min = mi, TM_hour = hour, TM_mday = mday, TM_mon = mon, TM_year = year\<rparr> }"

definition TM_bytes :: "TM \<Rightarrow> bytes" where
  "TM_bytes t = of_int32 (TM_sec t) @ of_int32 (TM_min t) @ of_int32 (TM_hour t)
     @ of_int32 (TM_mday t) @ of_int32 (TM_mon t) @ of_int32 (TM_year t)"

record INFORM_GET_TAIL =
  content_type :: int
  start :: TM
  end_time :: TM

definition zero_TM :: TM where
  "zero_TM = \<lparr>TM_sec = 0, TM_min = 0, TM_hour = 0, TM_mday = 0, TM_mon = 0, TM_year = 0\<rparr>"

definition zero_tail :: INFORM_GET_TAIL where
  "zero_tail = \<lparr>content_type = 0, start = zero_TM, end_time = zero_TM\<rparr>"

definition tail_bytes :: "INFORM_GET_TAIL \<Rightarrow> bytes" where
  "tail_bytes x = of_int32 (content_type x) @ TM_bytes (start x) @ TM_bytes (end_time x)"

text \<open>What is asked of every port.\<close>

record question =
  q_ip :: string
  q_information :: string
  q_type :: string
  q_start :: string
  q_end :: string

text \<open>The value of \<open>content_type\<close>, if the kind is known.\<close>

definition kind_of :: "string \<Rightarrow> int option" where
  "kind_of s = (if s = ''point'' then Some 0 else if s = ''average'' then Some 1
     else if s = ''peak'' then Some 2 else if s = ''nadir'' then Some 3 else None)"

text \<open>The buffer of the texts has 1024 characters, more than any of them; of its content only the
  terminated text is read.\<close>

fun insert_inform_get_tail :: "question \<Rightarrow> nat \<Rightarrow> INFORM_GET_TAIL \<Rightarrow> bytes \<Rightarrow> nat \<Rightarrow>
    (bytes \<times> nat \<times> INFORM_GET_TAIL) option" where
  "insert_inform_get_tail q 0 x buf ptr = Some (buf, ptr, x)"
| "insert_inform_get_tail q (Suc cnt) x buf ptr = (case kind_of (q_type q) of
     None \<Rightarrow> insert_inform_get_tail q cnt x buf ptr
   | Some k \<Rightarrow> do {
       t \<leftarrow> insert_time (q_start q @ [NUL]);
       let x = x\<lparr>content_type := k, start := t\<rparr>;
       x \<leftarrow> (if k \<noteq> 0 then do { t \<leftarrow> insert_time (q_end q @ [NUL]); Some (x\<lparr>end_time := t\<rparr>) } else Some x);
       buf \<leftarrow> wrn buf ptr (tail_bytes x);
       insert_inform_get_tail q cnt zero_tail buf (ptr + 52) })"

section \<open>The program\<close>

record inform_state =
  send_buf :: bytes
  ptr :: nat
  space_remain :: int
  port_count :: int
  head_count :: int
  the_tail :: INFORM_GET_TAIL
  sent :: "bytes list"

text \<open>\<open>send_message\<close>\<close>

definition send_message :: "inform_state \<Rightarrow> inform_state option" where
  "send_message s = do {
     guard (0 \<le> 1024 - space_remain s \<and> 1024 - space_remain s \<le> int (length (send_buf s)));
     Some (s\<lparr>sent := sent s @ [take (nat (1024 - space_remain s)) (send_buf s)]\<rparr>) }"

definition strcpy_to :: "string \<Rightarrow> bytes \<Rightarrow> bytes option" where
  "strcpy_to s dest = wrn dest 0 (map of_char s @ [0])"

text \<open>The type of the message and the \<open>INFORM_GET_HEAD\<close>.\<close>

definition put_head :: "bytes \<Rightarrow> inform_state \<Rightarrow> inform_state option" where
  "put_head host s = do {
     buf \<leftarrow> wrn (send_buf s) 0 (of_int32 3 @ host @ of_int32 (head_count s));
     Some (s\<lparr>send_buf := buf, ptr := 40\<rparr>) }"

text \<open>What is done when the next port does not fit: the message so far is sent with the number of its ports, and
  a new one is begun.\<close>

definition flush_message :: "bytes \<Rightarrow> int \<Rightarrow> inform_state \<Rightarrow> inform_state option" where
  "flush_message host need s = do {
     buf \<leftarrow> wrn (send_buf s) 36 (of_int32 (port_count s - 1));
     s \<leftarrow> send_message (s\<lparr>send_buf := buf, head_count := head_count s - (port_count s - 1),
       space_remain := space_remain s + need\<rparr>);
     buf \<leftarrow> wrn (send_buf s) 0 (replicate 8 0);
     put_head host (s\<lparr>send_buf := buf, port_count := 1, space_remain := 1024\<rparr>) }"

definition put_port :: "question \<Rightarrow> bytes \<Rightarrow> nat \<Rightarrow> inform_state \<Rightarrow> inform_state option" where
  "put_port q middle cnt s = do {
     buf \<leftarrow> wrn (send_buf s) (ptr s) middle;
     (buf, p, x) \<leftarrow> insert_inform_get_tail q cnt (the_tail s) buf (ptr s + 20);
     Some (s\<lparr>send_buf := buf, ptr := p, the_tail := x\<rparr>) }"

definition add_port :: "question \<Rightarrow> bytes \<Rightarrow> inform_state \<Rightarrow> inform_state option" where
  "add_port q host s = do {
     let s = s\<lparr>port_count := port_count s + 1\<rparr>;
     ip \<leftarrow> strcpy_to (q_ip q) (replicate 16 0);
     (request, cnt) \<leftarrow> set_requests (q_information q) [] 0 0;
     let middle = ip @ le_bytes 4 request;
     let need = 20 + 52 * int cnt;
     let s = s\<lparr>space_remain := space_remain s - need\<rparr>;
     if space_remain s < 0 then do {
       s \<leftarrow> flush_message host need s;
       s \<leftarrow> put_port q middle cnt s;
       Some (s\<lparr>space_remain := space_remain s - (40 + need)\<rparr>) }
     else put_port q middle cnt s }"

fun add_ports :: "question \<Rightarrow> bytes \<Rightarrow> nat \<Rightarrow> inform_state \<Rightarrow> inform_state option" where
  "add_ports q host 0 s = Some s"
| "add_ports q host (Suc n) s = do { s \<leftarrow> add_port q host s; add_ports q host n s }"

text \<open>A negative number of ports is counted down without end.\<close>

definition inform_main :: "question \<Rightarrow> string \<Rightarrow> bytes \<Rightarrow> INFORM_GET_TAIL \<Rightarrow> int \<Rightarrow> bytes list option" where
  "inform_main q host_name memory memory_tail n = do {
     host \<leftarrow> strcpy_to host_name memory;
     guard (0 \<le> n);
     s \<leftarrow> put_head host \<lparr>send_buf = replicate 1024 0, ptr = 0, space_remain = 1024 - 40, port_count = 0,
       head_count = n, the_tail = memory_tail, sent = []\<rparr>;
     s \<leftarrow> add_ports q host (nat n) s;
     s \<leftarrow> send_message s;
     Some (sent s) }"

section \<open>The answer of a station\<close>

definition inform_element :: "string list" where
  "inform_element = [''_total_packets'', ''_rx_packets'', ''_tx_packets'', ''_total_bytes'', ''_rx_bytes'',
     ''_tx_bytes'', ''_rtt_avg'', ''_packet_loss'']"

text \<open>The calls of the data base are commented out, so every value is -1.\<close>

definition fetch_inform_data :: "bytes \<Rightarrow> string \<Rightarrow> int \<Rightarrow> u64" where
  "fetch_inform_data inform_get_tail command_element port_num = - 1"

lemma drop_bit_1_less: "(request :: u32) \<noteq> 0 \<Longrightarrow> unat (drop_bit 1 request) < unat request"
  by (simp add: drop_bit_eq_div unat_div unat_gt_0)

function answer_port :: "bytes \<Rightarrow> int \<Rightarrow> u32 \<Rightarrow> nat \<Rightarrow> nat \<Rightarrow> bytes \<Rightarrow> nat \<Rightarrow> (bytes \<times> nat \<times> nat) option" where
  "answer_port b port_num request j tl_pos out p =
     (if request = 0 then Some (out, p, tl_pos)
      else if request AND 1 \<noteq> 0 then do {
        x \<leftarrow> rdn b tl_pos 52;
        out \<leftarrow> wrn out p x;
        guard (j < length inform_element);
        let value = fetch_inform_data x (inform_element ! j) port_num;
        out \<leftarrow> wrn out (p + 52) (le_bytes 8 value);
        answer_port b port_num (drop_bit 1 request) (j + 1) (tl_pos + 52) out (p + 60) }
      else answer_port b port_num (drop_bit 1 request) (j + 1) tl_pos out p)"
  by pat_completeness auto
termination by (relation "measure (\<lambda>(_, _, request, _). unat request)") (auto simp: drop_bit_1_less [simplified])

declare answer_port.simps [simp del]

fun answer_ports :: "bytes \<Rightarrow> int \<Rightarrow> nat \<Rightarrow> nat \<Rightarrow> bytes \<Rightarrow> nat \<Rightarrow> bytes option" where
  "answer_ports b port_num 0 mid out p = Some out"
| "answer_ports b port_num (Suc n) mid out p = do {
     request \<leftarrow> rd32 b (mid + 16);
     (out, p, mid) \<leftarrow> answer_port b port_num request 0 (mid + 20) out p;
     m \<leftarrow> rdn b mid 20;
     out \<leftarrow> wrn out p m;
     answer_ports b port_num n mid out (p + 20) }"

text \<open>\<open>port_num\<close> is never written; its value is an argument.\<close>

definition parse_inform_message :: "int \<Rightarrow> bytes \<Rightarrow> bytes option" where
  "parse_inform_message port_num b = do {
     h \<leftarrow> rdn b 4 36;
     out \<leftarrow> wrn (replicate 1280 0) 0 h;
     m \<leftarrow> rdn b 40 20;
     out \<leftarrow> wrn out 36 m;
     cnt \<leftarrow> rd32 b 36;
     answer_ports b port_num (nat (sint cnt)) 40 out 56 }"


section \<open>How requests are split\<close>

text \<open>The question is well-formed: the request and number of values of each port, and the tail that is
  sent for each value. A point in time leaves a part of the first tail unset and is excluded.\<close>

definition asks :: "question \<Rightarrow> u32 \<Rightarrow> nat \<Rightarrow> INFORM_GET_TAIL \<Rightarrow> bool" where
  "asks q request c x \<longleftrightarrow> length (q_ip q) < 16 \<and> set_requests (q_information q) [] 0 0 = Some (request, c)
     \<and> kind_of (q_type q) = Some (content_type x) \<and> content_type x \<noteq> 0
     \<and> insert_time (q_start q @ [NUL]) = Some (start x) \<and> insert_time (q_end q @ [NUL]) = Some (end_time x)"

definition middle_of :: "question \<Rightarrow> u32 \<Rightarrow> bytes" where
  "middle_of q request = map of_char (q_ip q) @ replicate (16 - length (q_ip q)) 0 @ le_bytes 4 request"

definition port_block :: "question \<Rightarrow> u32 \<Rightarrow> nat \<Rightarrow> INFORM_GET_TAIL \<Rightarrow> bytes" where
  "port_block q request c x = middle_of q request @ concat (replicate c (tail_bytes x))"

definition message :: "bytes \<Rightarrow> int \<Rightarrow> nat \<Rightarrow> bytes \<Rightarrow> bytes" where
  "message host h c block = of_int32 3 @ host @ of_int32 h @ concat (replicate c block)"

function split_ports :: "nat \<Rightarrow> nat \<Rightarrow> nat list" where
  "split_ports k n = (if n \<le> k \<or> k = 0 then [n] else k # split_ports k (n - k))"
  by pat_completeness auto
termination by (relation "measure snd") auto

declare split_ports.simps [simp del]

lemma length_TM_bytes [simp]: "length (TM_bytes t) = 24"
  by (simp add: TM_bytes_def)

lemma length_tail_bytes [simp]: "length (tail_bytes x) = 52"
  by (simp add: tail_bytes_def)

lemma length_copies [simp]: "length (concat (replicate c xs)) = c * length xs"
  by (induction c) simp_all

lemma length_middle_of [simp]: "length (q_ip q) < 16 \<Longrightarrow> length (middle_of q request) = 20"
  by (simp add: middle_of_def)

lemma wrn_append:
  "p = length old \<Longrightarrow> length xs \<le> length junk \<Longrightarrow> wrn (old @ junk) p xs = Some ((old @ xs) @ drop (length xs) junk)"
  by (simp add: wrn_def)

lemma copies_append: "concat (replicate c xs) @ xs = concat (replicate (Suc c) xs)"
  by (induction c) simp_all

lemma insert_tails:
  assumes "asks q request c' x"
  shows "52 * c \<le> length junk \<Longrightarrow> p = length old \<Longrightarrow>
    \<exists>y. insert_inform_get_tail q c z (old @ junk) p
      = Some ((old @ concat (replicate c (tail_bytes x))) @ drop (52 * c) junk, p + 52 * c, y)"
proof (induction c arbitrary: z old junk p)
  case (Suc c)
  note a = assms [unfolded asks_def]
  have x: "tail_bytes (z\<lparr>content_type := content_type x, start := start x, end_time := end_time x\<rparr>) = tail_bytes x"
    by (simp add: tail_bytes_def)
  have "wrn (old @ junk) p (tail_bytes x) = Some ((old @ tail_bytes x) @ drop 52 junk)"
    using Suc.prems wrn_append [of p old "tail_bytes x" junk] by simp
  moreover obtain y where "insert_inform_get_tail q c zero_tail ((old @ tail_bytes x) @ drop 52 junk) (p + 52)
      = Some (((old @ tail_bytes x) @ concat (replicate c (tail_bytes x))) @ drop (52 * c) (drop 52 junk),
          p + 52 + 52 * c, y)"
  proof -
    have "52 * c \<le> length (drop 52 junk)" "p + 52 = length (old @ tail_bytes x)" using Suc.prems by auto
    from Suc.IH [OF this, of zero_tail] that show ?thesis by blast
  qed
  ultimately show ?case using a x by (intro exI [of _ y]) (simp add: ac_simps)
qed simp

lemma strcpy_to_fits:
  "length cs < length dest \<Longrightarrow> strcpy_to cs dest = Some (map of_char cs @ 0 # drop (length cs + 1) dest)"
  by (simp add: strcpy_to_def wrn_def)

lemma put_port_append:
  assumes "asks q request c x" and "send_buf s = old @ junk" and "ptr s = length old" and "20 + 52 * c \<le> length junk"
  shows "\<exists>y. put_port q (middle_of q request) c s = Some (s\<lparr>send_buf := (old @ port_block q request c x)
    @ drop (20 + 52 * c) junk, ptr := length old + 20 + 52 * c, the_tail := y\<rparr>)"
proof -
  let ?m = "middle_of q request"
  have m: "length ?m = 20" using assms(1) by (simp add: asks_def)
  then have "wrn (old @ junk) (length old) ?m = Some ((old @ ?m) @ drop 20 junk)"
    using assms(4) by (simp add: wrn_append)
  moreover obtain y where "insert_inform_get_tail q c (the_tail s) ((old @ ?m) @ drop 20 junk) (length old + 20)
      = Some (((old @ ?m) @ concat (replicate c (tail_bytes x))) @ drop (52 * c) (drop 20 junk), length old + 20 + 52 * c, y)"
  proof -
    have "52 * c \<le> length (drop 20 junk)" "length old + 20 = length (old @ ?m)" using assms(4) m by auto
    from insert_tails [OF assms(1) this, of "the_tail s"] that show ?thesis by blast
  qed
  ultimately show ?thesis
    using assms(2,3) by (intro exI [of _ y]) (simp add: put_port_def port_block_def ac_simps)
qed

definition in_progress :: "bytes \<Rightarrow> bytes \<Rightarrow> nat \<Rightarrow> nat \<Rightarrow> bytes list \<Rightarrow> inform_state \<Rightarrow> bool" where
  "in_progress host block c h msgs s \<longleftrightarrow> (\<exists>junk. send_buf s = message host (int h) c block @ junk)
     \<and> length (send_buf s) = 1024 \<and> ptr s = 40 + c * length block \<and> space_remain s = 984 - int (c * length block)
     \<and> port_count s = int c \<and> head_count s = int h \<and> sent s = msgs"

lemma length_message: "length host = 32 \<Longrightarrow> length (message host h c block) = 40 + c * length block"
  by (simp add: message_def)

lemma in_progress_send:
  assumes "in_progress host block c h msgs s" and "length host = 32" and "c * length block \<le> 984"
  shows "send_message s = Some (s\<lparr>sent := msgs @ [message host (int h) c block]\<rparr>)"
proof -
  obtain junk where "send_buf s = message host (int h) c block @ junk" using assms(1) by (auto simp: in_progress_def)
  moreover have "nat (1024 - space_remain s) = length (message host (int h) c block)"
    "0 \<le> 1024 - space_remain s" "1024 - space_remain s \<le> 1024"
    using assms by (simp_all add: in_progress_def length_message flip: of_nat_mult)
  ultimately show ?thesis
    using assms(1) by (simp add: send_message_def in_progress_def)
qed


lemma message_append: "message host h c block @ block = message host h (Suc c) block"
  by (simp only: message_def append_assoc copies_append)

lemma wrn_count:
  assumes "length host = 32"
  shows "wrn (message host h c block @ junk) 36 (of_int32 h') = Some (message host h' c block @ junk)"
  using wrn_total [of 36 "of_int32 h'" "message host h c block @ junk"] assms
  by (simp add: message_def)

lemma strcpy_ip:
  "length (q_ip q) < 16 \<Longrightarrow> \<exists>dest. strcpy_to (q_ip q) (replicate 16 0) = Some dest \<and> dest @ le_bytes 4 request = middle_of q request"
  by (simp add: strcpy_to_fits middle_of_def drop_replicate Suc_diff_Suc flip: replicate_Suc)

lemma add_port_in_progress:
  assumes "asks q request n x" and "in_progress host (port_block q request n x) c h msgs s" and "length host = 32"
    and "(c + 1) * (20 + 52 * n) \<le> 984"
  shows "\<exists>s'. add_port q host s = Some s' \<and> in_progress host (port_block q request n x) (c + 1) h msgs s'"
proof -
  let ?B = "port_block q request n x"
  have q: "length (q_ip q) < 16" using assms(1) by (simp add: asks_def)
  then have B: "length ?B = 20 + 52 * n" by (simp add: port_block_def)
  obtain junk where junk: "send_buf s = message host (int h) c ?B @ junk" using assms(2) by (auto simp: in_progress_def)
  let ?s = "s\<lparr>port_count := port_count s + 1, space_remain := space_remain s - (20 + 52 * int n)\<rparr>"
  define L where "L = c * length ?B"
  have st: "length (send_buf s) = 1024" "ptr s = 40 + L" "space_remain s = 984 - int L"
    "port_count s = int c" "head_count s = int h" "sent s = msgs"
    using assms(2) by (simp_all add: in_progress_def L_def)
  have len: "length (message host (int h) c ?B) = 40 + L" using length_message [OF assms(3)] by (simp add: L_def)
  have L: "L + (20 + 52 * n) \<le> 984" using assms(4) unfolding L_def B by simp
  have room: "20 + 52 * n \<le> length junk" "0 \<le> space_remain ?s"
    using arg_cong [OF junk, of length] st(1,3) len L by simp_all
  have "send_buf ?s = message host (int h) c ?B @ junk" "ptr ?s = length (message host (int h) c ?B)"
    using junk len st(2) by simp_all
  from put_port_append [OF assms(1) this room(1)] obtain y where
    y: "put_port q (middle_of q request) n ?s = Some (?s\<lparr>send_buf := (message host (int h) c ?B @ ?B)
      @ drop (20 + 52 * n) junk, ptr := length (message host (int h) c ?B) + 20 + 52 * n, the_tail := y\<rparr>)" by blast
  then have "add_port q host s = Some (?s\<lparr>send_buf := (message host (int h) c ?B @ ?B)
      @ drop (20 + 52 * n) junk, ptr := length (message host (int h) c ?B) + 20 + 52 * n, the_tail := y\<rparr>)"
    (is "_ = Some ?s'")
  proof -
    obtain dest where "strcpy_to (q_ip q) (replicate 16 0) = Some dest" "dest @ le_bytes 4 request = middle_of q request"
      using strcpy_ip [OF q, of request] by blast
    with y show ?thesis using assms(1) room(2) by (simp add: add_port_def asks_def)
  qed
  moreover have "send_buf ?s' = message host (int h) (c + 1) ?B @ drop (20 + 52 * n) junk"
    by (simp add: message_append del: append_assoc)
  moreover from this have "length (send_buf ?s') = 1024"
    using arg_cong [OF junk, of length] st(1) len room(1) assms(3) B by (simp add: length_message algebra_simps)
  moreover have "(c + 1) * length ?B = L + (20 + 52 * n)" by (simp add: L_def B)
  moreover have "ptr ?s' = 40 + (L + (20 + 52 * n))" "space_remain ?s' = 984 - int (L + (20 + 52 * n))"
    "port_count ?s' = int (c + 1)" "head_count ?s' = int h" "sent ?s' = msgs"
    using st len by simp_all
  ultimately show ?thesis unfolding in_progress_def by metis
qed


lemma put_head_message:
  assumes "length (send_buf s) = 1024" and "length host = 32"
  shows "put_head host s = Some (s\<lparr>send_buf := message host (head_count s) 0 block @ drop 40 (send_buf s), ptr := 40\<rparr>)"
  using assms by (simp add: put_head_def wrn_total message_def)

lemma flush_message_sends:
  assumes "send_buf s = message host (int h) c block @ junk" and "length (send_buf s) = 1024" and "length host = 32"
    and "port_count s = int (c + 1)" and "head_count s = int h" and "space_remain s + need = 984 - int (c * length block)"
    and "c * length block \<le> 984" and "c \<le> h"
  shows "\<exists>s' junk'. flush_message host need s = Some s' \<and> send_buf s' = message host (int (h - c)) 0 block @ junk'
    \<and> length (send_buf s') = 1024 \<and> ptr s' = 40 \<and> space_remain s' = 1024 \<and> port_count s' = 1
    \<and> head_count s' = int (h - c) \<and> sent s' = sent s @ [message host (int c) c block]"
proof -
  let ?m = "message host (int c) c block" and ?b = "message host (int c) c block @ junk"
  let ?s1 = "s\<lparr>send_buf := ?b, head_count := int (h - c), space_remain := space_remain s + need\<rparr>"
  have len: "length ?b = 1024" "length ?m = 40 + c * length block"
    using assms(1-3) by (simp_all add: length_message)
  have w: "wrn (send_buf s) 36 (of_int32 (port_count s - 1)) = Some ?b"
    using wrn_count [OF assms(3)] assms(1,4) by simp
  have "head_count s - (port_count s - 1) = int (h - c)" using assms(4,5,8) by simp
  moreover have "nat (1024 - (space_remain s + need)) = length ?m" unfolding assms(6) len(2) using assms(7) by linarith
  moreover from len(1) this have "0 \<le> 1024 - (space_remain s + need)" "1024 - (space_remain s + need) \<le> 1024"
    unfolding assms(6) using assms(7) by linarith+
  then have "send_message ?s1 = Some (?s1\<lparr>sent := sent s @ [take (nat (1024 - (space_remain s + need))) ?b]\<rparr>)"
    using len(1) unfolding send_message_def by simp
  ultimately have 1: "send_message (s\<lparr>send_buf := ?b, head_count := head_count s - (port_count s - 1),
      space_remain := space_remain s + need\<rparr>) = Some (?s1\<lparr>sent := sent s @ [?m]\<rparr>)" by simp
  let ?s2 = "?s1\<lparr>sent := sent s @ [?m], send_buf := replicate 8 0 @ drop 8 ?b, port_count := 1, space_remain := 1024\<rparr>"
  have 2: "wrn ?b 0 (replicate 8 0) = Some (replicate 8 0 @ drop 8 ?b)" using len by (simp add: wrn_def)
  have 3: "put_head host ?s2 = Some (?s2\<lparr>send_buf := message host (int (h - c)) 0 block @ drop 40 (send_buf ?s2), ptr := 40\<rparr>)"
    using put_head_message [of ?s2 host block] len(1) assms(3) by simp
  have "flush_message host need s = put_head host ?s2"
    unfolding flush_message_def w using 1 2 by simp
  with 3 len assms(3) show ?thesis
    by (intro exI [of _ "?s2\<lparr>send_buf := message host (int (h - c)) 0 block @ drop 40 (send_buf ?s2), ptr := 40\<rparr>"]
      exI [of _ "drop 40 (send_buf ?s2)"]) (simp add: length_message)
qed

lemma add_port_full:
  assumes "asks q request n x" and "in_progress host (port_block q request n x) c h msgs s" and "length host = 32"
    and "c * (20 + 52 * n) \<le> 984" and "984 < (c + 1) * (20 + 52 * n)" and "20 + 52 * n \<le> 984" and "c \<le> h"
  shows "\<exists>s'. add_port q host s = Some s' \<and> in_progress host (port_block q request n x) 1 (h - c)
    (msgs @ [message host (int c) c (port_block q request n x)]) s'"
proof -
  let ?B = "port_block q request n x" and ?m = "message host (int c) c (port_block q request n x)"
  have q: "length (q_ip q) < 16" using assms(1) by (simp add: asks_def)
  then have B: "length ?B = 20 + 52 * n" by (simp add: port_block_def)
  define L where "L = c * length ?B"
  have L: "L \<le> 984" "984 < L + (20 + 52 * n)" using assms(4,5) unfolding L_def B by simp_all
  obtain junk where junk: "send_buf s = message host (int h) c ?B @ junk" using assms(2) by (auto simp: in_progress_def)
  have st: "length (send_buf s) = 1024" "space_remain s = 984 - int L"
    "port_count s = int c" "head_count s = int h" "sent s = msgs"
    using assms(2) by (simp_all add: in_progress_def L_def)
  obtain dest where dest: "strcpy_to (q_ip q) (replicate 16 0) = Some dest" "dest @ le_bytes 4 request = middle_of q request"
    using strcpy_ip [OF q, of request] by blast
  let ?s = "s\<lparr>port_count := port_count s + 1, space_remain := space_remain s - (20 + 52 * int n)\<rparr>"
  obtain s1 junk1 where s1: "flush_message host (20 + 52 * int n) ?s = Some s1"
    "send_buf s1 = message host (int (h - c)) 0 ?B @ junk1" "length (send_buf s1) = 1024" "ptr s1 = 40"
    "space_remain s1 = 1024" "port_count s1 = 1" "head_count s1 = int (h - c)" "sent s1 = msgs @ [?m]"
    using flush_message_sends [of ?s host h c ?B junk "20 + 52 * int n"] junk st L(1) assms(3,7) by (auto simp: L_def)
  have "ptr s1 = length (message host (int (h - c)) 0 ?B)" "20 + 52 * n \<le> length junk1"
    using s1(2,3,4) assms(3,6) by (simp_all add: length_message)
  from put_port_append [OF assms(1) s1(2) this] obtain y where
    y: "put_port q (middle_of q request) n s1 = Some (s1\<lparr>send_buf := (message host (int (h - c)) 0 ?B @ ?B)
      @ drop (20 + 52 * n) junk1, ptr := length (message host (int (h - c)) 0 ?B) + 20 + 52 * n, the_tail := y\<rparr>)" by blast
  let ?s' = "s1\<lparr>send_buf := message host (int (h - c)) (Suc 0) ?B @ drop (20 + 52 * n) junk1, ptr := 60 + 52 * n,
    the_tail := y, space_remain := 1024 - (40 + (20 + 52 * int n))\<rparr>"
  have "put_port q (middle_of q request) n s1 = Some (s1\<lparr>send_buf := message host (int (h - c)) (Suc 0) ?B
      @ drop (20 + 52 * n) junk1, ptr := 60 + 52 * n, the_tail := y\<rparr>)"
    unfolding y message_append using assms(3) by (simp add: length_message)
  then have "add_port q host s = Some ?s'"
    using assms(1) L st(2) dest s1(1,5) by (simp add: add_port_def asks_def)
  moreover have "in_progress host ?B 1 (h - c) (msgs @ [?m]) ?s'"
  proof -
    have "length (send_buf ?s') = 1024" using s1(2,3) assms(3,6) B by (simp add: length_message)
    moreover have "ptr ?s' = 40 + 1 * length ?B" "space_remain ?s' = 984 - int (1 * length ?B)" "port_count ?s' = int 1"
      "head_count ?s' = int (h - c)" "sent ?s' = msgs @ [?m]" "send_buf ?s' = message host (int (h - c)) 1 ?B @ drop (20 + 52 * n) junk1"
      using s1(6-8) B by simp_all
    ultimately show ?thesis unfolding in_progress_def by blast
  qed
  ultimately show ?thesis by blast
qed


definition ports_per_message :: "nat \<Rightarrow> nat" where
  "ports_per_message n = 984 div (20 + 52 * n)"

lemma ports_per_message: "c \<le> ports_per_message n \<longleftrightarrow> c * (20 + 52 * n) \<le> 984"
  by (simp add: ports_per_message_def less_eq_div_iff_mult_less_eq)

lemma add_ports_split:
  assumes "asks q request n x" and "length host = 32" and "20 + 52 * n \<le> 984"
  shows "in_progress host (port_block q request n x) c (c + r) msgs s \<Longrightarrow> c \<le> ports_per_message n \<Longrightarrow>
    \<exists>s'. add_ports q host r s \<bind> send_message = Some s'
      \<and> sent s' = msgs @ map (\<lambda>c. message host (int c) c (port_block q request n x)) (split_ports (ports_per_message n) (c + r))"
proof (induction r arbitrary: c msgs s)
  case 0
  have "length (port_block q request n x) = 20 + 52 * n" using assms(1) by (simp add: port_block_def asks_def)
  then have "c * length (port_block q request n x) \<le> 984" using 0(2) by (simp add: ports_per_message)
  from in_progress_send [OF 0(1) assms(2) this] 0(2) show ?case by (simp add: split_ports.simps)
next
  case (Suc r)
  show ?case
  proof (cases "c < ports_per_message n")
    case True
    then have "(c + 1) * (20 + 52 * n) \<le> 984" by (subst ports_per_message [symmetric]) simp
    from add_port_in_progress [OF assms(1) Suc.prems(1) assms(2) this] obtain s1 where
      s1: "add_port q host s = Some s1" "in_progress host (port_block q request n x) (c + 1) (c + 1 + r) msgs s1" by auto
    from Suc.IH [OF s1(2)] True s1(1) show ?thesis by simp
  next
    case False
    with Suc.prems(2) have c: "c = ports_per_message n" by simp
    then have "c * (20 + 52 * n) \<le> 984" "984 < (c + 1) * (20 + 52 * n)"
      using ports_per_message [of c n] ports_per_message [of "c + 1" n] by simp_all
    from add_port_full [OF assms(1) Suc.prems(1) assms(2) this assms(3)] obtain s1 where
      s1: "add_port q host s = Some s1" "in_progress host (port_block q request n x) 1 (1 + r)
        (msgs @ [message host (int c) c (port_block q request n x)]) s1" by auto
    have k: "1 \<le> ports_per_message n" using assms(3) by (simp add: ports_per_message)
    have "split_ports (ports_per_message n) (c + Suc r) = c # split_ports (ports_per_message n) (1 + r)"
      using c k by (subst split_ports.simps) simp
    with Suc.IH [OF s1(2) k] s1(1) show ?thesis by simp
  qed
qed

text \<open>C18: The request for any number of ports is split right. For a well-formed question with at most 18 values a
  port, \<open>main\<close> sends messages whose numbers of ports add up to the number asked for: each is as
  full as 1024 bytes allow and the last takes the rest, and each carries its own number of ports and that many complete blocks,
  although the count in the buffer is corrected afterwards and the buffer is cleared only in its first eight
  bytes.\<close>

theorem inform_main_splits:
  assumes "asks q request n x" and "n \<le> 18" and "length host_name < 32" and "length memory = 32"
  shows "\<exists>host. length host = 32 \<and> take (length host_name + 1) host = map of_char host_name @ [0]
    \<and> inform_main q host_name memory memory_tail (int ports) = Some (map (\<lambda>c. message host (int c) c (port_block q request n x))
        (split_ports (ports_per_message n) ports))
    \<and> sum_list (split_ports (ports_per_message n) ports) = ports
    \<and> (\<forall>c \<in> set (split_ports (ports_per_message n) ports). c \<le> ports_per_message n)"
proof -
  let ?host = "map of_char host_name @ 0 # drop (length host_name + 1) memory"
  have host: "strcpy_to host_name memory = Some ?host" "length ?host = 32"
    using assms(3,4) by (simp_all add: strcpy_to_fits)
  let ?s0 = "\<lparr>send_buf = replicate 1024 0, ptr = 0, space_remain = 1024 - 40, port_count = 0,
    head_count = int ports, the_tail = memory_tail, sent = []\<rparr>"
  obtain s1 where s1: "put_head ?host ?s0 = Some s1" "in_progress ?host (port_block q request n x) 0 (0 + ports) [] s1"
    using put_head_message [of ?s0 ?host "port_block q request n x"] host(2)
    by (auto simp: in_progress_def length_message)
  obtain s2 where "add_ports q ?host ports s1 \<bind> send_message = Some s2"
    "sent s2 = map (\<lambda>c. message ?host (int c) c (port_block q request n x)) (split_ports (ports_per_message n) ports)"
    using add_ports_split [OF assms(1) host(2) _ s1(2)] assms(2) by auto
  then have "inform_main q host_name memory memory_tail (int ports)
      = Some (map (\<lambda>c. message ?host (int c) c (port_block q request n x)) (split_ports (ports_per_message n) ports))"
    using host(1) s1(1) by (auto simp: inform_main_def bind_eq_Some_conv)
  moreover have "sum_list (split_ports k ports) = ports" for k
    by (induction k ports rule: split_ports.induct) (subst split_ports.simps, simp)
  moreover have "1 \<le> ports_per_message n" using assms(2) by (simp add: ports_per_message)
  then have "\<forall>c \<in> set (split_ports (ports_per_message n) ports). c \<le> ports_per_message n"
    by (induction "ports_per_message n" ports rule: split_ports.induct) (subst split_ports.simps, simp)
  ultimately show ?thesis using host(2) by (intro exI [of _ ?host]) simp
qed

lemma set_requests_word:
  "length (el @ e) < 16 \<Longrightarrow> CHR '' '' \<notin> set e \<Longrightarrow>
   set_requests (e @ cs) el r k = set_requests cs (el @ e) r k"
  by (induction e arbitrary: el) auto

text \<open>Asking for the same value twice cancels it: the bits of the request are toggled, so the word in the request
  is as if nothing had been asked, while both are counted and a tail is sent for each.\<close>

theorem asking_twice_cancels:
  assumes "set_request 0 e = (r, 1)" and "length e < 16" and "CHR '' '' \<notin> set e"
  shows "set_requests (e @ CHR '' '' # e) [] 0 0 = Some (0, 2)"
proof -
  have "set_request r e = (0, 1)" using assms(1) by (auto simp: set_request_def split: if_splits)
  then show ?thesis
    using assms set_requests_word [of "[]" e "CHR '' '' # e"] set_requests_word [of "[]" e "[]"] by simp
qed

section \<open>What the station makes of a request\<close>

function ones :: "u32 \<Rightarrow> nat" where
  "ones r = (if r = 0 then 0 else (if r AND 1 \<noteq> 0 then 1 else 0) + ones (drop_bit 1 r))"
  by pat_completeness auto
termination by (relation "measure unat") (auto simp: drop_bit_1_less [simplified])

declare ones.simps [simp del]

lemma half_less: "unat (r :: u32) < 2 ^ Suc k \<Longrightarrow> unat (drop_bit 1 r) < 2 ^ k"
  by (simp add: drop_bit_eq_div unat_div less_mult_imp_div_less)

lemma ones_bound: "unat r < 2 ^ k \<Longrightarrow> ones r \<le> k"
proof (induction k arbitrary: r)
  case 0
  then have "r = 0" by (simp add: unat_eq_zero)
  then show ?case by (simp add: ones.simps)
next
  case (Suc k)
  from Suc.IH [OF half_less [OF Suc.prems]] show ?case by (subst ones.simps) simp
qed

lemma rdn_drop:
  assumes "drop p b = xs @ ys" and "k + m \<le> length xs" and "0 < m"
  shows "rdn b (p + k) m = Some (slice xs k m)"
proof -
  have "p + length xs \<le> length b" using arg_cong [OF assms(1), of length] assms(2,3) by simp
  moreover have "drop (p + k) b = drop k (xs @ ys)" by (simp add: assms(1) [symmetric] add.commute)
  ultimately show ?thesis using assms(2) by (simp add: rdn_def slice_def)
qed

definition values_of :: "nat \<Rightarrow> INFORM_GET_TAIL \<Rightarrow> bytes" where
  "values_of n x = concat (replicate n (tail_bytes x @ le_bytes 8 (- 1 :: u64)))"

lemma length_values_of [simp]: "length (values_of n x) = 60 * n"
  by (simp add: values_of_def)

lemma values_of_Suc: "values_of (Suc n) x = (tail_bytes x @ le_bytes 8 (- 1 :: u64)) @ values_of n x"
  by (simp add: values_of_def)

lemma answer_port_values:
  "drop tl_pos b = concat (replicate (ones r) (tail_bytes x)) @ suf \<Longrightarrow> unat r < 2 ^ (8 - j) \<Longrightarrow> j \<le> 8 \<Longrightarrow>
   p = length old \<Longrightarrow> 60 * ones r \<le> length junk \<Longrightarrow>
   answer_port b port_num r j tl_pos (old @ junk) p
     = Some ((old @ values_of (ones r) x) @ drop (60 * ones r) junk, p + 60 * ones r, tl_pos + 52 * ones r)"
proof (induction "8 - j" arbitrary: r j tl_pos old junk p)
  case 0
  then have "r = 0" by (simp add: unat_eq_zero)
  then show ?case by (simp add: answer_port.simps ones.simps values_of_def)
next
  case (Suc k)
  have k: "k = 8 - (j + 1)" "j + 1 \<le> 8" using Suc.hyps(2) by simp_all
  have half: "unat (drop_bit 1 r) < 2 ^ (8 - (j + 1))"
    using half_less [of r k] Suc.prems(2) unfolding Suc.hyps(2) [symmetric] k(1) [symmetric] .
  consider "r = 0" | "r \<noteq> 0" "r AND 1 = 0" | "r \<noteq> 0" "r AND 1 \<noteq> 0" by blast
  then show ?case
  proof cases
    case 1
    then show ?thesis by (simp add: answer_port.simps ones.simps values_of_def)
  next
    case 2
    then have "ones r = ones (drop_bit 1 r)" by (subst ones.simps) simp
    with Suc.hyps(1) [OF k(1) _ half k(2)] Suc.prems 2 show ?thesis by (subst answer_port.simps) simp
  next
    case 3
    let ?m = "ones (drop_bit 1 r)" and ?v = "tail_bytes x @ le_bytes 8 (- 1 :: u64)"
    have m: "ones r = Suc ?m" using 3 by (subst ones.simps) simp
    have d: "drop tl_pos b = tail_bytes x @ concat (replicate ?m (tail_bytes x)) @ suf" using Suc.prems(1) m by simp
    then have x: "rdn b tl_pos 52 = Some (tail_bytes x)" using rdn_drop [of tl_pos b "tail_bytes x" _ 0 52] by (simp add: slice_full)
    have d': "drop (tl_pos + 52) b = concat (replicate ?m (tail_bytes x)) @ suf"
      using arg_cong [OF d, of "drop 52"] by (simp add: add.commute)
    have room: "60 + 60 * ?m \<le> length junk" using Suc.prems(5) m by simp
    have w1: "wrn (old @ junk) p (tail_bytes x) = Some ((old @ tail_bytes x) @ drop 52 junk)"
      using wrn_append [of p old "tail_bytes x" junk] Suc.prems(4) room by simp
    have w2: "wrn ((old @ tail_bytes x) @ drop 52 junk) (p + 52) (le_bytes 8 (- 1 :: u64))
        = Some ((old @ ?v) @ drop 60 junk)"
      using wrn_append [of "p + 52" "old @ tail_bytes x" "le_bytes 8 (- 1 :: u64)" "drop 52 junk"] Suc.prems(4) room by simp
    have "j < length inform_element" using k(2) by (simp add: inform_element_def)
    then have "answer_port b port_num r j tl_pos (old @ junk) p
        = answer_port b port_num (drop_bit 1 r) (j + 1) (tl_pos + 52) ((old @ ?v) @ drop 60 junk) (p + 60)"
      using 3 x w1 w2 by (subst answer_port.simps) (simp add: fetch_inform_data_def)
    also have "\<dots> = Some (((old @ ?v) @ values_of ?m x) @ drop (60 * ?m) (drop 60 junk), p + 60 + 60 * ?m, tl_pos + 52 + 52 * ?m)"
      using room Suc.prems(4) by (intro Suc.hyps(1) [OF k(1) d' half k(2)]) auto
    finally show ?thesis by (simp add: m values_of_Suc add.commute)
  qed
qed


text \<open>What follows the first address and request in the answer; \<open>lst\<close> is what the station finds after the last
  port.\<close>

fun answered :: "bytes \<Rightarrow> bytes \<Rightarrow> bytes \<Rightarrow> nat \<Rightarrow> bytes" where
  "answered m v lst 0 = []"
| "answered m v lst (Suc c) = v @ (if c = 0 then lst else m) @ answered m v lst c"

lemma answered_blocks: "0 < c \<Longrightarrow> m @ answered m v lst c = concat (replicate c (m @ v)) @ lst"
proof (induction c)
  case (Suc c)
  then show ?case by (cases c) auto
qed simp

lemma length_answered: "length m = 20 \<Longrightarrow> length lst = 20 \<Longrightarrow> length (answered m v lst c) = c * (length v + 20)"
  by (induction c) simp_all

lemma middle_request:
  assumes "drop mid b = middle_of q request @ ys" and "length (q_ip q) < 16"
  shows "rd32 b (mid + 16) = Some request"
proof -
  have "slice (middle_of q request) 16 4 = le_bytes 4 request"
    using assms(2) by (simp add: middle_of_def slice_append slice_full)
  then have "rdn b (mid + 16) 4 = Some (le_bytes 4 request)"
    using rdn_drop [OF assms(1), of 16 4] assms(2) by simp
  then show ?thesis by (simp add: rd32_def)
qed

lemma answer_ports_values:
  assumes "asks q request n x" and "ones request = n" and "unat request < 2 ^ 8" and "length lst = 20"
  shows "drop mid b = concat (replicate c (port_block q request n x)) @ lst @ suf \<Longrightarrow> p = length old \<Longrightarrow>
    c * (20 + 60 * n) \<le> length junk \<Longrightarrow>
    answer_ports b port_num c mid (old @ junk) p = Some ((old @ answered (middle_of q request) (values_of n x) lst c)
      @ drop (c * (20 + 60 * n)) junk)"
proof (induction c arbitrary: mid old junk p)
  case (Suc c)
  let ?M = "middle_of q request" and ?T = "concat (replicate n (tail_bytes x))" and ?V = "values_of n x"
  let ?next = "concat (replicate c (port_block q request n x)) @ lst @ suf"
  let ?step = "if c = 0 then lst else ?M"
  have q: "length (q_ip q) < 16" using assms(1) by (simp add: asks_def)
  have d0: "drop mid b = ?M @ ?T @ ?next" using Suc.prems(1) by (simp add: port_block_def)
  have d1: "drop (mid + 20) b = ?T @ ?next"
    using arg_cong [OF d0, of "drop 20"] q by (simp add: add.commute)
  have d2: "drop (mid + 20 + 52 * n) b = ?next"
    using arg_cong [OF d1, of "drop (52 * n)"] by (simp add: add.commute mult.commute)
  have room: "60 * n + 20 + c * (20 + 60 * n) \<le> length junk" using Suc.prems(3) by simp
  have 1: "answer_port b port_num request 0 (mid + 20) (old @ junk) p
      = Some ((old @ ?V) @ drop (60 * n) junk, p + 60 * n, mid + 20 + 52 * n)"
    using answer_port_values [of "mid + 20" b request x ?next 0 p old junk port_num] assms(2,3) d1 Suc.prems(2) room
    by simp
  have step: "length ?step = 20" "\<exists>ys. ?next = ?step @ ys"
    using assms(4) q by (cases c; simp add: port_block_def)+
  then obtain ys where "drop (mid + 20 + 52 * n) b = ?step @ ys" using d2 by auto
  from rdn_drop [OF this, of 0 20] have 2: "rdn b (mid + 20 + 52 * n) 20 = Some ?step" using step(1) by (simp add: slice_full)
  have 3: "wrn ((old @ ?V) @ drop (60 * n) junk) (p + 60 * n) ?step
      = Some (((old @ ?V) @ ?step) @ drop 20 (drop (60 * n) junk))"
    using wrn_append [of "p + 60 * n" "old @ ?V" ?step "drop (60 * n) junk"] Suc.prems(2) room step(1) by simp
  have 4: "answer_ports b port_num c (mid + 20 + 52 * n) (((old @ ?V) @ ?step) @ drop 20 (drop (60 * n) junk)) (p + 60 * n + 20)
      = Some ((((old @ ?V) @ ?step) @ answered ?M ?V lst c) @ drop (c * (20 + 60 * n)) (drop 20 (drop (60 * n) junk)))"
    using Suc.prems(2) step(1) room by (intro Suc.IH d2) auto
  have "answer_ports b port_num (Suc c) mid (old @ junk) p
      = answer_ports b port_num c (mid + 20 + 52 * n) (((old @ ?V) @ ?step) @ drop 20 (drop (60 * n) junk)) (p + 60 * n + 20)"
    using middle_request [OF d0 q] 1 2 3 by simp
  then show ?case unfolding 4 by (simp add: algebra_simps)
qed simp

lemma ports_fit:
  assumes "1 \<le> n" and "n \<le> 8" and "c \<le> ports_per_message n"
  shows "c * (20 + 52 * n) \<le> 964" and "c * (20 + 60 * n) \<le> 1128"
proof -
  have "n \<in> {1, 2, 3, 4, 5, 6, 7, 8}" using assms(1,2) by auto
  then show "c * (20 + 52 * n) \<le> 964" and "c * (20 + 60 * n) \<le> 1128"
    using assms(3) by (auto simp: ports_per_message_def)
qed

text \<open>C15: The station answers what the program sends. If no value is asked twice, a message for up to as many ports
  as \<open>main\<close> puts into one is answered, whatever was in the receive buffer: for each port with its
  address and request, then each tail followed by its value, which is always -1. No access is out of bounds: the
  answer fits its 1280 bytes and the address that is copied after the last port, of which there
  is none, lies within the receive buffer.\<close>

theorem request_answered:
  assumes "asks q request n x" and "ones request = n" and "unat request < 2 ^ 8" and "1 \<le> n"
    and "1 \<le> c" and "c \<le> ports_per_message n" and "length host = 32" and "length buf = 1024"
  shows "\<exists>lst. length lst = 20
    \<and> parse_inform_message port_num (recvfrom buf (message host (int c) c (port_block q request n x)))
      = Some (host @ of_int32 (int c) @ concat (replicate c (middle_of q request @ values_of n x)) @ lst
          @ replicate (1224 - c * (20 + 60 * n)) 0)"
proof -
  let ?B = "port_block q request n x" and ?M = "middle_of q request"
  let ?m = "message host (int c) c ?B"
  let ?b = "recvfrom buf ?m"
  have q: "length (q_ip q) < 16" using assms(1) by (simp add: asks_def)
  have n: "n \<le> 8" using ones_bound [OF assms(3)] assms(2) by simp
  note fit = ports_fit [OF assms(4) n assms(6)]
  have len: "length ?m = 40 + c * (20 + 52 * n)" using assms(7) q by (simp add: length_message port_block_def)
  let ?lst = "slice buf (length ?m) 20" and ?suf = "drop (length ?m + 20) buf"
  have lst: "length ?lst = 20" using assms(8) len fit by simp
  have "drop (length ?m) buf = ?lst @ ?suf" unfolding slice_def by (simp add: add.commute flip: drop_drop)
  then have b: "?b = ?m @ ?lst @ ?suf" using assms(8) len fit by (simp add: recvfrom_def)
  then have mid: "drop 40 ?b = concat (replicate c ?B) @ ?lst @ ?suf" using assms(7) by (simp add: message_def)
  obtain c' where c': "c = Suc c'" using assms(5) by (cases c) auto
  have h: "rdn ?b 4 36 = Some (host @ of_int32 (int c))"
    using rdn_drop [of 4 ?b "host @ of_int32 (int c)" _ 0 36] b assms(7) by (simp add: message_def slice_full)
  have cnt: "rd32 ?b 36 = Some (word_of_nat c)"
    using rdn_drop [of 36 ?b "of_int32 (int c)" _ 0 4] b assms(7) by (simp add: message_def slice_full rd32_def un_of_int32)
  have m: "rdn ?b 40 20 = Some ?M"
    using rdn_drop [of 40 ?b ?M _ 0 20] mid c' q by (simp add: port_block_def slice_full)
  have "wrn (replicate 1280 0) 0 (host @ of_int32 (int c)) = Some ((host @ of_int32 (int c)) @ replicate 1244 0)"
    using wrn_append [of 0 "[]" "host @ of_int32 (int c)" "replicate 1280 0"] assms(7) by simp
  moreover have "wrn ((host @ of_int32 (int c)) @ replicate 1244 0) 36 ?M
      = Some ((host @ of_int32 (int c) @ ?M) @ replicate 1224 0)"
    using wrn_append [of 36 "host @ of_int32 (int c)" ?M "replicate 1244 0"] assms(7) q by simp
  moreover have "answer_ports ?b port_num c 40 ((host @ of_int32 (int c) @ ?M) @ replicate 1224 0) 56
      = Some (((host @ of_int32 (int c) @ ?M) @ answered ?M (values_of n x) ?lst c) @ drop (c * (20 + 60 * n)) (replicate 1224 0))"
    using assms(7) q fit by (intro answer_ports_values [OF assms(1-3) lst mid]) auto
  moreover have "c * 1 \<le> c * (20 + 52 * n)" by (rule mult_le_mono2) simp
  then have "c \<le> 984" using fit(1) by linarith
  then have "sint (word_of_nat c :: u32) = int c" using sint_int [of "int c"] by (simp add: in_int_def)
  ultimately have "parse_inform_message port_num ?b = Some (host @ of_int32 (int c) @ (?M @ answered ?M (values_of n x) ?lst c)
      @ replicate (1224 - c * (20 + 60 * n)) 0)"
    using h m cnt by (simp add: parse_inform_message_def)
  then show ?thesis using lst assms(5) answered_blocks [of c ?M "values_of n x" ?lst] by auto
qed


section \<open>The listening thread\<close>

datatype local_ret = Timers "addr option" | Ack | Data bytes | Nothing

record listener =
  msg_type :: int
  timers :: "addr option"
  nodes :: store

text \<open>\<open>local_listen\<close>: the type, which it leaves alone if it does not know it, and the pointer it returns.\<close>

definition local_listen :: "(bytes \<Rightarrow> int) \<Rightarrow> int \<Rightarrow> (nat \<Rightarrow> addr) \<Rightarrow> port_entry list \<Rightarrow> int \<Rightarrow> bytes \<Rightarrow> bytes \<Rightarrow>
    listener \<Rightarrow> (listener \<times> local_ret) option" where
  "local_listen mktime now alloc ports port_num recv_buf datagram s = do {
     let b = recvfrom recv_buf datagram;
     t \<leftarrow> rd32 b 0;
     if t = 1 then do {
       (h, head) \<leftarrow> parse_timer_message mktime now b alloc ports (nodes s) (timers s);
       Some (s\<lparr>msg_type := 1, nodes := h\<rparr>, Timers head) }
     else if t = 2 then Some (s\<lparr>msg_type := 2\<rparr>, Ack)
     else if t = 3 then do {
       out \<leftarrow> parse_inform_message port_num b;
       Some (s\<lparr>msg_type := 3\<rparr>, Data out) }
     else Some (s, Nothing) }"

text \<open>A round of \<open>thread_local_listen\<close>: the new state and the datagram that is sent back, of 1280 bytes; to send
  from the null pointer fails.\<close>

definition thread_local_listen :: "(bytes \<Rightarrow> int) \<Rightarrow> int \<Rightarrow> (nat \<Rightarrow> addr) \<Rightarrow> port_entry list \<Rightarrow> int \<Rightarrow> bytes \<Rightarrow> bytes \<Rightarrow>
    listener \<Rightarrow> (listener \<times> bytes option) option" where
  "thread_local_listen mktime now alloc ports port_num recv_buf datagram s = do {
     (s, ret) \<leftarrow> local_listen mktime now alloc ports port_num recv_buf datagram s;
     if msg_type s = 1 then
       (case ret of Timers head \<Rightarrow> Some (s\<lparr>timers := head\<rparr>, None) | Nothing \<Rightarrow> Some (s\<lparr>timers := None\<rparr>, None) | _ \<Rightarrow> None)
     else if msg_type s = 3 then
       (case ret of Data out \<Rightarrow> Some (s, Some (take 1280 out)) | Nothing \<Rightarrow> Some (s, None) | _ \<Rightarrow> None)
     else Some (s, None) }"

text \<open>A stray datagram drops all timers. If the last known message set timers, a datagram of an unknown type
  is treated as one more such message, with the null pointer that \<open>local_listen\<close> returns as the list of timers.\<close>

theorem stray_message_drops_timers:
  assumes "thread_local_listen mktime now alloc ports port_num buf dg s = Some (s1, reply)"
    and "rd32 (recvfrom buf dg) 0 = Some 1"
    and "rd32 (recvfrom buf' dg') 0 = Some t" and "t \<notin> {1, 2, 3}"
  shows "\<exists>s2. thread_local_listen mktime now' alloc' ports port_num' buf' dg' s1 = Some (s2, None) \<and> timers s2 = None"
proof -
  have "msg_type s1 = 1"
    using assms(1,2) by (auto simp: thread_local_listen_def local_listen_def Let_def elim!: ub_elims split: if_splits)
  with assms(3,4) show ?thesis by (simp add: thread_local_listen_def local_listen_def Let_def)
qed

section \<open>Witnesses\<close>

definition sample_question :: question where
  "sample_question = \<lparr>q_ip = ''172.168.6.1'', q_information = ''rtt_avg rx_bytes'', q_type = ''peak'',
     q_start = ''2015/6/10,21:15:15'', q_end = ''2015/6/10,21:16:15''\<rparr>"

definition sample_tail :: INFORM_GET_TAIL where
  "sample_tail = \<lparr>content_type = 2,
     start = \<lparr>TM_sec = 15, TM_min = 15, TM_hour = 21, TM_mday = 10, TM_mon = 6, TM_year = 2015\<rparr>,
     end_time = \<lparr>TM_sec = 15, TM_min = 16, TM_hour = 21, TM_mday = 10, TM_mon = 6, TM_year = 2015\<rparr>\<rparr>"

lemma sample_asks: "asks sample_question 0x50 2 sample_tail"
  by code_simp

theorem inform_main_splits_witness:
  "\<exists>host. length host = 32 \<and> inform_main sample_question ''s1'' (replicate 32 7) zero_tail 20
    = Some (map (\<lambda>c. message host (int c) c (port_block sample_question 0x50 2 sample_tail)) [7, 7, 6])"
proof -
  have "split_ports (ports_per_message 2) 20 = [7, 7, 6]"
    by (simp add: ports_per_message_def split_ports.simps)
  with inform_main_splits [OF sample_asks _ _ _, of "''s1''" "replicate 32 7" zero_tail 20] show ?thesis by auto
qed

theorem asking_twice_cancels_witness: "set_requests ''rtt_avg rtt_avg'' [] 0 0 = Some (0, 2)"
proof -
  have "set_request 0 ''rtt_avg'' = (64, 1)" by code_simp
  from asking_twice_cancels [OF this] show ?thesis by simp
qed

theorem request_answered_witness:
  "\<exists>lst. length lst = 20 \<and> parse_inform_message 0 (recvfrom (replicate 1024 9)
      (message (replicate 32 7) 7 7 (port_block sample_question 0x50 2 sample_tail)))
    = Some (replicate 32 7 @ of_int32 7 @ concat (replicate 7 (middle_of sample_question 0x50 @ values_of 2 sample_tail))
        @ lst @ replicate 244 0)"
proof -
  have "ones 0x50 = 2" by code_simp
  moreover have "unat (0x50 :: u32) < 2 ^ 8" by simp
  moreover have "7 \<le> ports_per_message 2" by (simp add: ports_per_message_def)
  ultimately show ?thesis
    using request_answered [OF sample_asks, of 7 "replicate 32 7" "replicate 1024 9" 0] by simp
qed

theorem stray_message_drops_timers_witness:
  "\<exists>s1 s2. thread_local_listen (\<lambda>_. 0) 0 (\<lambda>i. i) [] 0 (replicate 1024 0) (le_bytes 4 (1 :: u32))
      \<lparr>msg_type = 0, timers = Some 5, nodes = Map.empty\<rparr> = Some (s1, None) \<and> timers s1 = Some 5
    \<and> thread_local_listen (\<lambda>_. 0) 1 (\<lambda>i. i) [] 0 (replicate 1024 0) (le_bytes 4 (9 :: u32)) s1 = Some (s2, None)
    \<and> timers s2 = None"
proof -
  let ?s = "\<lparr>msg_type = 0, timers = Some 5, nodes = Map.empty\<rparr>"
  have t: "rd32 (recvfrom (replicate 1024 0) (le_bytes 4 w)) 0 = Some w" for w :: u32
    by (simp add: recvfrom_def rd32_def rdn_def)
  have "rd32 (recvfrom (replicate 1024 0) (le_bytes 4 (1 :: u32))) 4 = Some 0"
    by (simp add: recvfrom_def rd32_def rdn_def un_le.simps numeral_eq_Suc)
  then have 1: "thread_local_listen (\<lambda>_. 0) 0 (\<lambda>i. i) [] 0 (replicate 1024 0) (le_bytes 4 (1 :: u32)) ?s
      = Some (?s\<lparr>msg_type := 1\<rparr>, None)"
    using t [of 1] by (simp add: thread_local_listen_def local_listen_def parse_timer_message_def)
  from stray_message_drops_timers [OF 1 t t [of 9], of 1 "\<lambda>i. i" 0] 1 show ?thesis by simp
qed

end
