(* ===== verification/Main_Loop.thy ===== *)
theory Main_Loop
  imports Negotiation Trap_Rm
begin

text \<open>
  The loop of a worker core of the resource manager, \<open>main_loop\<close> of \<open>RM/main.c\<close> (in its built
  configuration: exact match look-up, multi-buffer optimisation): the periodic drain of the transmit
  buffers, and the dispatch of every received packet to the monitoring handlers, to the forwarding
  of requests or to the negotiation.

  The packets that arrive, the time stamps, the drivers and the random values are arguments. A frame
  is a value: the model is exact as long as no frame is both queued by the monitoring handler
  and treated as an IPv4 packet, that is, as long as the network card flags a frame as IPv4 only
  if its version is 4 (\<open>flag_ok\<close>).
\<close>

section \<open>State and events\<close>

record lcore =
  txs :: "u8 \<Rightarrow> mbuf mbuf_table"
  prev_tsc :: u64
  rm :: rm_state
  kept :: stash
  rr :: rr_state
  traffic_seen :: traffic

text \<open>What the core does with packet buffers: through a transmit buffer, directly to a port, as
  a control message of its own, or back to the pool.\<close>

datatype rm_event = Buffered u8 "mbuf event" | Direct u8 mbuf | Own nic_event | Drop mbuf

record core_setup =
  port_addrs :: "u8 \<Rightarrow> 48 word"
  burst :: "u8 \<Rightarrow> mbuf list \<Rightarrow> nat"
  max_ethports :: nat
  drain_tsc :: u64

section \<open>Draining\<close>

fun drain_ports :: "core_setup \<Rightarrow> nat list \<Rightarrow> (u8 \<Rightarrow> mbuf mbuf_table) \<Rightarrow>
    ((u8 \<Rightarrow> mbuf mbuf_table) \<times> rm_event list) option" where
  "drain_ports s [] t = Some (t, [])"
| "drain_ports s (p # ps) t = do {
     let portid = word_of_nat p;
     (t, es) \<leftarrow> (if len (t portid) = 0 then Some (t, [])
       else do {
         es \<leftarrow> send_burst (burst s portid) (t portid) (len (t portid));
         Some (t(portid := (t portid)\<lparr>len := 0\<rparr>), map (Buffered portid) es) });
     (t, fs) \<leftarrow> drain_ports s ps t;
     Some (t, es @ fs) }"

definition drain :: "core_setup \<Rightarrow> u64 \<Rightarrow> lcore \<Rightarrow> (lcore \<times> rm_event list) option" where
  "drain s cur_tsc c =
     (if cur_tsc - prev_tsc c > drain_tsc s then do {
        (t, es) \<leftarrow> drain_ports s [0..<max_ethports s] (txs c);
        Some (c\<lparr>txs := t, prev_tsc := cur_tsc\<rparr>, es) }
      else Some (c, []))"

section \<open>One packet\<close>

text \<open>The monitoring part looks at the byte where an IPv4 packet has its version.\<close>

definition dispatch_trap :: "core_setup \<Rightarrow> u8 \<Rightarrow> mbuf \<Rightarrow> lcore \<Rightarrow>
    (mbuf \<times> lcore \<times> rm_event list) option" where
  "dispatch_trap s portid m c = do {
     version_type \<leftarrow> rd8 (mdata m) 14;
     if version_type = 0xa0 then do {
       (m, q, es) \<leftarrow> get_trap_message (port_addrs s) (burst s portid) m (txs c portid);
       Some (m, c\<lparr>txs := (txs c)(portid := q)\<rparr>, map (Buffered portid) es) }
     else if version_type = 0xa1 then do {
       (t, es) \<leftarrow> data_trap_message m (traffic_seen c);
       Some (m, c\<lparr>traffic_seen := t\<rparr>, map (\<lambda>e. Drop (pkt e)) es) }
     else Some (m, c, []) }"

definition dispatch :: "core_setup \<Rightarrow> env \<Rightarrow> bool \<Rightarrow> mbuf \<Rightarrow> lcore \<Rightarrow> (lcore \<times> rm_event list) option"
where
  "dispatch s v opened m c = do {
     (m, c, es) \<leftarrow> dispatch_trap s (in_port v) m c;
     if rx_ipv4 m then do {
       ver_type \<leftarrow> rd8 (mdata m) 34;
       if ver_type = 0xA0 then do {
         (r, s') \<leftarrow> get_packets_forward (port_addrs s) m (rr c);
         Some (c\<lparr>rr := s'\<rparr>, es @ [case r of Freed \<Rightarrow> Drop m | Transmit p m \<Rightarrow> Direct p m]) }
       else if ver_type = CONTROL_PACKET then do {
         (st, sh, fs) \<leftarrow> handle_control v opened (mdata m) (rm c) (kept c);
         Some (c\<lparr>rm := st, kept := sh\<rparr>, es @ map Own fs @ [Drop m]) }
       else Some (c, es) }
     else Some (c, es) }"

section \<open>The loop\<close>

text \<open>One round: the drain, then the packets of all receive queues, each with its environment. Which packets
  a round sees is an argument: the loop over the receive queues and the handlers of the control messages count with
  the same variable \<open>i\<close>, so that a message can move the loop to another queue, but this decides only which queue is
  polled next, not what is done with its packets.\<close>

fun receive :: "core_setup \<Rightarrow> (env \<times> bool \<times> mbuf) list \<Rightarrow> lcore \<Rightarrow> (lcore \<times> rm_event list) option"
where
  "receive s [] c = Some (c, [])"
| "receive s ((v, opened, m) # ms) c = do {
     (c, es) \<leftarrow> dispatch s v opened m c;
     (c, fs) \<leftarrow> receive s ms c;
     Some (c, es @ fs) }"

definition main_round :: "core_setup \<Rightarrow> u64 \<Rightarrow> (env \<times> bool \<times> mbuf) list \<Rightarrow> lcore \<Rightarrow>
    (lcore \<times> rm_event list) option" where
  "main_round s cur_tsc ms c = do {
     (c, es) \<leftarrow> drain s cur_tsc c;
     (c, fs) \<leftarrow> receive s ms c;
     Some (c, es @ fs) }"

section \<open>Drain\<close>

definition queues_ok :: "(u8 \<Rightarrow> mbuf mbuf_table) \<Rightarrow> bool" where
  "queues_ok t \<longleftrightarrow> (\<forall>p. queue_ok (t p))"

lemma queue_drain:
  assumes "queue_ok q"
  shows "\<exists>es. send_burst b q (len q) = Some es \<and> map pkt es = pending q"
    and "queue_ok (q\<lparr>len := 0\<rparr>)" and "pending (q\<lparr>len := 0\<rparr>) = []"
proof -
  have "len q \<le> length (m_table q)" using assms by (simp add: queue_ok_def)
  moreover have "take (len q) (pending q) = pending q" by (simp add: pending_def)
  ultimately show "\<exists>es. send_burst b q (len q) = Some es \<and> map pkt es = pending q"
    using tx_and_free_ok [of "pending q" "len q" "m_table q" b] pending_prefix [OF assms order_refl]
    by (simp add: send_burst_def)
  show "queue_ok (q\<lparr>len := 0\<rparr>)" using assms by (simp add: queue_ok_def MAX_PKT_BURST_def)
  show "pending (q\<lparr>len := 0\<rparr>) = []" by (simp add: pending_def)
qed

text \<open>The packets that leave through the transmit buffer of a port, in order.\<close>

fun on_port :: "u8 \<Rightarrow> rm_event list \<Rightarrow> mbuf list" where
  "on_port p [] = []"
| "on_port p (Buffered q e # es) = (if q = p then pkt e # on_port p es else on_port p es)"
| "on_port p (_ # es) = on_port p es"

lemma on_port_append [simp]: "on_port p (es @ fs) = on_port p es @ on_port p fs"
  by (induction p es rule: on_port.induct) auto

lemma on_port_simps [simp]:
  "on_port p (map (Buffered q) es) = (if q = p then map pkt es else [])"
  "on_port p (map Own fs) = []"
  "on_port p (map (\<lambda>e. Drop (pkt e)) gs) = []"
  by (induction es, auto) (induction fs, auto, induction gs, auto)

lemma drain_ports_ok:
  "queues_ok t \<Longrightarrow> \<exists>t' es. drain_ports s ps t = Some (t', es) \<and> queues_ok t'
     \<and> (\<forall>p. on_port p es @ pending (t' p) = pending (t p)
         \<and> (p \<in> word_of_nat ` set ps \<longrightarrow> pending (t' p) = []))"
proof (induction ps arbitrary: t)
  case Nil
  then show ?case by simp
next
  case (Cons n ps)
  let ?p = "word_of_nat n :: u8"
  have ok: "queue_ok (t ?p)" using Cons.prems by (simp add: queues_ok_def)
  obtain t1 es1 where 1: "(if len (t ?p) = 0 then Some (t, [])
       else do { es \<leftarrow> send_burst (burst s ?p) (t ?p) (len (t ?p));
         Some (t(?p := (t ?p)\<lparr>len := 0\<rparr>), map (Buffered ?p) es) }) = Some (t1, map (Buffered ?p) es1)"
    "queues_ok t1" "map pkt es1 = pending (t ?p)" "\<forall>p. pending (t1 p) = (if p = ?p then [] else pending (t p))"
  proof (cases "len (t ?p) = 0")
    case True
    then show ?thesis using that [of t "[]"] Cons.prems by (simp add: pending_def)
  next
    case False
    from queue_drain(1) [OF ok] obtain es where
      "send_burst (burst s ?p) (t ?p) (len (t ?p)) = Some es" "map pkt es = pending (t ?p)" by blast
    with False queue_drain(2,3) [OF ok] Cons.prems that show ?thesis
      by (simp add: queues_ok_def)
  qed
  from Cons.IH [OF 1(2)] obtain t2 es2 where 2:
    "drain_ports s ps t1 = Some (t2, es2)" "queues_ok t2"
    "\<forall>p. on_port p es2 @ pending (t2 p) = pending (t1 p)
       \<and> (p \<in> word_of_nat ` set ps \<longrightarrow> pending (t2 p) = [])" by auto
  have "drain_ports s (n # ps) t = Some (t2, map (Buffered ?p) es1 @ es2)"
    using 1(1) 2(1) by (simp add: Let_def)
  moreover have "on_port p (map (Buffered ?p) es1 @ es2) @ pending (t2 p) = pending (t p)" for p
    using 1(3,4) 2(3) by (cases "p = ?p") auto
  moreover have "pending (t2 p) = []" if "p \<in> word_of_nat ` set (n # ps)" for p
  proof (cases "p = ?p")
    case True
    then have "on_port p es2 @ pending (t2 p) = []" using 1(4) 2(3) by simp
    then show ?thesis by simp
  next
    case False
    with that 2(3) show ?thesis by simp
  qed
  ultimately show ?case using 2(2) by blast
qed

text \<open>When the drain is due, every packet that waits in a transmit buffer leaves it, in order and
  exactly once (accepted by the driver or freed), and all buffers are empty afterwards; before it is
  due, nothing happens.\<close>

theorem drain_empties_buffers:
  assumes "queues_ok (txs c)" and "\<forall>p. pending (txs c p) \<noteq> [] \<longrightarrow> unat p < max_ethports s"
  shows "\<exists>c' es. drain s now c = Some (c', es) \<and> queues_ok (txs c')
    \<and> (if now - prev_tsc c > drain_tsc s
       then prev_tsc c' = now
         \<and> (\<forall>p. on_port p es = pending (txs c p) \<and> pending (txs c' p) = [])
       else c' = c \<and> es = [])"
proof -
  obtain t es where t: "drain_ports s [0..<max_ethports s] (txs c) = Some (t, es)" "queues_ok t"
    "\<forall>p. on_port p es @ pending (t p) = pending (txs c p)
       \<and> (p \<in> word_of_nat ` set [0..<max_ethports s] \<longrightarrow> pending (t p) = [])"
    using drain_ports_ok [OF assms(1), of s "[0..<max_ethports s]"] by blast
  have "pending (t p) = []" for p
  proof (cases "pending (txs c p) = []")
    case True
    with t(3) show ?thesis by (metis append_is_Nil_conv)
  next
    case False
    with assms(2) have "word_of_nat (unat p) \<in> (word_of_nat :: nat \<Rightarrow> u8) ` set [0..<max_ethports s]"
      by (intro imageI) simp
    with t(3) show ?thesis by simp
  qed
  with t assms(1) show ?thesis by (auto simp: drain_def)
qed

section \<open>Invariant of the loop\<close>

lemma get_trap_message_queue:
  assumes "get_trap_message mac b m q = Some (m', q', es)" and "queue_ok q"
  shows "queue_ok q' \<and> map pkt es @ pending q' = pending q @ hello_replies mac m"
  using get_trap_message_queues [OF assms(1)]
proof (elim disjE exE conjE)
  fix x
  assume "hello_replies mac m = [x]" "send_single_packet b q x = Some (q', es)"
  with send_single_ok [OF assms(2), of b x] show ?thesis by auto
qed (use assms(2) in simp)

lemma get_packets_forward_rr:
  assumes "get_packets_forward mac m s = Some (r, s')" and "rr_ok s"
  shows "rr_ok s'"
proof -
  from assms(1) consider "s' = s" | p where "lunxun s = Some (p, s')"
    by (auto simp: get_packets_forward_def ADD_PID_def Let_def elim!: ub_elims split: if_splits)
  then show ?thesis
    using assms(2) rr.sel_ok [OF assms(2)] by cases auto
qed

definition core_ok :: "nid \<Rightarrow> lcore \<Rightarrow> bool" where
  "core_ok h c \<longleftrightarrow> queues_ok (txs c) \<and> rr_ok (rr c) \<and> coherent h (rm c)"

text \<open>The packets that received packets add to the transmit buffer of a port: the answers to the announcements of
  monitoring stations that came in through this port.\<close>

definition replies :: "core_setup \<Rightarrow> (env \<times> bool \<times> mbuf) list \<Rightarrow> u8 \<Rightarrow> mbuf list" where
  "replies s ms p = concat (map (\<lambda>(v, opened, m). if in_port v = p then hello_replies (port_addrs s) m else []) ms)"

lemma replies_simps [simp]:
  "replies s [] p = []"
  "replies s ((v, opened, m) # ms) p = (if in_port v = p then hello_replies (port_addrs s) m else []) @ replies s ms p"
  "replies s (ms @ ns) p = replies s ms p @ replies s ns p"
  by (simp_all add: replies_def)

text \<open>What a step keeps, and that on each port the packets that leave and those that wait are those that waited before
  and those that were added, in this order.\<close>

definition good_step :: "nid \<Rightarrow> (u8 \<Rightarrow> mbuf list) \<Rightarrow> lcore \<Rightarrow> lcore \<times> rm_event list \<Rightarrow> bool" where
  "good_step h new c r \<longleftrightarrow> core_ok h (fst r) \<and> skeleton (rm (fst r)) = skeleton (rm c)
     \<and> (\<forall>p. on_port p (snd r) @ pending (txs (fst r) p) = pending (txs c p) @ new p)"

lemma good_step_refl: "core_ok h c \<Longrightarrow> good_step h (\<lambda>p. []) c (c, [])"
  by (simp add: good_step_def)

lemma good_step_trans:
  assumes "good_step h new1 c (c1, es)" and "good_step h new2 c1 (c2, fs)"
  shows "good_step h (\<lambda>p. new1 p @ new2 p) c (c2, es @ fs)"
proof -
  have "on_port p (es @ fs) @ pending (txs c2 p) = pending (txs c p) @ new1 p @ new2 p" for p
  proof -
    from assms have "on_port p es @ pending (txs c1 p) = pending (txs c p) @ new1 p"
      "on_port p fs @ pending (txs c2 p) = pending (txs c1 p) @ new2 p"
      unfolding good_step_def fst_conv snd_conv by blast+
    then show ?thesis by (metis append_assoc on_port_append)
  qed
  with assms show ?thesis by (simp add: good_step_def)
qed

lemma good_step_silent:
  assumes "good_step h new c (c1, es)" and "good_step h (\<lambda>p. []) c1 (c2, fs)"
  shows "good_step h new c (c2, es @ fs)"
  using good_step_trans [OF assms] by simp

lemma drain_good:
  assumes "core_ok h c" and "drain s now c = Some r"
  shows "good_step h (\<lambda>p. []) c r"
proof -
  obtain t es where "drain_ports s [0..<max_ethports s] (txs c) = Some (t, es)" "queues_ok t"
    "\<forall>p. on_port p es @ pending (t p) = pending (txs c p)"
    using drain_ports_ok [of "txs c" s "[0..<max_ethports s]"] assms(1)
    by (auto simp: core_ok_def)
  with assms show ?thesis
    by (auto simp: drain_def good_step_def core_ok_def split: if_splits)
qed

lemma dispatch_trap_good:
  assumes "core_ok h c" and "dispatch_trap s p m c = Some (m', c', es)"
  shows "good_step h (\<lambda>q. if p = q then hello_replies (port_addrs s) m else []) c (c', es)"
proof -
  obtain v where v: "rd8 (mdata m) 14 = Some v"
    using assms(2) by (cases "rd8 (mdata m) 14") (simp_all add: dispatch_trap_def)
  then have none: "hello_replies (port_addrs s) m = []" if "v \<noteq> 0xa0"
    using that by (auto simp: hello_replies_def rd8_def get8_nth split: if_splits)
  consider "v = 0xa0" | "v = 0xa1" | "v \<noteq> 0xa0" "v \<noteq> 0xa1" by blast
  then show ?thesis
  proof cases
    case 1
    with assms(2) v obtain q gs where
      get: "get_trap_message (port_addrs s) (burst s p) m (txs c p) = Some (m', q, gs)" and
      c': "c' = c\<lparr>txs := (txs c)(p := q)\<rparr>" "es = map (Buffered p) gs"
      by (cases "get_trap_message (port_addrs s) (burst s p) m (txs c p)")
        (auto simp: dispatch_trap_def)
    have "queue_ok (txs c p)" using assms(1) by (simp add: core_ok_def queues_ok_def)
    from get_trap_message_queue [OF get this] assms(1) show ?thesis
      by (auto simp: c' good_step_def core_ok_def queues_ok_def)
  next
    case 2
    with assms(2) v obtain t gs where "c' = c\<lparr>traffic_seen := t\<rparr>" "es = map (\<lambda>e. Drop (pkt e)) gs"
      by (cases "data_trap_message m (traffic_seen c)") (auto simp: dispatch_trap_def)
    with assms(1) none 2 show ?thesis by (simp add: good_step_def core_ok_def)
  next
    case 3
    with assms v none show ?thesis by (simp add: dispatch_trap_def good_step_def)
  qed
qed

lemma dispatch_good:
  assumes "core_ok (host v) c" and "dispatch s v opened m c = Some (c', es)"
  shows "good_step (host v) (replies s [(v, opened, m)]) c (c', es)"
proof -
  obtain m1 c1 es1 where 1: "dispatch_trap s (in_port v) m c = Some (m1, c1, es1)"
    using assms(2) by (cases "dispatch_trap s (in_port v) m c") (auto simp: dispatch_def)
  have "replies s [(v, opened, m)] = (\<lambda>q. if in_port v = q then hello_replies (port_addrs s) m else [])"
    by (simp add: fun_eq_iff)
  with dispatch_trap_good [OF assms(1) 1] have g1: "good_step (host v) (replies s [(v, opened, m)]) c (c1, es1)"
    by simp
  then have ok1: "core_ok (host v) c1" by (simp add: good_step_def)
  show ?thesis
  proof (cases "rx_ipv4 m1")
    case False
    with assms(2) 1 g1 show ?thesis by (simp add: dispatch_def)
  next
    case True
    with assms(2) 1 obtain t where t: "rd8 (mdata m1) 34 = Some t"
      by (cases "rd8 (mdata m1) 34") (simp_all add: dispatch_def)
    consider (get) "t = 0xA0" | (ctl) "t \<noteq> 0xA0" "t = CONTROL_PACKET"
      | (no) "t \<noteq> 0xA0" "t \<noteq> CONTROL_PACKET" by blast
    then show ?thesis
    proof cases
      case no
      with assms(2) 1 t True g1 show ?thesis by (simp add: dispatch_def)
    next
      case get
      with assms(2) 1 t True obtain r s' where
        f: "get_packets_forward (port_addrs s) m1 (rr c1) = Some (r, s')" and
        c': "c' = c1\<lparr>rr := s'\<rparr>"
          "es = es1 @ [case r of Freed \<Rightarrow> Drop m1 | Transmit p m \<Rightarrow> Direct p m]"
        by (cases "get_packets_forward (port_addrs s) m1 (rr c1)") (auto simp: dispatch_def)
      have "rr_ok s'" using get_packets_forward_rr [OF f] ok1 by (simp add: core_ok_def)
      then have "good_step (host v) (\<lambda>p. []) c1
          (c', [case r of Freed \<Rightarrow> Drop m1 | Transmit p m \<Rightarrow> Direct p m])"
        using ok1 by (simp add: good_step_def core_ok_def c'(1) split: verdict.splits)
      from good_step_silent [OF g1 this] show ?thesis by (simp add: c'(2))
    next
      case ctl
      with assms(2) 1 t True obtain st sh fs where
        f: "handle_control v opened (mdata m1) (rm c1) (kept c1) = Some (st, sh, fs)" and
        c': "c' = c1\<lparr>rm := st, kept := sh\<rparr>" "es = es1 @ map Own fs @ [Drop m1]"
        by (cases "handle_control v opened (mdata m1) (rm c1) (kept c1)") (auto simp: dispatch_def)
      have "coherent (host v) (rm c1)" using ok1 by (simp add: core_ok_def)
      from handle_control_keeps [OF this f] ok1
      have "good_step (host v) (\<lambda>p. []) c1 (c', map Own fs @ [Drop m1])"
        by (simp add: good_step_def core_ok_def c'(1))
      from good_step_silent [OF g1 this] show ?thesis by (simp add: c'(2))
    qed
  qed
qed

lemma receive_good:
  "core_ok h c \<Longrightarrow> (\<forall>x \<in> set ms. host (fst x) = h) \<Longrightarrow> receive s ms c = Some r \<Longrightarrow>
    good_step h (replies s ms) c r"
proof (induction ms arbitrary: c r)
  case Nil
  moreover have "replies s [] = (\<lambda>p. [])" by (simp add: fun_eq_iff)
  ultimately show ?case by (auto simp: good_step_refl)
next
  case (Cons x ms)
  obtain v opened m where x: "x = (v, opened, m)" by (cases x)
  from Cons.prems(3) obtain c1 es c2 fs where
    1: "dispatch s v opened m c = Some (c1, es)" and 2: "receive s ms c1 = Some (c2, fs)" and
    r: "r = (c2, es @ fs)"
    by (auto simp: x elim!: ub_elims)
  have "host v = h" using Cons.prems(2) by (simp add: x)
  with dispatch_good [OF _ 1] Cons.prems(1) have g: "good_step h (replies s [x]) c (c1, es)" by (simp add: x)
  then have "core_ok h c1" by (simp add: good_step_def)
  from Cons.IH [OF this _ 2] Cons.prems(2) have "good_step h (replies s ms) c1 (c2, fs)" by simp
  moreover have "replies s (x # ms) = (\<lambda>p. replies s [x] p @ replies s ms p)" by (simp add: fun_eq_iff x)
  ultimately show ?case unfolding r using good_step_trans [OF g] by simp
qed

lemma main_round_good:
  assumes "core_ok h c" and "\<forall>x \<in> set ms. host (fst x) = h" and "main_round s now ms c = Some r"
  shows "good_step h (replies s ms) c r"
proof -
  from assms(3) obtain c1 es c2 fs where
    1: "drain s now c = Some (c1, es)" and 2: "receive s ms c1 = Some (c2, fs)" and
    r: "r = (c2, es @ fs)"
    by (auto simp: main_round_def elim!: ub_elims)
  note g = drain_good [OF assms(1) 1]
  then have "core_ok h c1" by (simp add: good_step_def)
  from good_step_trans [OF g receive_good [OF this assms(2) 2]] show ?thesis by (simp add: r)
qed

text \<open>The states a worker core of the host \<open>h\<close> reaches from \<open>c0\<close>, with all packets it received and all it did
  so far.\<close>

inductive core_run :: "core_setup \<Rightarrow> nid \<Rightarrow> lcore \<Rightarrow> lcore \<Rightarrow> (env \<times> bool \<times> mbuf) list \<Rightarrow> rm_event list \<Rightarrow> bool"
  for s h c0 where
  start: "core_run s h c0 c0 [] []"
| round: "core_run s h c0 c ms es \<Longrightarrow> \<forall>x \<in> set ns. host (fst x) = h \<Longrightarrow>
    main_round s now ns c = Some (c', fs) \<Longrightarrow> core_run s h c0 c' (ms @ ns) (es @ fs)"

lemma core_run_good:
  assumes "core_run s h c0 c ms es" and "core_ok h c0"
  shows "good_step h (replies s ms) c0 (c, es)"
  using assms
proof induction
  case start
  moreover have "replies s [] = (\<lambda>p. [])" by (simp add: fun_eq_iff)
  ultimately show ?case by (simp add: good_step_refl)
next
  case (round c ms es ns now c' fs)
  then have g: "good_step h (replies s ms) c0 (c, es)" by simp
  then have "core_ok h c" by (simp add: good_step_def)
  moreover have "replies s (ms @ ns) = (\<lambda>p. replies s ms p @ replies s ns p)" by (simp add: fun_eq_iff)
  ultimately show ?case using good_step_trans [OF g] main_round_good [OF _ round(2,3)] by simp
qed

text \<open>C5: The main loop keeps its invariants under any traffic: after any number of rounds with any packets
  \<open>ms\<close>, the transmit buffers are well formed (every slot below the length holds a packet, and there is room for
  one more), the round robin is in one of its three legal states, and the neighbour chain agrees with the path
  table, whose links have never changed. And on every port, the packets that have left through the transmit
  buffer, followed by those that wait in it, are those that waited in it at the start, followed by one answer to each
  announcement of a known monitoring station that came in through this port, in the order of their
  arrival: none is lost, doubled or sent to another port, and nothing else is ever put into a transmit buffer.\<close>

theorem main_loop_invariant:
  assumes "core_run s h c0 c ms es" and "core_ok h c0"
  shows "core_ok h c \<and> skeleton (rm c) = skeleton (rm c0)
    \<and> (\<forall>p. on_port p es @ pending (txs c p) = pending (txs c0 p)
        @ concat (map (\<lambda>(v, opened, m). if in_port v = p then hello_replies (port_addrs s) m else []) ms))"
  using core_run_good [OF assms] by (simp add: good_step_def replies_def)

definition sample_core :: lcore where
  "sample_core = \<lparr>txs = \<lambda>_. empty_table, prev_tsc = 0, rm = state_A, kept = no_stash, rr = rr_init,
     traffic_seen = \<lparr>pc3_port = 0, pc4_port = 0, pc5_port = 0\<rparr>\<rparr>"

definition sample_setup :: core_setup where
  "sample_setup = \<lparr>port_addrs = \<lambda>p. ucast p, burst = \<lambda>_ _. 0, max_ethports = 1, drain_tsc = 100\<rparr>"

lemma sample_core_ok: "core_ok nid_A sample_core"
proof -
  have "paths_fit nid_A tab_A" by code_simp
  then have "coherent nid_A state_A" by (simp add: state_A_def chain_spec_coherent)
  then show ?thesis
    using rr_ok_init
    by (simp add: core_ok_def sample_core_def queues_ok_def queue_ok_def empty_table_def
        MAX_PKT_BURST_def)
qed

theorem drain_empties_buffers_witness:
  "\<exists>c' es. drain sample_setup 200 sample_core = Some (c', es) \<and> prev_tsc c' = 200"
proof -
  have "queues_ok (txs sample_core)" using sample_core_ok by (simp add: core_ok_def)
  moreover have "\<forall>p. pending (txs sample_core p) \<noteq> [] \<longrightarrow> unat p < max_ethports sample_setup"
    by (simp add: sample_core_def pending_def empty_table_def)
  ultimately show ?thesis
    using drain_empties_buffers [of sample_core sample_setup 200]
    by (auto simp: sample_core_def sample_setup_def)
qed

text \<open>A station announces itself, and the next drain sends the answer.\<close>

lemma sample_run:
  "\<exists>c es. core_run sample_setup nid_A sample_core c [(env_of nid_A, True, sample_hello)] es
    \<and> pending (txs c 0) = [] \<and> length (hello_replies (port_addrs sample_setup) sample_hello) = 1"
proof -
  obtain x where x: "hello_replies (port_addrs sample_setup) sample_hello = [x]"
    and run: "get_trap_message (port_addrs sample_setup) (burst sample_setup 0) sample_hello (txs sample_core 0) =
      do { (q, es) \<leftarrow> send_single_packet (burst sample_setup 0) (txs sample_core 0) x; Some (x, q, es) }"
  proof -
    have "116 \<le> length (mdata sample_hello)" "get8 (mdata sample_hello) 14 = 0xa0"
      "station (mdata sample_hello) = Some 4" "slice (mdata sample_hello) 48 20 = trap_hello_sid"
      by code_simp+
    with that get_trap_message_run [of sample_hello] show ?thesis by (simp add: hello_replies_def)
  qed
  have v: "rd8 (mdata sample_hello) 14 = Some 0xa0" "in_port (env_of nid_A) = 0" "host (env_of nid_A) = nid_A"
    "rx_ipv4 sample_hello = False" by code_simp+
  have ok0: "queue_ok (txs sample_core 0)" using sample_core_ok by (simp add: core_ok_def queues_ok_def)
  obtain q es where q: "send_single_packet (burst sample_setup 0) (txs sample_core 0) x = Some (q, es)"
    using send_single_ok [OF ok0, of "burst sample_setup 0" x] by blast
  let ?m = "(env_of nid_A, True, sample_hello)"
  let ?c = "sample_core\<lparr>txs := (txs sample_core)(0 := q)\<rparr>"
  have "rx_ipv4 x = False" using x v(4) by (auto simp: hello_replies_def split: if_splits option.splits)
  then have "dispatch sample_setup (env_of nid_A) True sample_hello sample_core = Some (?c, map (Buffered 0) es)"
    using run q v by (simp add: dispatch_def dispatch_trap_def)
  then have "main_round sample_setup 50 [?m] sample_core = Some (?c, map (Buffered 0) es)"
    by (simp add: main_round_def drain_def sample_core_def sample_setup_def)
  from core_run.round [OF core_run.start _ this, of nid_A] v(3)
  have r1: "core_run sample_setup nid_A sample_core ?c [?m] (map (Buffered 0) es)" by simp
  have "core_ok nid_A ?c" using core_run_good [OF r1 sample_core_ok] by (simp add: good_step_def)
  then have "queues_ok (txs ?c)" by (simp add: core_ok_def)
  moreover have "\<forall>p. pending (txs ?c p) \<noteq> [] \<longrightarrow> unat p < max_ethports sample_setup"
    by (simp add: sample_core_def sample_setup_def pending_def empty_table_def)
  ultimately obtain c fs where "drain sample_setup 200 ?c = Some (c, fs)" "\<forall>p. pending (txs c p) = []"
    using drain_empties_buffers [of ?c sample_setup 200] by (auto simp: sample_core_def sample_setup_def)
  then have "main_round sample_setup 200 [] ?c = Some (c, fs)" by (simp add: main_round_def)
  from core_run.round [OF r1 _ this] have "core_run sample_setup nid_A sample_core c [?m] (map (Buffered 0) es @ fs)"
    by simp
  with \<open>\<forall>p. pending (txs c p) = []\<close> x show ?thesis by auto
qed

theorem main_loop_invariant_witness:
  "\<exists>c es. core_run sample_setup nid_A sample_core c [(env_of nid_A, True, sample_hello)] es \<and> core_ok nid_A c
    \<and> on_port 0 es = hello_replies (port_addrs sample_setup) sample_hello \<and> length (on_port 0 es) = 1"
proof -
  obtain c es where run: "core_run sample_setup nid_A sample_core c [(env_of nid_A, True, sample_hello)] es"
    and "pending (txs c 0) = []" "length (hello_replies (port_addrs sample_setup) sample_hello) = 1"
    using sample_run by blast
  moreover have "pending (txs sample_core 0) = []" by (simp add: sample_core_def pending_def empty_table_def)
  moreover have "in_port (env_of nid_A) = 0" by code_simp
  ultimately show ?thesis
    using main_loop_invariant [OF run sample_core_ok]
    by (intro exI [of _ c] exI [of _ es]) (auto dest: spec [of _ 0])
qed

section \<open>Packets nobody owns\<close>

definition flag_ok :: "mbuf \<Rightarrow> bool" where
  "flag_ok m \<longleftrightarrow> (rx_ipv4 m \<longrightarrow> drop_bit 4 (get8 (mdata m) 14) = 4)"

text \<open>The packets the code has a use for.\<close>

definition claimed :: "mbuf \<Rightarrow> bool" where
  "claimed m \<longleftrightarrow> (if rx_ipv4 m then get8 (mdata m) 34 \<in> {0xA0, CONTROL_PACKET}
     else station (mdata m) \<noteq> None
       \<and> (get8 (mdata m) 14 = 0xa0 \<and> slice (mdata m) 48 20 = trap_hello_sid
         \<or> get8 (mdata m) 14 = 0xa1 \<and> slice (mdata m) 48 20 = trap_hello_sid2))"

lemma dispatch_trap_ipv4:
  assumes "flag_ok m" and "rx_ipv4 m" and "15 \<le> length (mdata m)"
  shows "dispatch_trap s p m c = Some (m, c, [])"
proof -
  have "drop_bit 4 (get8 (mdata m) 14) = 4" using assms by (simp add: flag_ok_def)
  moreover have "drop_bit 4 (0xa0 :: u8) \<noteq> 4" "drop_bit 4 (0xa1 :: u8) \<noteq> 4" by simp_all
  ultimately have "get8 (mdata m) 14 \<noteq> 0xa0" "get8 (mdata m) 14 \<noteq> 0xa1" by metis+
  with assms(3) show ?thesis by (simp add: dispatch_trap_def buf_simps)
qed

lemma dispatch_trap_unclaimed:
  assumes "\<not> rx_ipv4 m" and "\<not> claimed m" and "136 \<le> length (mdata m)"
  shows "\<exists>m'. dispatch_trap s p m c = Some (m', c, []) \<and> \<not> rx_ipv4 m'"
proof -
  have [simp]: "c\<lparr>txs := txs c\<rparr> = c" "c\<lparr>traffic_seen := traffic_seen c\<rparr> = c" by simp_all
  consider "get8 (mdata m) 14 = 0xa0" | "get8 (mdata m) 14 = 0xa1"
    | "get8 (mdata m) 14 \<noteq> 0xa0" "get8 (mdata m) 14 \<noteq> 0xa1" by blast
  then show ?thesis
  proof cases
    case 1
    with assms have "slice (mdata m) 48 20 \<noteq> trap_hello_sid \<or> station (mdata m) = None"
      by (auto simp: claimed_def)
    with get_trap_message_run [OF _ 1] assms 1 show ?thesis
      by (auto simp: dispatch_trap_def buf_simps)
  next
    case 2
    with assms have "station (mdata m) = None \<or> slice (mdata m) 48 20 \<noteq> trap_hello_sid2"
      by (auto simp: claimed_def)
    with data_trap_message_run(1) [OF assms(3)] assms 2 show ?thesis
      by (simp add: dispatch_trap_def buf_simps)
  next
    case 3
    with assms show ?thesis by (simp add: dispatch_trap_def buf_simps)
  qed
qed

text \<open>The dispatch loses every packet it has no use for: an IPv4 packet whose CoLoR version is
  neither request nor control (a data packet \<open>0xA1\<close>, for instance), and any other frame that is
  not a message of a known monitoring station, is neither sent nor queued nor freed. Each such packet
  takes one buffer of the pool for good. A packet it has a use for leaves an event or a queued
  packet: a control packet is freed at the end, a request is sent or freed.\<close>

theorem unclaimed_packets_are_lost:
  assumes "flag_ok m" and "136 \<le> length (mdata m)"
  shows "(\<not> claimed m \<longrightarrow> dispatch s v opened m c = Some (c, []))
    \<and> (claimed m \<and> rx_ipv4 m \<and> dispatch s v opened m c = Some (c', es) \<longrightarrow>
        txs c' = txs c \<and> (\<exists>es' x. es = es' @ [x] \<and> (x = Drop m \<or> (\<exists>p m'. x = Direct p m'))
          \<and> (\<forall>y \<in> set es'. \<exists>e. y = Own e)))"
proof (rule conjI; rule impI)
  assume no: "\<not> claimed m"
  show "dispatch s v opened m c = Some (c, [])"
  proof (cases "rx_ipv4 m")
    case True
    with no assms show ?thesis
      by (simp add: dispatch_def dispatch_trap_ipv4 buf_simps claimed_def)
  next
    case False
    from dispatch_trap_unclaimed [OF False no assms(2), of s "in_port v" c] show ?thesis
      by (auto simp: dispatch_def)
  qed
next
  assume y: "claimed m \<and> rx_ipv4 m \<and> dispatch s v opened m c = Some (c', es)"
  then have t: "dispatch_trap s (in_port v) m c = Some (m, c, [])"
    using assms by (simp add: dispatch_trap_ipv4)
  have r: "rd8 (mdata m) 34 = Some (get8 (mdata m) 34)" using assms(2) by (simp add: buf_simps)
  from y have "get8 (mdata m) 34 = 0xA0 \<or> get8 (mdata m) 34 = CONTROL_PACKET"
    by (auto simp: claimed_def)
  then show "txs c' = txs c \<and> (\<exists>es' x. es = es' @ [x] \<and> (x = Drop m \<or> (\<exists>p m'. x = Direct p m'))
      \<and> (\<forall>y \<in> set es'. \<exists>e. y = Own e))"
  proof
    assume "get8 (mdata m) 34 = 0xA0"
    with y t r show ?thesis
      by (cases "get_packets_forward (port_addrs s) m (rr c)")
        (auto simp: dispatch_def split: verdict.splits)
  next
    assume "get8 (mdata m) 34 = CONTROL_PACKET"
    with y t r show ?thesis
      by (cases "handle_control v opened (mdata m) (rm c) (kept c)")
        (auto simp: dispatch_def CONTROL_PACKET_def)
  qed
qed

theorem unclaimed_packets_are_lost_witness:
  "dispatch sample_setup (env_of nid_A) True
     \<lparr>mid = 9, mdata = replicate 14 0 @ [0x45] @ replicate 19 0 @ [0xA1] @ replicate 120 0,
      data_len = 60, pkt_len = 60, rx_ipv4 = True\<rparr> sample_core = Some (sample_core, [])"
proof -
  let ?m = "\<lparr>mid = 9, mdata = replicate 14 0 @ [0x45] @ replicate 19 0 @ [0xA1] @ replicate 120 0,
      data_len = 60, pkt_len = 60, rx_ipv4 = True\<rparr> :: mbuf"
  have "flag_ok ?m" "\<not> claimed ?m" "136 \<le> length (mdata ?m)" by code_simp+
  with unclaimed_packets_are_lost [of ?m] show ?thesis by blast
qed

end
