(* ===== verification/Ndn_Routers.thy ===== *)
theory Ndn_Routers
  imports Prelude
begin

text \<open>
  The small Click elements beside the border router (\<open>border_router/local/\<close>): \<open>BasicRouter\<close>, \<open>RouterOne\<close> to \<open>RouterFour\<close>
  and \<open>APcache\<close>, which pass on packets of two types, interests (type 0) and data (type 1), by the port they come in by
  and a number in the packet; and the sources and sinks around them. A packet is the list of its bytes, and reading beyond
  its end is undefined. Counters that overflow are undefined as well.
\<close>

section \<open>Passing on\<close>

text \<open>What becomes of a packet: it is freed, sent through an output, or neither, and then lost with its memory.\<close>

datatype outcome = Killed | Sent nat bytes | Leaked

record ndn_router =
  nr_type :: u8
  nr_seq :: u8
  nr_resend :: u8
  nr_num :: u8

definition new_router :: ndn_router where
  "new_router = \<lparr>nr_type = 0, nr_seq = 0, nr_resend = 0, nr_num = 0\<rparr>"

definition BasicRouter_push :: "nat \<Rightarrow> bytes \<Rightarrow> ndn_router \<Rightarrow> (ndn_router \<times> outcome) option" where
  "BasicRouter_push port b r = do {
     t \<leftarrow> rd8 b 0;
     s \<leftarrow> rd8 b 1;
     e \<leftarrow> rd8 b 2;
     let r = r\<lparr>nr_type := t, nr_seq := s, nr_resend := e\<rparr>;
     Some (r, if port = 0 \<and> t = 1 then Killed
       else if port = 1 \<and> t = 0 then Killed
       else if port = 0 \<and> t = 0 then Sent 1 b
       else if port = 1 \<and> t = 1 then Sent 0 b
       else Leaked) }"

definition read_fields :: "bytes \<Rightarrow> ndn_router option" where
  "read_fields b = do {
     t \<leftarrow> rd8 b 0;
     s \<leftarrow> rd8 b 1;
     e \<leftarrow> rd8 b 2;
     n \<leftarrow> rd8 b 3;
     Some \<lparr>nr_type = t, nr_seq = s, nr_resend = e, nr_num = n\<rparr> }"

definition RouterOne_push :: "nat \<Rightarrow> bytes \<Rightarrow> ndn_router \<Rightarrow> (ndn_router \<times> outcome) option" where
  "RouterOne_push port b r = do {
     r \<leftarrow> read_fields b;
     let t = nr_type r;
     let n = nr_num r;
     Some (r, if port = 0 \<and> t = 0 then Killed
       else if (port = 1 \<or> port = 2) \<and> t = 1 then Killed
       else if (port = 1 \<or> port = 2) \<and> t = 0 then Sent 0 b
       else if port = 0 \<and> t = 1 then
         (if n = 1 then Sent 1 b else if n = 2 then Sent 2 b else Leaked)
       else Leaked) }"

definition RouterTwo_push :: "nat \<Rightarrow> bytes \<Rightarrow> ndn_router \<Rightarrow> (ndn_router \<times> outcome) option" where
  "RouterTwo_push port b r = do {
     r \<leftarrow> read_fields b;
     let t = nr_type r;
     let n = nr_num r;
     Some (r, if port = 0 \<and> t = 0 then Killed
       else if (port = 1 \<or> port = 2 \<or> port = 3) \<and> t = 1 then Killed
       else if (port = 1 \<or> port = 2 \<or> port = 3) \<and> t = 0 then Sent 0 b
       else if port = 0 \<and> t = 1 then
         (if n = 1 then Sent 1 b else if n = 2 then Sent 1 b else if n = 3 then Sent 2 b else if n = 4 then Sent 3 b else Leaked)
       else Leaked) }"

definition RouterThree_push :: "nat \<Rightarrow> bytes \<Rightarrow> ndn_router \<Rightarrow> (ndn_router \<times> outcome) option" where
  "RouterThree_push port b r = do {
     r \<leftarrow> read_fields b;
     let t = nr_type r;
     let n = nr_num r;
     Some (r, if (port = 0 \<or> port = 2 \<or> port = 3) \<and> t = 0 then Killed
       else if port = 1 \<and> t = 1 then Killed
       else if port = 1 \<and> t = 0 then
         (if n = 1 then Sent 2 b else if n = 2 then Sent 0 b else if n = 3 then Sent 3 b else if n = 4 then Sent 0 b else Leaked)
       else if (port = 0 \<or> port = 2 \<or> port = 3) \<and> t = 1 then Sent 1 b
       else Leaked) }"

definition RouterFour_push :: "nat \<Rightarrow> bytes \<Rightarrow> ndn_router \<Rightarrow> (ndn_router \<times> outcome) option" where
  "RouterFour_push port b r = do {
     r \<leftarrow> read_fields b;
     let t = nr_type r;
     let n = nr_num r;
     Some (r, if (port = 2 \<or> port = 3) \<and> t = 0 then Killed
       else if port = 1 \<and> t = 1 then Killed
       else if (port = 2 \<or> port = 3) \<and> t = 1 then Sent 1 b
       else if port = 1 \<and> t = 0 then (if n = 2 then Sent 2 b else if n = 4 then Sent 3 b else Leaked)
       else Leaked) }"

section \<open>The cache\<close>

text \<open>\<open>APcache\<close>. The flag \<open>incache\<close> is set by nothing. The packet that answers from the cache is made before the type and the
  sequence number are written to \<open>pkg\<close>.\<close>

record apcache =
  ac_pkg :: bytes
  ac_type :: u8
  ac_seq :: u8
  ac_interest :: int
  ac_data :: int
  ac_incache :: int

definition APcache_push :: "nat \<Rightarrow> bytes \<Rightarrow> apcache \<Rightarrow> (apcache \<times> outcome) option" where
  "APcache_push port b c = do {
     t \<leftarrow> rd8 b 0;
     s \<leftarrow> rd8 b 1;
     let c = c\<lparr>ac_type := t, ac_seq := s, ac_interest := (if t = 0 then 1 else 0), ac_data := (if t = 1 then 1 else 0)\<rparr>;
     if port = 0 \<and> ac_data c = 1 then Some (c, Killed)
     else if port = 1 \<and> ac_data c = 1 then Some (c, Sent 0 b)
     else if port = 0 \<and> ac_interest c = 1 then
       (if ac_incache c = 0 then Some (c, Sent 1 b)
        else if ac_incache c = 1 then do {
          let newpkg = ac_pkg c;
          p \<leftarrow> wr8 (ac_pkg c) 0 t;
          p \<leftarrow> wr8 p 1 s;
          Some (c\<lparr>ac_pkg := p\<rparr>, Sent 0 newpkg) }
        else Some (c, Leaked))
     else if port = 1 \<and> ac_interest c = 1 then Some (c, Killed)
     else Some (c, Leaked) }"

section \<open>Sources and sinks\<close>

definition Basic_push :: "bytes \<Rightarrow> bytes \<Rightarrow> outcome list" where
  "Basic_push pkg b = [Killed, Sent 0 pkg]"

record counter =
  PacketCount :: int
  PacketLength :: int

definition counted :: "counter \<Rightarrow> bytes \<Rightarrow> counter option" where
  "counted c b = do {
     guard (PacketCount c < 2 ^ 31 - 1);
     Some (c\<lparr>PacketCount := PacketCount c + 1, PacketLength := int (length b)\<rparr>) }"

definition Longpacket_push :: "bytes \<Rightarrow> counter \<Rightarrow> (counter \<times> outcome list) option" where
  "Longpacket_push b c = do {
     let newpkg = 0x41 # replicate 999999 0;
     c \<leftarrow> counted c newpkg;
     Some (c, [Killed, Sent 0 newpkg]) }"

text \<open>\<open>Server\<close> counts the packets and keeps them, \<open>Drop\<close> keeps them without counting.\<close>

definition Server_push :: "bytes \<Rightarrow> counter \<Rightarrow> (counter \<times> outcome) option" where
  "Server_push b c = do {
     c \<leftarrow> counted c b;
     Some (c, Leaked) }"

definition Drop_push :: "nat \<Rightarrow> bytes \<Rightarrow> outcome" where
  "Drop_push port b = Leaked"

text \<open>\<open>Shuai\<close> sends a packet of an identifier and 100 ones, annotated with a random address; \<open>rs\<close> are the values of \<open>rand\<close>.\<close>

definition Shuai_push :: "nat list \<Rightarrow> bytes \<Rightarrow> int \<Rightarrow> (int \<times> bytes \<times> outcome list) option" where
  "Shuai_push rs b finalsize = do {
     guard (length rs = 5 \<and> finalsize < 2 ^ 31 - 1);
     let ip = word_of_nat (rs ! 0 mod 223 + 1) # map (\<lambda>r. word_of_nat (r mod 256)) (take 3 (drop 1 rs));
     let pkg = le_bytes 4 (word_of_nat (rs ! 4 mod 5000) :: u32) @ replicate 100 1;
     Some (finalsize + 1, ip, [Killed, Sent 0 pkg]) }"

text \<open>\<open>SendData\<close> writes three letters at the front of the four bytes that \<open>push\<close> makes room for; \<open>room\<close> is their content.
  \<open>Client\<close> takes the first four bytes off and sends by the output that the first names; the array they are copied
  to holds 20 bytes, and there are four outputs.\<close>

definition SendData_push :: "bytes \<Rightarrow> bytes \<Rightarrow> outcome option" where
  "SendData_push room b = do {
     guard (length room = 4);
     b \<leftarrow> wrn (room @ b) 0 [0x41, 0x42, 0x43];
     Some (Sent 0 b) }"

definition Client_push :: "nat \<Rightarrow> bytes \<Rightarrow> outcome option" where
  "Client_push port b =
     (if port = 0 then do {
        guard (length b \<le> 20);
        a \<leftarrow> rd8 b 0;
        guard (4 \<le> length b);
        let outinterface = sint a - 48;
        guard (0 \<le> outinterface \<and> outinterface < 4);
        Some (Sent (nat outinterface) (drop 4 b)) }
      else Some Leaked)"

section \<open>Direction\<close>

text \<open>What the five routers have in common: a side of consumers and a side of producers. Interests pass from the first to the
  second and data from the second to the first, and what comes the wrong way is freed.\<close>

locale bridge =
  fixes push :: "nat \<Rightarrow> bytes \<Rightarrow> ndn_router \<Rightarrow> (ndn_router \<times> outcome) option" and consumers producers :: "nat set"
  assumes apart: "consumers \<inter> producers = {}"
    and sent: "push p b r = Some (r', Sent q b') \<Longrightarrow>
      b' = b \<and> (b ! 0 = 0 \<and> p \<in> consumers \<and> q \<in> producers \<or> b ! 0 = 1 \<and> p \<in> producers \<and> q \<in> consumers)"
    and killed: "push p b r = Some (r', x) \<Longrightarrow> x = Killed \<longleftrightarrow> b ! 0 = 0 \<and> p \<in> producers \<or> b ! 0 = 1 \<and> p \<in> consumers"
    and stateless: "push p b r = Some (r', x) \<Longrightarrow> \<exists>t'. push p b t = Some (t', x)"
begin

lemma not_back: "push p b r = Some (r', Sent q b') \<Longrightarrow> q \<noteq> p"
  using sent [of p b r r' q b'] apart by auto

lemma interest_not_killed: "push p b r = Some (r', x) \<Longrightarrow> b ! 0 = 0 \<Longrightarrow> p \<in> consumers \<Longrightarrow> x \<noteq> Killed"
  using killed [of p b r r' x] apart by auto

lemma data_not_killed: "push p b r = Some (r', x) \<Longrightarrow> b ! 0 = 1 \<Longrightarrow> p \<in> producers \<Longrightarrow> x \<noteq> Killed"
  using killed [of p b r r' x] apart by auto

end

lemma read_fields_Some: "read_fields b = Some r \<longleftrightarrow> 4 \<le> length b
    \<and> r = \<lparr>nr_type = b ! 0, nr_seq = b ! 1, nr_resend = b ! 2, nr_num = b ! 3\<rparr>"
  by (auto simp: read_fields_def rd8_def bind_eq_Some_conv)

lemmas ndn_defs = BasicRouter_push_def RouterOne_push_def RouterTwo_push_def RouterThree_push_def RouterFour_push_def
  read_fields_Some bind_eq_Some_conv Let_def

interpretation basic: bridge BasicRouter_push "{0}" "{1}"
  by unfold_locales (auto simp: ndn_defs rd8_def split: if_splits)

interpretation one: bridge RouterOne_push "{1, 2}" "{0}"
  by unfold_locales (auto simp: ndn_defs split: if_splits)

interpretation two: bridge RouterTwo_push "{1, 2, 3}" "{0}"
  by unfold_locales (auto simp: ndn_defs split: if_splits)

interpretation three: bridge RouterThree_push "{1}" "{0, 2, 3}"
  by unfold_locales (auto simp: ndn_defs split: if_splits)

interpretation four: bridge RouterFour_push "{1}" "{2, 3}"
  by unfold_locales (auto simp: ndn_defs split: if_splits)

section \<open>A path of routers\<close>

datatype ndn_kind = Basic_Router | Router_One | Router_Two | Router_Three | Router_Four

fun push_of :: "ndn_kind \<Rightarrow> nat \<Rightarrow> bytes \<Rightarrow> ndn_router \<Rightarrow> (ndn_router \<times> outcome) option" where
  "push_of Basic_Router = BasicRouter_push"
| "push_of Router_One = RouterOne_push"
| "push_of Router_Two = RouterTwo_push"
| "push_of Router_Three = RouterThree_push"
| "push_of Router_Four = RouterFour_push"

fun consumers_of :: "ndn_kind \<Rightarrow> nat set" where
  "consumers_of Basic_Router = {0}" | "consumers_of Router_One = {1, 2}" | "consumers_of Router_Two = {1, 2, 3}"
| "consumers_of Router_Three = {1}" | "consumers_of Router_Four = {1}"

fun producers_of :: "ndn_kind \<Rightarrow> nat set" where
  "producers_of Basic_Router = {1}" | "producers_of Router_One = {0}" | "producers_of Router_Two = {0}"
| "producers_of Router_Three = {0, 2, 3}" | "producers_of Router_Four = {2, 3}"

lemma bridge_of: "bridge (push_of k) (consumers_of k) (producers_of k)"
  by (cases k) (simp_all only: push_of.simps consumers_of.simps producers_of.simps
      basic.bridge_axioms one.bridge_axioms two.bridge_axioms three.bridge_axioms four.bridge_axioms)

text \<open>A line of routers in some states, with the links from the outputs of each to the inputs of the next.\<close>

fun carry :: "(ndn_kind \<times> ndn_router \<times> (nat \<Rightarrow> nat)) list \<Rightarrow> nat \<Rightarrow> bytes \<Rightarrow> outcome option" where
  "carry [] p b = Some (Sent p b)"
| "carry ((k, r, link) # hs) p b = do {
     (r, x) \<leftarrow> push_of k p b r;
     (case x of Sent q b' \<Rightarrow> carry hs (link q) b' | _ \<Rightarrow> Some x) }"

fun wired :: "(ndn_kind \<Rightarrow> nat set) \<Rightarrow> (ndn_kind \<Rightarrow> nat set) \<Rightarrow> (ndn_kind \<times> ndn_router \<times> (nat \<Rightarrow> nat)) list \<Rightarrow> bool" where
  "wired ins outs ((k, r, link) # (k', r', link') # hs) \<longleftrightarrow>
     (\<forall>q \<in> outs k. link q \<in> ins k') \<and> wired ins outs ((k', r', link') # hs)"
| "wired ins outs hs \<longleftrightarrow> True"

lemma push_of_defined: "4 \<le> length b \<Longrightarrow> \<exists>x. push_of k p b r = Some x"
  by (cases k) (auto simp: ndn_defs rd8_def)

text \<open>The table of the routers: the output for a packet of type \<open>t\<close> and number \<open>n\<close> that comes in on its proper side. One
  direction has a single output; in the other the number chooses.\<close>

fun numbered :: "ndn_kind \<Rightarrow> (u8 \<times> nat) list" where
  "numbered Basic_Router = []"
| "numbered Router_One = [(1, 1), (2, 2)]"
| "numbered Router_Two = [(1, 1), (2, 1), (3, 2), (4, 3)]"
| "numbered Router_Three = [(1, 2), (2, 0), (3, 3), (4, 0)]"
| "numbered Router_Four = [(2, 2), (4, 3)]"

fun exit_of :: "ndn_kind \<Rightarrow> u8 \<Rightarrow> u8 \<Rightarrow> nat option" where
  "exit_of Basic_Router t n = Some (if t = 0 then 1 else 0)"
| "exit_of Router_One t n = (if t = 0 then Some 0 else map_of (numbered Router_One) n)"
| "exit_of Router_Two t n = (if t = 0 then Some 0 else map_of (numbered Router_Two) n)"
| "exit_of Router_Three t n = (if t = 0 then map_of (numbered Router_Three) n else Some 1)"
| "exit_of Router_Four t n = (if t = 0 then map_of (numbered Router_Four) n else Some 1)"

text \<open>Where the table and the links lead; nowhere, if a router on the way does not know the number.\<close>

fun journey :: "(ndn_kind \<times> ndn_router \<times> (nat \<Rightarrow> nat)) list \<Rightarrow> u8 \<Rightarrow> u8 \<Rightarrow> nat \<Rightarrow> nat option" where
  "journey [] t n p = Some p"
| "journey ((k, r, link) # hs) t n p = do { q \<leftarrow> exit_of k t n; journey hs t n (link q) }"

lemma push_of_exit:
  assumes "t = 0 \<and> p \<in> consumers_of k \<or> t = 1 \<and> p \<in> producers_of k" and "b ! 0 = t" and "4 \<le> length b"
  shows "\<exists>r'. push_of k p b r = Some (r', case exit_of k t (b ! 3) of None \<Rightarrow> Leaked | Some q \<Rightarrow> Sent q b)"
  using assms by (cases k) (auto simp: ndn_defs rd8_def)

lemma carry_one_way:
  assumes "t = 0 \<and> ins = consumers_of \<and> outs = producers_of \<or> t = 1 \<and> ins = producers_of \<and> outs = consumers_of"
  shows "\<lbrakk>b ! 0 = t; 4 \<le> length b; wired ins outs hs; hs \<noteq> [] \<longrightarrow> p \<in> ins (fst (hd hs))\<rbrakk> \<Longrightarrow>
    carry hs p b = Some (case journey hs t (b ! 3) p of None \<Rightarrow> Leaked | Some q \<Rightarrow> Sent q b)"
proof (induction hs arbitrary: p)
  case (Cons h hs)
  obtain k r link where h: "h = (k, r, link)" by (cases h) auto
  have "p \<in> ins k" using Cons.prems(4) h by simp
  with assms push_of_exit [of t p k b r] Cons.prems(1,2) obtain r' where
    x: "push_of k p b r = Some (r', case exit_of k t (b ! 3) of None \<Rightarrow> Leaked | Some q \<Rightarrow> Sent q b)" by blast
  show ?case
  proof (cases "exit_of k t (b ! 3)")
    case None
    with h x show ?thesis by simp
  next
    case (Some q)
    with x have sent: "push_of k p b r = Some (r', Sent q b)" by simp
    have "q \<in> outs k" using bridge.sent [OF bridge_of sent] assms Cons.prems(1) by auto
    then have "hs \<noteq> [] \<longrightarrow> link q \<in> ins (fst (hd hs))" and "wired ins outs hs"
      using Cons.prems(3) h by (cases hs; auto)+
    from Cons.IH [OF Cons.prems(1,2) this(2,1)] show ?thesis using h sent Some by simp
  qed
qed simp

text \<open>C37: Interests and data pass a line of routers in one direction only, each by its own way. However routers of the five kinds
  are linked, as long as the producer side of each leads to the consumer side of the next, an interest that enters on the
  consumer side comes out, unchanged, where the table of the routers and the links lead for its number; if one
  router on the way does not know the number, and only then, it is lost there, and not freed. Likewise data in the other
  direction. What enters on the wrong side is freed by the first router.\<close>

theorem routers_keep_direction:
  assumes "4 \<le> length b" and "hs = (k, r, link) # hs'"
    and "b ! 0 = 0 \<and> ins = consumers_of \<and> outs = producers_of \<or> b ! 0 = 1 \<and> ins = producers_of \<and> outs = consumers_of"
    and "wired ins outs hs"
  shows "(p \<in> ins k \<longrightarrow> carry hs p b = Some (case journey hs (b ! 0) (b ! 3) p of None \<Rightarrow> Leaked | Some q \<Rightarrow> Sent q b))
    \<and> (p \<in> outs k \<longrightarrow> carry hs p b = Some Killed)"
proof (intro conjI impI)
  assume "p \<in> ins k"
  then show "carry hs p b = Some (case journey hs (b ! 0) (b ! 3) p of None \<Rightarrow> Leaked | Some q \<Rightarrow> Sent q b)"
    using carry_one_way [OF assms(3) refl assms(1,4)] assms(2) by simp
next
  assume p: "p \<in> outs k"
  obtain r' x where x: "push_of k p b r = Some (r', x)" using push_of_defined [OF assms(1)] by fast
  with bridge.killed [OF bridge_of x] assms(3) p have "x = Killed" by auto
  with x assms(2) show "carry hs p b = Some Killed" by simp
qed

text \<open>An interest of number 3 comes to output 3 of \<open>RouterThree\<close>, one of number 5 is lost there.\<close>

theorem routers_keep_direction_witness:
  "carry [(Router_Two, new_router, \<lambda>_. 1), (Router_Three, new_router, id)] 2 [0, 0, 0, 3] = Some (Sent 3 [0, 0, 0, 3])
    \<and> carry [(Router_Two, new_router, \<lambda>_. 1), (Router_Three, new_router, id)] 2 [0, 0, 0, 5] = Some Leaked
    \<and> carry [(Router_Two, new_router, \<lambda>_. 1), (Router_Three, new_router, id)] 0 [0, 0, 0, 3] = Some Killed"
proof -
  let ?hs = "[(Router_Two, new_router, \<lambda>_. 1), (Router_Three, new_router, id)]"
  have "wired consumers_of producers_of ?hs" by simp
  note step = routers_keep_direction [OF _ refl _ this]
  show ?thesis
    using step [of "[0, 0, 0, 3]" 2] step [of "[0, 0, 0, 5]" 2] step [of "[0, 0, 0, 3]" 0] by simp
qed

section \<open>The cache does not answer\<close>

fun cache_run :: "(nat \<times> bytes) list \<Rightarrow> apcache \<Rightarrow> (apcache \<times> outcome list) option" where
  "cache_run [] c = Some (c, [])"
| "cache_run ((p, b) # ps) c = do {
     (c, x) \<leftarrow> APcache_push p b c;
     (c, xs) \<leftarrow> cache_run ps c;
     Some (c, x # xs) }"

lemma APcache_as_BasicRouter:
  assumes "ac_incache c = 0" and "3 \<le> length b"
  shows "\<exists>c'. APcache_push p b c = Some (c', snd (the (BasicRouter_push p b new_router))) \<and> ac_incache c' = 0 \<and> ac_pkg c' = ac_pkg c"
  using assms by (auto simp: APcache_push_def BasicRouter_push_def rd8_def Let_def)

text \<open>C40: The cache is a plain router. Since nothing sets \<open>incache\<close>, the cache does with every sequence of packets what the basic router
  does. And if the flag were set, the packet it answers with would be the one prepared by the interest before: the answers lag behind by
  one, and have the type of an interest, so that the next router frees them as coming the wrong way.\<close>

theorem cache_never_answers:
  assumes "\<forall>(p, b) \<in> set ps. 3 \<le> length b" and "2 \<le> length (ac_pkg c)"
  shows "(ac_incache c = 0 \<longrightarrow> (\<exists>c'. cache_run ps c = Some (c', map (\<lambda>(p, b). snd (the (BasicRouter_push p b new_router))) ps)))
    \<and> (ac_incache c = 1 \<longrightarrow> (\<forall>s s' u u' r. \<exists>c' a a'. cache_run [(0, [0, s, u]), (0, [0, s', u'])] c = Some (c', [Sent 0 a, Sent 0 a'])
        \<and> a = ac_pkg c \<and> get8 a' 0 = 0 \<and> get8 a' 1 = s
        \<and> map_option snd (BasicRouter_push 1 a' r) = (if 3 \<le> length a' then Some Killed else None)))"
proof (intro conjI impI allI)
  assume "ac_incache c = 0"
  then show "\<exists>c'. cache_run ps c = Some (c', map (\<lambda>(p, b). snd (the (BasicRouter_push p b new_router))) ps)"
    using assms(1)
  proof (induction ps arbitrary: c)
    case (Cons pb ps)
    obtain p b where pb: "pb = (p, b)" by (cases pb) auto
    from Cons.prems pb have "3 \<le> length b" by simp
    with APcache_as_BasicRouter [OF Cons.prems(1), of b p] Cons.IH Cons.prems(2) pb show ?case by fastforce
  qed simp
next
  fix s s' u u' r
  assume c: "ac_incache c = 1"
  let ?a = "put (put (ac_pkg c) 0 [0]) 1 [s]"
  have g: "get8 ?a 0 = 0" "get8 ?a 1 = s" using assms(2) by (simp_all add: buf_simps)
  have "\<exists>c'. cache_run [(0, [0, s, u]), (0, [0, s', u'])] c = Some (c', [Sent 0 (ac_pkg c), Sent 0 ?a])"
    using c assms(2) by (simp add: APcache_push_def rd8_def Let_def buf_simps)
  moreover have "map_option snd (BasicRouter_push 1 ?a r) = (if 3 \<le> length ?a then Some Killed else None)"
    using g assms(2) by (simp add: BasicRouter_push_def buf_simps)
  ultimately show "\<exists>c' a a'. cache_run [(0, [0, s, u]), (0, [0, s', u'])] c = Some (c', [Sent 0 a, Sent 0 a'])
        \<and> a = ac_pkg c \<and> get8 a' 0 = 0 \<and> get8 a' 1 = s
        \<and> map_option snd (BasicRouter_push 1 a' r) = (if 3 \<le> length a' then Some Killed else None)"
    using g by blast
qed

definition new_cache :: "bytes \<Rightarrow> apcache" where
  "new_cache junk = \<lparr>ac_pkg = junk, ac_type = 0, ac_seq = 0, ac_interest = 0, ac_data = 0, ac_incache = 0\<rparr>"

theorem cache_never_answers_witness:
  "\<exists>c'. cache_run [(0, [0, 1, 2])] (new_cache (replicate 1000 0)) = Some (c', [Sent 1 [0, 1, 2]])"
proof -
  have "snd (the (BasicRouter_push 0 [0, 1, 2] new_router)) = Sent 1 [0, 1, 2]" by code_simp
  with cache_never_answers [of "[(0, [0, 1, 2])]" "new_cache (replicate 1000 0)"] show ?thesis by (simp add: new_cache_def)
qed

end
