(* ===== verification/Ntp.thy ===== *)
theory Ntp
  imports Wire_Records
begin

text \<open>
  The time query of a monitoring station, \<open>ntp.c\<close>: the request, the reception of the answer over the global
  \<open>new_pack\<close>, and the new time of the clock.

  The readings of \<open>time(NULL)\<close>, what becomes of the socket and the datagram that arrives are arguments. A
  \<open>long long\<close> outside its range is undefined. The program's own call of \<open>ntp_sync\<close> is a comment in this
  version of \<open>main.c\<close>.
\<close>

section \<open>The packet\<close>

definition From00to70 :: int where "From00to70 = 0x83aa7e80"

definition in_ll :: "int \<Rightarrow> int option" where
  "in_ll x = (if - (2 ^ 63) \<le> x \<and> x < 2 ^ 63 then Some x else None)"

text \<open>The members of \<open>NTP_PACKET\<close> that are 32-bit numbers, by their offsets; the two the computation uses.\<close>

definition word_offsets :: "nat list" where
  "word_offsets = [4, 8, 16, 20, 24, 28, 32, 36, 40, 44]"

abbreviation "ori_time_stamp_high \<equiv> 24 :: nat"
abbreviation "recv_time_stamp_high \<equiv> 32 :: nat"
abbreviation "tran_time_stamp_high \<equiv> 40 :: nat"

text \<open>\<open>NTP_Init\<close>: the packet to send and the first time stamp.\<close>

definition NTP_Init :: "int \<Rightarrow> (bytes \<times> int) option" where
  "NTP_Init now = do {
     first_time_stamp \<leftarrow> in_ll (From00to70 + now);
     let p = put (replicate 48 0) 0 [0x1b];
     Some (put p ori_time_stamp_high (le_bytes 4 (bswap32 (word_of_int first_time_stamp))), first_time_stamp) }"

text \<open>The \<open>ntohl\<close> assignments, in place.\<close>

definition ntoh_word :: "nat \<Rightarrow> bytes \<Rightarrow> bytes" where
  "ntoh_word p b = put b p (le_bytes 4 (bswap32 (get32 b p)))"

definition ntoh_all :: "bytes \<Rightarrow> bytes" where
  "ntoh_all b = fold ntoh_word word_offsets b"

section \<open>The query\<close>

datatype answer = No_Socket | Send_Failed | Select_Failed | Timeout | Recv_Failed | Datagram bytes

text \<open>The program ends with status 1, or the function returns 0: with the clock as it was, or set.\<close>

datatype sync = Exit_1 | Unchanged | Clock_Set int

record query =
  sent :: "bytes option"
  new_pack :: bytes
  outcome :: sync

text \<open>The new time in seconds, from the three readings of the clock and the two times in the answer.\<close>

definition new_time :: "int \<Rightarrow> int \<Rightarrow> int \<Rightarrow> bytes \<Rightarrow> int option" where
  "new_time first final now b = do {
     let recv_t = uint (get32 b recv_time_stamp_high);
     let tran_t = uint (get32 b tran_time_stamp_high);
     there \<leftarrow> in_ll (recv_t - first);
     back \<leftarrow> in_ll (tran_t - final);
     total \<leftarrow> in_ll (there + back);
     trip \<leftarrow> in_ll (there - back);
     let dif_time = total div 2;
     let delay_time = trip div 2;
     t \<leftarrow> in_ll (now + dif_time);
     in_ll (t + delay_time) }"

definition ntp_sync :: "string \<Rightarrow> int \<Rightarrow> int \<Rightarrow> int \<Rightarrow> answer \<Rightarrow> bytes \<Rightarrow> query option" where
  "ntp_sync rm_ip t1 t4 now a pack = do {
     guard (length rm_ip < 32);
     if a = No_Socket then Some \<lparr>sent = None, new_pack = pack, outcome = Exit_1\<rparr>
     else do {
       (ntp_pack, first) \<leftarrow> NTP_Init t1;
       case a of
         Timeout \<Rightarrow> Some \<lparr>sent = Some ntp_pack, new_pack = pack, outcome = Unchanged\<rparr>
       | Datagram d \<Rightarrow> do {
           final \<leftarrow> in_ll (t4 + From00to70);
           let b = ntoh_all (recvfrom pack d);
           t \<leftarrow> new_time first final now b;
           Some \<lparr>sent = Some ntp_pack, new_pack = b, outcome = Clock_Set t\<rparr> }
       | _ \<Rightarrow> Some \<lparr>sent = Some ntp_pack, new_pack = pack, outcome = Exit_1\<rparr> } }"

section \<open>Arithmetic\<close>

lemma halves: "(a + b) div 2 + (a - b) div 2 = a - (a + b) mod (2 :: int)"
  by presburger

lemma ntoh_get:
  "length b = 48 \<Longrightarrow> p \<in> {32, 40} \<Longrightarrow> get32 (ntoh_all b) p = bswap32 (get32 b p)"
  by (elim insertE emptyE) (simp_all add: ntoh_all_def word_offsets_def ntoh_word_def buf_simps)

text \<open>A time stamp in the answer of a server: the seconds since 1900, of which the packet holds 32 bits.\<close>

definition stamped :: "bytes \<Rightarrow> int \<Rightarrow> int \<Rightarrow> bool" where
  "stamped d recv_t tran_t \<longleftrightarrow> 48 \<le> length d \<and> bswap32 (get32 d recv_time_stamp_high) = word_of_int recv_t
     \<and> bswap32 (get32 d tran_time_stamp_high) = word_of_int tran_t"

lemma get32_recvfrom: "p + 4 \<le> length d \<Longrightarrow> p + 4 \<le> length b \<Longrightarrow> get32 (recvfrom b d) p = get32 d p"
  by (simp add: get32_def slice_recvfrom)

lemma un_le_zero [simp]: "un_le (replicate n 0) = 0"
  by (induction n) (simp_all add: un_le.simps)

lemma get32_zero [simp]: "p + 4 \<le> 48 \<Longrightarrow> get32 (replicate 48 0) p = 0"
  by (simp add: get32_def slice_def)

section \<open>The clock\<close>

text \<open>The time that is set: the time stamps of the server, with the parity lost by the two halves.\<close>

lemma new_time_eq:
  assumes "get32 b recv_time_stamp_high = r" and "get32 b tran_time_stamp_high = s"
    and "\<bar>first\<bar> < 2 ^ 60" and "\<bar>final\<bar> < 2 ^ 60" and "\<bar>now\<bar> < 2 ^ 60"
  shows "new_time first final now b
    = Some (now + (uint r - first) - ((uint r - first) + (uint s - final)) mod 2)"
proof -
  have w: "0 \<le> uint r" "uint r < 4294967296" "0 \<le> uint s" "uint s < 4294967296"
    using uint_lt2p [of r] uint_lt2p [of s] by simp_all
  let ?a = "uint r - first" and ?b = "uint s - final"
  have ab: "\<bar>?a\<bar> < 2 ^ 61" "\<bar>?b\<bar> < 2 ^ 61" using w assms(3,4) by (simp_all add: abs_less_iff; linarith)+
  then have t: "in_ll ?a = Some ?a" "in_ll ?b = Some ?b" "in_ll (?a + ?b) = Some (?a + ?b)"
    "in_ll (?a - ?b) = Some (?a - ?b)"
    by (simp_all add: in_ll_def abs_less_iff)
  have "\<bar>now + (?a + ?b) div 2\<bar> < 2 ^ 63" "\<bar>now + (?a + ?b) div 2 + (?a - ?b) div 2\<bar> < 2 ^ 63"
    using ab assms(5) by (simp_all add: abs_less_iff; linarith)+
  then have "in_ll (now + (?a + ?b) div 2) = Some (now + (?a + ?b) div 2)"
    "in_ll (now + (?a + ?b) div 2 + (?a - ?b) div 2) = Some (now + (?a + ?b) div 2 + (?a - ?b) div 2)"
    by (simp_all add: in_ll_def abs_less_iff)
  with t show ?thesis
    using halves [of ?a ?b] assms(1,2) by (simp add: new_time_def Let_def algebra_simps)
qed

text \<open>What a query does. A server address shorter than the buffer; then the request is 48 bytes, zero but for the mode and
  the time of sending; without a datagram the clock and the old packet stay as they are, and only a time-out lets the
  program go on; an answer of full length sets the clock by what the server took down at the arrival of the
  request, and by nothing else but a second lost to the parity.\<close>

theorem ntp_sync_sets_clock:
  assumes "length rm_ip < 32" and "length pack = 48" and "\<bar>t1\<bar> < 2 ^ 59" and "\<bar>t4\<bar> < 2 ^ 59" and "\<bar>now\<bar> < 2 ^ 60"
  shows "\<exists>q. ntp_sync rm_ip t1 t4 now a pack = Some q
    \<and> (sent q = None \<longleftrightarrow> a = No_Socket)
    \<and> (\<forall>p. sent q = Some p \<longrightarrow> length p = 48 \<and> get8 p 0 = 0x1b
         \<and> bswap32 (get32 p ori_time_stamp_high) = word_of_int (From00to70 + t1))
    \<and> ((\<forall>d. a \<noteq> Datagram d) \<longrightarrow> new_pack q = pack \<and> outcome q = (if a = Timeout then Unchanged else Exit_1))
    \<and> (\<forall>d r s. a = Datagram d \<and> stamped d r s \<longrightarrow>
         (let there = r mod 2 ^ 32 - (From00to70 + t1); back = s mod 2 ^ 32 - (t4 + From00to70)
          in outcome q = Clock_Set (now + there - (there + back) mod 2)))"
proof -
  let ?first = "From00to70 + t1" and ?final = "t4 + From00to70"
  have b: "\<bar>?first\<bar> < 2 ^ 60" "\<bar>?final\<bar> < 2 ^ 60" using assms(3,4) by (simp_all add: From00to70_def abs_less_iff)
  then have ll: "in_ll ?first = Some ?first" "in_ll ?final = Some ?final" by (simp_all add: in_ll_def abs_less_iff)
  define p where "p = put (put (replicate 48 0) 0 [0x1b]) ori_time_stamp_high (le_bytes 4 (bswap32 (word_of_int ?first)))"
  have init: "NTP_Init t1 = Some (p, ?first)" using ll(1) by (simp add: NTP_Init_def p_def Let_def)
  have p: "length p = 48" "get8 p 0 = 0x1b" "bswap32 (get32 p ori_time_stamp_high) = word_of_int ?first"
    by (simp_all add: p_def buf_simps)
  show ?thesis
  proof (cases a)
    case (Datagram d)
    let ?b = "ntoh_all (recvfrom pack d)"
    obtain t where t: "new_time ?first ?final now ?b = Some t"
      using new_time_eq [OF refl refl b assms(5), of ?b] by blast
    have "t = now + (r mod 2 ^ 32 - ?first) - ((r mod 2 ^ 32 - ?first) + (s mod 2 ^ 32 - ?final)) mod 2"
      if st: "stamped d r s" for r s
    proof -
      have "get32 ?b recv_time_stamp_high = word_of_int r" "get32 ?b tran_time_stamp_high = word_of_int s"
        using st assms(2) by (simp_all add: stamped_def ntoh_get get32_recvfrom)
      from new_time_eq [OF this b assms(5)] t show ?thesis by (simp add: unsigned_of_int take_bit_eq_mod)
    qed
    then show ?thesis
      using assms(1) init ll(2) t p Datagram by (simp add: ntp_sync_def Let_def)
  qed (use assms(1) init p in \<open>simp_all add: ntp_sync_def\<close>)
qed

theorem ntp_sync_sets_clock_witness:
  "\<exists>q. ntp_sync ''10.0.0.1'' 0 3 3 Timeout (replicate 48 0) = Some q \<and> outcome q = Unchanged
     \<and> (\<exists>p. sent q = Some p \<and> get8 p 0 = 0x1b)"
proof -
  obtain q where "ntp_sync ''10.0.0.1'' 0 3 3 Timeout (replicate 48 0) = Some q" "sent q \<noteq> None"
    "\<forall>p. sent q = Some p \<longrightarrow> length p = 48 \<and> get8 p 0 = 0x1b
       \<and> bswap32 (get32 p ori_time_stamp_high) = word_of_int (From00to70 + 0)" "outcome q = Unchanged"
    using ntp_sync_sets_clock [of "''10.0.0.1''" "replicate 48 0" 0 3 3 Timeout] by auto
  then show ?thesis by auto
qed

lemma bswap_eq: "bswap32 v = w \<longleftrightarrow> v = bswap32 w"
  by (metis bswap_bswap(2))

section \<open>Accuracy\<close>

text \<open>The part of the claims below: the clock after an answer of full length.\<close>

lemma ntp_sync_answer:
  assumes "length rm_ip < 32" and "length pack = 48" and "\<bar>t1\<bar> < 2 ^ 59" and "\<bar>t4\<bar> < 2 ^ 59" and "\<bar>now\<bar> < 2 ^ 60"
    and "get32 (recvfrom pack d) recv_time_stamp_high = bswap32 r" and "get32 (recvfrom pack d) tran_time_stamp_high = bswap32 s"
  shows "\<exists>q. ntp_sync rm_ip t1 t4 now (Datagram d) pack = Some q
    \<and> outcome q = Clock_Set (now + (uint r - (From00to70 + t1))
         - ((uint r - (From00to70 + t1)) + (uint s - (t4 + From00to70))) mod 2)"
proof -
  let ?first = "From00to70 + t1" and ?final = "t4 + From00to70"
  have b: "\<bar>?first\<bar> < 2 ^ 60" "\<bar>?final\<bar> < 2 ^ 60" using assms(3,4) by (simp_all add: From00to70_def abs_less_iff)
  then have ll: "in_ll ?first = Some ?first" "in_ll ?final = Some ?final" by (simp_all add: in_ll_def abs_less_iff)
  have "get32 (ntoh_all (recvfrom pack d)) recv_time_stamp_high = r" "get32 (ntoh_all (recvfrom pack d)) tran_time_stamp_high = s"
    using assms(2,6,7) by (simp_all add: ntoh_get)
  from new_time_eq [OF this b assms(5)] assms(1) ll show ?thesis
    by (simp add: ntp_sync_def NTP_Init_def Let_def)
qed

text \<open>The clock is set ahead by the delay of the request. Let the server's clock be ahead of the station's by
  \<open>theta\<close>, and let request and answer be under way for \<open>d1\<close> and \<open>d2\<close> seconds. If the answer comes before the
  32-bit time stamps wrap, the station's clock is then ahead of the server's by \<open>d1\<close>, less the parity of \<open>d1 + d2\<close>: it is right only if
  \<open>d2\<close> is even and \<open>d1\<close> is 0 or 1. (Adding the half of the two differences alone would leave half of \<open>d1 - d2\<close>; the
  code adds half of the round trip as well.) After \<open>e\<close> wraps of the time stamps, the clock is set back by \<open>e\<close>
  times \<open>2 ^ 32\<close> seconds, 136 years each.\<close>

theorem ntp_runs_ahead:
  assumes "length rm_ip < 32" and "length pack = 48" and "48 \<le> length d" and "0 \<le> t1" and "t1 \<le> t4" and "t4 < 2 ^ 59"
    and "0 \<le> d1" and "0 \<le> d2"
    and "stamped d (t1 + From00to70 + theta + d1) (t4 + From00to70 + theta - d2)"
    and "(t1 + From00to70 + theta + d1) div 2 ^ 32 = e" and "(t4 + From00to70 + theta - d2) div 2 ^ 32 = e"
  shows "\<exists>q. ntp_sync rm_ip t1 t4 t4 (Datagram d) pack = Some q
    \<and> outcome q = Clock_Set ((t4 + theta) + d1 - (d1 + d2) mod 2 - e * 2 ^ 32)"
proof -
  define r where "r = t1 + From00to70 + theta + d1"
  define s where "s = t4 + From00to70 + theta - d2"
  note st = assms(9) [folded r_def s_def, unfolded stamped_def]
  have "get32 (recvfrom pack d) recv_time_stamp_high = bswap32 (word_of_int r)"
    "get32 (recvfrom pack d) tran_time_stamp_high = bswap32 (word_of_int s)"
    using st assms(2) by (simp_all add: get32_recvfrom bswap_eq)
  from ntp_sync_answer [OF assms(1,2) _ _ _ this, of t1 t4 t4] assms(4,5,6)
  obtain q where q: "ntp_sync rm_ip t1 t4 t4 (Datagram d) pack = Some q"
    "outcome q = Clock_Set (t4 + (r mod 2 ^ 32 - (From00to70 + t1))
       - ((r mod 2 ^ 32 - (From00to70 + t1)) + (s mod 2 ^ 32 - (t4 + From00to70))) mod 2)"
    by (auto simp: unsigned_of_int take_bit_eq_mod)
  have "r mod 2 ^ 32 = r - e * 2 ^ 32" "s mod 2 ^ 32 = s - e * 2 ^ 32"
    using assms(10,11) by (simp_all add: r_def s_def minus_div_mult_eq_mod [symmetric])
  moreover have "((r - e * 2 ^ 32 - (From00to70 + t1)) + (s - e * 2 ^ 32 - (t4 + From00to70))) mod 2 = (d1 + d2) mod 2"
  proof -
    define k where "k = e * 2 ^ 31"
    have k: "e * 2 ^ 32 = 2 * k" by (simp add: k_def)
    show ?thesis unfolding r_def s_def k by presburger
  qed
  ultimately show ?thesis using q by (simp add: r_def)
qed

theorem ntp_runs_ahead_witness:
  "\<exists>d q. ntp_sync ''10.0.0.1'' 1000 1006 1006 (Datagram d) (replicate 48 0) = Some q \<and> outcome q = Clock_Set (1006 + 7 + 4)"
proof -
  let ?r = "1000 + From00to70 + 7 + 4" and ?s = "1006 + From00to70 + 7 - 2"
  let ?d = "put (put (replicate 48 0) recv_time_stamp_high (le_bytes 4 (bswap32 (word_of_int ?r))))
    tran_time_stamp_high (le_bytes 4 (bswap32 (word_of_int ?s)))"
  have d: "48 \<le> length ?d" by simp
  have st: "stamped ?d ?r ?s" by (simp add: stamped_def buf_simps)
  have "?r div 2 ^ 32 = 0" "?s div 2 ^ 32 = 0" by (simp_all add: From00to70_def)
  from ntp_runs_ahead [OF _ _ d _ _ _ _ _ st this, of "''10.0.0.1''" "replicate 48 0"]
  have "\<exists>q. ntp_sync ''10.0.0.1'' 1000 1006 1006 (Datagram ?d) (replicate 48 0) = Some q \<and> outcome q = Clock_Set (1006 + 7 + 4)"
    by simp
  then show ?thesis by blast
qed

text \<open>A datagram is believed whatever its length and its sender. If the first answer is empty, the buffer still holds the
  zeros it was linked with, and the clock is set to the first of January 1900; the call reports success.\<close>

theorem empty_answer_sets_1900:
  assumes "length rm_ip < 32" and "0 \<le> now" and "now < 2 ^ 59"
  shows "\<exists>q. ntp_sync rm_ip now now now (Datagram []) (replicate 48 0) = Some q
    \<and> outcome q = Clock_Set (- From00to70)"
proof -
  have "get32 (recvfrom (replicate 48 0) []) p = bswap32 0" if "p \<in> {32, 40}" for p
  proof -
    have "bswap32 0 = 0" by code_simp
    then show ?thesis using that by (auto simp: recvfrom_def)
  qed
  then have "get32 (recvfrom (replicate 48 0) []) recv_time_stamp_high = bswap32 0"
    "get32 (recvfrom (replicate 48 0) []) tran_time_stamp_high = bswap32 0" by blast+
  from ntp_sync_answer [OF assms(1) _ _ _ _ this, of now now now] assms(2,3) show ?thesis by auto
qed

theorem empty_answer_sets_1900_witness:
  "\<exists>q. ntp_sync ''10.0.0.1'' 1700000000 1700000000 1700000000 (Datagram []) (replicate 48 0) = Some q
     \<and> outcome q = Clock_Set (- From00to70)"
  using empty_answer_sets_1900 [of "''10.0.0.1''" 1700000000] by simp

end
