(* ===== verification/Port_Lists.thy ===== *)
theory Port_Lists
  imports C_Text
begin

text \<open>
  What a monitoring station keeps about its ports: the lists of \<open>list_handle.c\<close> (the destinations of a
  port and the ports that report), \<open>get_dest_ip\<close> of \<open>get_host_info.c\<close>, which fills them from the file
  \<open>port.lst\<close>, and \<open>search_port_index\<close>.

  The nodes are in a store; the kinds of nodes have a store each. Strings are the C strings in their
  fields. \<open>malloc\<close> gives ever new addresses; the content of a new node is an argument.
\<close>

section \<open>Nodes\<close>

type_synonym place = nat

record 'a cell =
  item :: 'a
  link :: "place option"

type_synonym 'a heap = "place \<Rightarrow> 'a cell option"

record dest_info =
  linkloss_trap_flag :: int
  linkdelay_trap_flag :: int
  dest_ip :: string

record state_info =
  dev_name :: string
  trap_level :: int
  trap_state :: u32

section \<open>Appending\<close>

text \<open>The loop that both functions begin with: from a node to the last one, unless one before the last is the
  same as the new one.\<close>

partial_function (option) walk :: "('a \<Rightarrow> bool) \<Rightarrow> 'a heap \<Rightarrow> place \<Rightarrow> (bool \<times> place) option" where
  "walk same h p = do {
     c \<leftarrow> h p;
     case link c of
       None \<Rightarrow> Some (False, p)
     | Some q \<Rightarrow> if same (item c) then Some (True, p) else walk same h q }"

declare walk.simps [code]

definition clear_dest :: "dest_info \<Rightarrow> dest_info" where
  "clear_dest x = x\<lparr>linkloss_trap_flag := 0, linkdelay_trap_flag := 0\<rparr>"

definition clear_state :: "state_info \<Rightarrow> state_info" where
  "clear_state x = x\<lparr>trap_level := 0, trap_state := 0\<rparr>"

definition add_dest_node :: "dest_info heap \<Rightarrow> place option \<Rightarrow> place \<Rightarrow> (dest_info heap \<times> place option) option" where
  "add_dest_node h head pnew = do {
     n \<leftarrow> h pnew;
     case head of
       None \<Rightarrow> Some (h(pnew \<mapsto> \<lparr>item = clear_dest (item n), link = None\<rparr>), Some pnew)
     | Some p \<Rightarrow> do {
         (repeated, p) \<leftarrow> walk (\<lambda>x. dest_ip x = dest_ip (item n)) h p;
         if repeated then Some (h, head)
         else do {
           c \<leftarrow> h p;
           if dest_ip (item c) \<noteq> dest_ip (item n) then do {
             let h = h(p \<mapsto> c\<lparr>link := Some pnew\<rparr>);
             n \<leftarrow> h pnew;
             Some (h(pnew \<mapsto> \<lparr>item = clear_dest (item n), link = None\<rparr>), head) }
           else Some (h, head) } } }"

text \<open>The second loop of \<open>add_state_node\<close> runs at most once.\<close>

definition add_state_node :: "state_info heap \<Rightarrow> place option \<Rightarrow> place \<Rightarrow> (state_info heap \<times> place option) option" where
  "add_state_node h head pnew = do {
     n \<leftarrow> h pnew;
     case head of
       None \<Rightarrow> Some (h(pnew \<mapsto> \<lparr>item = clear_state (item n), link = None\<rparr>), Some pnew)
     | Some p \<Rightarrow> do {
         (repetition, p) \<leftarrow> walk (\<lambda>x. dev_name x = dev_name (item n)) h p;
         if repetition then Some (h, head)
         else do {
           c \<leftarrow> h p;
           if dev_name (item c) = dev_name (item n) then Some (h, head)
           else do {
             let h = h(p \<mapsto> c\<lparr>link := Some pnew\<rparr>);
             n \<leftarrow> h pnew;
             Some (h(pnew \<mapsto> \<lparr>item = clear_state (item n), link = None\<rparr>), head) } } } }"

section \<open>Lists in the store\<close>

fun linked :: "'a heap \<Rightarrow> place option \<Rightarrow> place list \<Rightarrow> bool" where
  "linked h p [] \<longleftrightarrow> p = None"
| "linked h p (a # as) \<longleftrightarrow> p = Some a \<and> (\<exists>c. h a = Some c \<and> linked h (link c) as)"

definition items :: "'a heap \<Rightarrow> place list \<Rightarrow> 'a list" where
  "items h as = map (\<lambda>a. item (the (h a))) as"

text \<open>What the lists promise: a new element goes to the end, with its flags cleared, unless one with its key
  is there.\<close>

definition insert_new :: "('a \<Rightarrow> 'b) \<Rightarrow> 'a \<Rightarrow> 'a list \<Rightarrow> 'a list" where
  "insert_new key x xs = (if key x \<in> key ` set xs then xs else xs @ [x])"

definition holds_list :: "'a heap \<Rightarrow> place option \<Rightarrow> place set \<Rightarrow> 'a list \<Rightarrow> bool" where
  "holds_list h head A xs \<longleftrightarrow> (\<exists>as. linked h head as \<and> distinct as \<and> set as \<subseteq> A \<and> items h as = xs)"

lemma linked_cong: "(\<And>a. a \<in> set as \<Longrightarrow> h' a = h a) \<Longrightarrow> linked h' p as = linked h p as"
  by (induction as arbitrary: p) (auto cong: conj_cong)

lemma items_cong: "(\<And>a. a \<in> set as \<Longrightarrow> h' a = h a) \<Longrightarrow> items h' as = items h as"
  by (simp add: items_def)

lemma items_simps [simp]: "items h [] = []" "items h (a # as) = item (the (h a)) # items h as"
  "items h (as @ bs) = items h as @ items h bs"
  by (simp_all add: items_def)

lemma walk_spec:
  "linked h (Some a) (a # as) \<Longrightarrow>
   (\<exists>p. walk same h a = Some (True, p)) \<and> (\<exists>x \<in> set (items h (butlast (a # as))). same x)
   \<or> walk same h a = Some (False, last (a # as)) \<and> (\<forall>x \<in> set (items h (butlast (a # as))). \<not> same x)"
proof (induction as arbitrary: a)
  case Nil
  then show ?case by (auto simp: walk.simps [of same h a])
next
  case (Cons b as)
  then obtain c where c: "h a = Some c" "link c = Some b" "linked h (Some b) (b # as)" by auto
  show ?case
  proof (cases "same (item c)")
    case True
    with c show ?thesis by (auto simp: walk.simps [of same h a])
  next
    case False
    with c have "walk same h a = walk same h b" by (simp add: walk.simps [of same h a])
    with Cons.IH [OF c(3)] False c(1) show ?thesis by auto
  qed
qed

text \<open>Linking a new node behind the last one.\<close>

lemma linked_snoc:
  assumes "linked h p (as @ [a])" and "distinct (as @ [a])" and "b \<notin> set (as @ [a])" and "h a = Some c"
  shows "linked (h(a \<mapsto> c\<lparr>link := Some b\<rparr>, b \<mapsto> \<lparr>item = x, link = None\<rparr>)) p (as @ [a, b])"
  using assms(1-3)
proof (induction as arbitrary: p)
  case (Cons a' as)
  then show ?case by (auto simp: assms(4))
qed (auto simp: assms(4))

lemma items_snoc:
  assumes "distinct (as @ [a])" and "b \<notin> set (as @ [a])" and "h a = Some c"
  shows "items (h(a \<mapsto> c\<lparr>link := Some b\<rparr>, b \<mapsto> \<lparr>item = x, link = None\<rparr>)) (as @ [a, b]) = items h (as @ [a]) @ [x]"
proof -
  have "items (h(a \<mapsto> c\<lparr>link := Some b\<rparr>, b \<mapsto> \<lparr>item = x, link = None\<rparr>)) as = items h as"
    using assms(1,2) by (intro items_cong) auto
  then show ?thesis using assms by simp
qed

lemma holds_list_cong: "holds_list h head A xs \<Longrightarrow> (\<And>a. a \<in> A \<Longrightarrow> h' a = h a) \<Longrightarrow> holds_list h' head A xs"
  unfolding holds_list_def by (metis items_cong linked_cong subsetD)

lemma holds_list_mono: "holds_list h head A xs \<Longrightarrow> A \<subseteq> B \<Longrightarrow> holds_list h head B xs"
  unfolding holds_list_def by blast

lemma holds_list_Nil: "holds_list h None A []"
  unfolding holds_list_def by (rule exI [of _ "[]"]) simp

locale new_at_end =
  fixes add :: "'a heap \<Rightarrow> place option \<Rightarrow> place \<Rightarrow> ('a heap \<times> place option) option"
    and key :: "'a \<Rightarrow> string" and init :: "'a \<Rightarrow> 'a"
  assumes key_init: "key (init x) = key x"
    and add_spec: "holds_list h head A xs \<Longrightarrow> h pnew = Some n \<Longrightarrow> pnew \<notin> A \<Longrightarrow>
      \<exists>h' head'. add h head pnew = Some (h', head')
        \<and> holds_list h' head' (insert pnew A) (insert_new key (init (item n)) xs)
        \<and> (\<forall>a. a \<notin> insert pnew A \<longrightarrow> h' a = h a)"
begin

lemma add_new:
  assumes "holds_list h head A xs" and "p \<notin> A"
  shows "\<exists>h' head'. add (h(p \<mapsto> \<lparr>item = x, link = l\<rparr>)) head p = Some (h', head')
    \<and> holds_list h' head' (insert p A) (insert_new key (init x) xs) \<and> (\<forall>a. a \<notin> insert p A \<longrightarrow> h' a = h a)"
proof -
  let ?h = "h(p \<mapsto> \<lparr>item = x, link = l\<rparr>)"
  have "holds_list ?h head A xs" using assms by (intro holds_list_cong [OF assms(1)]) auto
  from add_spec [OF this, of p "\<lparr>item = x, link = l\<rparr>"] assms(2) show ?thesis by fastforce
qed

lemma keys_distinct: "distinct (map key xs) \<Longrightarrow> distinct (map key (insert_new key x xs))"
  by (auto simp: insert_new_def)

end

text \<open>Both functions are of this kind: the two shapes of their ends do the same.\<close>

lemma append_holds:
  assumes "holds_list h (Some a) A xs" and "h pnew = Some n" and "pnew \<notin> A" and "key (init (item n)) = key (item n)"
  shows "(\<exists>p. walk (\<lambda>x. key x = key (item n)) h a = Some (True, p)) \<and> insert_new key (init (item n)) xs = xs
    \<or> (\<exists>p c. walk (\<lambda>x. key x = key (item n)) h a = Some (False, p) \<and> h p = Some c \<and> p \<noteq> pnew \<and> p \<in> A
        \<and> (key (item c) = key (item n) \<and> insert_new key (init (item n)) xs = xs
          \<or> key (item c) \<noteq> key (item n) \<and> holds_list (h(p \<mapsto> c\<lparr>link := Some pnew\<rparr>, pnew \<mapsto> \<lparr>item = init (item n), link = None\<rparr>))
              (Some a) (insert pnew A) (insert_new key (init (item n)) xs)))"
proof -
  let ?same = "\<lambda>x. key x = key (item n)"
  obtain as' where as': "linked h (Some a) as'" "distinct as'" "set as' \<subseteq> A" "items h as' = xs"
    using assms(1) by (auto simp: holds_list_def)
  then obtain as where as: "as' = a # as" by (cases as') auto
  define bs where "bs = butlast (a # as)"
  define b where "b = last (a # as)"
  have split: "as' = bs @ [b]" unfolding as bs_def b_def by (metis append_butlast_last_id list.distinct(1))
  have "\<exists>c. h b = Some c"
  proof -
    have "linked h q as' \<Longrightarrow> x \<in> set as' \<Longrightarrow> \<exists>c. h x = Some c" for q x
      by (induction as' arbitrary: q) auto
    then show ?thesis using as'(1) split by auto
  qed
  then obtain c where c: "h b = Some c" by blast
  have xs: "xs = items h bs @ [item c]" using as'(4) c unfolding split by simp
  have b: "b \<in> A" "b \<noteq> pnew" using as'(3) split assms(3) by auto
  consider "\<exists>p. walk ?same h a = Some (True, p)" "\<exists>x \<in> set (items h bs). ?same x"
    | "walk ?same h a = Some (False, b)" "\<forall>x \<in> set (items h bs). \<not> ?same x"
    using walk_spec [of h a as ?same] as'(1) unfolding as bs_def b_def by blast
  then show ?thesis
  proof cases
    case 1
    from 1(2) obtain x where "x \<in> set (items h bs)" "key x = key (item n)" by blast
    then have "key (item n) \<in> key ` set xs" using xs by (metis Un_iff image_eqI set_append)
    with 1(1) assms(4) show ?thesis by (auto simp: insert_new_def)
  next
    case 2
    show ?thesis
    proof (cases "key (item c) = key (item n)")
      case True
      then have "key (item n) \<in> key ` set xs" using xs by force
      with True 2(1) b c assms(4) show ?thesis by (auto simp: insert_new_def)
    next
      case False
      let ?h = "h(b \<mapsto> c\<lparr>link := Some pnew\<rparr>, pnew \<mapsto> \<lparr>item = init (item n), link = None\<rparr>)"
      have d: "distinct (bs @ [b])" "pnew \<notin> set (bs @ [b])" using as'(2,3) split assms(3) by auto
      have "linked ?h (Some a) (bs @ [b, pnew])"
        using as'(1) d c unfolding split by (intro linked_snoc)
      moreover have "items ?h (bs @ [b, pnew]) = xs @ [init (item n)]"
        using items_snoc [of bs b pnew h c "init (item n)"] d c xs by simp
      moreover have "insert_new key (init (item n)) xs = xs @ [init (item n)]"
        using 2(2) False assms(4) xs by (auto simp: insert_new_def)
      moreover have "distinct (bs @ [b, pnew])" "set (bs @ [b, pnew]) \<subseteq> insert pnew A" using d as'(3) split by auto
      ultimately have "holds_list ?h (Some a) (insert pnew A) (insert_new key (init (item n)) xs)"
        unfolding holds_list_def by metis
      with False 2(1) b c show ?thesis by blast
    qed
  qed
qed

lemma holds_single: "holds_list (h(p \<mapsto> \<lparr>item = x, link = None\<rparr>)) (Some p) (insert p A) [x]"
  unfolding holds_list_def by (rule exI [of _ "[p]"]) simp

lemma holds_list_head: "holds_list h None A xs \<longleftrightarrow> xs = []"
proof -
  have "linked h None as \<longleftrightarrow> as = []" for as by (cases as) auto
  then show ?thesis by (auto simp: holds_list_def)
qed

interpretation dest: new_at_end add_dest_node dest_ip clear_dest
proof unfold_locales
  fix h :: "dest_info heap" and head A xs pnew and n :: "dest_info cell"
  assume a: "holds_list h head A xs" "h pnew = Some n" "pnew \<notin> A"
  have k: "dest_ip (clear_dest (item n)) = dest_ip (item n)" by (simp add: clear_dest_def)
  show "\<exists>h' head'. add_dest_node h head pnew = Some (h', head')
      \<and> holds_list h' head' (insert pnew A) (insert_new dest_ip (clear_dest (item n)) xs)
      \<and> (\<forall>a. a \<notin> insert pnew A \<longrightarrow> h' a = h a)"
  proof (cases head)
    case None
    then show ?thesis
      using a holds_single [of h pnew "clear_dest (item n)" A] by (auto simp: add_dest_node_def holds_list_head insert_new_def)
  next
    case (Some p)
    have mono: "holds_list h head (insert pnew A) xs" by (rule holds_list_mono [OF a(1)]) blast
    from append_holds [of h p A xs pnew n dest_ip clear_dest, OF a(1) [unfolded Some] a(2,3) k] Some a(2) mono
    show ?thesis by (auto simp: add_dest_node_def)
  qed
qed (simp add: clear_dest_def)

interpretation state: new_at_end add_state_node dev_name clear_state
proof unfold_locales
  fix h :: "state_info heap" and head A xs pnew and n :: "state_info cell"
  assume a: "holds_list h head A xs" "h pnew = Some n" "pnew \<notin> A"
  have k: "dev_name (clear_state (item n)) = dev_name (item n)" by (simp add: clear_state_def)
  show "\<exists>h' head'. add_state_node h head pnew = Some (h', head')
      \<and> holds_list h' head' (insert pnew A) (insert_new dev_name (clear_state (item n)) xs)
      \<and> (\<forall>a. a \<notin> insert pnew A \<longrightarrow> h' a = h a)"
  proof (cases head)
    case None
    then show ?thesis
      using a holds_single [of h pnew "clear_state (item n)" A] by (auto simp: add_state_node_def holds_list_head insert_new_def)
  next
    case (Some p)
    have mono: "holds_list h head (insert pnew A) xs" by (rule holds_list_mono [OF a(1)]) blast
    from append_holds [of h p A xs pnew n dev_name clear_state, OF a(1) [unfolded Some] a(2,3) k] Some a(2) mono
    show ?thesis by (auto simp: add_state_node_def)
  qed
qed (simp add: clear_state_def)


text \<open>The nodes as they are after they were put in.\<close>

definition dest_of :: "string \<Rightarrow> dest_info" where
  "dest_of ip = \<lparr>linkloss_trap_flag = 0, linkdelay_trap_flag = 0, dest_ip = ip\<rparr>"

definition state_of :: "string \<Rightarrow> state_info" where
  "state_of name = \<lparr>dev_name = name, trap_level = 0, trap_state = 0\<rparr>"

text \<open>The two list functions, on their own nodes: a new node goes to the end with its flags cleared if no node of the
  list has its address (or device name), otherwise the list stays as it is; the nodes that are not in the list are
  untouched, and the list never has a key twice.\<close>

theorem list_functions_insert:
  assumes "holds_list h head A xs" and "p \<notin> A" and "holds_list g first B ys" and "q \<notin> B"
  shows "(\<exists>h' head'. add_dest_node (h(p \<mapsto> \<lparr>item = x, link = l\<rparr>)) head p = Some (h', head')
      \<and> holds_list h' head' (insert p A) (insert_new dest_ip (clear_dest x) xs) \<and> (\<forall>a. a \<notin> insert p A \<longrightarrow> h' a = h a)
      \<and> (distinct (map dest_ip xs) \<longrightarrow> distinct (map dest_ip (insert_new dest_ip (clear_dest x) xs))))
    \<and> (\<exists>g' first'. add_state_node (g(q \<mapsto> \<lparr>item = y, link = k\<rparr>)) first q = Some (g', first')
      \<and> holds_list g' first' (insert q B) (insert_new dev_name (clear_state y) ys) \<and> (\<forall>a. a \<notin> insert q B \<longrightarrow> g' a = g a)
      \<and> (distinct (map dev_name ys) \<longrightarrow> distinct (map dev_name (insert_new dev_name (clear_state y) ys))))"
  using dest.add_new [OF assms(1,2), of x l] state.add_new [OF assms(3,4), of y k]
    dest.keys_distinct [of xs "clear_dest x"] state.keys_distinct [of ys "clear_state y"]
  by blast

theorem list_functions_insert_witness:
  "\<exists>h' head'. add_dest_node (Map.empty(0 \<mapsto> \<lparr>item = dest_of ''10.0.0.1'', link = None\<rparr>, 1 \<mapsto> \<lparr>item = dest_of ''10.0.0.2'', link = None\<rparr>))
      (Some 0) 1 = Some (h', head') \<and> holds_list h' head' {0, 1} [dest_of ''10.0.0.1'', dest_of ''10.0.0.2'']"
proof -
  let ?h = "Map.empty(0 \<mapsto> \<lparr>item = dest_of ''10.0.0.1'', link = None\<rparr>)"
  have "holds_list ?h (Some 0) {0} [dest_of ''10.0.0.1'']" using holds_single [of Map.empty 0 "dest_of ''10.0.0.1''" "{}"] by simp
  from list_functions_insert [OF this _ holds_list_Nil [of Map.empty "{}"], of 1 0 "dest_of ''10.0.0.2''" None "state_of ''eth0''" None]
  show ?thesis by (auto simp: insert_new_def dest_of_def clear_dest_def insert_commute)
qed

section \<open>The file of ports\<close>

abbreviation TAB :: char where "TAB \<equiv> CHR 0x09"

record port =
  p_name :: string
  p_type :: int
  p_dest :: "place option"

record station_ports =
  ports :: "port list"
  flag_list :: "bool list"
  dests :: "dest_info heap"
  states :: "state_info heap"
  state_head :: "place option"
  unused :: place

text \<open>A field up to a separator, into an array of \<open>room\<close> characters with its terminating zero.\<close>

function copy_until :: "char \<Rightarrow> string \<Rightarrow> nat \<Rightarrow> nat \<Rightarrow> (string \<times> nat) option" where
  "copy_until stop str i room =
     (if length str \<le> i \<or> room = 0 then None
      else if str ! i = stop then Some ([], i)
      else do { (w, j) \<leftarrow> copy_until stop str (i + 1) (room - 1); Some (str ! i # w, j) })"
  by pat_completeness auto
termination by (relation "measure (\<lambda>(_, str, i, _). length str - i)") auto

declare copy_until.simps [simp del]

definition c_str :: "string \<Rightarrow> string" where
  "c_str w = takeWhile (\<lambda>c. c \<noteq> NUL) w"

text \<open>A new node of the list of ports that report, appended.\<close>

definition new_state :: "state_info \<Rightarrow> string \<Rightarrow> station_ports \<Rightarrow> station_ports option" where
  "new_state junk name s = do {
     let h = (states s)(unused s \<mapsto> \<lparr>item = junk\<lparr>dev_name := name\<rparr>, link = None\<rparr>);
     (h, head) \<leftarrow> add_state_node h (state_head s) (unused s);
     Some (s\<lparr>states := h, state_head := head, unused := unused s + 1\<rparr>) }"

text \<open>A new destination of port \<open>j\<close>, whose list is set to empty the first time.\<close>

definition new_dest :: "dest_info \<Rightarrow> nat \<Rightarrow> string \<Rightarrow> station_ports \<Rightarrow> station_ports option" where
  "new_dest junk j ip s = do {
     guard (j < length (ports s) \<and> j < length (flag_list s));
     let h = (dests s)(unused s \<mapsto> \<lparr>item = junk\<lparr>dest_ip := ip\<rparr>, link = None\<rparr>);
     let p = ports s ! j;
     let head = (if flag_list s ! j then p_dest p else None);
     (h, head) \<leftarrow> add_dest_node h head (unused s);
     Some (s\<lparr>dests := h, ports := (ports s)[j := p\<lparr>p_dest := head\<rparr>], flag_list := (flag_list s)[j := True],
       unused := unused s + 1\<rparr>) }"

definition port_line :: "dest_info \<Rightarrow> state_info \<Rightarrow> string \<Rightarrow> station_ports \<Rightarrow> station_ports option" where
  "port_line junk_dest junk_state str s = do {
     guard (0 < length str);
     (w, i) \<leftarrow> copy_until TAB str 2 16;
     case List.find (\<lambda>j. c_str w = p_name (ports s ! j)) [0..<length (ports s)] of
       None \<Rightarrow> Some s
     | Some j \<Rightarrow> do {
         let t = char_int (str ! 0) - 48;
         let s = s\<lparr>ports := (ports s)[j := (ports s ! j)\<lparr>p_type := t\<rparr>]\<rparr>;
         s \<leftarrow> (if t = 1 then new_state junk_state (c_str w) s else Some s);
         (ip, _) \<leftarrow> copy_until NL str (i + 1) 16;
         new_dest junk_dest j (c_str ip) s } }"

function port_lines :: "dest_info \<Rightarrow> state_info \<Rightarrow> string \<Rightarrow> string \<Rightarrow> station_ports \<Rightarrow> station_ports option" where
  "port_lines junk_dest junk_state f str s =
     (let (str', f') = fgets 1024 f str in do {
        s \<leftarrow> port_line junk_dest junk_state str' s;
        if f' = [] then Some s else port_lines junk_dest junk_state f' str' s })"
  by pat_completeness auto
termination
proof (relation "measure (\<lambda>(_, _, f, _). length f)")
  fix f f' str str' :: string and r
  assume "r = fgets 1024 f str" "(str', f') = r" "f' \<noteq> []"
  moreover from this have "f \<noteq> []" by (auto simp: fgets_def)
  moreover from this have "fgets_line 1024 f \<noteq> []" by (cases f) (auto simp: fgets_line_def)
  ultimately show "((junk_dest, junk_state, f', str', s'), junk_dest, junk_state, f, str, s) \<in> measure (\<lambda>(_, _, f, _). length f)"
    for junk_dest junk_state s s'
    by (auto simp: fgets_def Let_def)
qed simp

declare port_lines.simps [simp del]

text \<open>No list is answered if the file cannot be opened.\<close>

definition get_dest_ip :: "dest_info \<Rightarrow> state_info \<Rightarrow> string option \<Rightarrow> string \<Rightarrow> station_ports \<Rightarrow> station_ports option" where
  "get_dest_ip junk_dest junk_state file str s =
     (let s = s\<lparr>flag_list := replicate 64 False, state_head := None\<rparr> in
      case file of None \<Rightarrow> Some s | Some f \<Rightarrow> port_lines junk_dest junk_state f str s)"

section \<open>What the file means\<close>

record port_entry =
  e_type :: nat
  e_sep :: char
  e_name :: string
  e_ip :: string

definition entry_line :: "port_entry \<Rightarrow> string" where
  "entry_line e = digit_char (e_type e) # e_sep e # e_name e @ TAB # e_ip e @ [NL]"

definition line_ok :: "port_entry \<Rightarrow> bool" where
  "line_ok e \<longleftrightarrow> e_type e < 10 \<and> e_sep e \<noteq> NL \<and> length (e_name e) \<le> 15 \<and> set (e_name e) \<inter> {TAB, NUL, NL} = {}
     \<and> length (e_ip e) \<le> 15 \<and> set (e_ip e) \<inter> {NUL, NL} = {}"

definition ins :: "string \<Rightarrow> string list \<Rightarrow> string list" where
  "ins x xs = (if x \<in> set xs then xs else xs @ [x])"

type_synonym port_view = "(string \<times> int \<times> string list) list \<times> string list"

definition find_port :: "string \<Rightarrow> (string \<times> int \<times> string list) list \<Rightarrow> nat option" where
  "find_port name ps = List.find (\<lambda>j. name = fst (ps ! j)) [0..<length ps]"

definition line_meaning :: "port_entry \<Rightarrow> port_view \<Rightarrow> port_view" where
  "line_meaning e v = (case v of (ps, ss) \<Rightarrow> (case find_port (e_name e) ps of
     None \<Rightarrow> (ps, ss)
   | Some j \<Rightarrow> (ps[j := (e_name e, int (e_type e), ins (e_ip e) (snd (snd (ps ! j))))],
       if e_type e = 1 then ins (e_name e) ss else ss)))"

definition head_of :: "station_ports \<Rightarrow> nat \<Rightarrow> place option" where
  "head_of s j = (if flag_list s ! j then p_dest (ports s ! j) else None)"

definition shows_port :: "station_ports \<Rightarrow> (nat \<Rightarrow> place set) \<Rightarrow> (string \<times> int \<times> string list) list \<Rightarrow> nat \<Rightarrow> bool" where
  "shows_port s A ps j \<longleftrightarrow> p_name (ports s ! j) = fst (ps ! j) \<and> p_type (ports s ! j) = fst (snd (ps ! j))
     \<and> holds_list (dests s) (head_of s j) (A j) (map dest_of (snd (snd (ps ! j)))) \<and> (\<forall>a \<in> A j. a < unused s)"

definition represents :: "station_ports \<Rightarrow> port_view \<Rightarrow> bool" where
  "represents s v \<longleftrightarrow> (case v of (ps, ss) \<Rightarrow> length (ports s) = length ps \<and> length ps \<le> 64 \<and> length (flag_list s) = 64
     \<and> (\<exists>A. (\<forall>j < length ps. shows_port s A ps j) \<and> (\<forall>i < length ps. \<forall>j < length ps. i \<noteq> j \<longrightarrow> A i \<inter> A j = {}))
     \<and> (\<exists>S. holds_list (states s) (state_head s) S (map state_of ss) \<and> (\<forall>a \<in> S. a < unused s)))"

lemma insert_new_map: "insert_new key (f x) (map f xs) = map f (ins x xs)" if "\<And>x. key (f x) = x"
  using that by (auto simp: insert_new_def ins_def image_image)

lemma find_port_Some: "find_port name ps = Some j \<Longrightarrow> j < length ps \<and> fst (ps ! j) = name"
  by (auto simp: find_port_def find_Some_iff)

lemma new_state_represents:
  assumes "represents s (ps, ss)"
  shows "\<exists>s'. new_state junk name s = Some s' \<and> represents s' (ps, ins name ss)"
proof -
  obtain A S where r: "length (ports s) = length ps" "length ps \<le> 64" "length (flag_list s) = 64"
    "\<forall>j < length ps. shows_port s A ps j" "\<forall>i < length ps. \<forall>j < length ps. i \<noteq> j \<longrightarrow> A i \<inter> A j = {}"
    "holds_list (states s) (state_head s) S (map state_of ss)" "\<forall>a \<in> S. a < unused s"
    using assms by (auto simp: represents_def)
  then have "unused s \<notin> S" by auto
  from state.add_new [OF r(6) this] obtain h head where
    h: "add_state_node ((states s)(unused s \<mapsto> \<lparr>item = junk\<lparr>dev_name := name\<rparr>, link = None\<rparr>)) (state_head s) (unused s) = Some (h, head)"
    "holds_list h head (insert (unused s) S) (insert_new dev_name (clear_state (junk\<lparr>dev_name := name\<rparr>)) (map state_of ss))"
    by blast
  have "clear_state (junk\<lparr>dev_name := name\<rparr>) = state_of name" by (simp add: clear_state_def state_of_def)
  then have "holds_list h head (insert (unused s) S) (map state_of (ins name ss))"
    using h(2) insert_new_map [of dev_name state_of name ss] by (simp add: state_of_def)
  moreover have "\<forall>a \<in> insert (unused s) S. a < unused s + 1" using r(7) by auto
  moreover have "shows_port (s\<lparr>states := h, state_head := head, unused := unused s + 1\<rparr>) A ps j" if "j < length ps" for j
    using r(4) that by (auto simp: shows_port_def head_of_def intro: less_SucI)
  ultimately show ?thesis
    using h(1) r(1,2,3,5)
    by (intro exI [of _ "s\<lparr>states := h, state_head := head, unused := unused s + 1\<rparr>"])
      (auto simp: new_state_def represents_def)
qed

lemma new_dest_represents:
  assumes "represents s (ps, ss)" and "j < length ps"
  shows "\<exists>s'. new_dest junk j ip s = Some s'
    \<and> represents s' (ps[j := (fst (ps ! j), fst (snd (ps ! j)), ins ip (snd (snd (ps ! j))))], ss)"
proof -
  obtain A S where r: "length (ports s) = length ps" "length ps \<le> 64" "length (flag_list s) = 64"
    "\<forall>j < length ps. shows_port s A ps j" "\<forall>i < length ps. \<forall>j < length ps. i \<noteq> j \<longrightarrow> A i \<inter> A j = {}"
    "holds_list (states s) (state_head s) S (map state_of ss)" "\<forall>a \<in> S. a < unused s"
    using assms(1) by (auto simp: represents_def)
  let ?ps = "ps[j := (fst (ps ! j), fst (snd (ps ! j)), ins ip (snd (snd (ps ! j))))]"
  let ?A = "A(j := insert (unused s) (A j))"
  have j: "holds_list (dests s) (head_of s j) (A j) (map dest_of (snd (snd (ps ! j))))" "\<forall>a \<in> A j. a < unused s"
    using r(4) assms(2) by (auto simp: shows_port_def)
  then have "unused s \<notin> A j" by auto
  from dest.add_new [OF j(1) this] obtain h head where
    h: "add_dest_node ((dests s)(unused s \<mapsto> \<lparr>item = junk\<lparr>dest_ip := ip\<rparr>, link = None\<rparr>)) (head_of s j) (unused s) = Some (h, head)"
    "holds_list h head (insert (unused s) (A j)) (insert_new dest_ip (clear_dest (junk\<lparr>dest_ip := ip\<rparr>)) (map dest_of (snd (snd (ps ! j)))))"
    "\<forall>a. a \<notin> insert (unused s) (A j) \<longrightarrow> h a = dests s a" by blast
  have "clear_dest (junk\<lparr>dest_ip := ip\<rparr>) = dest_of ip" by (simp add: clear_dest_def dest_of_def)
  then have new: "holds_list h head (insert (unused s) (A j)) (map dest_of (ins ip (snd (snd (ps ! j)))))"
    using h(2) insert_new_map [of dest_ip dest_of ip "snd (snd (ps ! j))"] by (simp add: dest_of_def)
  let ?s = "s\<lparr>dests := h, ports := (ports s)[j := (ports s ! j)\<lparr>p_dest := head\<rparr>], flag_list := (flag_list s)[j := True],
    unused := unused s + 1\<rparr>"
  have "shows_port ?s ?A ?ps i" if i: "i < length ps" for i
  proof (cases "i = j")
    case True
    have ps: "?ps ! j = (fst (ps ! j), fst (snd (ps ! j)), ins ip (snd (snd (ps ! j))))" using assms(2) by simp
    have port: "ports ?s ! j = (ports s ! j)\<lparr>p_dest := head\<rparr>" using r(1) assms(2) by simp
    have "p_name (ports s ! j) = fst (ps ! j)" "p_type (ports s ! j) = fst (snd (ps ! j))"
      using r(4) assms(2) by (simp_all add: shows_port_def)
    then have 1: "p_name (ports ?s ! j) = fst (?ps ! j)" "p_type (ports ?s ! j) = fst (snd (?ps ! j))"
      unfolding ps port by simp_all
    have "head_of ?s j = head" using r(1,2,3) assms(2) by (simp add: head_of_def)
    then have 2: "holds_list (dests ?s) (head_of ?s j) (?A j) (map dest_of (snd (snd (?ps ! j))))"
      unfolding ps using new by simp
    have 3: "\<forall>a \<in> ?A j. a < unused ?s" using j(2) by auto
    show ?thesis unfolding True shows_port_def using 1 2 3 by blast
  next
    case False
    have old: "p_name (ports s ! i) = fst (ps ! i)" "p_type (ports s ! i) = fst (snd (ps ! i))"
      "holds_list (dests s) (head_of s i) (A i) (map dest_of (snd (snd (ps ! i))))" "\<forall>a \<in> A i. a < unused s"
      using r(4) i unfolding shows_port_def by blast+
    have "A i \<inter> A j = {}" using r(5) i assms(2) False by blast
    then have "a \<notin> insert (unused s) (A j)" if "a \<in> A i" for a using that old(4) by blast
    then have "h a = dests s a" if "a \<in> A i" for a using h(3) that by blast
    from holds_list_cong [OF old(3) this]
    have "holds_list h (head_of s i) (A i) (map dest_of (snd (snd (ps ! i))))" .
    moreover have "head_of ?s i = head_of s i" "ports ?s ! i = ports s ! i" "?ps ! i = ps ! i" "?A i = A i" "dests ?s = h"
      using False by (simp_all add: head_of_def)
    moreover have "\<forall>a \<in> A i. a < unused ?s" using old(4) by auto
    ultimately show ?thesis unfolding shows_port_def using old(1,2) by simp
  qed
  moreover have "?A i \<inter> ?A k = {}" if "i < length ps" "k < length ps" "i \<noteq> k" for i k
  proof -
    have "unused s \<notin> A i" "unused s \<notin> A k" using r(4) that(1,2) by (auto simp: shows_port_def)
    moreover have "A i \<inter> A k = {}" using r(5) that by blast
    ultimately show ?thesis using that(3) by auto
  qed
  moreover have "\<forall>a \<in> S. a < unused s + 1" using r(7) by auto
  ultimately have "represents ?s (?ps, ss)"
    using r(1,2,3,6) unfolding represents_def prod.case length_list_update
    by (intro conjI exI [of _ ?A] exI [of _ S]) (simp_all del: fun_upd_apply)
  moreover have "new_dest junk j ip s = Some ?s"
    using h(1) r(1,2,3) assms(2) by (simp add: new_dest_def head_of_def)
  ultimately show ?thesis by blast
qed


lemma set_type_represents:
  assumes "represents s (ps, ss)" and "j < length ps"
  shows "represents (s\<lparr>ports := (ports s)[j := (ports s ! j)\<lparr>p_type := t\<rparr>]\<rparr>)
    (ps[j := (fst (ps ! j), t, snd (snd (ps ! j)))], ss)"
proof -
  obtain A S where r: "length (ports s) = length ps" "length ps \<le> 64" "length (flag_list s) = 64"
    "\<forall>j < length ps. shows_port s A ps j" "\<forall>i < length ps. \<forall>j < length ps. i \<noteq> j \<longrightarrow> A i \<inter> A j = {}"
    "holds_list (states s) (state_head s) S (map state_of ss)" "\<forall>a \<in> S. a < unused s"
    using assms(1) by (auto simp: represents_def)
  let ?s = "s\<lparr>ports := (ports s)[j := (ports s ! j)\<lparr>p_type := t\<rparr>]\<rparr>"
  have "shows_port ?s A (ps[j := (fst (ps ! j), t, snd (snd (ps ! j)))]) i" if "i < length ps" for i
    using r(1,4) that assms(2) by (cases "i = j") (auto simp: shows_port_def head_of_def)
  then show ?thesis using r by (auto simp: represents_def)
qed

lemma copy_until_field:
  "drop i str = w @ stop # cs \<Longrightarrow> stop \<notin> set w \<Longrightarrow> length w < room \<Longrightarrow>
   copy_until stop str i room = Some (w, i + length w) \<and> drop (i + length w + 1) str = cs"
proof (induction w arbitrary: i room)
  case Nil
  then show ?case using drop_split [of i str stop cs] by (subst copy_until.simps) simp
next
  case (Cons c w)
  have i: "i < length str" "str ! i = c" "drop (i + 1) str = w @ stop # cs"
    using drop_split [of i str] Cons.prems(1) by auto
  from Cons.IH [OF i(3), of "room - 1"] Cons.prems(2,3)
  have "copy_until stop str (i + 1) (room - 1) = Some (w, i + 1 + length w)" "drop (i + 1 + length w + 1) str = cs"
    by auto
  with i Cons.prems(2,3) show ?case by (subst copy_until.simps) auto
qed

lemma c_str_plain: "NUL \<notin> set w \<Longrightarrow> c_str w = w"
  unfolding c_str_def by (subst takeWhile_eq_all_conv) auto

lemma port_line_meaning:
  assumes "represents s v" and "line_ok e" and "str = entry_line e @ junk"
  shows "\<exists>s'. port_line junk_dest junk_state str s = Some s' \<and> represents s' (line_meaning e v)"
proof -
  obtain ps ss where v: "v = (ps, ss)" by (cases v)
  note rep = assms(1) [unfolded v]
  note ok = assms(2) [unfolded line_ok_def]
  have str: "0 < length str" "str ! 0 = digit_char (e_type e)" "drop 2 str = e_name e @ TAB # e_ip e @ NL # junk"
    by (simp_all add: assms(3) entry_line_def)
  have name: "TAB \<notin> set (e_name e)" "length (e_name e) < 16" "c_str (e_name e) = e_name e"
    and ip: "NL \<notin> set (e_ip e)" "length (e_ip e) < 16" "c_str (e_ip e) = e_ip e"
    using ok by (auto simp: c_str_plain)
  obtain i where i: "copy_until TAB str 2 16 = Some (e_name e, i)" "drop (i + 1) str = e_ip e @ NL # junk"
    using copy_until_field [OF str(3) name(1,2)] by blast
  obtain k where k: "copy_until NL str (i + 1) 16 = Some (e_ip e, k)"
    using copy_until_field [OF i(2) ip(1,2)] by blast
  have "length (ports s) = length ps" "\<forall>j < length ps. p_name (ports s ! j) = fst (ps ! j)"
    using rep by (auto simp: represents_def shows_port_def)
  then have "List.find (\<lambda>j. e_name e = p_name (ports s ! j)) [0..<length (ports s)] = find_port (e_name e) ps"
    unfolding find_port_def by (intro find_cong) auto
  note find = this
  show ?thesis
  proof (cases "find_port (e_name e) ps")
    case None
    then show ?thesis using rep str(1) i(1) name(3) find by (simp add: port_line_def line_meaning_def v)
  next
    case (Some j)
    then have j: "j < length ps" "fst (ps ! j) = e_name e" using find_port_Some by blast+
    have t: "char_int (str ! 0) - 48 = int (e_type e)"
      using ok str(2) by (simp add: char_int_def digit_char_def code_def)
    let ?s1 = "s\<lparr>ports := (ports s)[j := (ports s ! j)\<lparr>p_type := int (e_type e)\<rparr>]\<rparr>"
    let ?ps1 = "ps[j := (e_name e, int (e_type e), snd (snd (ps ! j)))]"
    let ?ss1 = "if e_type e = 1 then ins (e_name e) ss else ss"
    have 1: "represents ?s1 (?ps1, ss)" using set_type_represents [OF rep j(1)] j(2) by simp
    have "\<exists>s2. (if int (e_type e) = 1 then new_state junk_state (e_name e) ?s1 else Some ?s1) = Some s2
        \<and> represents s2 (?ps1, ?ss1)"
      using 1 new_state_represents [OF 1, of junk_state "e_name e"] by auto
    then obtain s2 where 2: "(if int (e_type e) = 1 then new_state junk_state (e_name e) ?s1 else Some ?s1) = Some s2"
      "represents s2 (?ps1, ?ss1)" by blast
    obtain s3 where 3: "new_dest junk_dest j (e_ip e) s2 = Some s3"
      "represents s3 (?ps1[j := (fst (?ps1 ! j), fst (snd (?ps1 ! j)), ins (e_ip e) (snd (snd (?ps1 ! j))))], ?ss1)"
      using new_dest_represents [OF 2(2), of j junk_dest "e_ip e"] j(1) by auto
    have "port_line junk_dest junk_state str s = Some s3"
      using str(1) i(1) k name(3) ip(3) find Some t 2(1) 3(1)
      by (cases "e_type e = 1") (simp_all add: port_line_def Let_def)
    moreover have "represents s3 (line_meaning e v)"
      using 3(2) j Some by (simp add: line_meaning_def v)
    ultimately show ?thesis by blast
  qed
qed

lemma port_lines_meaning:
  "es \<noteq> [] \<Longrightarrow> \<forall>e \<in> set es. line_ok e \<Longrightarrow> represents s v \<Longrightarrow>
   \<exists>s'. port_lines junk_dest junk_state (concat (map entry_line es)) str s = Some s' \<and> represents s' (fold line_meaning es v)"
proof (induction es arbitrary: str s v)
  case (Cons e es)
  let ?l = "digit_char (e_type e) # e_sep e # e_name e @ TAB # e_ip e" and ?f = "concat (map entry_line es)"
  have ok: "line_ok e" using Cons.prems(2) by simp
  have "digit_char (e_type e) \<noteq> NL"
    using ok digit_char_plain(1) [of "e_type e"] by (auto simp: line_ok_def isspace_def code_def)
  then have nl: "NL \<notin> set ?l" using ok by (auto simp: line_ok_def)
  have "length ?l + 1 < 1024" using ok by (simp add: line_ok_def)
  from fgets_line_text(1) [OF nl this, of ?f]
  have f: "fgets 1024 (concat (map entry_line (e # es))) str
      = (entry_line e @ NUL # drop (length (entry_line e) + 1) str, ?f)"
    by (simp add: fgets_def entry_line_def Let_def)
  obtain s1 where s1: "port_line junk_dest junk_state (entry_line e @ NUL # drop (length (entry_line e) + 1) str) s = Some s1"
    "represents s1 (line_meaning e v)"
    using port_line_meaning [OF Cons.prems(3) ok refl] by blast
  show ?case
  proof (cases "es = []")
    case True
    with f s1 show ?thesis by (subst port_lines.simps) simp
  next
    case False
    then have "?f \<noteq> []" by (cases es) (auto simp: entry_line_def)
    moreover obtain s' where "port_lines junk_dest junk_state ?f (entry_line e @ NUL # drop (length (entry_line e) + 1) str) s1 = Some s'"
      "represents s' (fold line_meaning es (line_meaning e v))"
      using Cons.IH [OF False _ s1(2)] Cons.prems(2) by auto
    ultimately show ?thesis using f s1(1) by (subst port_lines.simps) (auto simp del: concat_eq_Nil_conv)
  qed
qed simp


text \<open>C19: The file of ports gives the lists. For a file of well-formed lines (a digit, a separator, a device name and an address of at most
  15 characters) and a station of at most 64 ports, the function ends without an access
  out of bounds; a line for a device the station does not have changes nothing; otherwise it sets the kind of the port, and
  every port ends up with the addresses of its lines, each once and in the order of the file, with no flag
  set, and the devices of kind 1 are listed likewise. Whatever the pointers were before, no list is shared or lost.\<close>

theorem get_dest_ip_meaning:
  assumes "es \<noteq> []" and "\<forall>e \<in> set es. line_ok e" and "length (ports s) \<le> 64"
  shows "\<exists>s'. get_dest_ip junk_dest junk_state (Some (concat (map entry_line es))) str s = Some s'
    \<and> represents s' (fold line_meaning es (map (\<lambda>p. (p_name p, p_type p, [])) (ports s), []))"
proof -
  let ?s = "s\<lparr>flag_list := replicate 64 False, state_head := None\<rparr>"
  let ?v = "(map (\<lambda>p. (p_name p, p_type p, [])) (ports s), [] :: string list)"
  have "shows_port ?s (\<lambda>_. {}) (fst ?v) j" if "j < length (ports s)" for j
    using that assms(3) by (simp add: shows_port_def head_of_def holds_list_Nil)
  then have "represents ?s ?v"
    using assms(3) holds_list_Nil [of "states s" "{}"] by (auto simp: represents_def)
  from port_lines_meaning [OF assms(1,2) this] show ?thesis by (simp add: get_dest_ip_def)
qed

theorem get_dest_ip_meaning_witness:
  "\<exists>s'. get_dest_ip (dest_of []) (state_of []) (Some (concat (map entry_line
        [\<lparr>e_type = 1, e_sep = TAB, e_name = ''eth0'', e_ip = ''10.0.0.2''\<rparr>, \<lparr>e_type = 1, e_sep = TAB, e_name = ''eth0'', e_ip = ''10.0.0.3''\<rparr>])))
      [] \<lparr>ports = [\<lparr>p_name = ''eth0'', p_type = 0, p_dest = Some 7\<rparr>], flag_list = [], dests = Map.empty, states = Map.empty,
        state_head = None, unused = 0\<rparr> = Some s'
    \<and> represents s' ([(''eth0'', 1, [''10.0.0.2'', ''10.0.0.3''])], [''eth0''])"
proof -
  let ?e = "\<lambda>ip. \<lparr>e_type = 1, e_sep = TAB, e_name = ''eth0'', e_ip = ip\<rparr>"
  have "\<forall>e \<in> set [?e ''10.0.0.2'', ?e ''10.0.0.3'']. line_ok e" by (simp add: line_ok_def)
  from get_dest_ip_meaning [OF _ this, of "\<lparr>ports = [\<lparr>p_name = ''eth0'', p_type = 0, p_dest = Some 7\<rparr>], flag_list = [], dests = Map.empty,
      states = Map.empty, state_head = None, unused = 0\<rparr>" "dest_of []" "state_of []" "[]"]
  show ?thesis by (simp add: line_meaning_def find_port_def ins_def)
qed

section \<open>The shared names\<close>

partial_function (option) display_loop ::
  "state_info heap \<Rightarrow> place option \<Rightarrow> nat \<Rightarrow> string list \<Rightarrow> int \<Rightarrow> (string list \<times> int) option" where
  "display_loop h p i names n = (case p of
     None \<Rightarrow> Some (names, n)
   | Some a \<Rightarrow> do {
       c \<leftarrow> h a;
       guard (i < length names);
       display_loop h (link c) (i + 1) (names[i := dev_name (item c)]) (n + 1) })"

declare display_loop.simps [code]

text \<open>\<open>display_state_list\<close>: the names of the list into the shared structure, and their number added to its count.\<close>

definition display_state_list :: "state_info heap \<Rightarrow> place option \<Rightarrow> string list \<Rightarrow> int \<Rightarrow> (string list \<times> int) option" where
  "display_state_list h head names port_count = display_loop h head 0 names port_count"

text \<open>\<open>search_port_index\<close>: the first of the ports with the name.\<close>

definition search_port_index :: "string list \<Rightarrow> int \<Rightarrow> string \<Rightarrow> nat option option" where
  "search_port_index names port_count name = (case List.find (\<lambda>i. i \<ge> length names \<or> names ! i = name) [0..<nat port_count] of
     None \<Rightarrow> Some None
   | Some i \<Rightarrow> if i < length names then Some (Some i) else None)"

lemma display_loop_linked:
  "linked h p as \<Longrightarrow> i + length as \<le> length names \<Longrightarrow>
   display_loop h p i names n
     = Some (take i names @ map dev_name (items h as) @ drop (i + length as) names, n + int (length as))"
proof (induction as arbitrary: p i names n)
  case Nil
  then show ?case by (simp add: display_loop.simps)
next
  case (Cons a as)
  then obtain c where c: "p = Some a" "h a = Some c" "linked h (link c) as" by auto
  let ?names = "names[i := dev_name (item c)]"
  have "display_loop h (link c) (i + 1) ?names (n + 1)
      = Some (take (i + 1) ?names @ map dev_name (items h as) @ drop (i + 1 + length as) ?names, n + 1 + int (length as))"
    using Cons.prems(2) by (intro Cons.IH [OF c(3)]) simp
  moreover have "take (i + 1) ?names = take i names @ [dev_name (item c)]"
    using Cons.prems(2) by (simp add: take_Suc_conv_app_nth)
  ultimately show ?case using c(1,2) Cons.prems(2) by (subst display_loop.simps) simp
qed

lemma search_names:
  "length ss \<le> length names \<Longrightarrow> take (length ss) names = ss \<Longrightarrow>
   search_port_index names (int (length ss)) name = Some (List.find (\<lambda>i. ss ! i = name) [0..<length ss])"
proof -
  assume a: "length ss \<le> length names" "take (length ss) names = ss"
  have "names ! i = ss ! i" if "i < length ss" for i using a(2) that by (metis nth_take)
  then have "List.find (\<lambda>i. i \<ge> length names \<or> names ! i = name) [0..<length ss] = List.find (\<lambda>i. ss ! i = name) [0..<length ss]"
    using a(1) by (intro find_cong) auto
  note find = this
  show ?thesis
  proof (cases "List.find (\<lambda>i. ss ! i = name) [0..<length ss]")
    case None
    with find show ?thesis by (simp add: search_port_index_def)
  next
    case (Some i)
    then have "i < length names" using a(1) by (auto simp: find_Some_iff)
    with find Some show ?thesis by (simp add: search_port_index_def)
  qed
qed

text \<open>The shared structure finds the ports of the list. If the list of reporting ports holds at most 64 names, they are
  copied to the front of the shared structure in their order, with their number; then a name that is not in the list is not
  found, and a name of the list is found at its place.\<close>

theorem shared_names_found:
  assumes "holds_list h head S (map state_of ss)" and "distinct ss" and "length ss \<le> 64" and "length names = 64"
  shows "\<exists>names'. display_state_list h head names 0 = Some (names', int (length ss)) \<and> take (length ss) names' = ss
    \<and> (\<forall>name. name \<notin> set ss \<longrightarrow> search_port_index names' (int (length ss)) name = Some None)
    \<and> (\<forall>i < length ss. search_port_index names' (int (length ss)) (ss ! i) = Some (Some i))"
proof -
  obtain as where as: "linked h head as" "items h as = map state_of ss"
    using assms(1) by (auto simp: holds_list_def)
  have len: "length as = length ss" using arg_cong [OF as(2), of length] by (simp add: items_def)
  have "map dev_name (items h as) = ss" by (simp add: as(2) state_of_def comp_def)
  then have d: "display_state_list h head names 0 = Some (ss @ drop (length ss) names, int (length ss))"
    using display_loop_linked [OF as(1), of 0 names 0] assms(3,4) by (simp add: display_state_list_def len)
  let ?names = "ss @ drop (length ss) names"
  have s: "search_port_index ?names (int (length ss)) name = Some (List.find (\<lambda>i. ss ! i = name) [0..<length ss])" for name
    by (rule search_names) simp_all
  have "List.find (\<lambda>i. ss ! i = name) [0..<length ss] = None" if "name \<notin> set ss" for name
    using that by (auto simp: find_None_iff)
  moreover have "List.find (\<lambda>j. ss ! j = ss ! i) [0..<length ss] = Some i" if "i < length ss" for i
    using that assms(2) by (auto simp: find_Some_iff nth_eq_iff_index_eq)
  ultimately show ?thesis using d s by (intro exI [of _ ?names]) simp
qed

theorem shared_names_found_witness:
  "\<exists>names'. display_state_list (Map.empty(0 \<mapsto> \<lparr>item = state_of ''eth0'', link = None\<rparr>)) (Some 0) (replicate 64 []) 0 = Some (names', 1)
    \<and> search_port_index names' 1 ''eth1'' = Some None \<and> search_port_index names' 1 ''eth0'' = Some (Some 0)"
proof -
  have "holds_list (Map.empty(0 \<mapsto> \<lparr>item = state_of ''eth0'', link = None\<rparr>)) (Some 0) {0} (map state_of [''eth0''])"
    using holds_single [of Map.empty 0 "state_of ''eth0''" "{}"] by simp
  from shared_names_found [OF this, of "replicate 64 []"] show ?thesis by auto
qed

end
