(* ===== verification/Rm_Args.thy ===== *)
theory Rm_Args
  imports C_Text
begin

text \<open>
  The command line of the resource manager (\<open>RM/main.c\<close>): \<open>parse_max_pkt_len\<close>,
  \<open>parse_portmask\<close>, \<open>parse_hash_entry_number\<close>, \<open>parse_config\<close> and \<open>parse_args\<close>.

  \<open>getopt_long\<close> is represented by the options it recognises, in their order. DPDK's
  \<open>rte_strsplit\<close> is an argument; its documented behaviour on three fields is \<open>splits_fields\<close>.
\<close>

section \<open>Numbers\<close>

text \<open>The three parsers of numbers; the \<open>unsigned long\<close> is returned as an \<open>int\<close>.\<close>

definition parse_number :: "nat \<Rightarrow> string \<Rightarrow> int" where
  "parse_number base s = (let (v, end, range) = strtoul base s in
     if s = [] \<or> end \<noteq> [] then -1 else if v = 0 then -1 else sint (ucast v :: u32))"

definition parse_max_pkt_len :: "string \<Rightarrow> int" where
  "parse_max_pkt_len pktlen = parse_number 10 pktlen"

definition parse_portmask :: "string \<Rightarrow> int" where
  "parse_portmask portmask = parse_number 16 portmask"

definition parse_hash_entry_number :: "string \<Rightarrow> int" where
  "parse_hash_entry_number hash_entry_num = parse_number 16 hash_entry_num"

section \<open>Queues\<close>

record lcore_params =
  port_id :: u8
  queue_id :: u8
  lcore_id :: u8

definition MAX_LCORE_PARAMS :: nat where "MAX_LCORE_PARAMS = 1024"

definition lcore_params_array_default :: "lcore_params list" where
  "lcore_params_array_default = map (\<lambda>(p, q, l). \<lparr>port_id = p, queue_id = q, lcore_id = l\<rparr>)
     [(0, 0, 2), (0, 1, 2), (0, 2, 2), (1, 0, 2), (1, 1, 2), (1, 2, 2), (2, 0, 2), (3, 0, 3), (3, 1, 3)]"

text \<open>The loop over the fields, which stops at the first bad one.\<close>

fun parse_fields :: "string list \<Rightarrow> u64 list option" where
  "parse_fields [] = Some []"
| "parse_fields (f # fs) = (let (v, end, range) = strtoul 0 f in
     if range \<or> end = f \<or> v > 255 then None
     else case parse_fields fs of None \<Rightarrow> None | Some vs \<Rightarrow> Some (v # vs))"

lemma strchr_length: "strchr c s = Some t \<Longrightarrow> length t \<le> length s \<and> t \<noteq> []"
  by (induction s) (auto split: if_splits)

function parse_config_loop :: "(string \<Rightarrow> string list) \<Rightarrow> string \<Rightarrow> lcore_params list \<Rightarrow>
    int \<times> lcore_params list" where
  "parse_config_loop strsplit p0 params =
     (case strchr (CHR ''('') p0 of
        None \<Rightarrow> (0, params)
      | Some q \<Rightarrow> let p = tl q in
        (case strchr (CHR '')'') p of
           None \<Rightarrow> (-1, params)
         | Some p0' \<Rightarrow>
           let size = length p - length p0' in
           if 256 \<le> size then (-1, params)
           else let str_fld = strsplit (take size p) in
           if length str_fld \<noteq> 3 then (-1, params)
           else case parse_fields str_fld of
             None \<Rightarrow> (-1, params)
           | Some int_fld \<Rightarrow>
             if MAX_LCORE_PARAMS \<le> length params then (-1, params)
             else parse_config_loop strsplit p0' (params @
               [\<lparr>port_id = ucast (int_fld ! 0), queue_id = ucast (int_fld ! 1),
                 lcore_id = ucast (int_fld ! 2)\<rparr>])))"
  by pat_completeness auto
termination
proof (relation "measure (\<lambda>(strsplit, p0, params). length p0)")
  show "wf (measure (\<lambda>(strsplit :: string \<Rightarrow> string list, p0 :: string,
      params :: lcore_params list). length p0))" by simp
next
  fix p0 q p p0' :: string and strsplit :: "string \<Rightarrow> string list"
    and params params' :: "lcore_params list"
  assume "strchr (CHR ''('') p0 = Some q" and "p = tl q" and "strchr (CHR '')'') p = Some p0'"
  with strchr_length [of "CHR ''(''" p0 q] strchr_length [of "CHR '')''" p p0'] have "length p0' < length p0"
    by (cases q) auto
  then show "((strsplit, p0', params'), (strsplit, p0, params))
      \<in> measure (\<lambda>(strsplit, p0, params). length p0)" by simp
qed

declare parse_config_loop.simps [simp del]

definition parse_config :: "(string \<Rightarrow> string list) \<Rightarrow> string \<Rightarrow> int \<times> lcore_params list" where
  "parse_config strsplit q_arg = parse_config_loop strsplit q_arg []"

section \<open>Options\<close>

datatype arg = Opt_p string | Opt_P | Config string | No_numa | Ipv6 | Enable_jumbo
  | Hash_entry_num string | Max_pkt_len string | Unknown

record options =
  port_mask :: u32
  promiscuous_on :: bool
  numa_on :: bool
  ipv6_on :: bool
  jumbo_frame :: bool
  max_rx_pkt_len :: int
  hash_entry_number :: u32
  lcore_params_of :: "lcore_params list"

definition MAX_JUMBO_PKT_LEN :: int where "MAX_JUMBO_PKT_LEN = 9600"

text \<open>\<open>parse_args\<close>: \<open>None\<close> for a refused command line. After \<open>--enable-jumbo\<close> a second, nested
  \<open>getopt_long\<close> with only \<open>--max-pkt-len\<close> looks at the next argument, and consumes it whatever it
  is.\<close>

fun parse_args :: "(string \<Rightarrow> string list) \<Rightarrow> arg list \<Rightarrow> options \<Rightarrow> options option" where
  "parse_args strsplit [] opts = Some opts"
| "parse_args strsplit (Opt_p s # as) opts = (let m = word_of_int (parse_portmask s) in
     if m = 0 then None else parse_args strsplit as (opts\<lparr>port_mask := m\<rparr>))"
| "parse_args strsplit (Opt_P # as) opts = parse_args strsplit as (opts\<lparr>promiscuous_on := True\<rparr>)"
| "parse_args strsplit (Config s # as) opts = (let (ret, params) = parse_config strsplit s in
     if ret \<noteq> 0 then None else parse_args strsplit as (opts\<lparr>lcore_params_of := params\<rparr>))"
| "parse_args strsplit (No_numa # as) opts = parse_args strsplit as (opts\<lparr>numa_on := False\<rparr>)"
| "parse_args strsplit (Ipv6 # as) opts = parse_args strsplit as (opts\<lparr>ipv6_on := True\<rparr>)"
| "parse_args strsplit (Enable_jumbo # as) opts = (let opts = opts\<lparr>jumbo_frame := True\<rparr> in
     case as of
       [] \<Rightarrow> Some opts
     | a # as' \<Rightarrow> (case a of
         Max_pkt_len s \<Rightarrow> (let ret = parse_max_pkt_len s in
           if ret < 64 \<or> ret > MAX_JUMBO_PKT_LEN then None
           else parse_args strsplit as' (opts\<lparr>max_rx_pkt_len := ret\<rparr>))
       | _ \<Rightarrow> parse_args strsplit as' opts))"
| "parse_args strsplit (Hash_entry_num s # as) opts = (let ret = parse_hash_entry_number s in
     if 0 < ret \<and> ret \<le> 1024 * 1024 * 4
     then parse_args strsplit as (opts\<lparr>hash_entry_number := word_of_int ret\<rparr>) else None)"
| "parse_args strsplit (Max_pkt_len s # as) opts = None"
| "parse_args strsplit (Unknown # as) opts = None"

section \<open>Numbers: round trip and refusals\<close>

lemma parse_number_numeral:
  assumes "b \<in> {10, 16}" and "0 < n" and "n < 2 ^ 31"
  shows "parse_number b (numeral_of b n) = int n"
proof -
  have "strtoul b (numeral_of b n) = (word_of_nat n, [], False)"
    using assms by (intro strtoul_numeral) auto
  moreover have "(word_of_nat n :: u64) \<noteq> 0"
    using assms(2,3) by (simp add: word_of_nat_eq_0_iff nat_dvd_not_less)
  moreover have "sint (word_of_nat n :: u32) = int n"
    using assms(3) by (simp add: signed_of_nat signed_take_bit_int_eq_self)
  moreover have "ucast (word_of_nat n :: u64) = (word_of_nat n :: u32)"
    using assms(3) by (simp add: unsigned_of_nat take_bit_nat_eq_self)
  ultimately show ?thesis by (simp add: parse_number_def)
qed

text \<open>The number parsers read back what was printed: a number below \<open>2^31\<close> other than zero, written
  in lower-case hexadecimal for \<open>parse_portmask\<close> and \<open>parse_hash_entry_number\<close> or in decimal for
  \<open>parse_max_pkt_len\<close>, is returned as it is.\<close>

theorem parse_numbers_roundtrip:
  assumes "0 < n" and "n < 2 ^ 31"
  shows "parse_portmask (numeral_of 16 n) = int n \<and> parse_hash_entry_number (numeral_of 16 n) = int n
    \<and> parse_max_pkt_len (numeral_of 10 n) = int n"
  using assms
  by (simp add: parse_portmask_def parse_hash_entry_number_def parse_max_pkt_len_def
      parse_number_numeral)

theorem parse_numbers_roundtrip_witness: "parse_portmask ''ff0'' = 0xff0"
proof -
  have "numeral_of 16 0xff0 = ''ff0''"
    by code_simp
  with parse_numbers_roundtrip [of "0xff0"] show ?thesis by simp
qed

text \<open>A malformed port mask is accepted as the mask of all ports. \<open>parse_portmask\<close> reports an error
  with -1, which becomes \<open>0xffffffff\<close> in \<open>enabled_port_mask\<close>; the test for zero that should refuse it
  never sees it. So every string that is empty, has trailing characters or denotes zero enables all
  ports.\<close>

theorem bad_portmask_enables_all:
  assumes "s = [] \<or> fst (snd (strtoul 16 s)) \<noteq> [] \<or> fst (strtoul 16 s) = 0"
  shows "parse_args strsplit (Opt_p s # as) opts = parse_args strsplit as (opts\<lparr>port_mask := 0xffffffff\<rparr>)"
proof -
  have "parse_portmask s = -1"
    using assms by (auto simp: parse_portmask_def parse_number_def split: prod.splits)
  then have "(word_of_int (parse_portmask s) :: u32) = 0xffffffff" by simp
  then show ?thesis unfolding parse_args.simps Let_def by simp
qed

theorem bad_portmask_enables_all_witness:
  "\<forall>strsplit as opts. parse_args strsplit (Opt_p ''0xg'' # as) opts =
     parse_args strsplit as (opts\<lparr>port_mask := 0xffffffff\<rparr>)"
proof (intro allI)
  fix strsplit as opts
  have "fst (snd (strtoul 16 ''0xg'')) \<noteq> []" by code_simp
  then show "parse_args strsplit (Opt_p ''0xg'' # as) opts =
     parse_args strsplit as (opts\<lparr>port_mask := 0xffffffff\<rparr>)"
    by (intro bad_portmask_enables_all) simp
qed

section \<open>The configuration of the queues\<close>

definition print_params :: "lcore_params \<Rightarrow> string" where
  "print_params p = ''('' @ numeral_of 10 (unat (port_id p)) @ '','' @ numeral_of 10 (unat (queue_id p))
     @ '','' @ numeral_of 10 (unat (lcore_id p)) @ '')''"

text \<open>What \<open>rte_strsplit\<close> does with three fields separated by commas.\<close>

definition splits_fields :: "(string \<Rightarrow> string list) \<Rightarrow> bool" where
  "splits_fields strsplit \<longleftrightarrow> (\<forall>a b c. CHR '','' \<notin> set a \<union> set b \<union> set c \<and> a \<noteq> [] \<and> b \<noteq> [] \<and> c \<noteq> [] \<longrightarrow>
     strsplit (a @ '','' @ b @ '','' @ c) = [a, b, c])"

lemma numeral_plain:
  "CHR '','' \<notin> set (numeral_of 10 n)" "CHR ''('' \<notin> set (numeral_of 10 n)"
  "CHR '')'' \<notin> set (numeral_of 10 n)"
proof -
  have "c \<noteq> CHR '','' \<and> c \<noteq> CHR ''('' \<and> c \<noteq> CHR '')''" if c: "c \<in> set (numeral_of 10 n)" for c
  proof -
    obtain d where "d < 10" "c = digit_char d"
      using numeral_chars [of 10 n] c by auto
    then show ?thesis using digit_char_plain(4,5,6) [of d] by simp
  qed
  then show "CHR '','' \<notin> set (numeral_of 10 n)" "CHR ''('' \<notin> set (numeral_of 10 n)"
    "CHR '')'' \<notin> set (numeral_of 10 n)" by blast+
qed

lemma strchr_skip: "c \<notin> set xs \<Longrightarrow> strchr c (xs @ c # ys) = Some (c # ys)"
  by (induction xs) auto

lemma strchr_none: "c \<notin> set xs \<Longrightarrow> strchr c xs = None"
  by (induction xs) auto

lemma strtoul_byte:
  fixes w :: u8
  shows "strtoul 0 (numeral_of 10 (unat w)) = (ucast w, [], False)"
proof (cases "unat w = 0")
  case True
  then have "w = 0" by (simp add: unat_eq_zero)
  moreover have "strtoul 0 ''0'' = (0, [], False)" by code_simp
  moreover have "numeral_of 10 0 = ''0''" by code_simp
  ultimately show ?thesis by simp
next
  case False
  then have "strtoul 0 (numeral_of 10 (unat w)) = (word_of_nat (unat w), [], False)"
    using unsigned_less [of w, where 'a = nat] by (intro strtoul_numeral) auto
  then show ?thesis by simp
qed

lemma byte_up_down [simp]: "ucast (ucast (w :: u8) :: u64) = w"
  by (rule bit_word_eqI) (simp add: bit_simps)

lemma ucast_byte_le: "ucast (w :: u8) \<le> (255 :: u64)"
proof -
  have "unat (ucast w :: u64) = unat w"
    using unsigned_less [of w, where 'a = nat] by (simp add: unsigned_ucast_eq take_bit_nat_eq_self)
  then show ?thesis
    using unsigned_less [of w, where 'a = nat] by (simp add: word_le_nat_alt)
qed

lemma length_numeral_byte: "length (numeral_of 10 (unat (w :: u8))) \<le> 3"
proof -
  have "unat w < 256" using unsigned_less [of w, where 'a = nat] by simp
  then have "unat w div 10 div 10 < 10" by simp
  then show ?thesis by (simp add: numeral_of.simps)
qed

text \<open>Entries with a text before each and one at the end.\<close>

definition print_entries :: "(string \<times> lcore_params) list \<Rightarrow> string \<Rightarrow> string" where
  "print_entries es tail = concat (map (\<lambda>(sep, p). sep @ print_params p) es) @ tail"

text \<open>The form of the usage text and of \<open>doit.sh\<close>: \<open>(port,queue,lcore),(port,queue,lcore)\<close> and so on.\<close>

fun config_text :: "lcore_params list \<Rightarrow> string" where
  "config_text [] = []"
| "config_text [p] = print_params p"
| "config_text (p # ps) = print_params p @ CHR '','' # config_text ps"

lemma config_text_entries:
  "config_text (p # ps) = print_entries (([], p) # map (Pair '','') ps) []"
  by (induction ps arbitrary: p) (simp_all add: print_entries_def)

lemma parse_config_loop_print:
  assumes "splits_fields strsplit"
  shows "length done_params + length es \<le> MAX_LCORE_PARAMS \<Longrightarrow>
    \<forall>sep \<in> {pre, tail} \<union> fst ` set es. CHR ''('' \<notin> set sep \<Longrightarrow>
    parse_config_loop strsplit (pre @ print_entries es tail) done_params = (0, done_params @ map snd es)"
proof (induction es arbitrary: done_params pre)
  case Nil
  then have "CHR ''('' \<notin> set (pre @ tail)" by auto
  then have "strchr (CHR ''('') (pre @ tail) = None" by (rule strchr_none)
  then show ?case by (subst parse_config_loop.simps) (simp add: print_entries_def)
next
  case (Cons e es)
  obtain sep p where e: "e = (sep, p)" by (cases e)
  let ?a = "numeral_of 10 (unat (port_id p))" and ?b = "numeral_of 10 (unat (queue_id p))"
    and ?c = "numeral_of 10 (unat (lcore_id p))"
  let ?f = "?a @ '','' @ ?b @ '','' @ ?c"
  let ?rest = "'')'' @ print_entries es tail"
  have "CHR ''('' \<notin> set (pre @ sep)" using Cons.prems(2) e by simp
  from strchr_skip [OF this, of "?f @ ?rest"]
  have open_at: "strchr (CHR ''('') (pre @ print_entries (e # es) tail) = Some (CHR ''('' # ?f @ ?rest)"
    by (simp add: print_params_def print_entries_def e)
  have "CHR '')'' \<notin> set ?f" by (simp add: numeral_plain)
  then have close_at: "strchr (CHR '')'') (?f @ ?rest) = Some ?rest"
    using strchr_skip [of "CHR '')''" ?f] by simp
  have split: "strsplit ?f = [?a, ?b, ?c]"
    using assms unfolding splits_fields_def by (simp add: numeral_plain)
  have size: "length ?f < 256"
    using length_numeral_byte [of "port_id p"] length_numeral_byte [of "queue_id p"]
      length_numeral_byte [of "lcore_id p"] by simp
  have fields: "parse_fields [?a, ?b, ?c] = Some [ucast (port_id p), ucast (queue_id p), ucast (lcore_id p)]"
    using ucast_byte_le [of "port_id p"] ucast_byte_le [of "queue_id p"] ucast_byte_le [of "lcore_id p"]
    by (simp add: strtoul_byte not_less [symmetric])
  have sz: "length (?f @ ?rest) - length ?rest = length ?f" and tk: "take (length ?f) (?f @ ?rest) = ?f"
    by simp_all
  have room: "length done_params < MAX_LCORE_PARAMS" using Cons.prems(1) by simp
  have "parse_config_loop strsplit (pre @ print_entries (e # es) tail) done_params =
      parse_config_loop strsplit ?rest (done_params @ [p])"
    using split size fields room
    unfolding parse_config_loop.simps [of strsplit "pre @ _"] open_at option.case Let_def list.sel
      close_at sz tk split fields by (cases p) simp
  also have "\<dots> = (0, (done_params @ [p]) @ map snd es)"
    using Cons.prems by (intro Cons.IH) simp_all
  finally show ?case by (simp add: e)
qed

lemma parse_config_entries:
  assumes "splits_fields strsplit" and "length es \<le> MAX_LCORE_PARAMS"
    and "\<forall>sep \<in> insert tail (fst ` set es). CHR ''('' \<notin> set sep"
  shows "parse_config strsplit (print_entries es tail) = (0, map snd es)"
  using parse_config_loop_print [OF assms(1), of "[]" es "[]" tail] assms(2,3)
  by (simp add: parse_config_def)

lemma parse_config_text:
  assumes "splits_fields strsplit" and "length ps \<le> MAX_LCORE_PARAMS"
  shows "parse_config strsplit (config_text ps) = (0, ps)"
proof (cases ps)
  case Nil
  then show ?thesis using parse_config_entries [OF assms(1), of "[]" "[]"] by (simp add: print_entries_def)
next
  case (Cons q qs)
  then show ?thesis
    using parse_config_entries [OF assms(1), of "([], q) # map (Pair '','') qs" "[]"] assms(2)
    unfolding Cons config_text_entries by (simp add: comp_def)
qed

text \<open>C36: A queue configuration in the documented form, \<open>(port,queue,lcore),(port,queue,lcore)\<close> and so on with a comma
  between the entries, is read back entry by entry, in order, for every list of up to 1024 entries and all byte
  values, and the command line that has it sets the parameters to this list. What stands between the entries
  does not matter: with any texts before the entries and at the end, if only they have no opening bracket, the
  same list is read.\<close>

theorem parse_config_roundtrip:
  assumes "splits_fields strsplit" and "length ps \<le> MAX_LCORE_PARAMS"
  shows "parse_config strsplit (config_text ps) = (0, ps)
    \<and> parse_args strsplit [Config (config_text ps)] opts = Some (opts\<lparr>lcore_params_of := ps\<rparr>)
    \<and> (\<forall>seps tail. length seps = length ps \<and> (\<forall>sep \<in> insert tail (set seps). CHR ''('' \<notin> set sep) \<longrightarrow>
        parse_config strsplit (print_entries (zip seps ps) tail) = (0, ps))"
proof -
  have "parse_config strsplit (print_entries (zip seps ps) tail) = (0, ps)"
    if "length seps = length ps" "\<forall>sep \<in> insert tail (set seps). CHR ''('' \<notin> set sep" for seps tail
  proof -
    have "fst ` set (zip seps ps) = set seps" using that(1) by (simp only: set_map [symmetric] map_fst_zip)
    with parse_config_entries [OF assms(1), of "zip seps ps" tail] assms(2) that show ?thesis by simp
  qed
  then show ?thesis using parse_config_text [OF assms] by simp
qed

text \<open>Splitting at every comma behaves as required.\<close>

fun split_commas :: "string \<Rightarrow> string list" where
  "split_commas [] = [[]]"
| "split_commas (c # cs) = (if c = CHR '','' then [] # split_commas cs
     else case split_commas cs of [] \<Rightarrow> [[c]] | f # fs \<Rightarrow> (c # f) # fs)"

lemma split_commas_nonempty [simp]: "split_commas s \<noteq> []"
  by (induction s) (auto split: list.splits)

lemma split_commas_append:
  "CHR '','' \<notin> set a \<Longrightarrow> split_commas (a @ CHR '','' # s) = a # split_commas s"
  by (induction a) auto

lemma split_commas_plain: "CHR '','' \<notin> set a \<Longrightarrow> split_commas a = [a]"
  by (induction a) auto

lemma split_commas_fields: "splits_fields split_commas"
  by (simp add: splits_fields_def split_commas_append split_commas_plain)

text \<open>The configuration of \<open>doit.sh\<close>.\<close>

theorem parse_config_roundtrip_witness:
  "parse_config split_commas ''(0,0,3),(1,0,4),(2,0,5),(3,0,6)'' =
     (0, [\<lparr>port_id = 0, queue_id = 0, lcore_id = 3\<rparr>, \<lparr>port_id = 1, queue_id = 0, lcore_id = 4\<rparr>,
       \<lparr>port_id = 2, queue_id = 0, lcore_id = 5\<rparr>, \<lparr>port_id = 3, queue_id = 0, lcore_id = 6\<rparr>])"
proof -
  let ?ps = "[\<lparr>port_id = 0, queue_id = 0, lcore_id = 3\<rparr>, \<lparr>port_id = 1, queue_id = 0, lcore_id = 4\<rparr>,
       \<lparr>port_id = 2, queue_id = 0, lcore_id = 5\<rparr>, \<lparr>port_id = 3, queue_id = 0, lcore_id = 6\<rparr>]"
  have "config_text ?ps = ''(0,0,3),(1,0,4),(2,0,5),(3,0,6)''" by code_simp
  with parse_config_roundtrip [OF split_commas_fields, of ?ps] show ?thesis
    by (simp add: MAX_LCORE_PARAMS_def)
qed

text \<open>The nested scan after \<open>--enable-jumbo\<close> swallows the option that follows it, unless that is
  \<open>--max-pkt-len\<close>: the option is neither obeyed nor refused. A length outside 64 to 9600 is
  refused.\<close>

theorem jumbo_swallows_next_option:
  "parse_args strsplit (Enable_jumbo # a # as) opts =
     (case a of
        Max_pkt_len s \<Rightarrow> if parse_max_pkt_len s \<in> {64..9600}
          then parse_args strsplit as (opts\<lparr>jumbo_frame := True, max_rx_pkt_len := parse_max_pkt_len s\<rparr>)
          else None
      | _ \<Rightarrow> parse_args strsplit as (opts\<lparr>jumbo_frame := True\<rparr>))"
  by (cases a) (auto simp: Let_def MAX_JUMBO_PKT_LEN_def)

end
