(* ===== verification/Rm_Start.thy ===== *)
theory Rm_Start
  imports Rm_Args Lookup6 Pid_Chain
begin

text \<open>
  The start-up of the resource manager (\<open>RM/main.c\<close>): the checks of the configuration, the
  assignment of receive queues to cores, the memory and route tables per CPU socket, the wait for the
  links, and \<open>MAIN\<close>.

  The machine is an argument: which cores there are, on which sockets, how many ports, and how DPDK
  answers. \<open>rte_exit\<close> is an error value.
\<close>

section \<open>Checks\<close>

definition MAX_RX_QUEUE_PER_PORT :: u8 where "MAX_RX_QUEUE_PER_PORT = 128"
definition MAX_RX_QUEUE_PER_LCORE :: nat where "MAX_RX_QUEUE_PER_LCORE = 16"

fun check_lcore_params :: "(u8 \<Rightarrow> bool) \<Rightarrow> lcore_params list \<Rightarrow> int" where
  "check_lcore_params enabled [] = 0"
| "check_lcore_params enabled (p # ps) =
     (if queue_id p \<ge> MAX_RX_QUEUE_PER_PORT then -1
      else if \<not> enabled (lcore_id p) then -1
      else check_lcore_params enabled ps)"

text \<open>The port is tested against the mask by a shift before it is tested against the number of
  ports; a shift by 32 or more is undefined.\<close>

fun check_port_config :: "u32 \<Rightarrow> nat \<Rightarrow> lcore_params list \<Rightarrow> int option" where
  "check_port_config pmask nb_ports [] = Some 0"
| "check_port_config pmask nb_ports (p # ps) = do {
     let portid = unat (port_id p);
     guard (portid < 32);
     if \<not> bit pmask portid then Some (-1)
     else if portid \<ge> nb_ports then Some (-1)
     else check_port_config pmask nb_ports ps }"

text \<open>The running maximum is an \<open>int\<close>, the result a byte.\<close>

fun max_queue :: "u8 \<Rightarrow> lcore_params list \<Rightarrow> int \<Rightarrow> int" where
  "max_queue port [] queue = queue"
| "max_queue port (p # ps) queue =
     max_queue port ps (if port_id p = port \<and> uint (queue_id p) > queue then uint (queue_id p) else queue)"

definition get_port_n_rx_queues :: "lcore_params list \<Rightarrow> u8 \<Rightarrow> u8" where
  "get_port_n_rx_queues params port = word_of_int (max_queue port params (-1) + 1)"

text \<open>The queues of each core, filled in the order of the parameters.\<close>

fun init_lcore_rx_queues :: "lcore_params list \<Rightarrow> (u8 \<Rightarrow> (u8 \<times> u8) list) \<Rightarrow> int \<times> (u8 \<Rightarrow> (u8 \<times> u8) list)"
where
  "init_lcore_rx_queues [] conf = (0, conf)"
| "init_lcore_rx_queues (p # ps) conf = (let lcore = lcore_id p in
     if MAX_RX_QUEUE_PER_LCORE \<le> length (conf lcore) then (-1, conf)
     else init_lcore_rx_queues ps (conf(lcore := conf lcore @ [(port_id p, queue_id p)])))"

lemma check_lcore_params_iff:
  "check_lcore_params enabled ps = 0 \<longleftrightarrow>
     (\<forall>p \<in> set ps. queue_id p < MAX_RX_QUEUE_PER_PORT \<and> enabled (lcore_id p))"
  by (induction ps) auto

lemma check_port_config_iff:
  "check_port_config pmask nb_ports ps = Some 0 \<longleftrightarrow>
     (\<forall>p \<in> set ps. unat (port_id p) < 32 \<and> bit pmask (unat (port_id p)) \<and> unat (port_id p) < nb_ports)"
  by (induction ps) (auto simp: Let_def guard_def)

definition queues_of :: "lcore_params list \<Rightarrow> u8 \<Rightarrow> (u8 \<times> u8) list" where
  "queues_of ps l = map (\<lambda>p. (port_id p, queue_id p)) (filter (\<lambda>p. lcore_id p = l) ps)"

lemma init_lcore_rx_queues_eq:
  "(\<forall>l. length (conf l) \<le> MAX_RX_QUEUE_PER_LCORE) \<Longrightarrow>
   (if \<forall>l. length (conf l) + length (queues_of ps l) \<le> MAX_RX_QUEUE_PER_LCORE
    then init_lcore_rx_queues ps conf = (0, \<lambda>l. conf l @ queues_of ps l)
    else fst (init_lcore_rx_queues ps conf) = -1)"
proof (induction ps arbitrary: conf)
  case Nil
  then show ?case by (simp add: queues_of_def)
next
  case (Cons p ps)
  show ?case
  proof (cases "MAX_RX_QUEUE_PER_LCORE \<le> length (conf (lcore_id p))")
    case True
    then have "MAX_RX_QUEUE_PER_LCORE < length (conf (lcore_id p)) + length (queues_of (p # ps) (lcore_id p))"
      by (simp add: queues_of_def)
    then have "\<not> (\<forall>l. length (conf l) + length (queues_of (p # ps) l) \<le> MAX_RX_QUEUE_PER_LCORE)"
      by (meson not_less)
    with True show ?thesis by simp
  next
    case False
    let ?conf = "conf(lcore_id p := conf (lcore_id p) @ [(port_id p, queue_id p)])"
    have room: "\<forall>l. length (?conf l) \<le> MAX_RX_QUEUE_PER_LCORE"
      using Cons.prems False by auto
    have len: "length (?conf l) + length (queues_of ps l) = length (conf l) + length (queues_of (p # ps) l)"
      for l by (simp add: queues_of_def)
    have app: "?conf l @ queues_of ps l = conf l @ queues_of (p # ps) l" for l
      by (simp add: queues_of_def)
    from Cons.IH [OF room] False show ?thesis
      unfolding len app by (simp add: Let_def)
  qed
qed

text \<open>The receive queues are given to the cores completely and in order: with no core asked to serve
  more than 16 queues, each core gets exactly its entries of the configuration in their order;
  otherwise the start-up is refused.\<close>

theorem init_lcore_rx_queues_correct:
  "if \<forall>l. length (queues_of ps l) \<le> MAX_RX_QUEUE_PER_LCORE
   then init_lcore_rx_queues ps (\<lambda>_. []) = (0, queues_of ps)
   else fst (init_lcore_rx_queues ps (\<lambda>_. [])) = -1"
  using init_lcore_rx_queues_eq [of "\<lambda>_. []" ps] by (simp add: fun_eq_iff)

lemma max_queue_bounds:
  "q \<le> max_queue port ps q
   \<and> (\<forall>p \<in> set ps. port_id p = port \<longrightarrow> uint (queue_id p) \<le> max_queue port ps q)
   \<and> (max_queue port ps q = q
      \<or> (\<exists>p \<in> set ps. port_id p = port \<and> max_queue port ps q = uint (queue_id p)))"
proof (induction ps arbitrary: q)
  case Nil
  show ?case by simp
next
  case (Cons p ps)
  let ?q = "if port_id p = port \<and> uint (queue_id p) > q then uint (queue_id p) else q"
  note IH = Cons.IH [of ?q]
  have q: "q \<le> ?q" "port_id p = port \<longrightarrow> uint (queue_id p) \<le> ?q"
    "?q = q \<or> port_id p = port \<and> ?q = uint (queue_id p)" by auto
  have rec: "max_queue port (p # ps) q = max_queue port ps ?q" by simp
  show ?case
    unfolding rec
  proof (intro conjI)
    show "q \<le> max_queue port ps ?q" using IH q(1) by linarith
    show "\<forall>x \<in> set (p # ps). port_id x = port \<longrightarrow> uint (queue_id x) \<le> max_queue port ps ?q"
    proof (intro ballI impI)
      fix x
      assume "x \<in> set (p # ps)" and port: "port_id x = port"
      then consider "x = p" | "x \<in> set ps" by auto
      then show "uint (queue_id x) \<le> max_queue port ps ?q"
      proof cases
        case 1
        with port q(2) have "uint (queue_id x) \<le> ?q" by blast
        with IH show ?thesis by linarith
      next
        case 2
        with IH port show ?thesis by blast
      qed
    qed
    from IH q(3) show "max_queue port ps ?q = q
      \<or> (\<exists>x \<in> set (p # ps). port_id x = port \<and> max_queue port ps ?q = uint (queue_id x))"
      by (metis list.set_intros)
  qed
qed

text \<open>Every queue that a core polls has a number below the number of queues configured for its port,
  and the number is no larger than necessary.\<close>

lemma get_port_n_rx_queues_bounds:
  assumes "\<forall>p \<in> set ps. queue_id p < MAX_RX_QUEUE_PER_PORT"
  shows "\<forall>p \<in> set ps. queue_id p < get_port_n_rx_queues ps (port_id p)"
    and "get_port_n_rx_queues ps port \<noteq> 0 \<Longrightarrow>
      \<exists>p \<in> set ps. port_id p = port \<and> get_port_n_rx_queues ps port = queue_id p + 1"
proof -
  have small: "uint (queue_id p) < 128" if "p \<in> set ps" for p
    using assms that by (auto simp: MAX_RX_QUEUE_PER_PORT_def word_less_def)
  have val: "uint (get_port_n_rx_queues ps port) = max_queue port ps (-1) + 1"
    and range: "-1 \<le> max_queue port ps (-1)" for port
  proof -
    note b = max_queue_bounds [of "-1" port ps]
    then show "-1 \<le> max_queue port ps (-1)" by blast
    moreover have "max_queue port ps (-1) < 128" using b small by fastforce
    ultimately show "uint (get_port_n_rx_queues ps port) = max_queue port ps (-1) + 1"
      unfolding get_port_n_rx_queues_def uint_word_of_int_eq
      by (intro take_bit_int_eq_self) simp_all
  qed
  show "\<forall>p \<in> set ps. queue_id p < get_port_n_rx_queues ps (port_id p)"
    using max_queue_bounds val by (fastforce simp: word_less_def)
  show "\<exists>p \<in> set ps. port_id p = port \<and> get_port_n_rx_queues ps port = queue_id p + 1"
    if "get_port_n_rx_queues ps port \<noteq> 0"
  proof -
    from that have "max_queue port ps (-1) \<noteq> -1"
      by (auto simp: get_port_n_rx_queues_def)
    with max_queue_bounds [of "-1" port ps] obtain p where
      "p \<in> set ps" "port_id p = port" "max_queue port ps (-1) = uint (queue_id p)" by blast
    then show ?thesis by (intro bexI [of _ p]) (simp_all add: get_port_n_rx_queues_def)
  qed
qed

section \<open>Memory and tables\<close>

text \<open>The arrays behind the tables are global, the tables are per socket.\<close>

record globals =
  g_ipv4_out_if :: "nat \<Rightarrow> u8"
  g_sid_out :: "nat \<Rightarrow> sid_out"
  g_ipv6_out_if :: "nat \<Rightarrow> u8"

record ('h, 'k) tables =
  ipv4_lookup_struct_wxb :: 'h
  sid_lookup_struct_wxb :: 'h
  ipv6_lookup_struct :: 'k

record ('h, 'k) mem =
  pktmbuf_pool :: "nat \<Rightarrow> bool"
  lookup_structs :: "nat \<Rightarrow> ('h, 'k) tables option"
  arrays :: globals
  qconf_structs :: "nat \<Rightarrow> ('h, 'k) tables option"

record ('h, 'k) machine =
  lcore_enabled :: "nat \<Rightarrow> bool"
  max_lcore :: nat
  to_socket_id :: "nat \<Rightarrow> nat"
  pool_create :: "nat \<Rightarrow> bool"
  hash_create :: "nat \<Rightarrow> 'h option"
  hash_add :: "'h \<Rightarrow> bytes \<Rightarrow> int \<times> 'h"
  hash6_create :: "nat \<Rightarrow> 'k option"
  hash6_add :: "'k \<Rightarrow> bytes \<Rightarrow> int \<times> 'k"
  eth_dev_count :: nat
  max_eth_ports :: nat

definition NB_SOCKETS :: nat where "NB_SOCKETS = 8"

text \<open>\<open>setup_hash_wxb(socketid); setup_hash(socketid);\<close>\<close>

definition setup_tables :: "('h, 'k) machine \<Rightarrow> options \<Rightarrow> nat \<Rightarrow> globals \<Rightarrow>
    (string + ('h, 'k) tables \<times> globals) option" where
  "setup_tables mc opts socketid g = do {
     r \<leftarrow> setup_hash_wxb (hash_add mc) (hash_create mc socketid) (hash_create mc socketid)
       (g_ipv4_out_if g) (g_sid_out g);
     case r of
       Inl e \<Rightarrow> Some (Inl e)
     | Inr t \<Rightarrow>
         (case hash6_create mc socketid of
            None \<Rightarrow> Some (Inl ''Unable to create the l3fwd hash'')
          | Some h6 \<Rightarrow> do {
              r \<leftarrow> setup_hash (hash6_add mc) (Some h6) (if ipv6_on opts then 1 else 0)
                (hash_entry_number opts)
                \<lparr>ipv6_hash = h6, ipv6_l3fwd_out_if = g_ipv6_out_if g, mask1 = [], mask2 = []\<rparr>;
              case r of
                Inl e \<Rightarrow> Some (Inl e)
              | Inr t6 \<Rightarrow> Some (Inr (\<lparr>ipv4_lookup_struct_wxb = ipv4_hash t,
                  sid_lookup_struct_wxb = sid_hash t, ipv6_lookup_struct = ipv6_hash t6\<rparr>,
                  \<lparr>g_ipv4_out_if = ipv4_out_if t, g_sid_out = sid_arrays t,
                   g_ipv6_out_if = ipv6_l3fwd_out_if t6\<rparr>)) }) }"

definition socket_of :: "('h, 'k) machine \<Rightarrow> options \<Rightarrow> nat \<Rightarrow> nat" where
  "socket_of mc opts l = (if numa_on opts then to_socket_id mc l else 0)"

text \<open>The loop of \<open>init_mem\<close> over the cores.\<close>

fun init_mem_loop :: "('h, 'k) machine \<Rightarrow> options \<Rightarrow> nat list \<Rightarrow> ('h, 'k) mem \<Rightarrow>
    (string + ('h, 'k) mem) option" where
  "init_mem_loop mc opts [] m = Some (Inr m)"
| "init_mem_loop mc opts (l # ls) m =
     (if \<not> lcore_enabled mc l then init_mem_loop mc opts ls m
      else let s = socket_of mc opts l in
        if s \<ge> NB_SOCKETS then Some (Inl ''Socket of lcore is out of range'')
        else if \<not> pktmbuf_pool m s then
          if \<not> pool_create mc s then Some (Inl ''Cannot init mbuf pool on socket'')
          else do {
            r \<leftarrow> setup_tables mc opts s (arrays m);
            case r of
              Inl e \<Rightarrow> Some (Inl e)
            | Inr (t, g) \<Rightarrow> init_mem_loop mc opts ls (m\<lparr>pktmbuf_pool := (pktmbuf_pool m)(s := True),
                lookup_structs := (lookup_structs m)(s := Some t), arrays := g,
                qconf_structs := (qconf_structs m)(l := Some t)\<rparr>) }
        else init_mem_loop mc opts ls
          (m\<lparr>qconf_structs := (qconf_structs m)(l := lookup_structs m s)\<rparr>))"

definition init_mem :: "('h, 'k) machine \<Rightarrow> options \<Rightarrow> ('h, 'k) mem \<Rightarrow> (string + ('h, 'k) mem) option" where
  "init_mem mc opts m = init_mem_loop mc opts [0..<max_lcore mc] m"

text \<open>Every pool comes with the tables of its socket.\<close>

definition mem_ok :: "('h, 'k) mem \<Rightarrow> bool" where
  "mem_ok m \<longleftrightarrow> (\<forall>s. pktmbuf_pool m s \<longleftrightarrow> lookup_structs m s \<noteq> None)"

lemma init_mem_loop_ok:
  "init_mem_loop mc opts ls m = Some (Inr m') \<Longrightarrow> mem_ok m \<Longrightarrow> distinct ls \<Longrightarrow>
   mem_ok m'
   \<and> (\<forall>s. pktmbuf_pool m s \<longrightarrow> lookup_structs m' s = lookup_structs m s)
   \<and> (\<forall>l. l \<notin> set ls \<longrightarrow> qconf_structs m' l = qconf_structs m l)
   \<and> (\<forall>l \<in> set ls. lcore_enabled mc l \<longrightarrow>
        socket_of mc opts l < NB_SOCKETS \<and> pktmbuf_pool m' (socket_of mc opts l)
        \<and> qconf_structs m' l = lookup_structs m' (socket_of mc opts l))
   \<and> (\<forall>s. pktmbuf_pool m' s \<longrightarrow> pktmbuf_pool m s \<or> (\<exists>l \<in> set ls. lcore_enabled mc l \<and> s = socket_of mc opts l))"
proof (induction ls arbitrary: m)
  case Nil
  then show ?case by simp
next
  case (Cons l ls)
  let ?s = "socket_of mc opts l"
  consider (off) "\<not> lcore_enabled mc l" | (new) "lcore_enabled mc l" "\<not> pktmbuf_pool m ?s"
    | (old) "lcore_enabled mc l" "pktmbuf_pool m ?s" by blast
  then show ?case
  proof cases
    case off
    with Cons.prems Cons.IH [of m] show ?thesis by auto
  next
    case new
    with Cons.prems(1) obtain t g where s: "?s < NB_SOCKETS" and
      rest: "init_mem_loop mc opts ls (m\<lparr>pktmbuf_pool := (pktmbuf_pool m)(?s := True),
        lookup_structs := (lookup_structs m)(?s := Some t), arrays := g,
        qconf_structs := (qconf_structs m)(l := Some t)\<rparr>) = Some (Inr m')" (is "init_mem_loop _ _ _ ?m = _")
      by (auto simp: Let_def elim!: ub_elims split: if_splits sum.splits)
    have "mem_ok ?m" using Cons.prems(2) by (simp add: mem_ok_def)
    from Cons.IH [OF rest this] Cons.prems(3) s new show ?thesis
      by (auto simp: mem_ok_def fun_upd_apply split: if_splits)
  next
    case old
    let ?m = "m\<lparr>qconf_structs := (qconf_structs m)(l := lookup_structs m ?s)\<rparr>"
    from old Cons.prems(1) have s: "?s < NB_SOCKETS" and rest: "init_mem_loop mc opts ls ?m = Some (Inr m')"
      by (auto simp: Let_def split: if_splits)
    have "mem_ok ?m" using Cons.prems(2) by (simp add: mem_ok_def)
    note r = Cons.IH [OF rest this]
    then have pres: "lookup_structs m' ?s = lookup_structs m ?s" using old(2) Cons.prems(3) by simp
    moreover have "lookup_structs m ?s \<noteq> None" using old(2) Cons.prems(2) unfolding mem_ok_def by blast
    ultimately have "pktmbuf_pool m' ?s" using r Cons.prems(3) unfolding mem_ok_def by simp
    moreover have "qconf_structs m' l = lookup_structs m' ?s" using r Cons.prems(3) pres by simp
    ultimately show ?thesis using r Cons.prems(3) s by auto
  qed
qed

text \<open>When \<open>init_mem\<close> returns, every enabled core has the route tables of its own socket, this socket
  has its buffer pool, the tables and pools that existed before are the same as before (so calling it
  again for the next port changes nothing that is in use), and no socket without an enabled core got
  one.\<close>

theorem init_mem_serves_cores:
  assumes "init_mem mc opts m = Some (Inr m')" and "mem_ok m"
  shows "mem_ok m'
    \<and> (\<forall>l < max_lcore mc. lcore_enabled mc l \<longrightarrow> socket_of mc opts l < NB_SOCKETS
        \<and> pktmbuf_pool m' (socket_of mc opts l)
        \<and> qconf_structs m' l = lookup_structs m' (socket_of mc opts l) \<and> qconf_structs m' l \<noteq> None)
    \<and> (\<forall>s. pktmbuf_pool m s \<longrightarrow> lookup_structs m' s = lookup_structs m s)
    \<and> (\<forall>s. pktmbuf_pool m' s \<longrightarrow> pktmbuf_pool m s
        \<or> (\<exists>l < max_lcore mc. lcore_enabled mc l \<and> s = socket_of mc opts l))"
proof -
  note r = init_mem_loop_ok [OF assms(1) [unfolded init_mem_def] assms(2) distinct_upt]
  then have "qconf_structs m' l \<noteq> None" if "l < max_lcore mc" "lcore_enabled mc l" for l
    using that unfolding mem_ok_def by (metis atLeastLessThan_iff set_upt zero_le)
  with r show ?thesis by (simp add: Ball_def Bex_def)
qed

text \<open>A machine with two enabled cores, for the witnesses.\<close>

definition two_cores :: "(bytes list, bytes list) machine" where
  "two_cores = \<lparr>lcore_enabled = (\<lambda>l. 0 < l), max_lcore = 3, to_socket_id = (\<lambda>_. 1), pool_create = (\<lambda>_. True),
     hash_create = (\<lambda>_. Some []), hash_add = list_add, hash6_create = (\<lambda>_. Some []),
     hash6_add = list_add, eth_dev_count = 4, max_eth_ports = 32\<rparr>"

definition default_options :: options where
  "default_options = \<lparr>port_mask = 2, promiscuous_on = True, numa_on = True, ipv6_on = False,
     jumbo_frame = False, max_rx_pkt_len = 1518, hash_entry_number = 4,
     lcore_params_of = [\<lparr>port_id = 1, queue_id = 0, lcore_id = 2\<rparr>]\<rparr>"

definition no_mem :: "(bytes list, bytes list) mem" where
  "no_mem = \<lparr>pktmbuf_pool = (\<lambda>_. False), lookup_structs = (\<lambda>_. None),
     arrays = \<lparr>g_ipv4_out_if = (\<lambda>_. 0), g_sid_out = (\<lambda>_. sid_default 0), g_ipv6_out_if = (\<lambda>_. 0)\<rparr>,
     qconf_structs = (\<lambda>_. None)\<rparr>"

lemma mem_ok_no_mem: "mem_ok no_mem"
  by (simp add: mem_ok_def no_mem_def)

lemma two_cores_init_mem: "\<exists>m'. init_mem two_cores default_options no_mem = Some (Inr m')"
proof -
  obtain t where t: "setup_hash_wxb list_add (Some []) (Some []) (\<lambda>_. 0) (\<lambda>_. sid_default 0) = Some (Inr t)"
    using list_setup_ok by blast
  have "\<exists>r. setup_tables two_cores default_options 1 (arrays no_mem) = Some (Inr r)"
    unfolding setup_tables_def
    by (simp add: two_cores_def no_mem_def t default_options_def setup_hash_def)
  then obtain t' g where "setup_tables two_cores default_options 1 (arrays no_mem) = Some (Inr (t', g))" by auto
  moreover have "[0..<max_lcore two_cores] = [0, 1, 2]" by (simp add: two_cores_def upt_rec)
  moreover have "socket_of two_cores default_options l = 1" "lcore_enabled two_cores = (\<lambda>l. 0 < l)"
    "pool_create two_cores 1" "\<not> pktmbuf_pool no_mem 1" for l
    by (simp_all add: two_cores_def socket_of_def default_options_def no_mem_def)
  ultimately show ?thesis
    by (simp add: init_mem_def Let_def NB_SOCKETS_def)
qed

theorem init_mem_serves_cores_witness:
  "\<exists>m'. init_mem two_cores default_options no_mem = Some (Inr m') \<and> qconf_structs m' 2 \<noteq> None"
proof -
  obtain m' where m': "init_mem two_cores default_options no_mem = Some (Inr m')"
    using two_cores_init_mem by blast
  have "lcore_enabled two_cores 2" "2 < max_lcore two_cores" by (simp_all add: two_cores_def)
  with init_mem_serves_cores [OF m' mem_ok_no_mem] m' show ?thesis by blast
qed

section \<open>Waiting for the links\<close>

text \<open>The rounds of \<open>check_all_ports_link_status\<close>: \<open>up count port\<close> is the link status that DPDK reports
  in a round. A round looks at the enabled ports up to the first that is down, or reports them all if
  the flag is set.\<close>

datatype link_event = Delay_100ms | Report nat bool

definition MAX_CHECK_TIME :: nat where "MAX_CHECK_TIME = 90"

function link_rounds :: "(nat \<Rightarrow> nat \<Rightarrow> bool) \<Rightarrow> nat list \<Rightarrow> nat \<Rightarrow> bool \<Rightarrow> link_event list" where
  "link_rounds up ports cnt print_flag =
     (if cnt > MAX_CHECK_TIME then []
      else if print_flag then map (\<lambda>p. Report p (up cnt p)) ports
      else let all_ports_up = (\<forall>p \<in> set ports. up cnt p) in
        (if all_ports_up then [] else [Delay_100ms])
        @ link_rounds up ports (Suc cnt) (all_ports_up \<or> cnt = MAX_CHECK_TIME - 1))"
  by pat_completeness auto
termination by (relation "measure (\<lambda>(up, ports, cnt, print_flag). Suc MAX_CHECK_TIME - cnt)") auto

declare link_rounds.simps [simp del]

definition check_all_ports_link_status :: "(nat \<Rightarrow> nat \<Rightarrow> bool) \<Rightarrow> nat \<Rightarrow> u32 \<Rightarrow> link_event list" where
  "check_all_ports_link_status up port_num pmask =
     link_rounds up (filter (bit pmask) [0..<port_num]) 0 False"

lemma link_rounds_report:
  "cnt \<le> MAX_CHECK_TIME - 1 \<Longrightarrow> \<exists>k. cnt < k \<and> k \<le> MAX_CHECK_TIME
     \<and> link_rounds up ports cnt False =
        replicate (k - cnt - (if \<forall>p \<in> set ports. up (k - 1) p then 1 else 0)) Delay_100ms
        @ map (\<lambda>p. Report p (up k p)) ports
     \<and> ((\<forall>p \<in> set ports. up (k - 1) p) \<or> k = MAX_CHECK_TIME)
     \<and> (\<forall>j. cnt \<le> j \<and> j < k - 1 \<longrightarrow> \<not> (\<forall>p \<in> set ports. up j p))"
proof (induction "MAX_CHECK_TIME - cnt" arbitrary: cnt)
  case 0
  then show ?case by (simp add: MAX_CHECK_TIME_def)
next
  case (Suc n)
  let ?all = "\<forall>p \<in> set ports. up cnt p"
  have run: "link_rounds up ports cnt False = (if ?all then [] else [Delay_100ms])
      @ link_rounds up ports (Suc cnt) (?all \<or> cnt = MAX_CHECK_TIME - 1)"
    using Suc.prems by (subst link_rounds.simps) (auto simp: Let_def)
  show ?case
  proof (cases "?all \<or> cnt = MAX_CHECK_TIME - 1")
    case True
    have "link_rounds up ports (Suc cnt) True = map (\<lambda>p. Report p (up (Suc cnt) p)) ports"
      using Suc.prems by (subst link_rounds.simps) (auto simp: MAX_CHECK_TIME_def)
    with run True Suc.prems show ?thesis
      by (intro exI [of _ "Suc cnt"]) (auto simp: MAX_CHECK_TIME_def)
  next
    case False
    then have "n = MAX_CHECK_TIME - Suc cnt" "Suc cnt \<le> MAX_CHECK_TIME - 1"
      using Suc by (auto simp: MAX_CHECK_TIME_def)
    from Suc.hyps(1) [OF this] obtain k where k: "Suc cnt < k" "k \<le> MAX_CHECK_TIME"
      "link_rounds up ports (Suc cnt) False =
        replicate (k - Suc cnt - (if \<forall>p \<in> set ports. up (k - 1) p then 1 else 0)) Delay_100ms
        @ map (\<lambda>p. Report p (up k p)) ports"
      "(\<forall>p \<in> set ports. up (k - 1) p) \<or> k = MAX_CHECK_TIME"
      "\<forall>j. Suc cnt \<le> j \<and> j < k - 1 \<longrightarrow> \<not> (\<forall>p \<in> set ports. up j p)" by blast
    let ?d = "if \<forall>p \<in> set ports. up (k - 1) p then 1 else 0 :: nat"
    have "?d \<le> 1" by simp
    then have "k - cnt - ?d = Suc (k - Suc cnt - ?d)" using k(1) by arith
    moreover have nall: "?all = False" and ncnt: "(cnt = MAX_CHECK_TIME - 1) = False"
      using False by blast+
    have "link_rounds up ports cnt False = Delay_100ms # link_rounds up ports (Suc cnt) False"
      unfolding run nall ncnt by simp
    ultimately have "link_rounds up ports cnt False =
        replicate (k - cnt - ?d) Delay_100ms @ map (\<lambda>p. Report p (up k p)) ports"
      unfolding k(3) by simp
    moreover have "\<forall>j. cnt \<le> j \<and> j < k - 1 \<longrightarrow> \<not> (\<forall>p \<in> set ports. up j p)"
      using k(5) False by (metis Suc_leI le_neq_implies_less)
    ultimately show ?thesis using k(1,2,4) by (intro exI [of _ k]) auto
  qed
qed

text \<open>The wait for the links always ends, after at most 90 pauses of 100 ms, and then reports every
  enabled port exactly once, in order. It ends early exactly when a round finds every enabled port
  up; every round before that has found one down.\<close>

theorem link_wait_ends:
  "\<exists>k \<le> 90. \<exists>n \<le> 90. check_all_ports_link_status up port_num pmask =
      replicate n Delay_100ms
      @ map (\<lambda>p. Report p (up k p)) (filter (bit pmask) [0..<port_num])
    \<and> ((\<forall>p < port_num. bit pmask p \<longrightarrow> up (k - 1) p) \<or> k = 90)
    \<and> (\<forall>j < k - 1. \<exists>p < port_num. bit pmask p \<and> \<not> up j p)"
proof -
  let ?ports = "filter (bit pmask) [0..<port_num]"
  obtain k where k: "0 < k" "k \<le> MAX_CHECK_TIME"
    "link_rounds up ?ports 0 False =
        replicate (k - 0 - (if \<forall>p \<in> set ?ports. up (k - 1) p then 1 else 0)) Delay_100ms
        @ map (\<lambda>p. Report p (up k p)) ?ports"
    "(\<forall>p \<in> set ?ports. up (k - 1) p) \<or> k = MAX_CHECK_TIME"
    "\<forall>j. 0 \<le> j \<and> j < k - 1 \<longrightarrow> \<not> (\<forall>p \<in> set ?ports. up j p)"
    using link_rounds_report [of 0 up ?ports] by auto
  show ?thesis
    using k
    by (intro exI [of _ k] conjI
        exI [of _ "k - 0 - (if \<forall>p \<in> set ?ports. up (k - 1) p then 1 else 0)"])
      (auto simp: check_all_ports_link_status_def MAX_CHECK_TIME_def)
qed

theorem link_wait_ends_witness:
  "\<exists>n \<le> 90. check_all_ports_link_status (\<lambda>_ _. False) 1 1 = replicate n Delay_100ms @ [Report 0 False]"
  using link_wait_ends [of "\<lambda>_ _. False" 1 1] by (auto simp: bit_1_iff)

end
