(* ===== verification/Rm_Main.thy ===== *)
theory Rm_Main
  imports Rm_Start
begin

text \<open>
  \<open>MAIN\<close> of the resource manager (\<open>RM/main.c\<close>): the order of the start-up, the calls it makes to
  the network devices and the state it hands to the cores' \<open>main_loop\<close>.

  How DPDK answers a call is an argument; a negative answer ends the program (\<open>rte_exit\<close>, an error
  value). Printing, the timer and the signal handler are left out.
\<close>

section \<open>State\<close>

datatype dev_call =
    Configure nat u8 nat \<comment> \<open>port, receive queues, transmit queues\<close>
  | Tx_setup nat u16 nat \<comment> \<open>port, queue, socket\<close>
  | Rx_setup nat u8 nat bool \<comment> \<open>port, queue, socket, whether its buffer pool exists\<close>
  | Start nat
  | Promiscuous nat

record ('h, 'k) startup =
  calls :: "dev_call list"
  mem_of :: "('h, 'k) mem"
  tx_queue_id :: "nat \<Rightarrow> nat \<Rightarrow> u16"
  val_eth :: "nat \<Rightarrow> bytes"

type_synonym 'a exec = "(string + 'a) option"

definition and_then :: "'a exec \<Rightarrow> ('a \<Rightarrow> 'b exec) \<Rightarrow> 'b exec" where
  "and_then m f = do { r \<leftarrow> m; case r of Inl e \<Rightarrow> Some (Inl e) | Inr x \<Rightarrow> f x }"

definition rte_exit_if :: "bool \<Rightarrow> string \<Rightarrow> unit exec" where
  "rte_exit_if b msg = Some (if b then Inl msg else Inr ())"

definition issue :: "(dev_call \<Rightarrow> int) \<Rightarrow> dev_call \<Rightarrow> string \<Rightarrow> ('h, 'k) startup \<Rightarrow> ('h, 'k) startup exec" where
  "issue dev c msg st = and_then (rte_exit_if (dev c < 0) msg) (\<lambda>_. Some (Inr (st\<lparr>calls := calls st @ [c]\<rparr>)))"

lemma and_then_Inr [elim!]:
  assumes "and_then m f = Some (Inr y)"
  obtains x where "m = Some (Inr x)" and "f x = Some (Inr y)"
  using assms by (auto simp: and_then_def elim!: ub_elims split: sum.splits)

lemma and_then_simps [simp]:
  "and_then (Some (Inr x)) f = f x" "and_then (Some (Inl e)) f = Some (Inl e)" "and_then None f = None"
  by (simp_all add: and_then_def)

lemma rte_exit_if_Inr [simp]: "rte_exit_if b msg = Some (Inr u) \<longleftrightarrow> \<not> b"
  by (simp add: rte_exit_if_def)

lemma issue_Inr [simp]:
  "issue dev c msg st = Some (Inr st') \<longleftrightarrow> 0 \<le> dev c \<and> st' = st\<lparr>calls := calls st @ [c]\<rparr>"
  by (auto simp: issue_def rte_exit_if_def)

section \<open>Ports\<close>

definition ETHER_LOCAL_ADMIN_ADDR :: u64 where "ETHER_LOCAL_ADMIN_ADDR = 2"

text \<open>The destination and source addresses for the frames of a port; the 16 bytes of a vector.\<close>

definition port_val_eth :: "nat \<Rightarrow> bytes \<Rightarrow> bytes \<Rightarrow> bytes" where
  "port_val_eth portid mac old =
     take 6 (le_bytes 8 (ETHER_LOCAL_ADMIN_ADDR + push_bit 40 (word_of_nat portid))) @ mac @ drop 12 old"

definition socket_byte :: "('h, 'k) machine \<Rightarrow> options \<Rightarrow> nat \<Rightarrow> nat" where
  "socket_byte mc opts l = socket_of mc opts l mod 256"

definition n_tx_queue :: "('h, 'k) machine \<Rightarrow> nat" where
  "n_tx_queue mc = min (length (filter (lcore_enabled mc) [0..<max_lcore mc])) (max_eth_ports mc)"

fun tx_setup_loop :: "('h, 'k) machine \<Rightarrow> (dev_call \<Rightarrow> int) \<Rightarrow> options \<Rightarrow> nat \<Rightarrow> nat list \<Rightarrow> u16 \<Rightarrow>
    ('h, 'k) startup \<Rightarrow> ('h, 'k) startup exec" where
  "tx_setup_loop mc dev opts portid [] queueid st = Some (Inr st)"
| "tx_setup_loop mc dev opts portid (l # ls) queueid st =
     (if \<not> lcore_enabled mc l then tx_setup_loop mc dev opts portid ls queueid st
      else and_then (issue dev (Tx_setup portid queueid (socket_byte mc opts l)) ''rte_eth_tx_queue_setup'' st)
        (\<lambda>st. tx_setup_loop mc dev opts portid ls (queueid + 1)
          (st\<lparr>tx_queue_id := (tx_queue_id st)(l := (tx_queue_id st l)(portid := queueid))\<rparr>)))"

definition port_on :: "options \<Rightarrow> nat \<Rightarrow> bool option" where
  "port_on opts portid = do { guard (portid < 32); Some (bit (port_mask opts) portid) }"

definition init_port :: "('h, 'k) machine \<Rightarrow> (dev_call \<Rightarrow> int) \<Rightarrow> (nat \<Rightarrow> bytes) \<Rightarrow> options \<Rightarrow> nat \<Rightarrow>
    ('h, 'k) startup \<Rightarrow> ('h, 'k) startup exec" where
  "init_port mc dev macaddr opts portid st =
     and_then (issue dev (Configure portid (get_port_n_rx_queues (lcore_params_of opts) (word_of_nat portid))
         (n_tx_queue mc)) ''Cannot configure device'' st) (\<lambda>st.
     let st = st\<lparr>val_eth := (val_eth st)(portid := port_val_eth portid (macaddr portid) (val_eth st portid))\<rparr> in
     and_then (init_mem mc opts (mem_of st)) (\<lambda>m.
     tx_setup_loop mc dev opts portid [0..<max_lcore mc] 0 (st\<lparr>mem_of := m\<rparr>)))"

fun init_ports :: "('h, 'k) machine \<Rightarrow> (dev_call \<Rightarrow> int) \<Rightarrow> (nat \<Rightarrow> bytes) \<Rightarrow> options \<Rightarrow> nat list \<Rightarrow>
    ('h, 'k) startup \<Rightarrow> ('h, 'k) startup exec" where
  "init_ports mc dev macaddr opts [] st = Some (Inr st)"
| "init_ports mc dev macaddr opts (p # ps) st = do {
     on \<leftarrow> port_on opts p;
     if \<not> on then init_ports mc dev macaddr opts ps st
     else and_then (init_port mc dev macaddr opts p st) (init_ports mc dev macaddr opts ps) }"

section \<open>Receive queues and start\<close>

fun rx_setup_queues :: "(dev_call \<Rightarrow> int) \<Rightarrow> nat \<Rightarrow> (u8 \<times> u8) list \<Rightarrow> ('h, 'k) startup \<Rightarrow>
    ('h, 'k) startup exec" where
  "rx_setup_queues dev socketid [] st = Some (Inr st)"
| "rx_setup_queues dev socketid ((portid, queueid) # qs) st = do {
     guard (socketid < NB_SOCKETS);
     and_then (issue dev (Rx_setup (unat portid) queueid socketid (pktmbuf_pool (mem_of st) socketid))
       ''rte_eth_rx_queue_setup'' st) (rx_setup_queues dev socketid qs) }"

definition rx_queue_list :: "(u8 \<Rightarrow> (u8 \<times> u8) list) \<Rightarrow> nat \<Rightarrow> (u8 \<times> u8) list" where
  "rx_queue_list conf l = (if l < 256 then conf (word_of_nat l) else [])"

fun rx_setup_loop :: "('h, 'k) machine \<Rightarrow> (dev_call \<Rightarrow> int) \<Rightarrow> options \<Rightarrow> (u8 \<Rightarrow> (u8 \<times> u8) list) \<Rightarrow>
    nat list \<Rightarrow> ('h, 'k) startup \<Rightarrow> ('h, 'k) startup exec" where
  "rx_setup_loop mc dev opts conf [] st = Some (Inr st)"
| "rx_setup_loop mc dev opts conf (l # ls) st =
     (if \<not> lcore_enabled mc l then rx_setup_loop mc dev opts conf ls st
      else and_then (rx_setup_queues dev (socket_byte mc opts l) (rx_queue_list conf l) st)
        (rx_setup_loop mc dev opts conf ls))"

fun start_ports :: "(dev_call \<Rightarrow> int) \<Rightarrow> options \<Rightarrow> nat list \<Rightarrow> ('h, 'k) startup \<Rightarrow> ('h, 'k) startup exec" where
  "start_ports dev opts [] st = Some (Inr st)"
| "start_ports dev opts (p # ps) st = do {
     on \<leftarrow> port_on opts p;
     if \<not> on then start_ports dev opts ps st
     else and_then (issue dev (Start p) ''rte_eth_dev_start'' st) (\<lambda>st.
       start_ports dev opts ps
         (if promiscuous_on opts then st\<lparr>calls := calls st @ [Promiscuous p]\<rparr> else st)) }"

section \<open>MAIN\<close>

text \<open>What \<open>main_loop\<close> finds when it is launched on the cores.\<close>

record ('h, 'k) booted =
  path_table :: "path_entry list"
  head_wxb :: "pid_info list"
  opts_of :: options
  rx_conf :: "u8 \<Rightarrow> (u8 \<times> u8) list"
  nb_ports :: nat
  devices :: "('h, 'k) startup"
  link_events :: "link_event list"

record eal =
  eal_init :: int
  app_args :: "arg list"
  pci_probe :: int
  link_up :: "nat \<Rightarrow> nat \<Rightarrow> bool"
  device :: "dev_call \<Rightarrow> int"
  macaddr :: "nat \<Rightarrow> bytes"

definition MAIN :: "(string \<Rightarrow> string list) \<Rightarrow> ('h, 'k) machine \<Rightarrow> eal \<Rightarrow> nid \<Rightarrow> path_entry list \<Rightarrow> options \<Rightarrow>
    ('h, 'k) startup \<Rightarrow> ('h, 'k) booted exec" where
  "MAIN strsplit mc e hst tab opts0 st0 =
     (let tab = aligment_configure hst tab in do {
      (chain, counter) \<leftarrow> read_configuration_init_pid_change_wxb hst tab [] 0;
      and_then (rte_exit_if (eal_init e < 0) ''Invalid EAL parameters'') (\<lambda>_.
      case parse_args strsplit (app_args e) opts0 of
        None \<Rightarrow> Some (Inl ''Invalid L3FWD parameters'')
      | Some opts \<Rightarrow>
        and_then (rte_exit_if (check_lcore_params
            (\<lambda>l. unat l < max_lcore mc \<and> lcore_enabled mc (unat l)) (lcore_params_of opts) < 0)
          ''check_lcore_params failed'') (\<lambda>_.
        let (ret, conf) = init_lcore_rx_queues (lcore_params_of opts) (\<lambda>_. []) in
        and_then (rte_exit_if (ret < 0) ''init_lcore_rx_queues failed'') (\<lambda>_.
        and_then (rte_exit_if (pci_probe e < 0) ''Cannot probe PCI'') (\<lambda>_.
        let nports = min (eth_dev_count mc) (max_eth_ports mc) in do {
        ret \<leftarrow> check_port_config (port_mask opts) nports (lcore_params_of opts);
        and_then (rte_exit_if (ret < 0) ''check_port_config failed'') (\<lambda>_.
        and_then (init_ports mc (device e) (macaddr e) opts [0..<nports] st0) (\<lambda>st.
        and_then (rx_setup_loop mc (device e) opts conf [0..<max_lcore mc] st) (\<lambda>st.
        and_then (start_ports (device e) opts [0..<nports] st) (\<lambda>st.
        Some (Inr \<lparr>path_table = tab, head_wxb = chain, opts_of = opts, rx_conf = conf, nb_ports = nports,
          devices = st,
          link_events = check_all_ports_link_status (link_up e) nports (port_mask opts)\<rparr>))))) })))) })"

section \<open>The calls of a successful start\<close>

definition cores :: "('h, 'k) machine \<Rightarrow> nat list" where
  "cores mc = filter (lcore_enabled mc) [0..<max_lcore mc]"

definition tx_plan :: "('h, 'k) machine \<Rightarrow> options \<Rightarrow> nat \<Rightarrow> nat list \<Rightarrow> u16 \<Rightarrow> dev_call list" where
  "tx_plan mc opts p ls q = map (\<lambda>(i, l). Tx_setup p (q + word_of_nat i) (socket_byte mc opts l))
     (enumerate 0 (filter (lcore_enabled mc) ls))"

lemma enumerate_Suc_map: "enumerate (Suc n) xs = map (\<lambda>(i, x). (Suc i, x)) (enumerate n xs)"
  by (induction xs arbitrary: n) auto

lemma tx_setup_loop_Inr:
  "tx_setup_loop mc dev opts p ls q st = Some (Inr st') \<Longrightarrow> distinct ls \<Longrightarrow>
   calls st' = calls st @ tx_plan mc opts p ls q \<and> mem_of st' = mem_of st
   \<and> (\<forall>l p'. tx_queue_id st' l p' = (if p' = p \<and> l \<in> set ls \<and> lcore_enabled mc l
        then q + word_of_nat (length (filter (lcore_enabled mc) (takeWhile (\<lambda>x. x \<noteq> l) ls)))
        else tx_queue_id st l p'))"
proof (induction ls arbitrary: q st)
  case Nil
  then show ?case by (simp add: tx_plan_def)
next
  case (Cons a ls)
  show ?case
  proof (cases "lcore_enabled mc a")
    case False
    with Cons show ?thesis by (auto simp: tx_plan_def)
  next
    case True
    let ?st = "st\<lparr>calls := calls st @ [Tx_setup p q (socket_byte mc opts a)],
      tx_queue_id := (tx_queue_id st)(a := (tx_queue_id st a)(p := q))\<rparr>"
    from True Cons.prems(1) have "tx_setup_loop mc dev opts p ls (q + 1) ?st = Some (Inr st')" by auto
    with Cons.IH Cons.prems(2) have IH: "calls st' = calls ?st @ tx_plan mc opts p ls (q + 1)"
      "mem_of st' = mem_of ?st"
      "\<And>l p'. tx_queue_id st' l p' = (if p' = p \<and> l \<in> set ls \<and> lcore_enabled mc l
        then q + 1 + word_of_nat (length (filter (lcore_enabled mc) (takeWhile (\<lambda>x. x \<noteq> l) ls)))
        else tx_queue_id ?st l p')" by auto
    have "calls st' = calls st @ tx_plan mc opts p (a # ls) q"
      using True by (simp add: IH(1) tx_plan_def enumerate_Suc_map split_def add.assoc)
    moreover have "tx_queue_id st' l p' = (if p' = p \<and> l \<in> set (a # ls) \<and> lcore_enabled mc l
        then q + word_of_nat (length (filter (lcore_enabled mc) (takeWhile (\<lambda>x. x \<noteq> l) (a # ls))))
        else tx_queue_id st l p')" for l p'
      using True Cons.prems(2) by (auto simp: IH(3) add.assoc)
    ultimately show ?thesis by (simp add: IH(2))
  qed
qed

definition port_plan :: "('h, 'k) machine \<Rightarrow> options \<Rightarrow> nat \<Rightarrow> dev_call list" where
  "port_plan mc opts p =
     Configure p (get_port_n_rx_queues (lcore_params_of opts) (word_of_nat p)) (n_tx_queue mc)
     # tx_plan mc opts p [0..<max_lcore mc] 0"

definition core_rank :: "('h, 'k) machine \<Rightarrow> nat \<Rightarrow> nat" where
  "core_rank mc l = length (filter (lcore_enabled mc) [0..<l])"

lemma takeWhile_upt: "l < n \<Longrightarrow> takeWhile (\<lambda>x. x \<noteq> l) [0..<n] = [0..<l]"
proof -
  assume "l < n"
  then have "[0..<n] = [0..<l] @ l # [Suc l..<n]"
    using upt_add_eq_append [of 0 l "n - l"] by (simp add: upt_conv_Cons)
  then show ?thesis by (simp add: takeWhile_append)
qed

definition pools_ready :: "('h, 'k) machine \<Rightarrow> options \<Rightarrow> ('h, 'k) mem \<Rightarrow> bool" where
  "pools_ready mc opts m \<longleftrightarrow> (\<forall>l \<in> set (cores mc).
     socket_of mc opts l < NB_SOCKETS \<and> pktmbuf_pool m (socket_of mc opts l))"

lemma init_port_Inr:
  assumes "init_port mc dev mac opts p st = Some (Inr st')" and "mem_ok (mem_of st)"
  shows "calls st' = calls st @ port_plan mc opts p" and "mem_ok (mem_of st')"
    and "pools_ready mc opts (mem_of st')"
    and "tx_queue_id st' l p' = (if p' = p \<and> l \<in> set (cores mc) then word_of_nat (core_rank mc l)
        else tx_queue_id st l p')"
proof -
  let ?c = "Configure p (get_port_n_rx_queues (lcore_params_of opts) (word_of_nat p)) (n_tx_queue mc)"
  let ?st = "st\<lparr>calls := calls st @ [?c],
    val_eth := (val_eth st)(p := port_val_eth p (mac p) (val_eth st p))\<rparr>"
  from assms(1) obtain m where m: "init_mem mc opts (mem_of st) = Some (Inr m)" and
    loop: "tx_setup_loop mc dev opts p [0..<max_lcore mc] 0 (?st\<lparr>mem_of := m\<rparr>) = Some (Inr st')"
    by (auto simp: init_port_def Let_def)
  note mem = init_mem_loop_ok [OF m [unfolded init_mem_def] assms(2) distinct_upt]
  note tx = tx_setup_loop_Inr [OF loop distinct_upt]
  show "calls st' = calls st @ port_plan mc opts p" using tx by (simp add: port_plan_def)
  show "mem_ok (mem_of st')" using tx mem by simp
  show "pools_ready mc opts (mem_of st')" using tx mem by (simp add: pools_ready_def cores_def)
  show "tx_queue_id st' l p' = (if p' = p \<and> l \<in> set (cores mc) then word_of_nat (core_rank mc l)
        else tx_queue_id st l p')"
    using tx by (auto simp: cores_def core_rank_def takeWhile_upt)
qed

abbreviation enabled_ports :: "options \<Rightarrow> nat list \<Rightarrow> nat list" where
  "enabled_ports opts \<equiv> filter (bit (port_mask opts))"

lemma init_ports_Inr:
  assumes "init_ports mc dev mac opts ps st = Some (Inr st')" and "mem_ok (mem_of st)"
  shows "calls st' = calls st @ concat (map (port_plan mc opts) (enabled_ports opts ps))
    \<and> (enabled_ports opts ps \<noteq> [] \<longrightarrow> pools_ready mc opts (mem_of st'))
    \<and> (\<forall>l p. tx_queue_id st' l p = (if p \<in> set (enabled_ports opts ps) \<and> l \<in> set (cores mc)
        then word_of_nat (core_rank mc l) else tx_queue_id st l p))"
  using assms
proof (induction ps arbitrary: st)
  case Nil
  then show ?case by simp
next
  case (Cons p ps)
  from Cons.prems(1) have p: "p < 32" by (auto simp: port_on_def elim!: ub_elims)
  show ?case
  proof (cases "bit (port_mask opts) p")
    case False
    with Cons p show ?thesis by (simp add: port_on_def)
  next
    case True
    with Cons.prems(1) p obtain st1 where st1: "init_port mc dev mac opts p st = Some (Inr st1)"
      and rest: "init_ports mc dev mac opts ps st1 = Some (Inr st')"
      by (auto simp: port_on_def)
    note i = init_port_Inr [OF st1 Cons.prems(2)]
    note IH = Cons.IH [OF rest i(2)]
    have "pools_ready mc opts (mem_of st')"
    proof (cases "enabled_ports opts ps = []")
      case True
      have "init_ports mc dev mac opts ps st1 = Some (Inr st1)"
        using rest True by (induction ps) (auto simp: port_on_def elim!: ub_elims split: if_splits)
      with rest i(3) show ?thesis by simp
    next
      case False
      with IH show ?thesis by blast
    qed
    with True IH i(1) i(4) show ?thesis by auto
  qed
qed

definition rx_plan :: "('h, 'k) machine \<Rightarrow> options \<Rightarrow> (u8 \<Rightarrow> (u8 \<times> u8) list) \<Rightarrow> ('h, 'k) mem \<Rightarrow> nat \<Rightarrow>
    dev_call list" where
  "rx_plan mc opts conf m l = map (\<lambda>(p, q). Rx_setup (unat p) q (socket_byte mc opts l)
     (pktmbuf_pool m (socket_byte mc opts l))) (rx_queue_list conf l)"

lemma rx_setup_queues_Inr:
  "rx_setup_queues dev s qs st = Some (Inr st') \<Longrightarrow>
   st' = st\<lparr>calls := calls st @ map (\<lambda>(p, q). Rx_setup (unat p) q s (pktmbuf_pool (mem_of st) s)) qs\<rparr>"
proof (induction qs arbitrary: st)
  case (Cons x qs)
  obtain p q where x: "x = (p, q)" by (cases x)
  let ?st = "st\<lparr>calls := calls st @ [Rx_setup (unat p) q s (pktmbuf_pool (mem_of st) s)]\<rparr>"
  from Cons.prems have "rx_setup_queues dev s qs ?st = Some (Inr st')"
    by (auto simp: x elim!: ub_elims)
  from Cons.IH [OF this] show ?case by (simp add: x)
qed simp

lemma rx_setup_loop_Inr:
  "rx_setup_loop mc dev opts conf ls st = Some (Inr st') \<Longrightarrow>
   st' = st\<lparr>calls := calls st @ concat (map (rx_plan mc opts conf (mem_of st))
     (filter (lcore_enabled mc) ls))\<rparr>"
proof (induction ls arbitrary: st)
  case (Cons l ls)
  show ?case
  proof (cases "lcore_enabled mc l")
    case True
    with Cons.prems obtain st1 where "rx_setup_queues dev (socket_byte mc opts l) (rx_queue_list conf l) st
        = Some (Inr st1)" and rest: "rx_setup_loop mc dev opts conf ls st1 = Some (Inr st')" by auto
    from rx_setup_queues_Inr [OF this(1)]
    have "st1 = st\<lparr>calls := calls st @ rx_plan mc opts conf (mem_of st) l\<rparr>" by (simp add: rx_plan_def)
    with Cons.IH [OF rest] True show ?thesis by simp
  qed (use Cons in simp)
qed simp

definition start_plan :: "options \<Rightarrow> nat \<Rightarrow> dev_call list" where
  "start_plan opts p = Start p # (if promiscuous_on opts then [Promiscuous p] else [])"

lemma start_ports_Inr:
  "start_ports dev opts ps st = Some (Inr st') \<Longrightarrow>
   st' = st\<lparr>calls := calls st @ concat (map (start_plan opts) (enabled_ports opts ps))\<rparr>"
proof (induction ps arbitrary: st)
  case (Cons p ps)
  from Cons.prems have p: "p < 32" by (auto simp: port_on_def elim!: ub_elims)
  show ?case
  proof (cases "bit (port_mask opts) p")
    case True
    with Cons.prems p have "start_ports dev opts ps (st\<lparr>calls := calls st @ start_plan opts p\<rparr>) = Some (Inr st')"
      by (auto simp: port_on_def start_plan_def)
    from Cons.IH [OF this] True show ?thesis by simp
  qed (use Cons p in \<open>simp add: port_on_def\<close>)
qed simp

lemma check_lcore_params_result: "check_lcore_params en ps = 0 \<or> check_lcore_params en ps = -1"
  by (induction ps) auto

lemma check_port_config_result: "check_port_config pmask n ps = Some r \<Longrightarrow> r = 0 \<or> r = -1"
  by (induction ps) (auto simp: Let_def split: if_splits elim!: ub_elims)

lemma init_lcore_rx_queues_result:
  "fst (init_lcore_rx_queues ps conf) = 0 \<or> fst (init_lcore_rx_queues ps conf) = -1"
  by (induction ps arbitrary: conf) (auto simp: Let_def)

lemma init_lcore_rx_queues_0:
  assumes "init_lcore_rx_queues ps (\<lambda>_. []) = (ret, conf)" and "\<not> ret < 0"
  shows "conf = queues_of ps"
  using init_lcore_rx_queues_eq [of "\<lambda>_. []" ps] init_lcore_rx_queues_result [of ps "\<lambda>_. []"] assms
  by (auto simp: fun_eq_iff split: if_splits)

lemma MAIN_Inr:
  assumes "MAIN strsplit mc e hst tab opts0 st0 = Some (Inr b)"
  obtains st1 where "check_lcore_params (\<lambda>l. unat l < max_lcore mc \<and> lcore_enabled mc (unat l)) (lcore_params_of (opts_of b)) = 0"
    and "check_port_config (port_mask (opts_of b)) (nb_ports b) (lcore_params_of (opts_of b)) = Some 0"
    and "rx_conf b = queues_of (lcore_params_of (opts_of b))"
    and "init_ports mc (device e) (macaddr e) (opts_of b) [0..<nb_ports b] st0 = Some (Inr st1)"
    and "devices b = st1\<lparr>calls := calls st1
          @ concat (map (rx_plan mc (opts_of b) (rx_conf b) (mem_of st1)) (cores mc))
          @ concat (map (start_plan (opts_of b)) (enabled_ports (opts_of b) [0..<nb_ports b]))\<rparr>"
proof -
  let ?np = "min (eth_dev_count mc) (max_eth_ports mc)"
  from assms obtain chain counter opts ret0 conf ret st1 st2 st3 where
    c: "\<not> check_lcore_params (\<lambda>l. unat l < max_lcore mc \<and> lcore_enabled mc (unat l)) (lcore_params_of opts) < 0"
    "init_lcore_rx_queues (lcore_params_of opts) (\<lambda>_. []) = (ret0, conf)" "\<not> ret0 < 0"
    "check_port_config (port_mask opts) ?np (lcore_params_of opts) = Some ret" "\<not> ret < 0" and
    s: "init_ports mc (device e) (macaddr e) opts [0..<?np] st0 = Some (Inr st1)"
    "rx_setup_loop mc (device e) opts conf [0..<max_lcore mc] st1 = Some (Inr st2)"
    "start_ports (device e) opts [0..<?np] st2 = Some (Inr st3)" and
    b: "opts_of b = opts" "nb_ports b = ?np" "rx_conf b = conf" "devices b = st3"
    by (auto simp: MAIN_def Let_def elim!: ub_elims split: option.splits prod.splits)
  show ?thesis
  proof (rule that, unfold b(1))
    show "check_lcore_params (\<lambda>l. unat l < max_lcore mc \<and> lcore_enabled mc (unat l)) (lcore_params_of opts) = 0"
      using c(1) check_lcore_params_result [of _ "lcore_params_of opts"] by force
    show "check_port_config (port_mask opts) (nb_ports b) (lcore_params_of opts) = Some 0"
      using c(4,5) check_port_config_result [OF c(4)] by (auto simp: b)
    show "rx_conf b = queues_of (lcore_params_of opts)"
      using init_lcore_rx_queues_0 [OF c(2,3)] by (simp add: b)
    show "init_ports mc (device e) (macaddr e) opts [0..<nb_ports b] st0 = Some (Inr st1)"
      using s(1) by (simp add: b)
    show "devices b = st1\<lparr>calls := calls st1
          @ concat (map (rx_plan mc opts (rx_conf b) (mem_of st1)) (cores mc))
          @ concat (map (start_plan opts) (enabled_ports opts [0..<nb_ports b]))\<rparr>"
      using start_ports_Inr [OF s(3)] rx_setup_loop_Inr [OF s(2)] by (simp add: b cores_def)
  qed
qed

lemma in_concat_split:
  assumes "x \<in> set xs"
  shows "\<exists>pre post. concat (map f xs) = pre @ f x @ post"
  using assms by (induction xs) (auto, metis append.assoc)

text \<open>C32: A successful start gives every queue of the configuration to its core ready for use: the core is
  enabled and its \<open>main_loop\<close> will poll the queue; the port exists and is enabled; among the calls
  made, the port is configured with more receive queues than the number of the queue, then the queue
  is set up with a buffer pool that exists, then the port is started, in this order.\<close>

theorem MAIN_configures_queues:
  assumes "MAIN strsplit mc e hst tab opts0 st0 = Some (Inr b)" and "mem_ok (mem_of st0)"
    and "x \<in> set (lcore_params_of (opts_of b))"
  shows "lcore_enabled mc (unat (lcore_id x)) \<and> unat (lcore_id x) < max_lcore mc
    \<and> (port_id x, queue_id x) \<in> set (rx_conf b (lcore_id x))
    \<and> unat (port_id x) < nb_ports b \<and> bit (port_mask (opts_of b)) (unat (port_id x))
    \<and> (\<exists>c0 c1 c2 c3 nrx s. calls (devices b) = c0 @ Configure (unat (port_id x)) nrx (n_tx_queue mc)
          # c1 @ Rx_setup (unat (port_id x)) (queue_id x) s True # c2 @ Start (unat (port_id x)) # c3
        \<and> queue_id x < nrx)"
proof -
  let ?p = "unat (port_id x)" and ?q = "queue_id x" and ?l = "unat (lcore_id x)" and ?opts = "opts_of b"
  let ?ps = "enabled_ports ?opts [0..<nb_ports b]"
  obtain st1 where
    lc: "check_lcore_params (\<lambda>l. unat l < max_lcore mc \<and> lcore_enabled mc (unat l)) (lcore_params_of ?opts) = 0"
    and pc: "check_port_config (port_mask ?opts) (nb_ports b) (lcore_params_of ?opts) = Some 0"
    and rx: "rx_conf b = queues_of (lcore_params_of ?opts)"
    and ip: "init_ports mc (device e) (macaddr e) ?opts [0..<nb_ports b] st0 = Some (Inr st1)"
    and dv: "devices b = st1\<lparr>calls := calls st1
          @ concat (map (rx_plan mc ?opts (rx_conf b) (mem_of st1)) (cores mc))
          @ concat (map (start_plan ?opts) ?ps)\<rparr>"
    by (rule MAIN_Inr [OF assms(1)])
  have l: "?l < max_lcore mc" "lcore_enabled mc ?l"
    and q: "\<forall>x \<in> set (lcore_params_of ?opts). queue_id x < MAX_RX_QUEUE_PER_PORT"
    using lc assms(3) by (auto simp: check_lcore_params_iff)
  have p: "?p \<in> set ?ps" using pc assms(3) by (auto simp: check_port_config_iff)
  have polled: "(port_id x, ?q) \<in> set (rx_conf b (lcore_id x))"
    using assms(3) by (auto simp: rx queues_of_def)
  let ?n = "get_port_n_rx_queues (lcore_params_of ?opts) (port_id x)"
  have nq: "?q < ?n" using get_port_n_rx_queues_bounds(1) [OF q] assms(3) by blast
  note ports = init_ports_Inr [OF ip assms(2)]
  have lin: "?l \<in> set (cores mc)" using l by (simp add: cores_def)
  moreover have "?ps \<noteq> []" using p by (metis empty_iff list.set(1))
  ultimately have "socket_of mc ?opts ?l < NB_SOCKETS" "pktmbuf_pool (mem_of st1) (socket_of mc ?opts ?l)"
    using ports by (auto simp: pools_ready_def)
  then have "pktmbuf_pool (mem_of st1) (socket_byte mc ?opts ?l)"
    by (simp add: socket_byte_def NB_SOCKETS_def)
  then have "Rx_setup ?p ?q (socket_byte mc ?opts ?l) True
      \<in> set (rx_plan mc ?opts (rx_conf b) (mem_of st1) ?l)"
    using polled unsigned_less [of "lcore_id x", where 'a = nat]
    by (force simp: rx_plan_def rx_queue_list_def)
  then obtain r1 r2 where r: "rx_plan mc ?opts (rx_conf b) (mem_of st1) ?l
      = r1 @ Rx_setup ?p ?q (socket_byte mc ?opts ?l) True # r2" by (metis split_list)
  obtain a1 a2 where a: "concat (map (port_plan mc ?opts) ?ps) = a1 @ port_plan mc ?opts ?p @ a2"
    using in_concat_split [OF p] by blast
  obtain b1 b2 where b: "concat (map (rx_plan mc ?opts (rx_conf b) (mem_of st1)) (cores mc))
      = b1 @ rx_plan mc ?opts (rx_conf b) (mem_of st1) ?l @ b2" using in_concat_split [OF lin] by blast
  obtain d1 d2 where d: "concat (map (start_plan ?opts) ?ps) = d1 @ start_plan ?opts ?p @ d2"
    using in_concat_split [OF p] by blast
  have "calls (devices b) = (calls st0 @ a1) @ Configure ?p ?n (n_tx_queue mc)
      # (tl (port_plan mc ?opts ?p) @ a2 @ b1 @ r1) @ Rx_setup ?p ?q (socket_byte mc ?opts ?l) True
      # (r2 @ b2 @ d1) @ Start ?p # tl (start_plan ?opts ?p) @ d2"
    using ports by (simp add: dv a b d r port_plan_def start_plan_def)
  with nq have "\<exists>c0 c1 c2 c3 nrx s. calls (devices b) = c0 @ Configure ?p nrx (n_tx_queue mc)
      # c1 @ Rx_setup ?p ?q s True # c2 @ Start ?p # c3 \<and> ?q < nrx" by blast
  with l polled p show ?thesis by simp
qed

lemma core_rank_less:
  assumes "l < l'" and "l \<in> set (cores mc)"
  shows "core_rank mc l < core_rank mc l'"
proof -
  have "[0..<l'] = [0..<l] @ l # [Suc l..<l']"
    using assms(1) upt_add_eq_append [of 0 l "l' - l"] by (simp add: upt_conv_Cons)
  with assms(2) show ?thesis by (simp add: core_rank_def cores_def)
qed

lemma core_rank_bound: "l \<in> set (cores mc) \<Longrightarrow> core_rank mc l < length (cores mc)"
  using core_rank_less [of l "max_lcore mc" mc] by (simp add: cores_def core_rank_def)

text \<open>No two cores share a transmit queue: after a successful start, two enabled cores have different
  queue numbers on every enabled port, and with no more enabled cores than the transmit queues a port
  may have, each number is below the number of queues the port was configured with.\<close>

theorem MAIN_tx_queues_private:
  assumes "MAIN strsplit mc e hst tab opts0 st0 = Some (Inr b)" and "mem_ok (mem_of st0)"
    and "max_lcore mc \<le> 2 ^ 16" and "l \<in> set (cores mc)" and "l' \<in> set (cores mc)" and "l \<noteq> l'"
    and "p < nb_ports b" and "bit (port_mask (opts_of b)) p"
  shows "tx_queue_id (devices b) l p \<noteq> tx_queue_id (devices b) l' p
    \<and> (length (cores mc) \<le> max_eth_ports mc \<longrightarrow> unat (tx_queue_id (devices b) l p) < n_tx_queue mc)"
proof -
  obtain st1 where
    ip: "init_ports mc (device e) (macaddr e) (opts_of b) [0..<nb_ports b] st0 = Some (Inr st1)"
    and dv: "devices b = st1\<lparr>calls := calls st1
          @ concat (map (rx_plan mc (opts_of b) (rx_conf b) (mem_of st1)) (cores mc))
          @ concat (map (start_plan (opts_of b)) (enabled_ports (opts_of b) [0..<nb_ports b]))\<rparr>"
    by (rule MAIN_Inr [OF assms(1)])
  have id: "unat (tx_queue_id (devices b) k p) = core_rank mc k" if "k \<in> set (cores mc)" for k
  proof -
    have "tx_queue_id (devices b) k p = word_of_nat (core_rank mc k)"
      using init_ports_Inr [OF ip assms(2)] assms(7,8) that by (simp add: dv)
    moreover have "length (cores mc) \<le> 2 ^ 16"
      using assms(3) length_filter_le [of "lcore_enabled mc" "[0..<max_lcore mc]"] by (simp add: cores_def)
    ultimately show ?thesis
      using core_rank_bound [OF that] by (simp add: unsigned_of_nat take_bit_nat_eq_self)
  qed
  have "core_rank mc l \<noteq> core_rank mc l'"
    using core_rank_less [of l l' mc] core_rank_less [of l' l mc] assms(4,5,6) by (metis less_irrefl nat_neq_iff)
  then show ?thesis
    using id [OF assms(4)] id [OF assms(5)] core_rank_bound [OF assms(4)]
    by (auto simp: n_tx_queue_def cores_def)
qed

section \<open>A start on one core\<close>

definition fresh :: "(bytes list, bytes list) startup" where
  "fresh = \<lparr>calls = [], mem_of = no_mem, tx_queue_id = (\<lambda>_ _. 0), val_eth = (\<lambda>_. replicate 16 0)\<rparr>"

definition willing :: eal where
  "willing = \<lparr>eal_init = 0, app_args = [], pci_probe = 0, link_up = (\<lambda>_ _. True), device = (\<lambda>_. 0),
     macaddr = (\<lambda>_. replicate 6 0)\<rparr>"

lemma mem_ok_fresh: "mem_ok (mem_of fresh)"
  by (simp add: fresh_def mem_ok_no_mem)

lemma two_cores_port:
  "\<exists>st. init_port two_cores (device willing) (macaddr willing) default_options 1 fresh = Some (Inr st)"
proof -
  obtain m where m: "init_mem two_cores default_options no_mem = Some (Inr m)"
    using two_cores_init_mem by blast
  have "\<exists>st'. tx_setup_loop mc (device willing) opts p ls q st = Some (Inr st')"
    for mc :: "(bytes list, bytes list) machine" and opts p ls q and st :: "(bytes list, bytes list) startup"
    by (induction ls arbitrary: q st) (auto simp: issue_def rte_exit_if_def willing_def)
  then show ?thesis
    using m by (simp add: init_port_def issue_def rte_exit_if_def Let_def fresh_def willing_def)
qed

lemma two_cores_start:
  "\<exists>b. MAIN (\<lambda>_. []) two_cores willing (Nid []) [] default_options fresh = Some (Inr b)
    \<and> opts_of b = default_options \<and> nb_ports b = 4"
proof -
  obtain st where st: "init_port two_cores (device willing) (macaddr willing) default_options 1 fresh = Some (Inr st)"
    using two_cores_port by blast
  have ports: "[0..<4] = [0, 1, 2, 3 :: nat]" by (simp add: upt_rec)
  have on: "port_on default_options p = Some (p = 1)" if "p < 4" for p
  proof -
    have "bit (port_mask default_options) p = (p = 1)"
      using that by (auto simp: default_options_def bit_word_iff_drop_bit_and less_Suc_eq numeral_eq_Suc)
    with that show ?thesis by (simp add: port_on_def)
  qed
  have ip: "init_ports two_cores (device willing) (macaddr willing) default_options [0..<4] fresh = Some (Inr st)"
    using st by (simp add: ports on)
  have rx: "\<exists>st'. rx_setup_loop two_cores (device willing) default_options conf ls st = Some (Inr st')"
    for conf ls st
  proof -
    have q: "\<exists>st'. rx_setup_queues (device willing) 1 qs st = Some (Inr st')"
      for qs and st :: "(bytes list, bytes list) startup"
      by (induction qs arbitrary: st) (auto simp: issue_def rte_exit_if_def willing_def NB_SOCKETS_def)
    have "socket_byte two_cores default_options l = 1" for l
      by (simp add: socket_byte_def socket_of_def two_cores_def default_options_def)
    note sb = this
    show ?thesis
    proof (induction ls arbitrary: st)
      case (Cons l ls)
      obtain st1 where "rx_setup_queues (device willing) 1 (rx_queue_list conf l) st = Some (Inr st1)"
        using q by blast
      with Cons.IH [of st1] Cons.IH [of st] show ?case by (simp add: sb)
    qed simp
  qed
  obtain st2 where st2: "rx_setup_loop two_cores (device willing) default_options
      (queues_of (lcore_params_of default_options)) [0..<max_lcore two_cores] st = Some (Inr st2)"
    using rx by blast
  have "\<exists>st3. start_ports (device willing) default_options [0..<4] st2 = Some (Inr st3)"
    by (simp add: ports on issue_def rte_exit_if_def willing_def)
  then obtain st3 where st3: "start_ports (device willing) default_options [0..<4] st2 = Some (Inr st3)"
    by blast
  have "init_lcore_rx_queues (lcore_params_of default_options) (\<lambda>_. [])
      = (0, queues_of (lcore_params_of default_options))"
    by (auto simp: default_options_def queues_of_def MAX_RX_QUEUE_PER_LCORE_def)
  moreover have "check_port_config (port_mask default_options) 4 (lcore_params_of default_options) = Some 0"
    by code_simp
  moreover have "check_lcore_params (\<lambda>l. unat l < max_lcore two_cores \<and> lcore_enabled two_cores (unat l))
      (lcore_params_of default_options) = 0"
    by code_simp
  moreover have "min (eth_dev_count two_cores) (max_eth_ports two_cores) = 4" "eal_init willing = 0"
    "app_args willing = []" "pci_probe willing = 0" by (simp_all add: two_cores_def willing_def)
  ultimately show ?thesis
    using ip st2 st3
    by (simp add: MAIN_def aligment_configure_def read_configuration_init_pid_change_wxb_def
        rte_exit_if_def Let_def)
qed

theorem MAIN_configures_queues_witness:
  "\<exists>b nrx c0 c1. MAIN (\<lambda>_. []) two_cores willing (Nid []) [] default_options fresh = Some (Inr b)
    \<and> (1, 0) \<in> set (rx_conf b 2) \<and> calls (devices b) = c0 @ Configure 1 nrx 2 # c1 \<and> 0 < nrx"
proof -
  obtain b where b: "MAIN (\<lambda>_. []) two_cores willing (Nid []) [] default_options fresh = Some (Inr b)"
    and o: "opts_of b = default_options" using two_cores_start by blast
  have "\<lparr>port_id = 1, queue_id = 0, lcore_id = 2\<rparr> \<in> set (lcore_params_of (opts_of b))"
    by (simp add: o default_options_def)
  note r = MAIN_configures_queues [OF b mem_ok_fresh this]
  have "n_tx_queue two_cores = 2" by (simp add: n_tx_queue_def two_cores_def upt_rec)
  with r show ?thesis using b by fastforce
qed

theorem MAIN_tx_queues_private_witness:
  "\<exists>b. MAIN (\<lambda>_. []) two_cores willing (Nid []) [] default_options fresh = Some (Inr b)
    \<and> tx_queue_id (devices b) 1 1 \<noteq> tx_queue_id (devices b) 2 1"
proof -
  obtain b where b: "MAIN (\<lambda>_. []) two_cores willing (Nid []) [] default_options fresh = Some (Inr b)"
    and o: "opts_of b = default_options" "nb_ports b = 4" using two_cores_start by blast
  have "1 \<in> set (cores two_cores)" "2 \<in> set (cores two_cores)" "max_lcore two_cores \<le> 2 ^ 16"
    by (simp_all add: cores_def two_cores_def)
  moreover have "bit (port_mask (opts_of b)) 1" unfolding o by code_simp
  ultimately show ?thesis
    using MAIN_tx_queues_private [OF b mem_ok_fresh, of 1 2 1] b by (auto simp: o)
qed

end
