(* ===== verification/Station_Main.thy ===== *)
theory Station_Main
  imports Station_Timers
begin

text \<open>
  The processes of a monitoring station (\<open>main.c\<close>): one child per port, started by \<open>port_child_proc\<close>, killed
  by \<open>port_kill_proc\<close>, and watched by the loop at the end of \<open>main\<close>, which starts a child again that
  died. The signal handler of the timers (\<open>Station_Timers\<close>) starts and kills children too.

  The operating system is part of the state: the children that run, those that stopped, and those that
  died and were not waited for yet. The identifiers of new children are arguments.

  The loop is a state machine of its own, with a place before and after each call of the operating system, and the
  signal handler may run at each of these places; only what the loop does with the result of \<open>waitpid\<close> is
  one step. \<open>waitpid\<close> is not interrupted by the handler, because \<open>signal\<close> of the C library restarts it. The
  count is a 32-bit integer, whose overflow is undefined.
\<close>

section \<open>State\<close>

datatype death = Exited | Killed | Abnormal

text \<open>Where the loop of \<open>main\<close> is: at the test of the count, in \<open>waitpid\<close>, or behind it, with a child that died, one
  that stopped, or none because the call failed.\<close>

datatype place = At_Test | At_Wait | Has int death | Has_Stopped int | Has_None

text \<open>\<open>kills\<close> counts the successful calls of \<open>port_kill_proc\<close>; the code has no such counter.\<close>

record process_state =
  port_child_pid :: "int list"
  child_count :: int
  running :: "int set"
  stopped :: "int set"
  dead :: "int \<Rightarrow> death option"
  kills :: nat
  loop_at :: place

text \<open>The ways in which the station itself ends: \<open>exit\<close>, a signal to its own process group, a loop without
  end.\<close>

datatype fate = Exits | Kills_Itself | Hangs

type_synonym outcome = "fate + process_state"

section \<open>Operations\<close>

definition children :: "process_state \<Rightarrow> int set" where
  "children s = running s \<union> dom (dead s)"

definition count_up :: "process_state \<Rightarrow> process_state option" where
  "count_up s = do { guard (child_count s < 2 ^ 31 - 1); Some (s\<lparr>child_count := child_count s + 1\<rparr>) }"

definition count_down :: "process_state \<Rightarrow> process_state option" where
  "count_down s = do { guard (- (2 ^ 31) < child_count s); Some (s\<lparr>child_count := child_count s - 1\<rparr>) }"

text \<open>\<open>fork\<close> gives a negative number if it fails.\<close>

definition port_child_proc :: "int \<Rightarrow> nat \<Rightarrow> process_state \<Rightarrow> outcome option" where
  "port_child_proc new i s = do {
     guard (i < length (port_child_pid s));
     let s = s\<lparr>port_child_pid := (port_child_pid s)[i := new]\<rparr>;
     if new < 0 then Some (Inl Exits)
     else do { s \<leftarrow> count_up (s\<lparr>running := insert new (running s)\<rparr>); Some (Inr s) } }"

text \<open>\<open>kill\<close> with \<open>SIGKILL\<close>: a running child dies, to kill one that is dead already succeeds, 0 means the
  process group of the caller, and otherwise the call fails and is repeated for ever.\<close>

definition port_kill_proc :: "nat \<Rightarrow> process_state \<Rightarrow> outcome option" where
  "port_kill_proc i s = do {
     guard (i < length (port_child_pid s));
     let p = port_child_pid s ! i;
     if p = 0 then Some (Inl Kills_Itself)
     else if p \<notin> children s then Some (Inl Hangs)
     else do {
       let s = (if p \<in> running s
         then s\<lparr>running := running s - {p}, stopped := stopped s - {p}, dead := (dead s)(p \<mapsto> Killed)\<rparr> else s);
       s \<leftarrow> count_down (s\<lparr>port_child_pid := (port_child_pid s)[i := 0], kills := kills s + 1\<rparr>);
       Some (Inr s) } }"

text \<open>The search in the loop of \<open>main\<close>.\<close>

definition find_child :: "int \<Rightarrow> process_state \<Rightarrow> nat option" where
  "find_child p s = List.find (\<lambda>i. port_child_pid s ! i \<noteq> 0 \<and> port_child_pid s ! i = p) [0..<length (port_child_pid s)]"

text \<open>\<open>waitpid\<close> removes a dead child.\<close>

definition reap :: "int \<Rightarrow> process_state \<Rightarrow> process_state" where
  "reap p s = s\<lparr>dead := (dead s)(p := None)\<rparr>"

definition and_go_on :: "outcome option \<Rightarrow> (process_state \<Rightarrow> outcome option) \<Rightarrow> outcome option" where
  "and_go_on m f = do { r \<leftarrow> m; case r of Inl e \<Rightarrow> Some (Inl e) | Inr s \<Rightarrow> f s }"

text \<open>A stopped child is killed and started again; the second \<open>waitpid\<close> gets the identifier 0, which was
  just stored, and takes any dead child of the group.\<close>

definition child_stopped :: "int \<Rightarrow> int \<Rightarrow> int \<Rightarrow> process_state \<Rightarrow> outcome option" where
  "child_stopped p other new s = do {
     s \<leftarrow> count_down s;
     case find_child p s of
       None \<Rightarrow> Some (Inr s)
     | Some i \<Rightarrow> and_go_on (port_kill_proc i s) (\<lambda>s. port_child_proc new i (reap other s)) }"

text \<open>What the loop does with a child that died, after and together with the call that took it.\<close>

definition child_handled :: "int \<Rightarrow> death \<Rightarrow> int \<Rightarrow> process_state \<Rightarrow> outcome option" where
  "child_handled p d new s = do {
     s \<leftarrow> count_down s;
     case d of
       Exited \<Rightarrow> (case find_child p s of
           None \<Rightarrow> Some (Inr s)
         | Some i \<Rightarrow> Some (Inr (s\<lparr>port_child_pid := (port_child_pid s)[i := 0]\<rparr>)))
     | Killed \<Rightarrow> Some (Inr s)
     | Abnormal \<Rightarrow> (case find_child p s of None \<Rightarrow> Some (Inr s) | Some i \<Rightarrow> port_child_proc new i s) }"

definition child_died :: "int \<Rightarrow> death \<Rightarrow> int \<Rightarrow> process_state \<Rightarrow> outcome option" where
  "child_died p d new s = child_handled p d new (reap p s)"

text \<open>What a timer that fires does to the children.\<close>

definition fire :: "event \<Rightarrow> int \<Rightarrow> process_state \<Rightarrow> outcome option" where
  "fire e new s = (case e of
     Launch i \<Rightarrow> if i < 0 then None else port_child_proc new (nat i) s
   | End i \<Rightarrow> if i < 0 then None else port_kill_proc (nat i) s)"

section \<open>Steps\<close>

definition fresh :: "int \<Rightarrow> process_state \<Rightarrow> bool" where
  "fresh new s \<longleftrightarrow> 0 < new \<and> new \<notin> children s"

text \<open>Children die or stop at any time, timers fire at any time, and the loop waits as long as it does not
  spin on a count of zero. If the station has no children, \<open>waitpid\<close> fails with the identifier -1 and leaves the old
  status; no entry of the table is -1, so that every branch finds nothing, but the count is lowered.\<close>

inductive process_step :: "process_state \<Rightarrow> process_state \<Rightarrow> bool" where
  Dies: "p \<in> running s \<Longrightarrow>
    process_step s (s\<lparr>running := running s - {p}, stopped := stopped s - {p}, dead := (dead s)(p \<mapsto> d)\<rparr>)"
| Stops: "p \<in> running s \<Longrightarrow> process_step s (s\<lparr>stopped := insert p (stopped s)\<rparr>)"
| Fires: "fresh new s \<Longrightarrow> fire e new s = Some (Inr s') \<Longrightarrow> process_step s s'"
| Tests: "loop_at s = At_Test \<Longrightarrow> child_count s \<noteq> 0 \<Longrightarrow> process_step s (s\<lparr>loop_at := At_Wait\<rparr>)"
| Takes: "loop_at s = At_Wait \<Longrightarrow> dead s p = Some d \<Longrightarrow> process_step s ((reap p s)\<lparr>loop_at := Has p d\<rparr>)"
| Takes_Stopped: "loop_at s = At_Wait \<Longrightarrow> p \<in> stopped s \<Longrightarrow>
    process_step s (s\<lparr>stopped := stopped s - {p}, loop_at := Has_Stopped p\<rparr>)"
| Takes_None: "loop_at s = At_Wait \<Longrightarrow> children s = {} \<Longrightarrow> process_step s (s\<lparr>loop_at := Has_None\<rparr>)"
| Handles: "loop_at s = Has p d \<Longrightarrow> fresh new s \<Longrightarrow> child_handled p d new s = Some (Inr s') \<Longrightarrow>
    process_step s (s'\<lparr>loop_at := At_Test\<rparr>)"
| Handles_Stopped: "loop_at s = Has_Stopped p \<Longrightarrow> fresh new s \<Longrightarrow> other = p \<or> other \<in> dom (dead s) \<Longrightarrow>
    child_stopped p other new s = Some (Inr s') \<Longrightarrow> process_step s (s'\<lparr>loop_at := At_Test\<rparr>)"
| Handles_None: "loop_at s = Has_None \<Longrightarrow> count_down s = Some s' \<Longrightarrow> process_step s (s'\<lparr>loop_at := At_Test\<rparr>)"

inductive_cases process_stepE: "process_step s s'"

fun launch_all :: "int list \<Rightarrow> nat \<Rightarrow> process_state \<Rightarrow> outcome option" where
  "launch_all [] i s = Some (Inr s)"
| "launch_all (new # news) i s = and_go_on (port_child_proc new i s) (launch_all news (Suc i))"

definition no_children :: process_state where
  "no_children = \<lparr>port_child_pid = replicate 64 0, child_count = 0, running = {}, stopped = {}, dead = (\<lambda>_. None), kills = 0,
     loop_at = At_Test\<rparr>"

section \<open>Well-formed states\<close>

text \<open>\<open>bounded k s\<close>: with \<open>k\<close> children that were waited for and not counted yet.\<close>

definition bounded :: "int \<Rightarrow> process_state \<Rightarrow> bool" where
  "bounded k s \<longleftrightarrow> finite (children s) \<and> running s \<inter> dom (dead s) = {} \<and> stopped s \<subseteq> running s
     \<and> (\<forall>p \<in> children s. 0 < p) \<and> child_count s \<le> int (card (children s)) - int (kills s) + k
     \<and> - (2 ^ 31) \<le> child_count s \<and> child_count s < 2 ^ 31"

definition taken :: "process_state \<Rightarrow> int" where
  "taken s = (case loop_at s of Has p d \<Rightarrow> 1 | _ \<Rightarrow> 0)"

definition processes_ok :: "process_state \<Rightarrow> bool" where
  "processes_ok s \<longleftrightarrow> bounded (taken s) s"

lemma count_up_Some [simp]:
  "count_up s = Some s' \<longleftrightarrow> child_count s < 2 ^ 31 - 1 \<and> s' = s\<lparr>child_count := child_count s + 1\<rparr>"
  by (auto simp: count_up_def guard_def)

lemma count_down_Some [simp]:
  "count_down s = Some s' \<longleftrightarrow> - (2 ^ 31) < child_count s \<and> s' = s\<lparr>child_count := child_count s - 1\<rparr>"
  by (auto simp: count_down_def guard_def)

lemma count_run:
  "child_count s < 2 ^ 31 - 1 \<Longrightarrow> count_up s = Some (s\<lparr>child_count := child_count s + 1\<rparr>)"
  "- (2 ^ 31) < child_count s \<Longrightarrow> count_down s = Some (s\<lparr>child_count := child_count s - 1\<rparr>)"
  by simp_all

lemma bounded_loop_at [simp]: "bounded k (s\<lparr>loop_at := x\<rparr>) = bounded k s"
  by (simp add: bounded_def children_def)

lemma taken_loop_at [simp]: "taken (s\<lparr>loop_at := x\<rparr>) = (case x of Has p d \<Rightarrow> 1 | _ \<Rightarrow> 0)"
  by (simp add: taken_def)

lemma find_child_Some:
  "find_child p s = Some i \<Longrightarrow> i < length (port_child_pid s) \<and> port_child_pid s ! i = p \<and> p \<noteq> 0"
  by (auto simp: find_child_def find_Some_iff)

lemma find_child_exists:
  "i < length (port_child_pid s) \<Longrightarrow> port_child_pid s ! i = p \<Longrightarrow> p \<noteq> 0 \<Longrightarrow> \<exists>j. find_child p s = Some j"
  by (cases "find_child p s") (auto simp: find_child_def find_None_iff)

lemma and_go_on_Inr: "and_go_on m f = Some (Inr s') \<longleftrightarrow> (\<exists>s. m = Some (Inr s) \<and> f s = Some (Inr s'))"
  by (cases m) (auto simp: and_go_on_def split: sum.splits)

lemma port_child_proc_ok:
  assumes "port_child_proc new i s = Some (Inr s')" and "bounded k s" and "fresh new s"
  shows "bounded k s'" and "children s' = insert new (children s)" and "dead s' = dead s" and "loop_at s' = loop_at s"
proof -
  from assms(1) have s': "s' = s\<lparr>port_child_pid := (port_child_pid s)[i := new], running := insert new (running s),
      child_count := child_count s + 1\<rparr>" "child_count s < 2 ^ 31 - 1"
    by (auto simp: port_child_proc_def Let_def elim!: ub_elims split: if_splits)
  then show ch: "children s' = insert new (children s)" and "dead s' = dead s" and "loop_at s' = loop_at s"
    by (auto simp: children_def)
  have "new \<notin> children s" "0 < new" using assms(3) by (simp_all add: fresh_def)
  moreover have "running s' \<inter> dom (dead s') = {}"
    using assms(2) \<open>new \<notin> children s\<close> s' by (auto simp: bounded_def children_def)
  moreover have "stopped s' = stopped s" "running s \<subseteq> running s'" "child_count s' = child_count s + 1" "kills s' = kills s"
    using s' by auto
  ultimately show "bounded k s'"
    using assms(2) s'(2) unfolding bounded_def ch by auto
qed

lemma port_kill_proc_ok:
  assumes "port_kill_proc i s = Some (Inr s')" and "bounded k s"
  shows "bounded k s'" and "children s' = children s" and "port_child_pid s ! i \<in> dom (dead s')"
    and "dom (dead s) \<subseteq> dom (dead s')" and "loop_at s' = loop_at s"
proof -
  let ?p = "port_child_pid s ! i"
  from assms(1) have p: "?p \<in> children s"
    by (auto simp: port_kill_proc_def Let_def elim!: ub_elims split: if_splits)
  have same: "?p \<notin> running s \<Longrightarrow> s\<lparr>running := running s - {?p}, stopped := stopped s - {?p}, dead := dead s\<rparr> = s"
    using assms(2) by (cases s) (auto simp: bounded_def)
  let ?t = "if ?p \<in> running s
    then s\<lparr>running := running s - {?p}, stopped := stopped s - {?p}, dead := (dead s)(?p \<mapsto> Killed)\<rparr> else s"
  have "count_down (?t\<lparr>port_child_pid := (port_child_pid ?t)[i := 0], kills := kills ?t + 1\<rparr>) = Some s'"
    using assms(1) by (simp add: port_kill_proc_def Let_def split: if_splits del: count_down_Some)
      (auto elim!: ub_elims)
  moreover have "?t = s\<lparr>running := running s - {?p}, stopped := stopped s - {?p},
      dead := (if ?p \<in> running s then (dead s)(?p \<mapsto> Killed) else dead s)\<rparr>"
    using same by simp
  ultimately have s': "s' = s\<lparr>running := running s - {?p}, stopped := stopped s - {?p},
      dead := (if ?p \<in> running s then (dead s)(?p \<mapsto> Killed) else dead s),
      port_child_pid := (port_child_pid s)[i := 0], child_count := child_count s - 1, kills := kills s + 1\<rparr>"
      "- (2 ^ 31) < child_count s"
    by simp_all
  then show ch: "children s' = children s" using p by (auto simp: children_def)
  show "?p \<in> dom (dead s')" "dom (dead s) \<subseteq> dom (dead s')" "loop_at s' = loop_at s"
    using s' p by (auto simp: children_def)
  have "running s' \<inter> dom (dead s') = {}" "stopped s' \<subseteq> running s'"
    using assms(2) s' by (auto simp: bounded_def)
  moreover have "child_count s' = child_count s - 1" "kills s' = kills s + 1" using s' by auto
  ultimately show "bounded k s'"
    using assms(2) s'(2) unfolding bounded_def ch by auto
qed

lemma children_reap: "running s \<inter> dom (dead s) = {} \<Longrightarrow> p \<in> dom (dead s) \<Longrightarrow> children (reap p s) = children s - {p}"
  by (auto simp: children_def reap_def)

lemma reap_ok:
  assumes "bounded k s" and "p \<in> dom (dead s)"
  shows "bounded (k + 1) (reap p s)" and "children (reap p s) = children s - {p}"
proof -
  show ch: "children (reap p s) = children s - {p}"
    using assms by (intro children_reap) (auto simp: bounded_def)
  have "p \<in> children s" using assms(2) by (simp add: children_def)
  moreover from this assms(1) have "0 < card (children s)" by (auto simp: bounded_def card_gt_0_iff)
  ultimately have "int (card (children (reap p s))) = int (card (children s)) - 1"
    unfolding ch using assms(1) by (simp add: bounded_def of_nat_diff)
  moreover have "running (reap p s) \<inter> dom (dead (reap p s)) = {}" "stopped (reap p s) \<subseteq> running (reap p s)"
    using assms(1) by (auto simp: bounded_def reap_def)
  moreover have "child_count (reap p s) = child_count s" "kills (reap p s) = kills s" by (simp_all add: reap_def)
  ultimately show "bounded (k + 1) (reap p s)"
    using assms(1) unfolding bounded_def ch by auto
qed

lemma count_down_ok:
  assumes "count_down s = Some s'" and "bounded k s"
  shows "bounded (k - 1) s'" and "children s' = children s" and "loop_at s' = loop_at s" and "dead s' = dead s"
    and "port_child_pid s' = port_child_pid s"
  using assms by (auto simp: bounded_def children_def)

lemma child_handled_ok:
  assumes "child_handled p d new s = Some (Inr s')" and "bounded k s" and "fresh new s"
  shows "bounded (k - 1) s' \<and> loop_at s' = loop_at s"
proof -
  obtain t where t: "count_down s = Some t" using assms(1) by (auto simp: child_handled_def elim!: ub_elims)
  note ok = count_down_ok [OF t assms(2)]
  have fresh: "fresh new t" using assms(3) ok(2) by (simp add: fresh_def)
  have entry: "bounded (k - 1) (t\<lparr>port_child_pid := xs\<rparr>)" for xs
    using ok(1) by (simp add: bounded_def children_def)
  show ?thesis
    using assms(1) t ok(1,3) entry port_child_proc_ok(1,4) [OF _ ok(1) fresh]
    by (cases d) (auto simp: child_handled_def simp del: count_down_Some split: option.splits)
qed

lemma child_stopped_ok:
  assumes "child_stopped p other new s = Some (Inr s')" and "bounded k s"
    and "other = p \<or> other \<in> dom (dead s)" and "fresh new s"
  shows "bounded k s' \<or> bounded (k - 1) s'"
proof -
  obtain t where t: "count_down s = Some t" using assms(1) by (auto simp: child_stopped_def elim!: ub_elims)
  note ok = count_down_ok [OF t assms(2)]
  show ?thesis
  proof (cases "find_child p t")
    case None
    with assms(1) t ok(1) show ?thesis by (simp add: child_stopped_def del: count_down_Some)
  next
    case (Some i)
    with assms(1) t obtain s2 where s2: "port_kill_proc i t = Some (Inr s2)"
      "port_child_proc new i (reap other s2) = Some (Inr s')"
      by (auto simp: child_stopped_def and_go_on_Inr simp del: count_down_Some)
    note k = port_kill_proc_ok [OF s2(1) ok(1)]
    have "other \<in> dom (dead s2)" using k(3,4) ok(4) find_child_Some [OF Some] assms(3) by auto
    note r = reap_ok [OF k(1) this]
    then have "fresh new (reap other s2)" using assms(4) k(2) ok(2) by (auto simp: fresh_def)
    with port_child_proc_ok(1) [OF s2(2) r(1)] show ?thesis by simp
  qed
qed

lemma bounded_mono: "bounded j s \<Longrightarrow> j \<le> k \<Longrightarrow> bounded k s"
  by (simp add: bounded_def)

lemma process_step_ok:
  assumes "process_step s s'" and "processes_ok s"
  shows "processes_ok s'"
  using assms(1)
proof (rule process_stepE)
  fix p d
  assume p: "p \<in> running s" and s': "s' = s\<lparr>running := running s - {p}, stopped := stopped s - {p}, dead := (dead s)(p \<mapsto> d)\<rparr>"
  then have ch: "children s' = children s" by (auto simp: children_def)
  have "running s' \<inter> dom (dead s') = {}" "stopped s' \<subseteq> running s'" "child_count s' = child_count s" "kills s' = kills s"
    "taken s' = taken s"
    using assms(2) s' by (auto simp: processes_ok_def bounded_def taken_def)
  then show ?thesis using assms(2) unfolding processes_ok_def bounded_def ch by auto
next
  fix p
  assume "p \<in> running s" and "s' = s\<lparr>stopped := insert p (stopped s)\<rparr>"
  then show ?thesis using assms(2) by (auto simp: processes_ok_def bounded_def children_def taken_def)
next
  fix new e
  assume f: "fresh new s" "fire e new s = Some (Inr s')"
  then have "bounded (taken s) s' \<and> loop_at s' = loop_at s"
    using assms(2) port_child_proc_ok(1,4) port_kill_proc_ok(1,5)
    by (auto simp: fire_def processes_ok_def split: event.splits if_splits)
  then show ?thesis by (simp add: processes_ok_def taken_def)
next
  fix p d
  assume "loop_at s = At_Wait" "dead s p = Some d" "s' = reap p s\<lparr>loop_at := Has p d\<rparr>"
  then show ?thesis using assms(2) reap_ok(1) [of 0 s p] by (auto simp: processes_ok_def taken_def)
next
  fix p
  assume "loop_at s = At_Wait" "s' = s\<lparr>stopped := stopped s - {p}, loop_at := Has_Stopped p\<rparr>"
  then show ?thesis using assms(2) by (auto simp: processes_ok_def bounded_def children_def taken_def)
next
  fix p d new t
  assume "s' = t\<lparr>loop_at := At_Test\<rparr>" "loop_at s = Has p d" "fresh new s" "child_handled p d new s = Some (Inr t)"
  with assms(2) child_handled_ok [of p d new s t 1] show ?thesis by (simp add: processes_ok_def taken_def)
next
  fix p new other t
  assume "s' = t\<lparr>loop_at := At_Test\<rparr>" "loop_at s = Has_Stopped p" "fresh new s" "other = p \<or> other \<in> dom (dead s)"
    and "child_stopped p other new s = Some (Inr t)"
  with assms(2) child_stopped_ok [of p other new s t 0] bounded_mono [of "-1" t 0] show ?thesis
    by (auto simp: processes_ok_def taken_def)
next
  fix t
  assume "s' = t\<lparr>loop_at := At_Test\<rparr>" "loop_at s = Has_None" "count_down s = Some t"
  with assms(2) count_down_ok(1) [of s t 0] bounded_mono [of "-1" t 0] show ?thesis
    by (simp add: processes_ok_def taken_def del: count_down_Some)
qed (use assms(2) in \<open>auto simp: processes_ok_def taken_def\<close>)

section \<open>The station at work\<close>

definition valid_start :: "int list \<Rightarrow> bool" where
  "valid_start news \<longleftrightarrow> length news \<le> 64 \<and> distinct news \<and> (\<forall>p \<in> set news. 0 < p)"

definition started :: "int list \<Rightarrow> process_state" where
  "started news = no_children\<lparr>port_child_pid := news @ replicate (64 - length news) 0, running := set news,
     child_count := int (length news)\<rparr>"

lemma launch_all_run:
  "i + length news \<le> length (port_child_pid s) \<Longrightarrow> \<forall>p \<in> set news. 0 < p \<Longrightarrow>
    child_count s + int (length news) < 2 ^ 31 \<Longrightarrow> launch_all news i s = Some (Inr (s\<lparr>port_child_pid := take i (port_child_pid s) @ news @ drop (i + length news) (port_child_pid s),
      running := running s \<union> set news, child_count := child_count s + int (length news)\<rparr>))"
proof (induction news arbitrary: i s)
  case (Cons new news)
  let ?s = "s\<lparr>port_child_pid := (port_child_pid s)[i := new], running := insert new (running s), child_count := child_count s + 1\<rparr>"
  have "port_child_proc new i s = Some (Inr ?s)"
    using Cons.prems by (simp add: port_child_proc_def count_run)
  moreover have "take (Suc i) (port_child_pid ?s) = take i (port_child_pid s) @ [new]"
    using Cons.prems(1) by (simp add: take_Suc_conv_app_nth)
  moreover have "drop (Suc i + length news) (port_child_pid ?s) = drop (Suc i + length news) (port_child_pid s)"
    by simp
  ultimately show ?case
    using Cons.IH [of "Suc i" ?s] Cons.prems by (simp add: and_go_on_def)
qed simp

lemma launch_all_started: "valid_start news \<Longrightarrow> launch_all news 0 no_children = Some (Inr (started news))"
  using launch_all_run [of 0 news no_children]
  by (simp add: valid_start_def started_def no_children_def)

lemma children_started [simp]: "children (started news) = set news" "kills (started news) = 0"
  "dead (started news) = (\<lambda>_. None)" "stopped (started news) = {}" "running (started news) = set news"
  "child_count (started news) = int (length news)" "loop_at (started news) = At_Test"
  by (simp_all add: children_def started_def no_children_def)

lemma started_ok: "valid_start news \<Longrightarrow> processes_ok (started news)"
  by (auto simp: processes_ok_def bounded_def taken_def valid_start_def distinct_card)

lemma started_pid: "i < length news \<Longrightarrow> port_child_pid (started news) ! i = news ! i"
  "valid_start news \<Longrightarrow> length (port_child_pid (started news)) = 64"
  by (simp_all add: started_def nth_append valid_start_def)





lemma child_ends:
  assumes "valid_start news" and "i < length news"
  shows "process_step (started news) (started news\<lparr>running := set news - {news ! i}, dead := [news ! i \<mapsto> d]\<rparr>)"
proof -
  have "news ! i \<in> running (started news)" using assms(2) by simp
  from process_step.Dies [OF this, of d] show ?thesis by (simp add: started_def no_children_def)
qed

lemma fire_end:
  assumes "valid_start news" and "i < length news"
  shows "fire (End (int i)) new (started news) = Some (Inr (started news\<lparr>running := set news - {news ! i},
    dead := [news ! i \<mapsto> Killed], port_child_pid := (port_child_pid (started news))[i := 0],
    child_count := int (length news) - 1, kills := 1\<rparr>))"
proof -
  have "i < 64" "0 < news ! i" using assms by (auto simp: valid_start_def)
  then show ?thesis
    using assms by (simp add: fire_def port_kill_proc_def started_pid Let_def count_run)
qed

text \<open>One end timer blinds a station of two ports: a run leads to the state in which the child of the other
  port runs but the count is zero, so that the loop spins and no longer waits for anything. With more
  ports the count is one too low.\<close>

theorem end_timer_blinds_station:
  assumes "valid_start news" and "i < length news" and "2 \<le> length news" and "fresh new (started news)"
  shows "\<exists>s. process_step\<^sup>*\<^sup>* (started news) s \<and> running s = set news - {news ! i} \<and> dead s = Map.empty
    \<and> child_count s = int (length news) - 2 \<and> kills s = 1 \<and> loop_at s = At_Test"
proof -
  let ?p = "news ! i"
  let ?k = "started news\<lparr>running := set news - {?p}, dead := [?p \<mapsto> Killed],
    port_child_pid := (port_child_pid (started news))[i := 0], child_count := int (length news) - 1, kills := 1\<rparr>"
  let ?w = "?k\<lparr>loop_at := At_Wait\<rparr>" and ?h = "(reap ?p ?k)\<lparr>loop_at := Has ?p Killed\<rparr>"
  let ?s = "(reap ?p ?k)\<lparr>child_count := int (length news) - 2\<rparr>"
  have p: "0 < ?p" "?p \<in> set news" using assms(1,2) by (auto simp: valid_start_def)
  have "fire (End (int i)) new (started news) = Some (Inr ?k)"
    by (rule fire_end) (use assms p in auto)
  then have "process_step (started news) ?k" by (rule process_step.Fires [OF assms(4)])
  moreover have "process_step ?k ?w" using assms(3) by (intro process_step.Tests) simp_all
  moreover have "process_step ?w ?h" using process_step.Takes [of ?w ?p Killed] by (simp add: reap_def)
  moreover have "process_step ?h ?s"
  proof -
    have "fresh new ?h" using assms(4) p by (auto simp: fresh_def children_def reap_def)
    moreover have "child_handled ?p Killed new ?h = Some (Inr (?h\<lparr>child_count := int (length news) - 2\<rparr>))"
      by (simp add: child_handled_def count_run reap_def)
    moreover have "?h\<lparr>child_count := int (length news) - 2, loop_at := At_Test\<rparr> = ?s"
      by (simp add: reap_def started_def no_children_def)
    ultimately show ?thesis
      using process_step.Handles [of ?h ?p Killed new "?h\<lparr>child_count := int (length news) - 2\<rparr>"] by simp
  qed
  ultimately have "process_step\<^sup>*\<^sup>* (started news) ?s"
    by (meson converse_rtranclp_into_rtranclp rtranclp.rtrancl_refl)
  then show ?thesis by (intro exI [of _ ?s]) (auto simp: reap_def)
qed

text \<open>To end a port whose child has ended already is fatal for the station. If the child exited, its entry is 0
  and the signal goes to the station's own process group; if it was killed from outside, its identifier is
  still in the table and the loop around \<open>kill\<close> has no end.\<close>

theorem end_of_ended_port_is_fatal:
  assumes "find_child p s = Some i" and "processes_ok s" and "dead s p = Some d" and "d \<noteq> Abnormal"
    and "child_died p d new s = Some (Inr s')"
  shows "fire (End (int i)) new' s' = Some (Inl (if d = Exited then Kills_Itself else Hangs))"
proof -
  have i: "i < length (port_child_pid s)" "port_child_pid s ! i = p" "p \<noteq> 0"
    using find_child_Some [OF assms(1)] by simp_all
  have "children (reap p s\<lparr>child_count := c\<rparr>) = children (reap p s)" for c by (simp add: children_def)
  then have ch: "p \<notin> children (reap p s\<lparr>child_count := c\<rparr>)" for c
    using reap_ok(2) [OF assms(2) [unfolded processes_ok_def], of p] assms(3) by auto
  show ?thesis
  proof (cases d)
    case Exited
    have "find_child p (reap p s\<lparr>child_count := child_count s - 1\<rparr>) = Some i"
      using assms(1) by (simp add: find_child_def reap_def)
    with assms(5) i Exited have "s' = (reap p s)\<lparr>child_count := child_count s - 1, port_child_pid := (port_child_pid s)[i := 0]\<rparr>"
      by (auto simp: child_died_def child_handled_def reap_def elim!: ub_elims)
    with i Exited show ?thesis by (simp add: fire_def port_kill_proc_def Let_def reap_def)
  next
    case Killed
    with assms(5) have "s' = (reap p s)\<lparr>child_count := child_count s - 1\<rparr>" by (auto simp: child_died_def child_handled_def reap_def elim!: ub_elims)
    with i Killed ch show ?thesis by (simp add: fire_def port_kill_proc_def Let_def reap_def)
  next
    case Abnormal
    with assms(4) show ?thesis by simp
  qed
qed

section \<open>The watch alone\<close>

text \<open>The steps while no timer fires and no child stops. To wait for a child and to handle it is one step here: nothing but
  the death of another child can come in between. \<open>watch_step_run\<close> says that it is a run of the steps above.\<close>

inductive watch_step :: "process_state \<Rightarrow> process_state \<Rightarrow> bool" where
  Dies: "p \<in> running s \<Longrightarrow>
    watch_step s (s\<lparr>running := running s - {p}, stopped := stopped s - {p}, dead := (dead s)(p \<mapsto> d)\<rparr>)"
| Waits: "child_count s \<noteq> 0 \<Longrightarrow> dead s p = Some d \<Longrightarrow> fresh new s \<Longrightarrow>
    child_died p d new s = Some (Inr s') \<Longrightarrow> watch_step s s'"

inductive_cases watch_stepE: "watch_step s s'"

lemma child_handled_loop_at:
  assumes "child_handled p d new s = Some (Inr s')"
  shows "child_handled p d new (s\<lparr>loop_at := x\<rparr>) = Some (Inr (s'\<lparr>loop_at := x\<rparr>))" and "loop_at s' = loop_at s"
  using assms
  by (cases d; auto simp: child_handled_def port_child_proc_def find_child_def Let_def count_run
      elim!: ub_elims split: option.splits if_splits)+

lemma watch_step_run:
  assumes "watch_step s s'" and "processes_ok s" and "loop_at s = At_Test"
  shows "process_step\<^sup>*\<^sup>* s s' \<and> processes_ok s' \<and> loop_at s' = At_Test"
proof -
  have "process_step\<^sup>*\<^sup>* s s' \<and> loop_at s' = At_Test"
    using assms(1)
  proof (rule watch_stepE)
    fix p d
    assume "p \<in> running s" "s' = s\<lparr>running := running s - {p}, stopped := stopped s - {p}, dead := (dead s)(p \<mapsto> d)\<rparr>"
    with process_step.Dies [of p s d] assms(3) show ?thesis by simp
  next
    fix p d new
    assume c: "child_count s \<noteq> 0" and dead: "dead s p = Some d" and fresh: "fresh new s"
      and died: "child_died p d new s = Some (Inr s')"
    let ?w = "s\<lparr>loop_at := At_Wait\<rparr>" and ?h = "(reap p s)\<lparr>loop_at := Has p d\<rparr>"
    note h = child_handled_loop_at [OF died [unfolded child_died_def]]
    have at: "loop_at s' = At_Test" using h(2) assms(3) by (simp add: reap_def)
    then have [simp]: "s'\<lparr>loop_at := At_Test\<rparr> = s'" by (cases s') simp
    have "process_step s ?w" using c assms(3) by (intro process_step.Tests) simp_all
    moreover have "process_step ?w ?h" using process_step.Takes [of ?w p d] dead by (simp add: reap_def)
    moreover have "process_step ?h s'"
    proof -
      have "fresh new ?h" using fresh by (auto simp: fresh_def children_def reap_def split: if_splits)
      with process_step.Handles [of ?h p d new] h(1) [of "Has p d"] show ?thesis by fastforce
    qed
    ultimately show ?thesis using at by (meson converse_rtranclp_into_rtranclp rtranclp.rtrancl_refl)
  qed
  moreover have "processes_ok s'" if "process_step\<^sup>*\<^sup>* s s'"
    using that by (induction rule: rtranclp_induct) (auto intro: assms(2) process_step_ok)
  ultimately show ?thesis by blast
qed

definition counted :: "process_state \<Rightarrow> bool" where
  "counted s \<longleftrightarrow> child_count s = int (card (children s)) \<and> children s \<subseteq> set (port_child_pid s)
     \<and> length (port_child_pid s) = 64"

lemma counted_few: "counted s \<Longrightarrow> 0 \<le> child_count s \<and> child_count s \<le> 64"
  using card_mono [of "set (port_child_pid s)" "children s"] card_length [of "port_child_pid s"]
  by (simp add: counted_def)

lemma processes_okD:
  assumes "processes_ok s"
  shows "finite (children s)" and "p \<in> children s \<Longrightarrow> 0 < p" and "running s \<inter> dom (dead s) = {}"
  using assms by (auto simp: processes_ok_def bounded_def)

lemma child_died_Abnormal:
  assumes "processes_ok s" and "counted s" and "dead s p = Some Abnormal" and "fresh new s"
  shows "\<exists>i. find_child p s = Some i \<and> i < length (port_child_pid s) \<and> port_child_pid s ! i = p \<and>
    child_died p Abnormal new s = Some (Inr (reap p s\<lparr>port_child_pid := (port_child_pid s)[i := new],
      running := insert new (running s)\<rparr>))"
proof -
  have "p \<in> children s" using assms(3) by (auto simp: children_def)
  then have "p \<in> set (port_child_pid s)" "p \<noteq> 0"
    using assms(1,2) processes_okD(2) by (auto simp: counted_def)
  then obtain i where i: "find_child p s = Some i" by (metis find_child_exists in_set_conv_nth)
  have "\<not> new < 0" using assms(4) by (simp add: fresh_def)
  moreover have "find_child p (reap p s\<lparr>child_count := child_count s - 1\<rparr>) = Some i"
    using i by (simp add: find_child_def reap_def)
  ultimately show ?thesis
    using i find_child_Some [OF i] counted_few [OF assms(2)]
    by (intro exI [of _ i]) (simp add: child_died_def child_handled_def port_child_proc_def reap_def count_run)
qed

lemma counted_reap:
  assumes "processes_ok s" and "counted s" and "p \<in> dom (dead s)"
  shows "child_count s - 1 = int (card (children s - {p}))"
proof -
  have "p \<in> children s" using assms(3) by (auto simp: children_def)
  moreover from this processes_okD(1) [OF assms(1)] have "0 < card (children s)" by (auto simp: card_gt_0_iff)
  ultimately show ?thesis using processes_okD(1) [OF assms(1)] assms(2) by (auto simp: counted_def of_nat_diff)
qed

lemma child_died_other:
  assumes "d \<noteq> Abnormal" and "child_died p d new s = Some (Inr s')"
  shows "let s\<^sub>1 = (reap p s)\<lparr>child_count := child_count s - 1\<rparr> in
    s' = s\<^sub>1 \<or> (\<exists>i. find_child p s\<^sub>1 = Some i \<and> s' = s\<^sub>1\<lparr>port_child_pid := (port_child_pid s)[i := 0]\<rparr>)"
proof (cases d)
  case Exited
  have "port_child_pid (reap p s\<lparr>child_count := c\<rparr>) = port_child_pid s" for c by (simp add: reap_def)
  with Exited assms(2) show ?thesis
    by (cases "find_child p (reap p s\<lparr>child_count := child_count s - 1\<rparr>)")
      (auto simp: child_died_def child_handled_def reap_def elim!: ub_elims)
next
  case Killed
  with assms(2) show ?thesis by (auto simp: child_died_def child_handled_def reap_def elim!: ub_elims)
qed (simp add: assms(1))

lemma kept_entries:
  assumes "counted s" and "port_child_pid s ! i = p"
  shows "children s - {p} \<subseteq> set ((port_child_pid s)[i := q])"
proof
  fix r
  assume r: "r \<in> children s - {p}"
  then obtain j where "j < length (port_child_pid s)" "port_child_pid s ! j = r"
    using assms(1) by (metis DiffD1 counted_def in_set_conv_nth subsetD)
  moreover from this have "(port_child_pid s)[i := q] ! j = r" using r assms(2) by (cases "i = j") auto
  ultimately show "r \<in> set ((port_child_pid s)[i := q])" by (metis length_list_update nth_mem)
qed

lemma watch_step_counted:
  assumes "watch_step s s'" and "processes_ok s" and "counted s"
  shows "counted s'"
  using assms(1)
proof (rule watch_stepE)
  fix p d
  assume "p \<in> running s" and "s' = s\<lparr>running := running s - {p}, stopped := stopped s - {p}, dead := (dead s)(p \<mapsto> d)\<rparr>"
  then have "children s' = children s" "child_count s' = child_count s" "port_child_pid s' = port_child_pid s"
    by (auto simp: children_def)
  then show ?thesis using assms(3) by (simp add: counted_def)
next
  fix p d new
  assume dead: "dead s p = Some d" and fresh: "fresh new s" and died: "child_died p d new s = Some (Inr s')"
  have c: "child_count s - 1 = int (card (children s - {p}))"
    using dead by (intro counted_reap [OF assms(2,3)]) auto
  note r = children_reap [OF processes_okD(3) [OF assms(2)], of p]
  show ?thesis
  proof (cases "d = Abnormal")
    case True
    then obtain i where i: "i < length (port_child_pid s)" "port_child_pid s ! i = p"
      and s': "s' = reap p s\<lparr>port_child_pid := (port_child_pid s)[i := new], running := insert new (running s)\<rparr>"
      using child_died_Abnormal [OF assms(2,3) _ fresh, of p] dead died by auto
    have ch: "children s' = insert new (children s - {p})"
      using r dead s' by (auto simp: children_def reap_def)
    have "finite (children s)" "new \<notin> children s" using processes_okD(1) [OF assms(2)] fresh by (simp_all add: fresh_def)
    then have "int (card (children s')) = child_count s'"
      unfolding ch using c s' by (simp add: reap_def)
    moreover have "children s - {p} \<subseteq> set (port_child_pid s')"
      using kept_entries [OF assms(3), of i p new] i s' by simp
    moreover have "new \<in> set (port_child_pid s')" using i s' by (simp add: set_update_memI)
    moreover have "length (port_child_pid s') = 64" using assms(3) s' by (simp add: counted_def)
    ultimately show ?thesis unfolding counted_def ch by simp
  next
    case False
    let ?s = "reap p s\<lparr>child_count := child_count s - 1\<rparr>"
    have t: "s' = ?s \<or> (\<exists>i. find_child p ?s = Some i \<and> s' = ?s\<lparr>port_child_pid := (port_child_pid s)[i := 0]\<rparr>)"
      using child_died_other [OF False died] by (simp add: Let_def)
    have "running s' = running (reap p s)" "dead s' = dead (reap p s)" using t by auto
    then have "children s' = children (reap p s)" by (simp only: children_def)
    with r dead have ch: "children s' = children s - {p}" by auto
    have "child_count s' = child_count s - 1" using t by auto
    moreover have "children s - {p} \<subseteq> set (port_child_pid s')"
      using t
    proof (elim disjE exE conjE)
      assume "s' = ?s"
      with assms(3) show ?thesis by (auto simp: counted_def reap_def)
    next
      fix i
      assume "find_child p ?s = Some i" and "s' = ?s\<lparr>port_child_pid := (port_child_pid s)[i := 0]\<rparr>"
      moreover from this have "port_child_pid s ! i = p" using find_child_Some [of p ?s i] by (simp add: reap_def)
      ultimately show ?thesis using kept_entries [OF assms(3), of i p 0] by simp
    qed
    moreover have "length (port_child_pid s') = 64" using assms(3) t by (auto simp: counted_def reap_def)
    ultimately show ?thesis using c ch by (auto simp: counted_def)
  qed
qed

lemma watch_ok:
  assumes "valid_start news" and "watch_step\<^sup>*\<^sup>* (started news) s"
  shows "processes_ok s \<and> counted s \<and> loop_at s = At_Test"
  using assms(2)
proof (induction rule: rtranclp_induct)
  case base
  have "set news \<subseteq> set (port_child_pid (started news))" by (simp add: started_def)
  then have "counted (started news)"
    using assms(1) by (simp add: counted_def valid_start_def distinct_card) (simp add: started_def)
  then show ?case using started_ok [OF assms(1)] by simp
next
  case (step s s')
  then show ?case using watch_step_run [OF step.hyps(2)] watch_step_counted by blast
qed

text \<open>C34: Without timers the watch loses no child. Whatever children exit, are killed or crash, if one that
  crashed was not waited for yet, the loop does not spin, and to wait for that child starts a new one in the same entry of the
  table, keeps the count and leaves the other entries alone.\<close>

theorem crashed_child_restarted:
  assumes "valid_start news" and "watch_step\<^sup>*\<^sup>* (started news) s" and "dead s p = Some Abnormal" and "fresh new s"
  shows "child_count s \<noteq> 0 \<and> (\<exists>i s'. child_died p Abnormal new s = Some (Inr s') \<and> watch_step s s'
    \<and> port_child_pid s ! i = p \<and> port_child_pid s' = (port_child_pid s)[i := new] \<and> new \<in> running s'
    \<and> running s' - {new} = running s \<and> dead s' p = None \<and> child_count s' = child_count s)"
proof -
  have ok: "processes_ok s" "counted s" using watch_ok [OF assms(1,2)] by simp_all
  have "p \<in> children s" using assms(3) by (auto simp: children_def)
  then have count: "child_count s \<noteq> 0" using ok(2) processes_okD(1) [OF ok(1)] by (auto simp: counted_def)
  obtain i s' where i: "port_child_pid s ! i = p" "child_died p Abnormal new s = Some (Inr s')"
    and s': "s' = reap p s\<lparr>port_child_pid := (port_child_pid s)[i := new], running := insert new (running s)\<rparr>"
    using child_died_Abnormal [OF ok assms(3,4)] by auto
  have "new \<notin> running s" using assms(4) by (simp add: fresh_def children_def)
  then have "port_child_pid s' = (port_child_pid s)[i := new]" "new \<in> running s'" "running s' - {new} = running s"
    "dead s' p = None" "child_count s' = child_count s"
    using s' by (auto simp: reap_def)
  with watch_step.Waits [OF count assms(3,4) i(2)] count i show ?thesis by blast
qed

section \<open>Witnesses\<close>

lemma valid_start_two: "valid_start [100, 101]" by (simp add: valid_start_def)


lemma end_timer_blinds_station_witness:
  "\<exists>s. process_step\<^sup>*\<^sup>* (started [100, 101]) s \<and> running s = {101} \<and> dead s = Map.empty \<and> child_count s = 0"
  using end_timer_blinds_station [OF valid_start_two, of 0 102]
  by (auto simp: fresh_def insert_Diff_if)

lemma end_of_ended_port_is_fatal_witness:
  "\<exists>s'. child_died 100 Exited 102 (started [100, 101]\<lparr>running := {101}, dead := [100 \<mapsto> Exited]\<rparr>) = Some (Inr s')
    \<and> fire (End 0) 102 s' = Some (Inl Kills_Itself)"
proof -
  let ?s = "started [100, 101]\<lparr>running := {101}, dead := [100 \<mapsto> Exited]\<rparr>"
  have f: "find_child 100 ?s = Some 0" by (simp add: find_child_def started_def no_children_def upt_rec)
  have "\<exists>s'. child_died 100 Exited 102 ?s = Some (Inr s')"
    by (simp add: child_died_def child_handled_def reap_def count_run split: option.split)
  then obtain s' where s': "child_died 100 Exited 102 ?s = Some (Inr s')" by blast
  have "processes_ok ?s"
    by (auto simp: processes_ok_def bounded_def taken_def children_def started_def no_children_def)
  from end_of_ended_port_is_fatal [OF f this _ _ s', of 102] show ?thesis using s' by simp
qed

lemma crashed_child_restarted_witness:
  "\<exists>s i s'. dead s = [100 \<mapsto> Abnormal] \<and> child_died 100 Abnormal 102 s = Some (Inr s')
    \<and> port_child_pid s ! i = 100 \<and> port_child_pid s' = (port_child_pid s)[i := 102] \<and> child_count s' = 2"
proof -
  let ?s = "started [100, 101]\<lparr>running := {101}, dead := [100 \<mapsto> Abnormal]\<rparr>"
  have "started [100, 101]\<lparr>running := running (started [100, 101]) - {100},
      stopped := stopped (started [100, 101]) - {100}, dead := (dead (started [100, 101]))(100 \<mapsto> Abnormal)\<rparr> = ?s"
    unfolding children_started by (simp add: started_def no_children_def insert_Diff_if)
  with watch_step.Dies [of 100 "started [100, 101]" Abnormal] have "watch_step (started [100, 101]) ?s"
    by (metis children_started(5) list.set_intros(1))
  then have "watch_step\<^sup>*\<^sup>* (started [100, 101]) ?s" by blast
  moreover have "fresh 102 ?s" by (simp add: fresh_def children_def)
  moreover have "dead ?s 100 = Some Abnormal" "child_count ?s = 2" "dead ?s = [100 \<mapsto> Abnormal]" by simp_all
  ultimately show ?thesis using crashed_child_restarted [OF valid_start_two, of ?s 100 102] by metis
qed

end
