(* ===== verification/Trap_Station.thy ===== *)
theory Trap_Station
  imports C_Text
begin

text \<open>
  The messages of a monitoring station (\<open>trap.c\<close>, \<open>trap.h\<close> and \<open>thread_parse_trap\<close>,
  \<open>trap_send_proc\<close> of \<open>get_port_info.c\<close>): the file that keeps the last message of a port, the
  announcement \<open>send_trap_hello\<close> and the report \<open>send_trap_data\<close> of a port's state.

  Structures are the bytes that are sent. The file system is a map from the address in the name of
  the trap file to its content; the answers of the operating system are arguments.
\<close>

section \<open>Messages\<close>

definition TRAP_CONNECTION :: u32 where "TRAP_CONNECTION = 1"
definition TRAP_BANDWIDTH_HIGH :: u32 where "TRAP_BANDWIDTH_HIGH = 2"
definition TRAP_BANDWIDTH_LOW :: u32 where "TRAP_BANDWIDTH_LOW = 4"
definition TRAP_LINKCONNECT :: u32 where "TRAP_LINKCONNECT = 8"

text \<open>\<open>trap_sbd\<close> is the name of the station and the address of the port, 16 bytes each.\<close>

record trap_message =
  trap_sbd :: bytes
  trap_type :: u32

definition zero_message :: trap_message where
  "zero_message = \<lparr>trap_sbd = replicate 32 0, trap_type = 0\<rparr>"

definition until_zero :: "bytes \<Rightarrow> bytes option" where
  "until_zero s = do { guard (0 \<in> set s); Some (takeWhile (\<lambda>c. c \<noteq> 0) s) }"

definition port_ip :: "trap_message \<Rightarrow> bytes option" where
  "port_ip m = until_zero (drop 16 (trap_sbd m))"

text \<open>\<open>strncpy\<close> pads with zeros and does not terminate a string that is too long.\<close>

definition strncpy :: "bytes \<Rightarrow> nat \<Rightarrow> bytes" where
  "strncpy s n = take n (s @ replicate n 0)"

section \<open>The trap file\<close>

type_synonym files = "bytes \<Rightarrow> bytes option"

text \<open>The structure \<open>TRAP_MESSAGE\<close>: 56 bytes, of which the ports' counters stay zero.\<close>

definition trap_file_bytes :: "trap_message \<Rightarrow> bytes" where
  "trap_file_bytes m = trap_sbd m @ le_bytes 4 (trap_type m) @ replicate 20 0"

definition read_trap_file :: "bool \<Rightarrow> files \<Rightarrow> trap_message \<Rightarrow> (int \<times> trap_message) option" where
  "read_trap_file lock_ok fs m = do {
     ip \<leftarrow> port_ip m;
     case fs ip of
       None \<Rightarrow> Some (-1, m)
     | Some b \<Rightarrow>
         if \<not> lock_ok then Some (-1, m)
         else if length b < 56 then Some (int (length b), m)
         else Some (0, \<lparr>trap_sbd = slice b 0 32, trap_type = get32 b 32\<rparr>) }"

definition write_trap_file :: "bool \<Rightarrow> bool \<Rightarrow> nat \<Rightarrow> files \<Rightarrow> trap_message \<Rightarrow> (int \<times> files) option" where
  "write_trap_file open_ok lock_ok written fs m = do {
     ip \<leftarrow> port_ip m;
     let old = (case fs ip of None \<Rightarrow> [] | Some b \<Rightarrow> b);
     if \<not> open_ok then Some (-1, fs)
     else if \<not> lock_ok then Some (-1, fs(ip \<mapsto> old))
     else do {
       let fs = fs(ip \<mapsto> take written (trap_file_bytes m) @ drop written old);
       if written \<noteq> 56 then Some (int written, fs) else Some (0, fs) } }"

section \<open>Frames\<close>

text \<open>\<open>send_trap_hello\<close>: the frame, from the cleared structure \<open>TRAP_HELLO_PKG\<close>.\<close>

definition hello_frame :: "bytes \<Rightarrow> trap_message \<Rightarrow> bytes" where
  "hello_frame source_mac m =
     (let b = replicate 116 0;
          b = put b 0 (replicate 6 255);
          b = put b 6 source_mac;
          b = put b 12 (le_bytes 2 (bswap16 0x0800));
          b = put b 14 [160];
          b = put b 15 [255];
          b = put b 16 (le_bytes 2 (bswap16 68));
          b = put b 22 [20];
          b = put b 23 [16];
          b = put b 44 (le_bytes 2 (bswap16 16));
          b = put b 46 (le_bytes 2 (bswap16 1500));
          b = put b 67 [2];
          b = put b 68 (take 16 (trap_sbd m));
          b = put b 84 (trap_sbd m)
      in b)"

text \<open>The socket calls: whether the hardware address was found, whether the socket was created, and how
  many bytes were sent. The value is what the function returns; the frame is what goes out.\<close>

record os =
  hw_addr :: "bytes option"
  socket_ok :: bool
  sent :: nat

definition send_trap_hello :: "os \<Rightarrow> trap_message \<Rightarrow> (int \<times> bytes list) option" where
  "send_trap_hello os m = do {
     source_mac \<leftarrow> hw_addr os;
     if \<not> socket_ok os then Some (-1, [])
     else let frame = hello_frame source_mac m in
       if sent os \<noteq> length frame then Some (0, [take (sent os) frame])
       else Some (int (sent os), [frame]) }"

definition data_frame :: "bytes \<Rightarrow> trap_message \<Rightarrow> bytes \<Rightarrow> int \<Rightarrow> bytes" where
  "data_frame source_mac m nid port1_data =
     (let b = replicate 144 0;
          b = put b 0 (replicate 6 255);
          b = put b 6 source_mac;
          b = put b 12 (le_bytes 2 (bswap16 0x0800));
          b = put b 14 [161];
          b = put b 15 [255];
          b = put b 16 (le_bytes 2 (bswap16 68));
          b = put b 22 [20];
          b = put b 23 [16];
          b = put b 67 [3];
          b = put b 68 nid;
          b = put b 120 (le_bytes 4 (trap_type m));
          b = put b 88 (trap_sbd m);
          b = put b 128 (le_bytes 8 (word_of_int port1_data :: u64));
          b = put b 136 (le_bytes 8 (3 :: u64))
      in b)"

text \<open>\<open>fgets\<close> reads the first line, at most 99 characters.\<close>

definition first_line :: "string \<Rightarrow> string" where
  "first_line s = fgets_line 100 s"

definition send_trap_data :: "os \<Rightarrow> string option \<Rightarrow> trap_message \<Rightarrow> bytes \<Rightarrow> (int \<times> bytes list) option" where
  "send_trap_data os traffic_temp m nid =
     (case traffic_temp of
        None \<Rightarrow> Some (-1, [])
      | Some s \<Rightarrow> do {
          source_mac \<leftarrow> hw_addr os;
          if \<not> socket_ok os then Some (-1, [])
          else let frame = data_frame source_mac m nid (strtoll (first_line s)) in
            if sent os \<noteq> length frame then Some (0, [take (sent os) frame])
            else Some (int (sent os), [frame]) })"

section \<open>Answering a request\<close>

text \<open>Whether \<open>strcmp\<close> finds the strings at two places equal; it reads up to the first difference.\<close>

fun strcmp_eq :: "bytes \<Rightarrow> bytes \<Rightarrow> bool option" where
  "strcmp_eq (x # xs) (y # ys) =
     (if x \<noteq> y then Some False else if x = 0 then Some True else strcmp_eq xs ys)"
| "strcmp_eq _ _ = None"

text \<open>\<open>thread_parse_trap\<close> on the copied \<open>TRAP_HELLO_PKG\<close>; the frames it sends. The name in the request need
  not end within its field.\<close>

definition thread_parse_trap :: "bytes \<Rightarrow> bool \<Rightarrow> files \<Rightarrow> string option \<Rightarrow> os \<Rightarrow> bytes \<Rightarrow> bytes list option" where
  "thread_parse_trap host_name lock_ok fs traffic_temp os pkg = do {
     same \<leftarrow> strcmp_eq (drop 84 pkg) (host_name @ [0]);
     if same then do {
       let m = zero_message\<lparr>trap_sbd := slice pkg 84 32\<rparr>;
       (r, m) \<leftarrow> read_trap_file lock_ok fs m;
       (r, frames) \<leftarrow> send_trap_data os traffic_temp m (slice pkg 68 16);
       Some frames }
     else Some [] }"

section \<open>The state of a port\<close>

record port_trap_state =
  trap_flag :: int
  pts_port_ip :: bytes
  trap_state :: u32

definition trap_port_set :: "port_trap_state \<Rightarrow> u32 \<Rightarrow> port_trap_state" where
  "trap_port_set pts state = pts\<lparr>trap_flag := 1, trap_state := trap_state pts XOR state\<rparr>"

record port_index_info =
  dev_name :: bytes
  trap_level :: int
  port_state :: u32

definition trap_state_mark :: "port_index_info \<Rightarrow> u32 \<Rightarrow> port_index_info" where
  "trap_state_mark port state =
     (let s = port_state port XOR state in
      port\<lparr>port_state := s, trap_level :=
        (if s AND TRAP_CONNECTION \<noteq> 0 \<or> s AND TRAP_LINKCONNECT \<noteq> 0 then 2 else if s = 0 then 0 else 1)\<rparr>)"

text \<open>The port with the lowest level, the first of several; levels of 2 and more are not chosen.\<close>

fun choose_port :: "port_index_info list \<Rightarrow> bytes \<times> int \<Rightarrow> bytes \<times> int" where
  "choose_port [] p = p"
| "choose_port (q # ports) p = choose_port ports (if trap_level q < snd p then (dev_name q, trap_level q) else p)"

text \<open>\<open>trap_send_proc\<close>: the state goes to the file and is announced, except for the port towards the
  resource manager.\<close>

definition silent_ip :: bytes where
  "silent_ip = map (\<lambda>c. word_of_nat (code c)) ''10.10.11.1''"

definition trap_send_proc :: "bytes \<Rightarrow> os \<Rightarrow> bool \<Rightarrow> bool \<Rightarrow> nat \<Rightarrow> files \<Rightarrow> port_trap_state \<Rightarrow>
    (int \<times> files \<times> bytes list \<times> port_trap_state) option" where
  "trap_send_proc host_name os open_ok lock_ok written fs pts = do {
     let m = \<lparr>trap_sbd = strncpy host_name 16 @ strncpy (pts_port_ip pts) 16, trap_type = trap_state pts\<rparr>;
     (ret, fs) \<leftarrow> write_trap_file open_ok lock_ok written fs m;
     if ret \<noteq> 0 then Some (ret, fs, [], pts)
     else do {
       ip \<leftarrow> port_ip m;
       (ret, frames) \<leftarrow> (if ip \<noteq> silent_ip then send_trap_hello os m else Some (ret, []));
       Some (ret, fs, frames, pts\<lparr>trap_flag := 0\<rparr>) } }"

end
