(* ===== verification/Capture.thy ===== *)
theory Capture
  imports Trap_Station
begin

text \<open>
  The capture thread of a monitoring station (\<open>get_port_info.c\<close>): it counts the frames of a port by
  direction and kind (\<open>ethdump_parseEthHead\<close>, \<open>ethdump_parseFrame\<close>) and hands requests of the
  resource manager to a thread of their own. Opening the socket is left out.

  The receive buffer of 5120 bytes is cleared before each frame. The lock around the counters makes
  each update one step.
\<close>

section \<open>Counting\<close>

record pack_count =
  tx_packets :: int
  rx_packets :: int
  total_packets :: int
  tx_bytes :: int
  rx_bytes :: int
  total_bytes :: int

text \<open>In the source the first six counters stand in the structure itself.\<close>

record stats_info =
  port_count :: pack_count
  get_pack_count :: pack_count
  data_pack_count :: pack_count

definition zero_count :: pack_count where
  "zero_count = \<lparr>tx_packets = 0, rx_packets = 0, total_packets = 0, tx_bytes = 0, rx_bytes = 0, total_bytes = 0\<rparr>"

definition zero_stats :: stats_info where
  "zero_stats = \<lparr>port_count = zero_count, get_pack_count = zero_count, data_pack_count = zero_count\<rparr>"

text \<open>\<open>strncmp\<close> on hardware addresses: the comparison ends at a byte that is zero in both.\<close>

fun strncmp_eq :: "nat \<Rightarrow> bytes \<Rightarrow> bytes \<Rightarrow> bool" where
  "strncmp_eq (Suc n) (x # xs) (y # ys) = (x = y \<and> (x = 0 \<or> strncmp_eq n xs ys))"
| "strncmp_eq _ _ _ = True"

lemma strncmp_eq_zero: "0 < n \<Longrightarrow> strncmp_eq n (0 # xs) (0 # ys)"
  by (cases n) simp_all

datatype direction = Received | Transmitted

definition add_packet :: "direction \<Rightarrow> int \<Rightarrow> pack_count \<Rightarrow> pack_count" where
  "add_packet d sz c =
     (let c = c\<lparr>total_packets := total_packets c + 1, total_bytes := total_bytes c + sz\<rparr> in
      case d of
        Transmitted \<Rightarrow> c\<lparr>tx_packets := tx_packets c + 1, tx_bytes := tx_bytes c + sz\<rparr>
      | Received \<Rightarrow> c\<lparr>rx_packets := rx_packets c + 1, rx_bytes := rx_bytes c + sz\<rparr>)"

definition ethdump_parseEthHead :: "bytes \<Rightarrow> int \<Rightarrow> bytes \<Rightarrow> stats_info \<Rightarrow> direction \<times> stats_info" where
  "ethdump_parseEthHead local_mac sz b s =
     (let d = (if strncmp_eq 6 (slice b 6 6) local_mac then Transmitted else Received) in (d, s\<lparr>port_count := add_packet d sz (port_count s)\<rparr>))"

text \<open>The result is the copied request, if a thread is to answer it.\<close>

definition ethdump_parseFrame :: "bytes \<Rightarrow> int \<Rightarrow> bytes \<Rightarrow> stats_info \<Rightarrow> stats_info \<times> bytes option" where
  "ethdump_parseFrame local_mac sz b s =
     (let (d, s) = ethdump_parseEthHead local_mac sz b s;
          head_type = get8 b 14
      in if head_type = 161 then (s\<lparr>data_pack_count := add_packet d sz (data_pack_count s)\<rparr>, None)
         else if head_type = 160 then
           (s\<lparr>get_pack_count := add_packet d sz (get_pack_count s)\<rparr>,
            if get8 b 67 = 3 then Some (slice b 0 116) else None)
         else (s, None))"

definition RCV_BUF_SIZE :: nat where "RCV_BUF_SIZE = 1024 * 5"

text \<open>One round of \<open>ethdump_startCapture\<close> on a frame; a longer one is cut. \<open>size_received\<close> is unsigned, so
  that the test for an error never holds, and an error counts as a frame of \<open>2^32 - 1\<close> zero bytes.\<close>

definition capture_frame :: "bytes \<Rightarrow> bytes option \<Rightarrow> stats_info \<Rightarrow> stats_info \<times> bytes option" where
  "capture_frame local_mac recv s =
     (case recv of
        Some f \<Rightarrow> let f = take RCV_BUF_SIZE f in
          ethdump_parseFrame local_mac (int (length f)) (f @ replicate (RCV_BUF_SIZE - length f) 0) s
      | None \<Rightarrow> ethdump_parseFrame local_mac (2 ^ 32 - 1) (replicate RCV_BUF_SIZE 0) s)"

fun capture_frames :: "bytes \<Rightarrow> bytes option list \<Rightarrow> stats_info \<Rightarrow> stats_info \<times> bytes list" where
  "capture_frames local_mac [] s = (s, [])"
| "capture_frames local_mac (f # fs) s =
     (let (s, r) = capture_frame local_mac f s; (s, rs) = capture_frames local_mac fs s
      in (s, (case r of None \<Rightarrow> rs | Some q \<Rightarrow> q # rs)))"

section \<open>What is counted\<close>

text \<open>The bytes a round adds: those that fit the buffer, and \<open>2^32 - 1\<close> for an error.\<close>

definition captured_length :: "bytes option \<Rightarrow> int" where
  "captured_length f = (case f of Some f \<Rightarrow> int (min RCV_BUF_SIZE (length f)) | None \<Rightarrow> 2 ^ 32 - 1)"

definition counts_ok :: "pack_count \<Rightarrow> bool" where
  "counts_ok c \<longleftrightarrow> total_packets c = tx_packets c + rx_packets c \<and> total_bytes c = tx_bytes c + rx_bytes c
     \<and> 0 \<le> tx_packets c \<and> 0 \<le> rx_packets c \<and> 0 \<le> tx_bytes c \<and> 0 \<le> rx_bytes c"

definition stats_ok :: "stats_info \<Rightarrow> bool" where
  "stats_ok s \<longleftrightarrow> counts_ok (port_count s) \<and> counts_ok (get_pack_count s) \<and> counts_ok (data_pack_count s)
     \<and> tx_packets (get_pack_count s) + tx_packets (data_pack_count s) \<le> tx_packets (port_count s)
     \<and> rx_packets (get_pack_count s) + rx_packets (data_pack_count s) \<le> rx_packets (port_count s)
     \<and> tx_bytes (get_pack_count s) + tx_bytes (data_pack_count s) \<le> tx_bytes (port_count s)
     \<and> rx_bytes (get_pack_count s) + rx_bytes (data_pack_count s) \<le> rx_bytes (port_count s)"

lemma zero_stats_ok: "stats_ok zero_stats"
  by (simp add: stats_ok_def counts_ok_def zero_stats_def zero_count_def pack_count.defs)

lemma parseFrame_ok: "stats_ok s \<Longrightarrow> 0 \<le> sz \<Longrightarrow> stats_ok (fst (ethdump_parseFrame local_mac sz b s))"
  by (auto simp: ethdump_parseFrame_def ethdump_parseEthHead_def stats_ok_def counts_ok_def add_packet_def Let_def
      split: direction.splits)

lemma parseFrame_total:
  "total_packets (port_count (fst (ethdump_parseFrame local_mac sz b s))) = total_packets (port_count s) + 1"
  "total_bytes (port_count (fst (ethdump_parseFrame local_mac sz b s))) = total_bytes (port_count s) + sz"
  by (auto simp: ethdump_parseFrame_def ethdump_parseEthHead_def add_packet_def Let_def split: direction.splits)

lemma capture_frame_ok: "stats_ok s \<Longrightarrow> stats_ok (fst (capture_frame local_mac f s))"
  by (auto simp: capture_frame_def Let_def parseFrame_ok split: option.splits)

lemma capture_frame_total:
  "total_packets (port_count (fst (capture_frame local_mac f s))) = total_packets (port_count s) + 1"
  "total_bytes (port_count (fst (capture_frame local_mac f s))) = total_bytes (port_count s) + captured_length f"
  by (auto simp: capture_frame_def captured_length_def Let_def parseFrame_total min.commute split: option.splits)

lemma capture_frames_Cons:
  "fst (capture_frames local_mac (f # fs) s) = fst (capture_frames local_mac fs (fst (capture_frame local_mac f s)))"
  by (simp add: split_def Let_def)

text \<open>The counters stay consistent whatever arrives: the total is what was sent plus what was received,
  for packets and for bytes and for each kind, and requests and data together are never more than
  all packets in either direction; every frame is counted once with all its bytes in the buffer,
  and a failed read as a frame of \<open>2^32 - 1\<close> bytes.\<close>

theorem capture_counts_consistently:
  "stats_ok (fst (capture_frames local_mac fs zero_stats))
   \<and> total_packets (port_count (fst (capture_frames local_mac fs zero_stats))) = int (length fs)
   \<and> total_bytes (port_count (fst (capture_frames local_mac fs zero_stats))) = (\<Sum>f \<leftarrow> fs. captured_length f)"
proof -
  have "stats_ok (fst (capture_frames local_mac fs s))
   \<and> total_packets (port_count (fst (capture_frames local_mac fs s))) = total_packets (port_count s) + int (length fs)
   \<and> total_bytes (port_count (fst (capture_frames local_mac fs s))) = total_bytes (port_count s) + (\<Sum>f \<leftarrow> fs. captured_length f)" if "stats_ok s" for s
    using that
  proof (induction fs arbitrary: s)
    case (Cons f fs)
    note IH = Cons.IH [OF capture_frame_ok [OF Cons.prems, of local_mac f]]
    show ?case
      unfolding capture_frames_Cons using IH
      by (cases f) (simp_all add: capture_frame_total)
  qed simp
  from this [OF zero_stats_ok] show ?thesis
    by (simp add: zero_stats_def zero_count_def pack_count.defs)
qed

text \<open>A frame of another station can be counted as sent: the source address is compared as a string,
  so that addresses agree as soon as they agree up to a zero byte. With a local address that begins
  with zero, every frame from an address that begins with zero counts as transmitted.\<close>

theorem foreign_frames_count_as_sent:
  assumes "length f \<le> RCV_BUF_SIZE" and "7 \<le> length f" and "f ! 6 = 0" and "local_mac \<noteq> []" and "hd local_mac = 0"
  shows "tx_packets (port_count (fst (capture_frame local_mac (Some f) s))) = tx_packets (port_count s) + 1"
proof -
  obtain ms where "local_mac = 0 # ms" using assms(4,5) by (cases local_mac) auto
  moreover have "slice (f @ replicate (RCV_BUF_SIZE - length f) 0) 6 6
      = 0 # tl (slice (f @ replicate (RCV_BUF_SIZE - length f) 0) 6 6)" (is "?s = _")
  proof -
    have "?s \<noteq> []" using assms(2) by (simp add: slice_def)
    moreover have "hd ?s = 0" using assms(2,3)
      by (simp add: slice_def hd_conv_nth nth_append)
    ultimately show ?thesis by (metis list.collapse)
  qed
  ultimately have "strncmp_eq 6 ?s local_mac"
    by (metis strncmp_eq_zero zero_less_numeral)
  with assms(1) show ?thesis
    by (auto simp: capture_frame_def ethdump_parseFrame_def ethdump_parseEthHead_def add_packet_def Let_def)
qed

theorem foreign_frames_count_as_sent_witness:
  "tx_packets (port_count (fst (capture_frame [0, 1, 2, 3, 4, 5]
     (Some (replicate 6 255 @ [0, 9, 9, 9, 9, 9] @ replicate 48 0)) zero_stats))) = tx_packets (port_count zero_stats) + 1"
  by (rule foreign_frames_count_as_sent) (simp_all add: RCV_BUF_SIZE_def nth_append)

end
