(* ===== verification/Trap_Protocol.thy ===== *)
theory Trap_Protocol
  imports Trap_Station Trap_Rm Capture
begin

text \<open>
  The exchange between a monitoring station (\<open>Trap_Station\<close>, \<open>Capture\<close>) and the resource manager
  (\<open>Trap_Rm\<close>): the station announces a state, the manager turns the announcement into a request, the
  capture thread recognises the request, its thread reports the port, the manager keeps the counter.
\<close>

section \<open>The frames\<close>

lemma slice_replicate [simp]: "slice (replicate n x) p k = replicate (min k (n - p)) x"
  by (simp add: slice_def)

lemma slice_slice0: "p + k \<le> n \<Longrightarrow> slice (slice b 0 n) p k = slice b p k"
  by (simp add: slice_def take_drop min_def)

lemma drop_slice0: "drop p (slice b 0 n) = slice b p (n - p)"
  by (simp add: slice_def drop_take)

lemma identifier_fields:
  assumes "length b = n" and "68 \<le> n" and "slice b 48 19 = replicate 19 0"
  shows "slice (put b 67 [2]) 48 20 = trap_hello_sid" and "slice (put b 67 [3]) 48 20 = trap_hello_sid2"
proof -
  have "slice (put b 67 [v]) 48 (19 + 1) = slice b 48 19 @ [v]" for v
    using assms(1,2) by (simp only: slice_split) (simp add: buf_simps within_simps)
  with assms(3) show "slice (put b 67 [2]) 48 20 = trap_hello_sid" and "slice (put b 67 [3]) 48 20 = trap_hello_sid2"
    by (simp_all add: trap_hello_sid_def trap_hello_sid2_def)
qed

lemma hello_frame_fields:
  assumes "length mac = 6" and "length (trap_sbd m) = 32"
  shows "length (hello_frame mac m) = 116" and "get8 (hello_frame mac m) 14 = 160"
    and "slice (hello_frame mac m) 48 20 = trap_hello_sid"
    and "slice (hello_frame mac m) 68 16 = take 16 (trap_sbd m)"
    and "slice (hello_frame mac m) 84 32 = trap_sbd m"
  using assms by (simp_all add: hello_frame_def Let_def buf_simps identifier_fields)

lemma data_frame_fields:
  assumes "length mac = 6" and "length (trap_sbd m) = 32" and "length nid = 16"
  shows "length (data_frame mac m nid v) = 144"
    and "slice (data_frame mac m nid v) 48 20 = trap_hello_sid2"
    and "slice (data_frame mac m nid v) 68 16 = nid"
    and "slice (data_frame mac m nid v) 88 32 = trap_sbd m"
    and "get32 (data_frame mac m nid v) 120 = trap_type m"
    and "get64 (data_frame mac m nid v) 128 = word_of_int v"
  using assms by (simp_all add: data_frame_def Let_def buf_simps identifier_fields)

section \<open>The steps\<close>

definition station_name :: "nat \<Rightarrow> bytes" where
  "station_name k = [0x70, 0x63, 0x2d, 0x30 + word_of_nat k]"

lemma station_name_nid: "strncpy (station_name k) 16 = trap_hello_nid k"
  by (simp add: strncpy_def station_name_def trap_hello_nid_def numeral_eq_Suc)

lemma station_found: "k \<in> {3, 4, 5} \<Longrightarrow> slice b 68 16 = trap_hello_nid k \<Longrightarrow> station b = Some k"
  by (auto simp: station_cases)

lemma trap_data_counted:
  assumes "length (mdata m) = 144" and "k \<in> {3, 4, 5}" and "slice (mdata m) 68 16 = trap_hello_nid k"
    and "slice (mdata m) 48 20 = trap_hello_sid2"
  shows "\<exists>t'. data_trap_message m t = Some (t', [Free m]) \<and> counter_of k t' = get64 (mdata m) 128
    \<and> (\<forall>j \<in> {3, 4, 5} - {k}. counter_of j t' = counter_of j t)"
  using assms by (auto simp: data_trap_message_def compare_sid_nid_eq buf_simps Let_def counter_of_def)

lemma hello_answered:
  fixes rm_mac :: "u8 \<Rightarrow> 48 word"
  assumes "queue_ok q" and "length (mdata m) = 116" and "get8 (mdata m) 14 = 160"
    and "slice (mdata m) 48 20 = trap_hello_sid" and "slice (mdata m) 68 16 = trap_hello_nid k" and "k \<in> {3, 4, 5}"
  defines "x \<equiv> m\<lparr>mdata := put (put (mdata m) 67 [3]) 6 (le_bytes 6 (rm_mac (word_of_nat (k - 3))))\<rparr>"
  shows "\<exists>q' es. get_trap_message rm_mac burst m q = Some (x, q', es) \<and> pending q @ [x] = map pkt es @ pending q'"
proof -
  obtain q' es where "send_single_packet burst q x = Some (q', es)" "pending q @ [x] = map pkt es @ pending q'"
    using send_single_ok [OF assms(1), of burst x] by blast
  with assms(2-6) show ?thesis
    by (simp add: get_trap_message_run station_found Let_def x_def [symmetric])
qed

lemma announced:
  assumes "hw_addr os = Some mac" and "socket_ok os" and "sent os = 116" and "length mac = 6"
    and "length name \<le> 16" and "until_zero (strncpy (pts_port_ip pts) 16) = Some ip" and "ip \<noteq> silent_ip"
  defines "m \<equiv> \<lparr>trap_sbd = strncpy name 16 @ strncpy (pts_port_ip pts) 16, trap_type = trap_state pts\<rparr>"
  shows "\<exists>old. trap_send_proc name os True True 56 fs pts =
      Some (116, fs(ip \<mapsto> trap_file_bytes m @ old), [hello_frame mac m], pts\<lparr>trap_flag := 0\<rparr>)"
proof -
  have len: "length (trap_sbd m) = 32" by (simp add: m_def strncpy_def)
  then have "length (trap_file_bytes m) = 56" by (simp add: trap_file_bytes_def)
  moreover have "port_ip m = Some ip" using assms(6) by (simp add: port_ip_def m_def strncpy_def)
  ultimately have "\<exists>old. write_trap_file True True 56 fs m = Some (0, fs(ip \<mapsto> trap_file_bytes m @ old))"
    by (auto simp: write_trap_file_def Let_def)
  moreover have "send_trap_hello os m = Some (116, [hello_frame mac m])"
    using assms(1-4) hello_frame_fields(1) [OF assms(4) len] by (simp add: send_trap_hello_def Let_def)
  ultimately show ?thesis
    using assms(7) \<open>port_ip m = Some ip\<close>
    by (auto simp: trap_send_proc_def Let_def m_def [symmetric])
qed

lemma captured_request:
  assumes "length b = 116" and "get8 b 14 = 160" and "get8 b 67 = 3"
  shows "\<exists>s'. capture_frame local_mac (Some b) s = (s', Some b)"
proof -
  have "get8 (b @ xs) 14 = 160" "get8 (b @ xs) 67 = 3" "slice (b @ xs) 0 116 = b" for xs
    using assms by (simp_all add: within_simps slice_def)
  with assms(1) show ?thesis
    by (simp add: capture_frame_def ethdump_parseFrame_def RCV_BUF_SIZE_def Let_def split: prod.split)
qed

text \<open>What was written is read back.\<close>

lemma trap_file_read:
  assumes "length (trap_sbd m) = 32" and "port_ip m = Some ip" and "fs ip = Some (trap_file_bytes m @ old)"
    and "drop 16 (trap_sbd m') = drop 16 (trap_sbd m)"
  shows "read_trap_file True fs m' = Some (0, m)"
proof -
  have "port_ip m' = Some ip" using assms(2,4) by (simp add: port_ip_def)
  moreover have "slice (trap_file_bytes m @ old) 0 32 = trap_sbd m" "get32 (trap_file_bytes m @ old) 32 = trap_type m"
    using assms(1) by (simp_all add: trap_file_bytes_def slice_def within_simps)
  ultimately show ?thesis
    using assms(1,3) by (simp add: read_trap_file_def trap_file_bytes_def)
qed

lemma strcmp_eq_same: "0 \<notin> set s \<Longrightarrow> strcmp_eq (s @ 0 # xs) (s @ 0 # ys) = Some True"
  by (induction s) auto

lemma request_reported:
  assumes "hw_addr os = Some mac" and "socket_ok os" and "sent os = 144" and "length mac = 6"
    and "0 \<notin> set name" and "length name < 16" and "length (pts_ip) = 16" and "until_zero pts_ip = Some ip"
    and "length pkg = 116" and "slice pkg 84 32 = trap_sbd m" and "trap_sbd m = strncpy name 16 @ pts_ip"
    and "fs ip = Some (trap_file_bytes m @ old)"
  shows "thread_parse_trap name True fs (Some line) os pkg =
    Some [data_frame mac m (slice pkg 68 16) (strtoll (first_line line))]"
proof -
  have "drop 84 pkg = trap_sbd m" using assms(9,10) by (simp add: slice_def)
  moreover have "strncpy name 16 = name @ 0 # replicate (15 - length name) 0"
  proof -
    have "min (16 - length name) 16 = Suc (15 - length name)" using assms(6) by simp
    then have "take (16 - length name) (replicate 16 0) = 0 # replicate (15 - length name) (0 :: u8)"
      by (simp only: take_replicate replicate_Suc)
    then show ?thesis using assms(6) by (simp only: strncpy_def take_append) simp
  qed
  ultimately have "strcmp_eq (drop 84 pkg) (name @ [0]) = Some True"
    using assms(5,11) strcmp_eq_same [of name "replicate (15 - length name) 0 @ pts_ip" "[]"] by simp
  moreover have "read_trap_file True fs (zero_message\<lparr>trap_sbd := slice pkg 84 32\<rparr>) = Some (0, m)"
  proof (rule trap_file_read)
    show len: "length (trap_sbd m) = 32" using assms(7,11) by (simp add: strncpy_def)
    show "port_ip m = Some ip" using assms(8,11) by (simp add: port_ip_def strncpy_def)
  qed (use assms in simp_all)
  moreover have "length (data_frame mac m (slice pkg 68 16) v) = 144" for v
    using assms(4,7,9,11) by (intro data_frame_fields) (simp_all add: strncpy_def)
  ultimately show ?thesis
    using assms(1-3) by (simp add: thread_parse_trap_def send_trap_data_def Let_def)
qed

section \<open>The exchange\<close>

lemma first_line_numeral:
  assumes "n < 2 ^ 63"
  shows "strtoll (first_line (numeral_of 10 n @ [CHR 0x0A])) = int n"
proof -
  have "CHR 0x0A \<notin> set (numeral_of 10 n)"
    using numeral_digits [of 10 n] by (auto simp: digit_val_def code_def)
  then have "takeWhile (\<lambda>c. c \<noteq> CHR 0x0A) (numeral_of 10 n @ [CHR 0x0A]) = numeral_of 10 n"
    by (subst takeWhile_append2) auto
  moreover have "length (numeral_of 10 n) \<le> 19" using assms numeral_length [of n 19] by simp
  ultimately have "first_line (numeral_of 10 n @ [CHR 0x0A]) = numeral_of 10 n @ [CHR 0x0A]"
    by (simp add: first_line_def fgets_line_def)
  with assms show ?thesis by (simp add: strtoll_numeral digit_val_def code_def)
qed

text \<open>C7: The state of a port reaches the manager. When a station called \<open>pc-3\<close> to \<open>pc-5\<close> announces a
  port and no call fails, it sends one frame; the manager answers it with a request that joins its
  transmit queue; the capture thread hands the request to a thread, which answers with one report
  of the state that was announced and of the byte count last written; and from the report the
  manager sets the counter of that station to this number and leaves the other two.\<close>

theorem port_state_reaches_manager:
  fixes rm_mac :: "u8 \<Rightarrow> 48 word"
  assumes k: "k \<in> {3, 4, 5}"
    and os: "hw_addr os = Some mac" "length mac = 6" "socket_ok os" "sent os = 116"
    and ip: "until_zero (strncpy (pts_port_ip pts) 16) = Some ip" "ip \<noteq> silent_ip"
    and n: "n < 2 ^ 63" and q: "queue_ok q"
  shows "\<exists>fs' hello request q' es s' pkg report t'.
    trap_send_proc (station_name k) os True True 56 fs pts = Some (116, fs', [hello], pts\<lparr>trap_flag := 0\<rparr>)
    \<and> get_trap_message rm_mac burst (m\<lparr>mdata := hello\<rparr>) q = Some (request, q', es)
    \<and> pending q @ [request] = map pkt es @ pending q'
    \<and> capture_frame local_mac (Some (mdata request)) s = (s', Some pkg)
    \<and> thread_parse_trap (station_name k) True fs' (Some (numeral_of 10 n @ [CHR 0x0A]))
         (os\<lparr>sent := 144\<rparr>) pkg = Some [report]
    \<and> get32 report 120 = trap_state pts
    \<and> data_trap_message (m'\<lparr>mdata := report\<rparr>) t = Some (t', [Free (m'\<lparr>mdata := report\<rparr>)])
    \<and> counter_of k t' = word_of_nat n \<and> (\<forall>j \<in> {3, 4, 5} - {k}. counter_of j t' = counter_of j t)"
proof -
  let ?t = "\<lparr>trap_sbd = strncpy (station_name k) 16 @ strncpy (pts_port_ip pts) 16, trap_type = trap_state pts\<rparr>"
  let ?hello = "hello_frame mac ?t"
  let ?b = "put (put ?hello 67 [3]) 6 (le_bytes 6 (rm_mac (word_of_nat (k - 3))))"
  let ?report = "data_frame mac ?t (trap_hello_nid k) (int n)"
  have name: "length (station_name k) = 4" "0 \<notin> set (station_name k)"
    using k by (auto simp: station_name_def)
  have sbd: "length (trap_sbd ?t) = 32" "take 16 (trap_sbd ?t) = trap_hello_nid k"
    by (simp_all add: strncpy_def flip: station_name_nid)
  note hello = hello_frame_fields [OF os(2) sbd(1)]
  note report = data_frame_fields [OF os(2) sbd(1), of "trap_hello_nid k" "int n", simplified trap_lengths]
  obtain old where announce: "trap_send_proc (station_name k) os True True 56 fs pts =
      Some (116, fs(ip \<mapsto> trap_file_bytes ?t @ old), [?hello], pts\<lparr>trap_flag := 0\<rparr>)"
    using announced [OF os(1,3,4,2) _ ip, of "station_name k" fs] name by auto
  obtain q' es where request: "get_trap_message rm_mac burst (m\<lparr>mdata := ?hello\<rparr>) q = Some (m\<lparr>mdata := ?b\<rparr>, q', es)"
    "pending q @ [m\<lparr>mdata := ?b\<rparr>] = map pkt es @ pending q'"
    using hello_answered [OF q, of "m\<lparr>mdata := ?hello\<rparr>" k rm_mac burst] hello sbd(2) k by auto
  have b: "length ?b = 116" "get8 ?b 14 = 160" "get8 ?b 67 = 3" "slice ?b 68 16 = trap_hello_nid k"
    "slice ?b 84 32 = trap_sbd ?t"
    using hello sbd(2) by (simp_all add: buf_simps)
  obtain s' where capture: "capture_frame local_mac (Some ?b) s = (s', Some ?b)"
    using captured_request [OF b(1-3)] by blast
  have answer: "thread_parse_trap (station_name k) True (fs(ip \<mapsto> trap_file_bytes ?t @ old))
      (Some (numeral_of 10 n @ [CHR 0x0A])) (os\<lparr>sent := 144\<rparr>) ?b = Some [?report]"
    by (subst request_reported [where mac = mac and m = ?t and ip = ip and old = old])
      (use os ip name b n in \<open>simp_all add: first_line_numeral strncpy_def\<close>)
  obtain t' where counted: "data_trap_message (m'\<lparr>mdata := ?report\<rparr>) t = Some (t', [Free (m'\<lparr>mdata := ?report\<rparr>)])"
    "counter_of k t' = word_of_nat n" "\<forall>j \<in> {3, 4, 5} - {k}. counter_of j t' = counter_of j t"
    using trap_data_counted [of "m'\<lparr>mdata := ?report\<rparr>" k t] report k by auto
  show ?thesis
    by (intro exI conjI, rule announce, rule request(1), rule request(2), simp add: capture,
        rule answer, simp add: report(5), rule counted(1), rule counted(2), rule counted(3))
qed

definition idle_port :: port_trap_state where
  "idle_port = \<lparr>trap_flag = 1, pts_port_ip = [0x31, 0x30, 0x2e, 0x39] @ replicate 12 0, trap_state = 5\<rparr>"

theorem port_state_reaches_manager_witness:
  "\<exists>fs' hello request q' es s' pkg report t'.
    trap_send_proc (station_name 4) \<lparr>hw_addr = Some [1, 2, 3, 4, 5, 6], socket_ok = True, sent = 116\<rparr>
      True True 56 (\<lambda>_. None) idle_port = Some (116, fs', [hello], idle_port\<lparr>trap_flag := 0\<rparr>)
    \<and> get_trap_message (\<lambda>_. 7) (\<lambda>_. 0) (sample_hello\<lparr>mdata := hello\<rparr>) empty_table = Some (request, q', es)
    \<and> capture_frame [] (Some (mdata request)) zero_stats = (s', Some pkg)
    \<and> thread_parse_trap (station_name 4) True fs' (Some (numeral_of 10 123456 @ [CHR 0x0A]))
        \<lparr>hw_addr = Some [1, 2, 3, 4, 5, 6], socket_ok = True, sent = 144\<rparr> pkg = Some [report]
    \<and> get32 report 120 = 5
    \<and> data_trap_message (sample_report\<lparr>mdata := report\<rparr>) \<lparr>pc3_port = 1, pc4_port = 2, pc5_port = 3\<rparr> =
        Some (t', [Free (sample_report\<lparr>mdata := report\<rparr>)])
    \<and> counter_of 4 t' = 123456"
proof -
  have "until_zero (strncpy (pts_port_ip idle_port) 16) = Some [0x31, 0x30, 0x2e, 0x39]"
    "[0x31, 0x30, 0x2e, 0x39] \<noteq> silent_ip" by code_simp+
  moreover have "queue_ok (empty_table :: mbuf mbuf_table)"
    by (simp add: queue_ok_def empty_table_def MAX_PKT_BURST_def)
  ultimately show ?thesis
    using port_state_reaches_manager [of 4 "\<lparr>hw_addr = Some [1, 2, 3, 4, 5, 6], socket_ok = True, sent = 116\<rparr>"
      "[1, 2, 3, 4, 5, 6]" idle_port "[0x31, 0x30, 0x2e, 0x39]" 123456 empty_table "\<lambda>_. None" "\<lambda>_. 7" "\<lambda>_. 0" sample_hello
      "[]" zero_stats sample_report "\<lparr>pc3_port = 1, pc4_port = 2, pc5_port = 3\<rparr>"]
    by (simp add: idle_port_def) blast
qed

end
