(* ===== verification/Port_Monitor.thy ===== *)
theory Port_Monitor
  imports Complex_Main Trap_Protocol
begin

text \<open>
  The monitoring loop of a port (\<open>get_port_info\<close> in \<open>get_port_info.c\<close>, \<open>fdump_speed\<close> in \<open>dump.c\<close>): every ten seconds
  it takes the counters, checks the link, compares the use of the bandwidth with two thresholds, and
  announces the state of the port (\<open>Trap_Station\<close>).

  A round takes what the outside answers as a record. Rates are exact rationals, and the rounding
  to \<open>float\<close> is an argument. Of the descriptors a process may have open, those that \<open>check_port\<close> leaves
  open are counted, since every check leaves one. Formatted output (\<open>dump_port_info\<close>) is left out, except
  that writing to a file that could not be opened is undefined.
\<close>

section \<open>Measuring\<close>

definition INTERVAL :: nat where "INTERVAL = 10"
definition BAND_THRES_HIGH :: rat where "BAND_THRES_HIGH = 6 / 10000"
definition BAND_THRES_LOW :: rat where "BAND_THRES_LOW = 1 / 10000"

record rates =
  total_packets_ps :: rat
  tx_packets_ps :: rat
  rx_packets_ps :: rat
  total_bytes_ps :: rat
  tx_bytes_ps :: rat
  rx_bytes_ps :: rat

definition record_counter :: "pack_count \<Rightarrow> rates" where
  "record_counter c =
     (let per_second = (\<lambda>n. of_int n / of_nat INTERVAL) in
      \<lparr>total_packets_ps = per_second (total_packets c), tx_packets_ps = per_second (tx_packets c),
       rx_packets_ps = per_second (rx_packets c), total_bytes_ps = per_second (total_bytes c),
       tx_bytes_ps = per_second (tx_bytes c), rx_bytes_ps = per_second (rx_bytes c)\<rparr>)"

definition fdump_speed :: "u16 \<Rightarrow> int" where
  "fdump_speed speed = (if speed = 10 then 10 else if speed = 100 then 100 else if speed = 1000 then 1000
     else if speed = 10000 then 10000 else 0)"

text \<open>The answers to \<open>SIOCETHTOOL\<close>: the word that was read, or an error and whether it is \<open>EOPNOTSUPP\<close>. The
  result is the state and the number of open descriptors: only the unexpected error closes the
  socket, and with no descriptor left the state is \<open>-1\<close>.\<close>

datatype link_answer = Glink u32 | Ioctl_Error bool

definition check_port :: "nat \<Rightarrow> nat \<Rightarrow> link_answer \<Rightarrow> int \<times> nat" where
  "check_port limit fds answer =
     (if limit \<le> fds then (-1, fds)
      else case answer of
        Glink data \<Rightarrow> (if data \<noteq> 0 then 1 else 0, Suc fds)
      | Ioctl_Error eopnotsupp \<Rightarrow> if \<not> eopnotsupp then (0, fds) else (0, Suc fds))"

section \<open>Deciding\<close>

definition bandwidth_step :: "rat \<Rightarrow> nat \<times> port_trap_state \<Rightarrow> nat \<times> port_trap_state" where
  "bandwidth_step e = (\<lambda>(bandwidth_trap_flag, pts).
     case bandwidth_trap_flag of
       0 \<Rightarrow> if e > BAND_THRES_HIGH then (1, trap_port_set pts TRAP_BANDWIDTH_HIGH)
            else if e < BAND_THRES_LOW then (2, trap_port_set pts TRAP_BANDWIDTH_LOW)
            else (0, pts)
     | Suc 0 \<Rightarrow> if e < BAND_THRES_HIGH then
                  let pts = trap_port_set pts TRAP_BANDWIDTH_HIGH in
                  if e < BAND_THRES_LOW then (2, trap_port_set pts TRAP_BANDWIDTH_LOW) else (0, pts)
                else (1, pts)
     | Suc (Suc 0) \<Rightarrow> if e > BAND_THRES_LOW then
                  let pts = trap_port_set pts TRAP_BANDWIDTH_LOW in
                  if e > BAND_THRES_HIGH then (1, trap_port_set pts TRAP_BANDWIDTH_HIGH) else (0, pts)
                else (2, pts)
     | _ \<Rightarrow> (bandwidth_trap_flag, pts))"

section \<open>The loop\<close>

text \<open>What changes from round to round; \<open>traffic_temp\<close> is the file with the byte count of port 0.\<close>

record monitor =
  bandwidth_trap_flag :: nat
  pts :: port_trap_state
  fds :: nat
  trap_files :: files
  traffic_temp :: "string option"
  link_detect :: int

text \<open>What does not: the limit on descriptors, the speed of the adapter, the number of the port, and what
  the stack holds where \<open>ret\<close> lies, which no assignment sets.\<close>

record setting =
  fd_limit :: nat
  adapter_speed :: u16
  port_id :: nat
  host_name :: bytes
  to_float :: "rat \<Rightarrow> rat"
  stale_ret :: int

text \<open>What a round is told: the counters, the answers about the link, and how the calls of \<open>trap_send_proc\<close>
  end.\<close>

record round_input =
  counted :: pack_count
  link :: link_answer
  later_links :: "link_answer list"
  net :: os
  open_ok :: bool
  lock_ok :: bool
  bytes_written :: nat

definition announce :: "setting \<Rightarrow> round_input \<Rightarrow> monitor \<Rightarrow> (monitor \<times> bytes list) option" where
  "announce c i w = do {
     (_, fs, frames, p) \<leftarrow> trap_send_proc (host_name c) (net i) (open_ok i) (lock_ok i) (bytes_written i)
       (trap_files w) (pts w);
     Some (w\<lparr>trap_files := fs, pts := p\<rparr>, frames) }"

text \<open>The loop around the database, whose call is a comment: neither \<open>ret\<close> nor \<open>rewrite_flag\<close> changes.\<close>

partial_function (option) rewrite_loop :: "int \<Rightarrow> nat \<Rightarrow> unit option" where
  "rewrite_loop ret rewrite_flag =
     (if rewrite_flag = 0 then Some () else if ret \<noteq> 0 then rewrite_loop ret rewrite_flag else Some ())"

declare rewrite_loop.simps [code]

text \<open>Waiting for the link, a check a second; \<open>None\<close> if the answers end before.\<close>

fun wait_link :: "nat \<Rightarrow> nat \<Rightarrow> link_answer list \<Rightarrow> (int \<times> nat) option" where
  "wait_link limit n [] = None"
| "wait_link limit n (a # as) =
     (let (check_flag, n) = check_port limit n a in
      if check_flag \<noteq> 0 then Some (check_flag, n) else wait_link limit n as)"

definition print_lld :: "int \<Rightarrow> string" where
  "print_lld v = (if v < 0 then ''-'' @ numeral_of 10 (nat (- v)) else numeral_of 10 (nat v))"

definition efficiency :: "setting \<Rightarrow> pack_count \<Rightarrow> rat" where
  "efficiency c n = to_float c (total_bytes_ps (record_counter n) * 8 / of_int (fdump_speed (adapter_speed c)) / 10000)"

text \<open>While the file of port 0 is written, the log of the port is open too.\<close>

definition up_branch :: "setting \<Rightarrow> round_input \<Rightarrow> monitor \<Rightarrow> (monitor \<times> bytes list) option" where
  "up_branch c i w = do {
     let w = (if fdump_speed (adapter_speed c) \<noteq> 0
       then let (f, p) = bandwidth_step (efficiency c (counted i)) (bandwidth_trap_flag w, pts w)
            in w\<lparr>bandwidth_trap_flag := f, pts := p\<rparr>
       else w);
     guard (fds w + (if port_id c = 0 then 1 else 0) < fd_limit c);
     let w = (if port_id c = 0
       then w\<lparr>traffic_temp := Some (print_lld (total_bytes (counted i)) @ [CHR 0x0A])\<rparr> else w);
     announce c i w }"

definition down_branch :: "setting \<Rightarrow> round_input \<Rightarrow> monitor \<Rightarrow> (monitor \<times> bytes list) option" where
  "down_branch c i w = do {
     (w, frames) \<leftarrow> announce c i (w\<lparr>pts := trap_port_set (pts w) TRAP_CONNECTION\<rparr>);
     let w = w\<lparr>link_detect := 0\<rparr>;
     guard (fds w < fd_limit c);
     rewrite_loop (stale_ret c) 3;
     (check_flag, n) \<leftarrow> wait_link (fd_limit c) (fds w) (later_links i);
     let w = w\<lparr>fds := n, pts := trap_port_set (pts w) TRAP_CONNECTION\<rparr>;
     (w, frames') \<leftarrow> announce c i w;
     Some (w\<lparr>link_detect := check_flag\<rparr>, frames @ frames') }"

definition monitor_round :: "setting \<Rightarrow> round_input \<Rightarrow> monitor \<Rightarrow> (monitor \<times> bytes list) option" where
  "monitor_round c i w =
     (let (check_flag, n) = check_port (fd_limit c) (fds w) (link i); w = w\<lparr>fds := n\<rparr> in
      if check_flag \<noteq> 0 then up_branch c i w else down_branch c i w)"

fun monitor_rounds :: "setting \<Rightarrow> round_input list \<Rightarrow> monitor \<Rightarrow> (monitor \<times> bytes list) option" where
  "monitor_rounds c [] w = Some (w, [])"
| "monitor_rounds c (i # is) w = do {
     (w, frames) \<leftarrow> monitor_round c i w;
     (w, frames') \<leftarrow> monitor_rounds c is w;
     Some (w, frames @ frames') }"

definition monitor_start :: "bytes \<Rightarrow> files \<Rightarrow> nat \<Rightarrow> monitor" where
  "monitor_start dev_ip fs n =
     \<lparr>bandwidth_trap_flag = 0, pts = \<lparr>trap_flag = 0, pts_port_ip = strncpy dev_ip 16, trap_state = 0\<rparr>,
      fds = n, trap_files = fs, traffic_temp = None, link_detect = 0\<rparr>"

section \<open>The reported state\<close>

definition level_bits :: "nat \<Rightarrow> u32" where
  "level_bits f = (if f = 1 then TRAP_BANDWIDTH_HIGH else if f = 2 then TRAP_BANDWIDTH_LOW else 0)"

text \<open>The level a use of the bandwidth stands for; on a threshold the last level stays.\<close>

definition level_of :: "rat \<Rightarrow> nat \<Rightarrow> nat" where
  "level_of e f = (if BAND_THRES_HIGH < e \<or> e = BAND_THRES_HIGH \<and> f = 1 then 1
     else if e < BAND_THRES_LOW \<or> e = BAND_THRES_LOW \<and> f = 2 then 2 else 0)"

definition port_ok :: "nat \<Rightarrow> port_trap_state \<Rightarrow> bool" where
  "port_ok f p \<longleftrightarrow> f \<le> 2 \<and> trap_state p = level_bits f"

definition monitor_ok :: "monitor \<Rightarrow> bool" where
  "monitor_ok w \<longleftrightarrow> port_ok (bandwidth_trap_flag w) (pts w)"

lemmas trap_bits = TRAP_CONNECTION_def TRAP_BANDWIDTH_HIGH_def TRAP_BANDWIDTH_LOW_def

lemma thresholds: "BAND_THRES_LOW < BAND_THRES_HIGH"
  by (simp add: BAND_THRES_LOW_def BAND_THRES_HIGH_def)

lemma bandwidth_step_level:
  assumes "port_ok f p"
  shows "\<exists>p'. bandwidth_step e (f, p) = (level_of e f, p') \<and> port_ok (level_of e f) p'
    \<and> pts_port_ip p' = pts_port_ip p"
proof -
  have "f = 0 \<or> f = 1 \<or> f = 2" using assms by (auto simp: port_ok_def)
  then show ?thesis
    using assms thresholds
    by (elim disjE) (simp_all add: bandwidth_step_def level_of_def port_ok_def level_bits_def
        trap_port_set_def trap_bits numeral_2_eq_2)
qed

lemma announce_keeps:
  "announce c i w = Some (w', frames) \<Longrightarrow> bandwidth_trap_flag w' = bandwidth_trap_flag w
     \<and> trap_state (pts w') = trap_state (pts w) \<and> fds w' = fds w"
  by (auto simp: announce_def trap_send_proc_def Let_def split: option.splits if_splits elim!: ub_elims)

lemma xor_twice [simp]: "(x XOR y) XOR y = x" for x y :: u32
  by (simp add: xor.assoc)

lemma wait_link_fds:
  "wait_link limit n as = Some (check_flag, n') \<Longrightarrow> n < limit \<Longrightarrow> n < n' \<and> n' \<le> limit"
proof (induction as arbitrary: n)
  case (Cons a as)
  show ?case
  proof (cases "fst (check_port limit n a) \<noteq> 0")
    case True
    with Cons.prems show ?thesis
      by (auto simp: check_port_def split: link_answer.splits if_splits)
  next
    case False
    then obtain n1 where n1: "check_port limit n a = (0, n1)" by (cases "check_port limit n a") auto
    then have "n1 \<in> {n, Suc n}" using Cons.prems(2)
      by (auto simp: check_port_def split: link_answer.splits if_splits)
    moreover have "wait_link limit n1 as = Some (check_flag, n')" using Cons.prems(1) n1 by simp
    moreover have "wait_link limit limit as = Some (check_flag, n') \<Longrightarrow> n' = limit"
      by (cases as) (auto simp: check_port_def split: link_answer.splits)
    ultimately show ?thesis
      using Cons.IH [of n1] Cons.prems(2) by (cases "n1 < limit") (auto simp: not_less_eq order.strict_iff_order)
  qed
qed simp

lemma up_branch_keeps:
  assumes "up_branch c i w = Some (w', frames)"
  shows "monitor_ok w \<Longrightarrow> monitor_ok w'" and "fds w' = fds w" and "fds w < fd_limit c"
proof -
  obtain f p where step: "bandwidth_step (efficiency c (counted i)) (bandwidth_trap_flag w, pts w) = (f, p)"
    by (cases "bandwidth_step (efficiency c (counted i)) (bandwidth_trap_flag w, pts w)") auto
  show "fds w' = fds w" and "fds w < fd_limit c"
    using assms step by (auto simp: up_branch_def Let_def elim!: ub_elims dest!: announce_keeps split: if_splits)
  assume "monitor_ok w"
  with bandwidth_step_level [of "bandwidth_trap_flag w" "pts w" "efficiency c (counted i)"] step
  have "port_ok f p" by (auto simp: monitor_ok_def)
  with assms step \<open>monitor_ok w\<close> show "monitor_ok w'"
    by (auto simp: up_branch_def Let_def monitor_ok_def port_ok_def elim!: ub_elims dest!: announce_keeps split: if_splits)
qed

lemma down_branch_keeps:
  assumes "down_branch c i w = Some (w', frames)"
  shows "monitor_ok w \<Longrightarrow> monitor_ok w'" and "fds w < fds w'" and "fds w' \<le> fd_limit c"
proof -
  obtain w1 f1 k n w2 f2 where run:
    "announce c i (w\<lparr>pts := trap_port_set (pts w) TRAP_CONNECTION\<rparr>) = Some (w1, f1)"
    "fds w1 < fd_limit c" "wait_link (fd_limit c) (fds w1) (later_links i) = Some (k, n)"
    "announce c i (w1\<lparr>link_detect := 0, fds := n, pts := trap_port_set (pts w1) TRAP_CONNECTION\<rparr>) = Some (w2, f2)"
    "w' = w2\<lparr>link_detect := k\<rparr>"
    using assms by (auto simp: down_branch_def Let_def elim!: ub_elims split: prod.splits)
  note keeps = announce_keeps [OF run(1)] announce_keeps [OF run(4)]
  from keeps run(5) wait_link_fds [OF run(3,2)] show "fds w < fds w'" and "fds w' \<le> fd_limit c"
    by auto
  assume "monitor_ok w"
  with keeps run(5) show "monitor_ok w'"
    by (auto simp: monitor_ok_def port_ok_def trap_port_set_def)
qed

lemma monitor_round_keeps:
  assumes "monitor_round c i w = Some (w', frames)"
  shows "monitor_ok w \<Longrightarrow> monitor_ok w'" and "fds w < fds w'" and "fds w' \<le> fd_limit c"
proof -
  obtain k n where k: "check_port (fd_limit c) (fds w) (link i) = (k, n)"
    by (cases "check_port (fd_limit c) (fds w) (link i)") auto
  have ok: "monitor_ok (w\<lparr>fds := n\<rparr>) = monitor_ok w" by (simp add: monitor_ok_def)
  have n: "fds w \<le> n" "k \<noteq> 0 \<Longrightarrow> fds w < n \<or> fd_limit c \<le> n"
    using k by (auto simp: check_port_def split: link_answer.splits if_splits)
  show "monitor_ok w \<Longrightarrow> monitor_ok w'" and "fds w < fds w'" and "fds w' \<le> fd_limit c"
    using assms k n ok up_branch_keeps [of c i "w\<lparr>fds := n\<rparr>" w' frames] down_branch_keeps [of c i "w\<lparr>fds := n\<rparr>" w' frames]
    by (auto simp: monitor_round_def Let_def split: if_splits)
qed

text \<open>C25: Whatever the rounds bring, while the monitor runs the announced state has exactly the bit of the
  level last reported: the bit for high or for low use is set just when that report stands, and the
  bit for a broken link is clear after every round, although every change is an exclusive or.\<close>

theorem monitor_keeps_state:
  assumes "monitor_rounds c is (monitor_start dev_ip fs n) = Some (w, frames)"
  shows "bandwidth_trap_flag w \<le> 2 \<and> trap_state (pts w) = level_bits (bandwidth_trap_flag w)"
proof -
  have "monitor_ok v \<Longrightarrow> monitor_rounds c is v = Some (w, frames) \<Longrightarrow> monitor_ok w" for v frames
    by (induction "is" arbitrary: v frames) (auto elim!: ub_elims dest: monitor_round_keeps(1) split: prod.splits)
  moreover have "monitor_ok (monitor_start dev_ip fs n)"
    by (simp add: monitor_ok_def port_ok_def monitor_start_def level_bits_def)
  ultimately show ?thesis using assms by (auto simp: monitor_ok_def port_ok_def)
qed

text \<open>The monitor ends: every check of the link leaves a socket open, so that no run, whatever the links
  and the counters, has more rounds than there are descriptors left; then a log file cannot be opened
  and is written to all the same.\<close>

theorem monitor_runs_out_of_descriptors:
  assumes "fds w \<le> fd_limit c" and "fd_limit c - fds w < length is"
  shows "monitor_rounds c is w = None"
proof (rule ccontr)
  assume "monitor_rounds c is w \<noteq> None"
  then obtain w' frames where "monitor_rounds c is w = Some (w', frames)" by auto
  then have "fds w + length is \<le> fds w' \<and> fds w' \<le> fd_limit c"
    using assms(1)
  proof (induction "is" arbitrary: w frames)
    case (Cons i "is")
    then obtain w1 f1 f2 where "monitor_round c i w = Some (w1, f1)" "monitor_rounds c is w1 = Some (w', f2)"
      by (auto elim!: ub_elims split: prod.splits)
    with Cons.IH [of w1 f2] monitor_round_keeps(2,3) [of c i w w1 f1] show ?case by auto
  qed simp
  with assms(2) show False by linarith
qed

text \<open>A link that stays broken is reported as back: after as many checks as there are descriptors the
  socket cannot be created, and the error counts as a link.\<close>

theorem exhausted_check_reports_link:
  assumes "n \<le> limit" and "limit - n < length as" and "set as \<subseteq> {Glink 0, Ioctl_Error True}"
  shows "wait_link limit n as = Some (-1, limit)"
  using assms
proof (induction as arbitrary: n)
  case (Cons a as)
  show ?case
  proof (cases "n = limit")
    case False
    then have "check_port limit n a = (0, Suc n)" using Cons.prems by (auto simp: check_port_def)
    with Cons.IH [of "Suc n"] Cons.prems False show ?thesis by simp
  qed (simp add: check_port_def)
qed simp

lemma rewrite_loop_ends: "rewrite_loop ret n = Some u \<Longrightarrow> n = 0 \<or> ret = 0"
  by (rule rewrite_loop.raw_induct [of "\<lambda>ret n u. n = 0 \<or> ret = 0"]) (auto split: if_splits)

text \<open>A broken link hangs the monitor unless \<open>ret\<close>, which is never assigned, happens to lie where the stack
  holds a zero.\<close>

theorem broken_link_hangs:
  assumes "monitor_round c i w = Some r" and "link i = Glink 0" and "fds w < fd_limit c"
  shows "stale_ret c = 0"
  using assms by (auto simp: monitor_round_def check_port_def down_branch_def Let_def elim!: ub_elims
      dest!: rewrite_loop_ends split: prod.splits)

section \<open>A round with a link\<close>

definition port_message :: "setting \<Rightarrow> monitor \<Rightarrow> nat \<Rightarrow> trap_message" where
  "port_message c w f =
     \<lparr>trap_sbd = strncpy (host_name c) 16 @ strncpy (pts_port_ip (pts w)) 16, trap_type = level_bits f\<rparr>"

lemma up_round:
  assumes "monitor_ok w" and "link i = Glink d" and "d \<noteq> 0" and "fds w + 2 < fd_limit c"
    and "fdump_speed (adapter_speed c) \<noteq> 0" and "length (host_name c) \<le> 16"
    and "hw_addr (net i) = Some mac" and "length mac = 6" and "socket_ok (net i)" and "sent (net i) = 116"
    and "open_ok i" and "lock_ok i" and "bytes_written i = 56"
    and "until_zero (strncpy (pts_port_ip (pts w)) 16) = Some ip" and "ip \<noteq> silent_ip"
  defines "f \<equiv> level_of (efficiency c (counted i)) (bandwidth_trap_flag w)"
  shows "\<exists>w'. monitor_round c i w = Some (w', [hello_frame mac (port_message c w f)])
    \<and> bandwidth_trap_flag w' = f \<and> pts_port_ip (pts w') = pts_port_ip (pts w)
    \<and> read_trap_file True (trap_files w') (zero_message\<lparr>trap_sbd := trap_sbd (port_message c w f)\<rparr>)
        = Some (0, port_message c w f)
    \<and> (port_id c = 0 \<longrightarrow> traffic_temp w' = Some (print_lld (total_bytes (counted i)) @ [CHR 0x0A]))"
proof -
  obtain p where p: "bandwidth_step (efficiency c (counted i)) (bandwidth_trap_flag w, pts w) = (f, p)"
    "port_ok f p" "pts_port_ip p = pts_port_ip (pts w)"
    using bandwidth_step_level [of "bandwidth_trap_flag w" "pts w" "efficiency c (counted i)"] assms(1)
    by (auto simp: monitor_ok_def f_def)
  have m: "port_message c w f = \<lparr>trap_sbd = strncpy (host_name c) 16 @ strncpy (pts_port_ip p) 16, trap_type = trap_state p\<rparr>"
    using p by (simp add: port_message_def port_ok_def)
  obtain old where sent: "trap_send_proc (host_name c) (net i) True True 56 (trap_files w) p =
      Some (116, (trap_files w)(ip \<mapsto> trap_file_bytes (port_message c w f) @ old),
        [hello_frame mac (port_message c w f)], p\<lparr>trap_flag := 0\<rparr>)"
    using announced [OF assms(7,9,10,8,6), of p ip "trap_files w"] assms(14,15) p(3) m by auto
  have "read_trap_file True ((trap_files w)(ip \<mapsto> trap_file_bytes (port_message c w f) @ old))
      (zero_message\<lparr>trap_sbd := trap_sbd (port_message c w f)\<rparr>) = Some (0, port_message c w f)"
    by (rule trap_file_read [where ip = ip and old = old])
      (use assms(14) in \<open>simp_all add: port_message_def strncpy_def port_ip_def\<close>)
  moreover have "check_port (fd_limit c) (fds w) (link i) = (1, Suc (fds w))"
    using assms(2-4) by (simp add: check_port_def)
  ultimately show ?thesis
    using assms(4,5,11-13) p sent by (simp add: monitor_round_def up_branch_def announce_def Let_def)
qed

text \<open>A round with a link announces what the counters say: with a known adapter and no failing call, one
  frame goes out, which carries the bit for high use exactly if the use is above the high threshold,
  that for low use exactly if it is below the low one, and on a threshold the bit of the round
  before; the file of the port holds the same message, and that of port 0 the byte count.\<close>

theorem monitor_reports_use:
  assumes "monitor_ok w" and "link i = Glink d" and "d \<noteq> 0" and "fds w + 2 < fd_limit c"
    and "fdump_speed (adapter_speed c) \<noteq> 0" and "length (host_name c) \<le> 16"
    and "hw_addr (net i) = Some mac" and "length mac = 6" and "socket_ok (net i)" and "sent (net i) = 116"
    and "open_ok i" and "lock_ok i" and "bytes_written i = 56"
    and "until_zero (strncpy (pts_port_ip (pts w)) 16) = Some ip" and "ip \<noteq> silent_ip"
  shows "\<exists>w'. let f = level_of (efficiency c (counted i)) (bandwidth_trap_flag w) in
    monitor_round c i w = Some (w', [hello_frame mac (port_message c w f)])
    \<and> bandwidth_trap_flag w' = f \<and> pts_port_ip (pts w') = pts_port_ip (pts w)
    \<and> read_trap_file True (trap_files w') (zero_message\<lparr>trap_sbd := trap_sbd (port_message c w f)\<rparr>)
        = Some (0, port_message c w f)
    \<and> (port_id c = 0 \<longrightarrow> traffic_temp w' = Some (print_lld (total_bytes (counted i)) @ [CHR 0x0A]))"
  unfolding Let_def using assms by (rule up_round)

definition sample_setting :: setting where
  "sample_setting = \<lparr>fd_limit = 1024, adapter_speed = 1000, port_id = 0, host_name = station_name 3,
     to_float = id, stale_ret = 1\<rparr>"

definition sample_input :: "int \<Rightarrow> round_input" where
  "sample_input n = \<lparr>counted = add_packet Received n zero_count, link = Glink 1, later_links = [],
     net = \<lparr>hw_addr = Some [1, 2, 3, 4, 5, 6], socket_ok = True, sent = 116\<rparr>, open_ok = True, lock_ok = True,
     bytes_written = 56\<rparr>"

definition sample_start :: monitor where
  "sample_start = monitor_start [0x31, 0x30, 0x2e, 0x39] (\<lambda>_. None) 8"

lemma sample_start_ok:
  "monitor_ok sample_start" "fds sample_start = 8" "bandwidth_trap_flag sample_start = 0"
  "until_zero (strncpy (pts_port_ip (pts sample_start)) 16) = Some [0x31, 0x30, 0x2e, 0x39]"
  "[0x31, 0x30, 0x2e, 0x39] \<noteq> silent_ip"
  by code_simp+

lemma sample_efficiency: "efficiency sample_setting (counted (sample_input n)) = of_int n * 8 / 100000000"
  by (simp add: efficiency_def sample_setting_def sample_input_def record_counter_def INTERVAL_def Let_def
      add_packet_def zero_count_def fdump_speed_def)

lemmas sample_round_facts = sample_setting_def sample_input_def fdump_speed_def station_name_def

lemma sample_round:
  "\<exists>w'. monitor_round sample_setting (sample_input 1000000) sample_start =
      Some (w', [hello_frame [1, 2, 3, 4, 5, 6] (port_message sample_setting sample_start 1)])"
proof -
  have "level_of (efficiency sample_setting (counted (sample_input 1000000))) 0 = 1"
    by (simp add: sample_efficiency level_of_def BAND_THRES_HIGH_def)
  moreover have "\<exists>w'. monitor_round sample_setting (sample_input 1000000) sample_start = Some (w', [hello_frame [1, 2, 3, 4, 5, 6]
      (port_message sample_setting sample_start (level_of (efficiency sample_setting (counted (sample_input 1000000)))
        (bandwidth_trap_flag sample_start)))])"
    using up_round [of sample_start "sample_input 1000000" 1 sample_setting "[1, 2, 3, 4, 5, 6]" "[0x31, 0x30, 0x2e, 0x39]"]
      sample_start_ok by (auto simp: sample_round_facts)
  ultimately show ?thesis by (simp add: sample_start_ok)
qed

theorem monitor_reports_use_witness:
  "\<exists>w'. monitor_round sample_setting (sample_input 1000000) sample_start =
      Some (w', [hello_frame [1, 2, 3, 4, 5, 6] (port_message sample_setting sample_start 1)])
    \<and> bandwidth_trap_flag w' = 1 \<and> traffic_temp w' = Some (numeral_of 10 1000000 @ [CHR 0x0A])"
proof -
  have "level_of (efficiency sample_setting (counted (sample_input 1000000))) 0 = 1"
    by (simp add: sample_efficiency level_of_def BAND_THRES_HIGH_def)
  then show ?thesis
    using monitor_reports_use [of sample_start "sample_input 1000000" 1 sample_setting "[1, 2, 3, 4, 5, 6]"
      "[0x31, 0x30, 0x2e, 0x39]"] sample_start_ok
    by (auto simp: sample_round_facts Let_def print_lld_def add_packet_def zero_count_def)
qed

theorem monitor_keeps_state_witness:
  "\<exists>w frames. monitor_rounds sample_setting [sample_input 1000000] sample_start = Some (w, frames)
    \<and> trap_state (pts w) = level_bits (bandwidth_trap_flag w)"
proof -
  obtain w frames where run: "monitor_rounds sample_setting [sample_input 1000000] sample_start = Some (w, frames)"
    using sample_round by auto
  then show ?thesis
    using monitor_keeps_state [of sample_setting "[sample_input 1000000]" "[0x31, 0x30, 0x2e, 0x39]" "\<lambda>_. None" 8 w frames]
    by (auto simp: sample_start_def)
qed

theorem monitor_runs_out_of_descriptors_witness:
  "monitor_rounds sample_setting (replicate 1017 (sample_input 7)) sample_start = None"
  by (rule monitor_runs_out_of_descriptors) (simp_all add: sample_start_ok sample_setting_def)

theorem exhausted_check_reports_link_witness: "wait_link 1024 1000 (replicate 25 (Glink 0)) = Some (-1, 1024)"
  by (rule exhausted_check_reports_link) auto

definition broken_round :: "round_input" where
  "broken_round = (sample_input 0)\<lparr>link := Glink 0, later_links := [Glink 1]\<rparr>"

theorem broken_link_hangs_witness:
  "(\<exists>r. monitor_round (sample_setting\<lparr>stale_ret := 0\<rparr>) broken_round sample_start = Some r) \<and> stale_ret (sample_setting\<lparr>stale_ret := 0\<rparr>) = 0"
proof -
  have "\<not> Option.is_none (monitor_round (sample_setting\<lparr>stale_ret := 0\<rparr>) broken_round sample_start)"
    by code_simp
  then obtain r where "monitor_round (sample_setting\<lparr>stale_ret := 0\<rparr>) broken_round sample_start = Some r"
    by (auto simp: Option.is_none_def)
  moreover from this have "stale_ret (sample_setting\<lparr>stale_ret := 0\<rparr>) = 0"
    by (rule broken_link_hangs) (simp_all add: broken_round_def sample_start_ok sample_setting_def)
  ultimately show ?thesis by blast
qed

end
