(* ===== verification/Link_Stats.thy ===== *)
theory Link_Stats
  imports Complex_Main Cksum
begin

text \<open>
  The link test of a monitoring station (\<open>get_link_stats.c\<close>): an ICMP echo client of its own, with its
  checksum, the reading of replies and the statistics of round-trip times. Its call in
  \<open>get_port_info\<close> is a comment.

  The clock and what arrives are arguments; of the packet the bytes are modelled that the code reads
  or writes. Numbers of type \<open>double\<close> are rationals, the quotient by zero is \<open>NaN\<close>, and sockets are left out.
\<close>

section \<open>Checksum\<close>

function chksum_loop :: "bytes \<Rightarrow> nat \<Rightarrow> nat \<Rightarrow> int \<Rightarrow> (nat \<times> nat \<times> int) option" where
  "chksum_loop b w nleft s =
     (if nleft > 1 then do {
        x \<leftarrow> rd16 b w;
        guard (s + uint x < 2 ^ 31);
        chksum_loop b (w + 2) (nleft - 2) (s + uint x) }
      else Some (w, nleft, s))"
  by pat_completeness auto
termination by (relation "measure (\<lambda>(b, w, nleft, s). nleft)") auto

declare chksum_loop.simps [simp del]

definition cal_chksum :: "bytes \<Rightarrow> nat \<Rightarrow> nat \<Rightarrow> u16 option" where
  "cal_chksum b addr len = do {
     (w, nleft, s) \<leftarrow> chksum_loop b addr len 0;
     s \<leftarrow> (if nleft = 1 then do {
         x \<leftarrow> rd8 b w;
         guard (s + uint x < 2 ^ 31);
         Some (s + uint x) } else Some s);
     let s = s div 2 ^ 16 + s mod 2 ^ 16;
     let s = s + s div 2 ^ 16;
     Some (NOT (word_of_int s)) }"

section \<open>Echo packets\<close>

record timeval =
  tv_sec :: int
  tv_usec :: int

definition ICMP_ECHO :: u8 where "ICMP_ECHO = 8"
definition ICMP_ECHOREPLY :: u8 where "ICMP_ECHOREPLY = 0"
definition MAX_NO_PACKETS :: nat where "MAX_NO_PACKETS = 5"
definition TIMEOUT :: int where "TIMEOUT = 500000"

text \<open>\<open>pack\<close>: the packet of 64 bytes, from the buffer of the packet before; nothing is converted to
  network byte order.\<close>

definition timeval_bytes :: "timeval \<Rightarrow> bytes" where
  "timeval_bytes t = le_bytes 8 (word_of_int (tv_sec t) :: u64) @ le_bytes 8 (word_of_int (tv_usec t) :: u64)"

definition read_timeval :: "bytes \<Rightarrow> nat \<Rightarrow> timeval option" where
  "read_timeval b p = do {
     s \<leftarrow> rd64 b p;
     u \<leftarrow> rd64 b (p + 8);
     Some \<lparr>tv_sec = sint s, tv_usec = sint u\<rparr> }"

definition pack :: "int \<Rightarrow> timeval \<Rightarrow> nat \<Rightarrow> bytes \<Rightarrow> bytes option" where
  "pack pid now pack_no sendpacket = do {
     b \<leftarrow> wr8 sendpacket 0 ICMP_ECHO;
     b \<leftarrow> wr8 b 1 0;
     b \<leftarrow> wr16 b 2 0;
     b \<leftarrow> wr16 b 6 (word_of_nat pack_no);
     b \<leftarrow> wr16 b 4 (word_of_int pid);
     b \<leftarrow> wrn b 8 (timeval_bytes now);
     c \<leftarrow> cal_chksum b 0 64;
     wr16 b 2 c }"

text \<open>\<open>tv_sub\<close>, as it is written, on signed integers of 64 bits (\<open>long\<close>), whose overflow is undefined: the
  second time is one from the network.\<close>

definition fits_long :: "int \<Rightarrow> int option" where
  "fits_long n = (if - (2 ^ 63) \<le> n \<and> n < 2 ^ 63 then Some n else None)"

definition tv_sub :: "timeval \<Rightarrow> timeval \<Rightarrow> timeval option" where
  "tv_sub recvtime sendtime = do {
     sec \<leftarrow> fits_long (tv_sec recvtime - tv_sec sendtime);
     usec \<leftarrow> fits_long (tv_usec recvtime - tv_usec sendtime);
     if usec \<ge> 0 then Some \<lparr>tv_sec = sec, tv_usec = usec\<rparr>
     else do {
       sec \<leftarrow> fits_long (sec - 1);
       usec \<leftarrow> fits_long (0 - usec);
       Some \<lparr>tv_sec = sec, tv_usec = usec\<rparr> } }"

section \<open>The test\<close>

record link_test =
  sendpacket :: bytes
  temp_rtt :: "rat list"
  all_time :: rat
  nsend :: nat
  nreceived :: nat

definition init_statistics :: "link_test \<Rightarrow> link_test" where
  "init_statistics s = s\<lparr>temp_rtt := replicate MAX_NO_PACKETS 0, all_time := 0, nsend := 0, nreceived := 0\<rparr>"

definition rtt_of :: "timeval \<Rightarrow> rat" where
  "rtt_of t = of_int (tv_sec t) * 1000 + of_int (tv_usec t) / 1000"

text \<open>\<open>unpack\<close> of a datagram of \<open>l\<close> bytes (-1 after an error) in the receive buffer.\<close>

definition unpack :: "int \<Rightarrow> timeval \<Rightarrow> bytes \<Rightarrow> int \<Rightarrow> link_test \<Rightarrow> (bool \<times> link_test) option" where
  "unpack pid tvrecv buf l s = do {
     h \<leftarrow> rd8 buf 0;
     let iphdrlen = unat (h AND 15) * 4;
     if l - int iphdrlen < 8 then Some (False, s)
     else do {
       t \<leftarrow> rd8 buf iphdrlen;
       i \<leftarrow> rd16 buf (iphdrlen + 4);
       q \<leftarrow> rd16 buf (iphdrlen + 6);
       if t = ICMP_ECHOREPLY \<and> uint i = pid \<and> unat q = nsend s then do {
         tvsend \<leftarrow> read_timeval buf (iphdrlen + 8);
         d \<leftarrow> tv_sub tvrecv tvsend;
         let rtt = rtt_of d;
         guard (nreceived s < MAX_NO_PACKETS);
         Some (True, s\<lparr>temp_rtt := (temp_rtt s)[nreceived s := rtt], all_time := all_time s + rtt,
           nreceived := nreceived s + 1\<rparr>) }
       else Some (False, s) } }"

text \<open>What \<open>select\<close> and \<open>recvfrom\<close> give; when the list ends the time is up.\<close>

datatype arrival = Select_Error | Datagram bytes int timeval

fun recv_packet :: "int \<Rightarrow> arrival list \<Rightarrow> link_test \<Rightarrow> link_test option" where
  "recv_packet pid [] s = Some s"
| "recv_packet pid (Select_Error # as) s = Some s"
| "recv_packet pid (Datagram buf l now # as) s = do {
     (done, s) \<leftarrow> unpack pid now buf l s;
     if done then Some s else recv_packet pid as s }"

text \<open>The \<open>n\<close>th packet is sent at a time and followed by arrivals.\<close>

type_synonym probes = "nat \<Rightarrow> timeval \<times> arrival list"

definition probe :: "int \<Rightarrow> probes \<Rightarrow> link_test \<Rightarrow> link_test option" where
  "probe pid ps s = do {
     let n = nsend s + 1;
     b \<leftarrow> pack pid (fst (ps n)) n (sendpacket s);
     recv_packet pid (snd (ps n)) (s\<lparr>nsend := n, sendpacket := b\<rparr>) }"

text \<open>The loop ends when five packets are sent; the fuel is the number of packets left.\<close>

fun probe_loop :: "nat \<Rightarrow> int \<Rightarrow> probes \<Rightarrow> link_test \<Rightarrow> link_test option" where
  "probe_loop 0 pid ps s = None"
| "probe_loop (Suc n) pid ps s = do {
     s \<leftarrow> probe pid ps s;
     if nsend s \<ge> MAX_NO_PACKETS then Some s else probe_loop n pid ps s }"

section \<open>Statistics\<close>

record rtt_stats =
  rtt_min :: rat
  rtt_max :: rat
  rtt_avg :: rat
  rtt_mdev :: rat

fun rtt_fold :: "rat \<Rightarrow> rat list \<Rightarrow> rat \<times> rat \<times> rat \<Rightarrow> rat \<times> rat \<times> rat" where
  "rtt_fold avg [] acc = acc"
| "rtt_fold avg (x # xs) (lo, hi, sum_avg) =
     rtt_fold avg xs (if x < lo then x else lo, if x < lo then hi else if x > hi then x else hi,
       if x - avg < 0 then sum_avg + (avg - x) else sum_avg + (x - avg))"

definition computer_rtt :: "link_test \<Rightarrow> rtt_stats" where
  "computer_rtt s =
     (let avg = (if nreceived s \<noteq> 0 then all_time s / of_nat (nreceived s) else 0);
          (lo, hi, sum_avg) = rtt_fold avg (take (nreceived s) (temp_rtt s)) (temp_rtt s ! 0, temp_rtt s ! 0, 0)
      in \<lparr>rtt_min = lo, rtt_max = hi, rtt_avg = avg,
          rtt_mdev = (if nreceived s \<noteq> 0 then sum_avg / of_nat (nreceived s) else 0)\<rparr>)"

text \<open>The loss is \<open>None\<close> if it is not a number.\<close>

record link_stats =
  packet_loss :: "rat option"
  link_rtt :: rtt_stats

definition link_report :: "link_test \<Rightarrow> link_stats" where
  "link_report s = \<lparr>packet_loss = (if nsend s = 0 then None
       else Some (of_int (int (nsend s) - int (nreceived s)) / of_nat (nsend s) * 100)),
     link_rtt = computer_rtt s\<rparr>"

partial_function (option) link_loop :: "int \<Rightarrow> probes \<Rightarrow> bool \<Rightarrow> link_test \<Rightarrow> link_stats option" where
  "link_loop pid ps end_flag s = do {
     s \<leftarrow> (if end_flag then probe_loop MAX_NO_PACKETS pid ps s else Some s);
     if rtt_max (computer_rtt s) \<le> of_int (TIMEOUT div 1000) then Some (link_report s)
     else link_loop pid ps False (init_statistics s) }"

definition get_link_stats :: "int \<Rightarrow> probes \<Rightarrow> link_stats option" where
  "get_link_stats pid ps = link_loop pid ps True
     (init_statistics \<lparr>sendpacket = replicate 4096 0, temp_rtt = [], all_time = 0, nsend = 0, nreceived = 0\<rparr>)"

section \<open>The checksum agrees with that of the manager\<close>

definition word_sum :: "bytes \<Rightarrow> nat \<Rightarrow> nat \<Rightarrow> nat" where
  "word_sum b p n = (\<Sum>i<n. unat (get16 b (p + 2 * i)))"

lemma word_sum_Suc: "word_sum b p (Suc n) = unat (get16 b p) + word_sum b (p + 2) n"
  by (simp add: word_sum_def sum.lessThan_Suc_shift del: sum.lessThan_Suc)

lemma chksum_loop_eq:
  "p + len \<le> length b \<Longrightarrow> s + int (word_sum b p (len div 2)) < 2 ^ 31 \<Longrightarrow>
    chksum_loop b p len s = Some (p + 2 * (len div 2), len mod 2, s + int (word_sum b p (len div 2)))"
proof (induction b p len s rule: chksum_loop.induct)
  case (1 b p len s)
  show ?case
  proof (cases "len > 1")
    case True
    then have len: "len div 2 = Suc ((len - 2) div 2)" "len mod 2 = (len - 2) mod 2"
      by (simp_all add: le_div_geq le_mod_geq)
    have x: "uint (get16 b p) = int (unat (get16 b p))" by simp
    have fits: "s + uint (get16 b p) < 2 ^ 31"
      using 1(3) unfolding len word_sum_Suc x by simp
    have "chksum_loop b (p + 2) (len - 2) (s + uint (get16 b p)) = Some (p + 2 + 2 * ((len - 2) div 2), (len - 2) mod 2,
        s + uint (get16 b p) + int (word_sum b (p + 2) ((len - 2) div 2)))"
    proof (rule 1(1))
      show "len > 1" by fact
      show "rd16 b p = Some (get16 b p)" using 1(2) True by (simp add: buf_simps)
      show "guard (s + uint (get16 b p) < 2 ^ 31) = Some ()" using fits by simp
      show "p + 2 + (len - 2) \<le> length b" using 1(2) True by simp
      show "s + uint (get16 b p) + int (word_sum b (p + 2) ((len - 2) div 2)) < 2 ^ 31"
        using 1(3) unfolding len word_sum_Suc x by simp
    qed
    then show ?thesis
      unfolding len word_sum_Suc using True 1(2) fits
      by (subst chksum_loop.simps) (simp add: buf_simps)
  next
    case False
    then show ?thesis by (auto simp: chksum_loop.simps word_sum_def)
  qed
qed

definition total_sum :: "bytes \<Rightarrow> nat \<Rightarrow> nat \<Rightarrow> nat" where
  "total_sum b p len = word_sum b p (len div 2) + (if odd len then unat (get8 b (p + (len - 1))) else 0)"

lemma unat8_less: "unat (w :: u8) < 256"
  using unsigned_less [of w] by simp

lemma total_sum_less: "len < 65536 \<Longrightarrow> total_sum b p len < 2 ^ 31"
proof -
  assume "len < 65536"
  then have "len div 2 \<le> 32767" by simp
  then have "word_sum b p (len div 2) \<le> len div 2 * 65535"
    using unat_sum16 [of "len div 2" b p] by (simp add: word_sum_def)
  moreover have "len div 2 * 65535 \<le> 32767 * 65535" using \<open>len div 2 \<le> 32767\<close> by simp
  moreover have "unat (get8 b (p + (len - 1))) < 256" by (rule unat8_less)
  ultimately show ?thesis by (simp add: total_sum_def)
qed

lemma cal_chksum_total:
  assumes "p + len \<le> length b" and "len < 65536"
  defines "S \<equiv> fold_nat (total_sum b p len)"
  shows "cal_chksum b p len = Some (NOT (word_of_int (int (S + S div 65536))))"
proof -
  have less: "total_sum b p len < 2 ^ 31" by (rule total_sum_less) fact
  then have "int (word_sum b p (len div 2)) < 2 ^ 31" by (simp add: total_sum_def)
  then have loop: "chksum_loop b p len 0 = Some (p + 2 * (len div 2), len mod 2, int (word_sum b p (len div 2)))"
    using chksum_loop_eq [OF assms(1), of 0] by simp
  have S: "int (total_sum b p len) div 65536 + int (total_sum b p len) mod 65536 = int S"
    by (simp add: S_def fold_nat_def zdiv_int zmod_int)
  then have fold: "(let sum = int (total_sum b p len) div 2 ^ 16 + int (total_sum b p len) mod 2 ^ 16;
      sum = sum + sum div 2 ^ 16 in Some (NOT (word_of_int sum))) = Some (NOT (word_of_int (int (S + S div 65536)) :: u16))"
    by (simp add: zdiv_int)
  show ?thesis
  proof (cases "odd len")
    case True
    then have "p + 2 * (len div 2) = p + (len - 1)" "len mod 2 = 1" "p + (len - 1) < length b"
      using assms(1) by (auto simp: odd_iff_mod_2_eq_one elim!: oddE)
    moreover have "int (word_sum b p (len div 2)) + uint (get8 b (p + (len - 1))) = int (total_sum b p len)"
      using True by (simp add: total_sum_def)
    ultimately show ?thesis
      using less fold by (simp add: cal_chksum_def loop buf_simps)
  next
    case False
    then have "len mod 2 = 0" "total_sum b p len = word_sum b p (len div 2)"
      by (simp_all add: even_iff_mod_2_eq_zero total_sum_def)
    then show ?thesis using fold by (simp add: cal_chksum_def loop)
  qed
qed

lemma rte_raw_cksum_total:
  assumes "p + len \<le> length b" and "len < 65536"
  shows "\<exists>c. rte_raw_cksum b p len = Some c \<and> unat c = fold_nat (fold_nat (total_sum b p len))"
proof -
  have "len div 2 \<le> 65536" using assms(2) by simp
  then have "unat (sum16 b p (len div 2)) = word_sum b p (len div 2)"
    using unat_sum16 by (simp add: word_sum_def)
  moreover have "word_sum b p (len div 2) + unat (get8 b (p + (len - 1))) < 2 ^ 32"
  proof -
    have "word_sum b p (len div 2) < 2 ^ 31" using total_sum_less [OF assms(2), of b p] by (simp add: total_sum_def)
    moreover have "unat (get8 b (p + (len - 1))) < 256" by (rule unat8_less)
    ultimately show ?thesis by simp
  qed
  ultimately have "unat (cksum_spec b p len 0) = total_sum b p len"
    by (simp add: cksum_spec_def total_sum_def unat_word_ariths unsigned_ucast_eq take_bit_nat_eq_self)
  then show ?thesis
    by (simp add: rte_raw_cksum_def rte_raw_cksum_sum_eq [OF assms(1)] unat_reduce)
qed

text \<open>The checksum of the station and that of the manager, two routines that share no code, agree: on
  any part of a buffer of less than 65536 bytes, of even or odd length, one is the complement of the
  other, and the signed sum of the station does not overflow.\<close>

theorem chksum_routines_agree:
  assumes "p + len \<le> length b" and "len < 65536"
  shows "cal_chksum b p len = map_option (\<lambda>c. NOT c) (rte_raw_cksum b p len)"
proof -
  define S where "S = fold_nat (total_sum b p len)"
  obtain c where c: "rte_raw_cksum b p len = Some c" "unat c = fold_nat S"
    using rte_raw_cksum_total [OF assms] by (auto simp: S_def)
  have "fold_nat S < 65536" using unat16_less [of c] c(2) by simp
  then have "(S + S div 65536) mod 65536 = fold_nat S"
    by (metis add.commute fold_nat_def mod_add_right_eq mod_less)
  then have "word_of_int (int (S + S div 65536)) = c"
    using c(2) by (simp add: word_unat_eq_iff unsigned_of_nat take_bit_eq_mod del: of_nat_add)
  then show ?thesis using cal_chksum_total [OF assms] c(1) by (simp add: S_def)
qed

theorem chksum_routines_agree_witness:
  "cal_chksum [1, 2, 3, 4, 255] 0 5 = map_option (\<lambda>c. NOT c) (rte_raw_cksum [1, 2, 3, 4, 255] 0 5)"
  by (rule chksum_routines_agree) simp_all

section \<open>The statistics\<close>

lemma rtt_fold_eq:
  "lo \<le> hi \<Longrightarrow> rtt_fold avg xs (lo, hi, t) =
     (Min (insert lo (set xs)), Max (insert hi (set xs)), t + (\<Sum>x\<leftarrow>xs. \<bar>x - avg\<bar>))"
proof (induction xs arbitrary: lo hi t)
  case (Cons x xs)
  let ?lo = "if x < lo then x else lo" and ?hi = "if x < lo then hi else if x > hi then x else hi"
  have "?lo \<le> ?hi" and lo: "?lo = min x lo" and hi: "?hi = max x hi" using Cons.prems by auto
  have "(if x - avg < 0 then t + (avg - x) else t + (x - avg)) = t + \<bar>x - avg\<bar>" by simp
  with Cons.IH [OF \<open>?lo \<le> ?hi\<close>] have "rtt_fold avg (x # xs) (lo, hi, t) =
      (Min (insert (min x lo) (set xs)), Max (insert (max x hi) (set xs)), t + \<bar>x - avg\<bar> + (\<Sum>x\<leftarrow>xs. \<bar>x - avg\<bar>))"
    by (simp only: rtt_fold.simps lo hi)
  moreover have "Min (insert (min x lo) (set xs)) = Min (insert lo (set (x # xs)))"
    by (cases "xs = []") (simp_all add: Min_insert min.assoc min.commute min.left_commute)
  moreover have "Max (insert (max x hi) (set xs)) = Max (insert hi (set (x # xs)))"
    by (cases "xs = []") (simp_all add: Max_insert max.assoc max.commute max.left_commute)
  ultimately show ?case by (simp add: add.assoc)
qed simp

definition samples :: "link_test \<Rightarrow> rat list" where
  "samples s = take (nreceived s) (temp_rtt s)"

definition test_ok :: "link_test \<Rightarrow> bool" where
  "test_ok s \<longleftrightarrow> length (temp_rtt s) = MAX_NO_PACKETS \<and> nreceived s \<le> MAX_NO_PACKETS \<and> nreceived s \<le> nsend s
     \<and> all_time s = sum_list (samples s) \<and> (nreceived s = 0 \<longrightarrow> temp_rtt s ! 0 = 0) \<and> length (sendpacket s) = 4096"

lemma samples_length: "length (temp_rtt s) = 5 \<Longrightarrow> nreceived s \<le> 5 \<Longrightarrow> length (samples s) = nreceived s"
  by (simp add: samples_def)

lemma computer_rtt_none:
  assumes "nreceived s = 0" and "test_ok s"
  shows "computer_rtt s = \<lparr>rtt_min = 0, rtt_max = 0, rtt_avg = 0, rtt_mdev = 0\<rparr>"
  using assms by (simp add: computer_rtt_def test_ok_def)

lemma computer_rtt_some:
  assumes "nreceived s \<noteq> 0" and "test_ok s"
  defines "avg \<equiv> sum_list (samples s) / of_nat (length (samples s))"
  shows "computer_rtt s = \<lparr>rtt_min = Min (set (samples s)), rtt_max = Max (set (samples s)), rtt_avg = avg,
     rtt_mdev = (\<Sum>x\<leftarrow>samples s. \<bar>x - avg\<bar>) / of_nat (length (samples s))\<rparr>"
proof -
  have len: "length (samples s) = nreceived s" using assms(2) by (simp add: samples_def test_ok_def)
  then have "samples s \<noteq> []" using assms(1) by auto
  moreover have "samples s ! 0 = temp_rtt s ! 0" using assms(1) by (simp add: samples_def)
  ultimately have "temp_rtt s ! 0 \<in> set (samples s)" by (metis length_greater_0_conv nth_mem)
  then have "insert (temp_rtt s ! 0) (set (samples s)) = set (samples s)" by auto
  then show ?thesis
    using assms(1,2) len
    by (simp add: computer_rtt_def Let_def rtt_fold_eq samples_def [symmetric] avg_def test_ok_def)
qed

text \<open>The difference of times is wrong whenever the microseconds have to borrow.\<close>

lemma tv_sub_error:
  "tv_sub r t = Some d \<Longrightarrow> rtt_of d = rtt_of r - rtt_of t
     + (if tv_usec r < tv_usec t then of_int (tv_usec t - tv_usec r) / 500 - 1000 else 0)"
  by (auto simp: tv_sub_def fits_long_def rtt_of_def field_simps split: if_splits)

text \<open>It overflows only on times that no clock shows.\<close>

definition near :: "timeval \<Rightarrow> bool" where
  "near t \<longleftrightarrow> \<bar>tv_sec t\<bar> < 2 ^ 62 \<and> \<bar>tv_usec t\<bar> < 2 ^ 62"

lemma tv_sub_near: "near r \<Longrightarrow> near t \<Longrightarrow> tv_sub r t \<noteq> None"
  unfolding near_def tv_sub_def fits_long_def by (auto simp: abs_less_iff)

section \<open>What the test reports\<close>

definition arrival_ok :: "arrival \<Rightarrow> bool" where
  "arrival_ok a \<longleftrightarrow> (case a of Select_Error \<Rightarrow> True | Datagram buf l now \<Rightarrow> length buf = 4096)"

lemma cal_chksum_Some: "p + len \<le> length b \<Longrightarrow> len < 65536 \<Longrightarrow> \<exists>c. cal_chksum b p len = Some c"
  using cal_chksum_total by blast

lemma pack_Some:
  assumes "length b = 4096"
  shows "\<exists>b'. pack pid now n b = Some b' \<and> length b' = 4096"
proof -
  have len: "length (timeval_bytes now) = 16" by (simp add: timeval_bytes_def)
  let ?b = "put (put (put (put (put (put b 0 [ICMP_ECHO]) 1 [0]) 2 (le_bytes 2 (0 :: u16))) 6 (le_bytes 2 (word_of_nat n :: u16)))
    4 (le_bytes 2 (word_of_int pid :: u16))) 8 (timeval_bytes now)"
  obtain c where "cal_chksum ?b 0 64 = Some c" using cal_chksum_Some [of 0 64 ?b] assms by auto
  then show ?thesis using assms len by (simp add: pack_def buf_simps)
qed

lemma unpack_header: "unat (h AND 15 :: u8) * 4 \<le> 60"
proof -
  have "h AND 15 \<le> 15" by (rule word_and_le1)
  then show ?thesis by (simp add: word_le_nat_alt)
qed

definition icmp :: "bytes \<Rightarrow> nat" where
  "icmp buf = unat (get8 buf 0 AND 15) * 4"

definition matches :: "int \<Rightarrow> nat \<Rightarrow> bytes \<Rightarrow> int \<Rightarrow> bool" where
  "matches pid n buf l \<longleftrightarrow> 8 \<le> l - int (icmp buf) \<and> get8 buf (icmp buf) = ICMP_ECHOREPLY
     \<and> uint (get16 buf (icmp buf + 4)) = pid \<and> unat (get16 buf (icmp buf + 6)) = n"

definition sent_at :: "bytes \<Rightarrow> timeval" where
  "sent_at buf = \<lparr>tv_sec = sint (get64 buf (icmp buf + 8)), tv_usec = sint (get64 buf (icmp buf + 16))\<rparr>"

text \<open>The datagram that counts, the first matching one before an error: when it came and the time it carries.\<close>

fun heard :: "int \<Rightarrow> nat \<Rightarrow> arrival list \<Rightarrow> (timeval \<times> timeval) option" where
  "heard pid n [] = None"
| "heard pid n (Select_Error # as) = None"
| "heard pid n (Datagram buf l now # as) =
     (if matches pid n buf l then Some (now, sent_at buf) else heard pid n as)"

text \<open>Its round-trip time; \<open>Some None\<close> without such a datagram, \<open>None\<close> if the difference overflows.\<close>

definition answer :: "int \<Rightarrow> nat \<Rightarrow> arrival list \<Rightarrow> rat option option" where
  "answer pid n as = (case heard pid n as of None \<Rightarrow> Some None
     | Some (r, t) \<Rightarrow> map_option (\<lambda>d. Some (rtt_of d)) (tv_sub r t))"

definition record_rtt :: "rat option \<Rightarrow> link_test \<Rightarrow> link_test" where
  "record_rtt r s = (case r of None \<Rightarrow> s
     | Some x \<Rightarrow> s\<lparr>temp_rtt := (temp_rtt s)[nreceived s := x], all_time := all_time s + x, nreceived := nreceived s + 1\<rparr>)"

lemma unpack_run:
  assumes "length buf = 4096" and "nreceived s < MAX_NO_PACKETS"
  shows "unpack pid now buf l s = (if matches pid (nsend s) buf l
    then map_option (\<lambda>d. (True, record_rtt (Some (rtt_of d)) s)) (tv_sub now (sent_at buf)) else Some (False, s))"
proof -
  have "icmp buf \<le> 60" by (simp only: icmp_def unpack_header)
  moreover have "uint (get8 buf 0 AND 15) * 4 = int (icmp buf)" by (simp add: icmp_def)
  ultimately show ?thesis
    using assms by (auto simp: unpack_def buf_simps icmp_def [symmetric] matches_def sent_at_def read_timeval_def record_rtt_def
        Let_def add.assoc map_option_case split: option.split)
qed

lemma recv_packet_run:
  "\<forall>a \<in> set as. arrival_ok a \<Longrightarrow> nreceived s < MAX_NO_PACKETS \<Longrightarrow>
    recv_packet pid as s = map_option (\<lambda>r. record_rtt r s) (answer pid (nsend s) as)"
  by (induction pid "nsend s" as rule: heard.induct)
    (auto simp: answer_def record_rtt_def unpack_run arrival_ok_def option.map_comp comp_def map_option_case
      split: option.split)

lemma record_rtt_ok:
  assumes "test_ok s" and "nreceived s < nsend s" and "nsend s \<le> MAX_NO_PACKETS"
  shows "test_ok (record_rtt r s)" and "nsend (record_rtt r s) = nsend s"
    and "samples (record_rtt r s) = samples s @ (case r of None \<Rightarrow> [] | Some x \<Rightarrow> [x])"
proof -
  have "nreceived s < length (temp_rtt s)" using assms by (simp add: test_ok_def)
  then have samples: "samples (record_rtt r s) = samples s @ (case r of None \<Rightarrow> [] | Some x \<Rightarrow> [x])"
    by (cases r) (simp_all add: record_rtt_def samples_def take_Suc_conv_app_nth)
  then show "samples (record_rtt r s) = samples s @ (case r of None \<Rightarrow> [] | Some x \<Rightarrow> [x])" .
  show "nsend (record_rtt r s) = nsend s" by (cases r) (simp_all add: record_rtt_def)
  have "all_time (record_rtt r s) = sum_list (samples (record_rtt r s))"
    unfolding samples using assms(1) by (cases r) (simp_all add: record_rtt_def test_ok_def)
  then show "test_ok (record_rtt r s)"
    using assms by (cases r) (simp_all add: test_ok_def record_rtt_def)
qed

definition arrivals_ok :: "probes \<Rightarrow> bool" where
  "arrivals_ok ps \<longleftrightarrow> (\<forall>n. \<forall>a \<in> set (snd (ps n)). arrival_ok a)"

lemma probe_run:
  assumes "test_ok s" and "nsend s < MAX_NO_PACKETS" and "arrivals_ok ps"
  shows "case answer pid (nsend s + 1) (snd (ps (nsend s + 1))) of
      None \<Rightarrow> probe pid ps s = None
    | Some r \<Rightarrow> \<exists>s'. probe pid ps s = Some s' \<and> test_ok s' \<and> nsend s' = nsend s + 1
        \<and> samples s' = samples s @ (case r of None \<Rightarrow> [] | Some x \<Rightarrow> [x])"
proof -
  let ?n = "nsend s + 1"
  obtain b where b: "pack pid (fst (ps ?n)) ?n (sendpacket s) = Some b" "length b = 4096"
    using pack_Some [of "sendpacket s" pid "fst (ps ?n)" ?n] assms(1) by (auto simp: test_ok_def)
  let ?s = "s\<lparr>nsend := ?n, sendpacket := b\<rparr>"
  have ok: "test_ok ?s" "samples ?s = samples s" "nreceived ?s < nsend ?s" "nsend ?s \<le> MAX_NO_PACKETS"
    using assms b by (auto simp: test_ok_def samples_def)
  have "probe pid ps s = map_option (\<lambda>r. record_rtt r ?s) (answer pid ?n (snd (ps ?n)))"
    using recv_packet_run [of "snd (ps ?n)" ?s pid] assms(3) b ok by (simp add: probe_def arrivals_ok_def Let_def)
  with record_rtt_ok [OF ok(1,3,4)] ok(2) show ?thesis by (simp split: option.split)
qed

text \<open>The round-trip times of \<open>n\<close> packets from the \<open>i\<close>th on; undefined if one overflows.\<close>

fun answers :: "int \<Rightarrow> probes \<Rightarrow> nat \<Rightarrow> nat \<Rightarrow> rat list option" where
  "answers pid ps i 0 = Some []"
| "answers pid ps i (Suc n) = do {
     r \<leftarrow> answer pid i (snd (ps i));
     xs \<leftarrow> answers pid ps (Suc i) n;
     Some ((case r of None \<Rightarrow> [] | Some x \<Rightarrow> [x]) @ xs) }"

lemma answers_None: "answers pid ps i n = None \<longleftrightarrow>
    (\<exists>k \<in> {i..<i + n}. \<exists>r t. heard pid k (snd (ps k)) = Some (r, t) \<and> tv_sub r t = None)"
proof (induction n arbitrary: i)
  case (Suc n)
  have "{i..<i + Suc n} = insert i {Suc i..<Suc i + n}" by auto
  moreover have "answers pid ps i (Suc n) = None \<longleftrightarrow>
      answer pid i (snd (ps i)) = None \<or> answers pid ps (Suc i) n = None"
    by (auto simp: bind_eq_None_conv)
  moreover have "answer pid i (snd (ps i)) = None \<longleftrightarrow>
      (\<exists>r t. heard pid i (snd (ps i)) = Some (r, t) \<and> tv_sub r t = None)"
    by (auto simp: answer_def split: option.splits)
  ultimately show ?case using Suc.IH [of "Suc i"] by simp
qed simp

lemma probe_loop_run:
  "test_ok s \<Longrightarrow> nsend s + Suc n = MAX_NO_PACKETS \<Longrightarrow> arrivals_ok ps \<Longrightarrow>
    case answers pid ps (nsend s + 1) (Suc n) of None \<Rightarrow> probe_loop (Suc n) pid ps s = None
    | Some xs \<Rightarrow> \<exists>s'. probe_loop (Suc n) pid ps s = Some s' \<and> test_ok s' \<and> nsend s' = MAX_NO_PACKETS
        \<and> samples s' = samples s @ xs"
proof (induction n arbitrary: s)
  case 0
  with probe_run [of s ps pid] show ?case
    by (cases "answer pid (nsend s + 1) (snd (ps (nsend s + 1)))") auto
next
  case (Suc n)
  then have less: "nsend s < MAX_NO_PACKETS" "\<not> MAX_NO_PACKETS \<le> nsend s + 1" by simp_all
  note run = probe_run [OF Suc.prems(1) less(1) Suc.prems(3), of pid]
  show ?case
  proof (cases "answer pid (nsend s + 1) (snd (ps (nsend s + 1)))")
    case None
    with run show ?thesis by simp
  next
    case (Some r)
    with run obtain s' where s': "probe pid ps s = Some s'" "test_ok s'" "nsend s' = nsend s + 1"
      "samples s' = samples s @ (case r of None \<Rightarrow> [] | Some x \<Rightarrow> [x])" by auto
    have "probe_loop (Suc (Suc n)) pid ps s = probe_loop (Suc n) pid ps s'"
      using s'(1,3) less(2) by (subst probe_loop.simps) simp
    moreover have "answers pid ps (nsend s + 1) (Suc (Suc n)) = do {
        xs \<leftarrow> answers pid ps (nsend s' + 1) (Suc n); Some ((case r of None \<Rightarrow> [] | Some x \<Rightarrow> [x]) @ xs) }"
      using Some s'(3) by (subst answers.simps) simp
    moreover note Suc.IH [OF s'(2) _ Suc.prems(3)]
    ultimately show ?thesis
      using s'(3,4) Suc.prems(2)
      by (cases "answers pid ps (nsend s' + 1) (Suc n)") (simp_all del: probe_loop.simps answers.simps)
  qed
qed

definition no_times :: rtt_stats where
  "no_times = \<lparr>rtt_min = 0, rtt_max = 0, rtt_avg = 0, rtt_mdev = 0\<rparr>"

definition link_spec :: "rat list \<Rightarrow> link_stats" where
  "link_spec xs =
     (if xs = [] then \<lparr>packet_loss = Some 100, link_rtt = no_times\<rparr>
      else if Max (set xs) \<le> 500 then
        (let avg = sum_list xs / of_nat (length xs) in
         \<lparr>packet_loss = Some (of_nat (5 - length xs) * 20),
          link_rtt = \<lparr>rtt_min = Min (set xs), rtt_max = Max (set xs), rtt_avg = avg,
            rtt_mdev = (\<Sum>x\<leftarrow>xs. \<bar>x - avg\<bar>) / of_nat (length xs)\<rparr>\<rparr>)
      else \<lparr>packet_loss = None, link_rtt = no_times\<rparr>)"

lemma link_loop_voided:
  assumes "length (sendpacket s) = 4096"
  shows "link_loop pid ps False (init_statistics s) = Some \<lparr>packet_loss = None, link_rtt = no_times\<rparr>"
proof -
  have "test_ok (init_statistics s)" using assms by (simp add: test_ok_def init_statistics_def samples_def MAX_NO_PACKETS_def)
  then have "computer_rtt (init_statistics s) = no_times"
    using computer_rtt_none [of "init_statistics s"] by (simp add: no_times_def init_statistics_def)
  then show ?thesis
    by (subst link_loop.simps) (simp add: link_report_def no_times_def TIMEOUT_def init_statistics_def)
qed

lemma test_ok_init: "length b = 4096 \<Longrightarrow>
    test_ok (init_statistics \<lparr>sendpacket = b, temp_rtt = [], all_time = 0, nsend = 0, nreceived = 0\<rparr>)"
  by (simp add: test_ok_def init_statistics_def samples_def MAX_NO_PACKETS_def)

lemma link_result:
  assumes "arrivals_ok ps"
  shows "get_link_stats pid ps = map_option link_spec (answers pid ps 1 5)"
proof (cases "answers pid ps 1 5")
  case None
  let ?s0 = "init_statistics \<lparr>sendpacket = replicate 4096 0, temp_rtt = [], all_time = 0, nsend = 0, nreceived = 0\<rparr>"
  have "probe_loop (Suc 4) pid ps ?s0 = None"
    using None probe_loop_run [of ?s0 4 ps pid] test_ok_init [of "replicate 4096 0"] assms
    by (simp add: MAX_NO_PACKETS_def init_statistics_def eval_nat_numeral del: probe_loop.simps answers.simps)
  with None show ?thesis
    unfolding get_link_stats_def
    by (subst link_loop.simps) (simp add: MAX_NO_PACKETS_def eval_nat_numeral del: probe_loop.simps)
next
  case (Some xs)
  let ?s0 = "init_statistics \<lparr>sendpacket = replicate 4096 0, temp_rtt = [], all_time = 0, nsend = 0, nreceived = 0\<rparr>"
  have "nsend ?s0 + Suc 4 = MAX_NO_PACKETS" "samples ?s0 = []" "nsend ?s0 = 0"
    by (simp_all add: init_statistics_def MAX_NO_PACKETS_def samples_def)
  moreover have "answers pid ps (0 + 1) (Suc 4) = Some xs" using Some by (simp add: eval_nat_numeral)
  ultimately obtain s where run: "probe_loop (Suc 4) pid ps ?s0 = Some s" and ok: "test_ok s" "nsend s = 5"
    and xs: "samples s = xs"
    using probe_loop_run [of ?s0 4 ps pid] test_ok_init [of "replicate 4096 0"] assms
    by (auto simp: MAX_NO_PACKETS_def simp del: probe_loop.simps answers.simps)
  have "length (samples s) = nreceived s" "nreceived s \<le> 5"
    using ok(1) samples_length [of s] by (simp_all add: test_ok_def MAX_NO_PACKETS_def)
  with xs have xs: "samples s = xs" "length xs = nreceived s" "nreceived s \<le> 5" by simp_all
  have loop: "get_link_stats pid ps = (if rtt_max (computer_rtt s) \<le> 500 then Some (link_report s)
      else link_loop pid ps False (init_statistics s))"
    unfolding get_link_stats_def using run
    by (subst link_loop.simps) (simp add: MAX_NO_PACKETS_def TIMEOUT_def eval_nat_numeral del: probe_loop.simps)
  have "get_link_stats pid ps = Some (link_spec xs)"
  proof (cases "xs = []")
    case True
    with xs ok computer_rtt_none [of s] show ?thesis
      by (simp add: loop link_spec_def link_report_def no_times_def)
  next
    case False
    then have "nreceived s \<noteq> 0" using xs(2) by (cases "nreceived s") simp_all
    then have "computer_rtt s = \<lparr>rtt_min = Min (set xs), rtt_max = Max (set xs), rtt_avg = sum_list xs / of_nat (length xs),
        rtt_mdev = (\<Sum>x\<leftarrow>xs. \<bar>x - sum_list xs / of_nat (length xs)\<bar>) / of_nat (length xs)\<rparr>"
      using computer_rtt_some [of s] xs ok by auto
    moreover have "length (sendpacket s) = 4096" using ok by (simp add: test_ok_def)
    moreover have "of_int (5 - int (nreceived s)) / 5 * 100 = (of_nat (5 - nreceived s) * 20 :: rat)"
      using xs(3) by (simp add: of_nat_diff)
    ultimately show ?thesis
      using False xs ok by (simp add: loop link_spec_def link_report_def Let_def link_loop_voided)
  qed
  with Some show ?thesis by simp
qed

text \<open>C17: What the link test reports, for everything that may arrive. Five packets are sent; each counts at
  most one answer, the first whose type, identifier and number match; the loss is the share that got
  none, and the times are the least, the greatest, the mean and the mean deviation. But one time over
  500 ms voids the test: the second round sends nothing and divides by the zero packets sent. The test is undefined exactly
  if an answer that counts carries a time whose difference from the time of its arrival overflows a \<open>long\<close>: the
  time comes from the packet, and nothing tests it.\<close>

theorem link_test_result:
  assumes "arrivals_ok ps"
  shows "get_link_stats pid ps = map_option link_spec (answers pid ps 1 5)
    \<and> (get_link_stats pid ps = None \<longleftrightarrow>
        (\<exists>k \<in> {1..5}. \<exists>r t. heard pid k (snd (ps k)) = Some (r, t) \<and> tv_sub r t = None))"
proof -
  have "{1..<1 + 5} = {1..5 :: nat}" by auto
  with answers_None [of pid ps 1 5] show ?thesis by (simp add: link_result [OF assms])
qed

text \<open>C35: The link test never leaves its types. From a well-formed state of the test (its arrays at their sizes, no more answers
  than packets sent, the sum the sum of the recorded times), sending a packet and waiting for its answer counts
  one packet and at most one answer and ends in a well-formed state, and the initialisation makes one, whatever arrives:
  no number from the network leads out of the receive buffer or of the array of times. The one exception is the difference of
  times: the probe is undefined exactly if the answer that counts carries a time so far off that \<open>tv_sub\<close>
  overflows, which it does not if both times are below 2^62 in size.\<close>

theorem link_test_well_typed:
  assumes "test_ok s" and "nsend s < MAX_NO_PACKETS" and "arrivals_ok ps"
  shows "test_ok (init_statistics s)
    \<and> (case heard pid (nsend s + 1) (snd (ps (nsend s + 1))) of
        None \<Rightarrow> \<exists>s'. probe pid ps s = Some s' \<and> test_ok s' \<and> nsend s' = nsend s + 1 \<and> nreceived s' = nreceived s
      | Some (r, t) \<Rightarrow> (if tv_sub r t = None then probe pid ps s = None \<and> \<not> (near r \<and> near t)
          else \<exists>s'. probe pid ps s = Some s' \<and> test_ok s' \<and> nsend s' = nsend s + 1 \<and> nreceived s' = nreceived s + 1))"
proof -
  have count: "nreceived s = length (samples s)" if "test_ok s" for s
    using that by (simp add: samples_def test_ok_def)
  have "test_ok (init_statistics s)"
    using assms(1) by (simp add: test_ok_def init_statistics_def samples_def MAX_NO_PACKETS_def)
  moreover have "\<not> (near r \<and> near t)" if "tv_sub r t = None" for r t
    using that tv_sub_near [of r t] by auto
  ultimately show ?thesis
    using probe_run [OF assms, of pid] count [OF assms(1)] count
    by (auto simp: answer_def split: option.splits)
qed

text \<open>A station whose process number does not fit 16 bits hears no answer: the identifier in the packet
  is cut, but replies are compared with the whole number, so that every link is reported as lost.\<close>

theorem large_pid_loses_all:
  assumes "65535 < pid" and "arrivals_ok ps"
  shows "\<exists>r. get_link_stats pid ps = Some r \<and> packet_loss r = Some 100"
proof -
  have "\<not> matches pid n buf l" for n buf l
    using assms(1) uint_bounded [of "get16 buf (icmp buf + 4)"] by (auto simp: matches_def)
  then have "heard pid n as = None" for n as
    by (induction pid n as rule: heard.induct) simp_all
  then have "answers pid ps i n = Some []" for i n
    by (induction n arbitrary: i) (simp_all add: answer_def)
  with link_result [OF assms(2), of pid] show ?thesis by (simp add: link_spec_def)
qed

text \<open>The second packet is answered after two milliseconds, the fourth after four.\<close>

definition echo_reply :: "nat \<Rightarrow> bytes" where
  "echo_reply n = put (put (put (put (replicate 4096 0) 0 [0x45]) 24 (le_bytes 2 (77 :: u16)))
     26 (le_bytes 2 (word_of_nat n :: u16))) 28 (timeval_bytes \<lparr>tv_sec = 9, tv_usec = 500\<rparr>)"

definition two_answers :: probes where
  "two_answers n = (\<lparr>tv_sec = 9, tv_usec = 500\<rparr>,
     if n = 2 then [Datagram (echo_reply 1) 84 \<lparr>tv_sec = 9, tv_usec = 900\<rparr>, Datagram (echo_reply 2) 84 \<lparr>tv_sec = 9, tv_usec = 2500\<rparr>]
     else if n = 4 then [Datagram (echo_reply 4) 84 \<lparr>tv_sec = 9, tv_usec = 4500\<rparr>] else [])"

lemma get8_replicate: "k < n \<Longrightarrow> get8 (replicate n x) k = x"
  by (simp add: get8_nth)

lemma echo_reply_fields:
  "length (echo_reply n) = 4096" "icmp (echo_reply n) = 20" "get8 (echo_reply n) 20 = 0"
  "get16 (echo_reply n) 24 = 77" "get16 (echo_reply n) 26 = word_of_nat n"
  "sent_at (echo_reply n) = \<lparr>tv_sec = 9, tv_usec = 500\<rparr>"
proof -
  have len: "length (timeval_bytes t) = 16" for t by (simp add: timeval_bytes_def)
  show "length (echo_reply n) = 4096" and icmp: "icmp (echo_reply n) = 20" and "get8 (echo_reply n) 20 = 0"
    and "get16 (echo_reply n) 24 = 77" and "get16 (echo_reply n) 26 = word_of_nat n"
    by (simp_all add: echo_reply_def len icmp_def buf_simps within_simps get8_replicate)
  show "sent_at (echo_reply n) = \<lparr>tv_sec = 9, tv_usec = 500\<rparr>"
    unfolding sent_at_def icmp
    by (simp add: echo_reply_def len within_simps) (simp add: timeval_bytes_def within_simps)
qed

lemma two_answers_facts: "arrivals_ok two_answers" "answers 77 two_answers 1 5 = Some [2, 4]"
proof -
  show "arrivals_ok two_answers"
    by (auto simp: arrivals_ok_def two_answers_def arrival_ok_def echo_reply_fields)
  show "answers 77 two_answers 1 5 = Some [2, 4]"
    by (simp add: eval_nat_numeral answer_def)
      (simp add: two_answers_def matches_def echo_reply_fields ICMP_ECHOREPLY_def tv_sub_def fits_long_def rtt_of_def)
qed

theorem link_test_result_witness:
  "get_link_stats 77 two_answers = Some \<lparr>packet_loss = Some 60,
     link_rtt = \<lparr>rtt_min = 2, rtt_max = 4, rtt_avg = 3, rtt_mdev = 1\<rparr>\<rparr>"
  using link_test_result [of two_answers 77] two_answers_facts by (simp add: link_spec_def)

theorem large_pid_loses_all_witness:
  "\<exists>r. get_link_stats 65613 two_answers = Some r \<and> packet_loss r = Some 100"
  by (rule large_pid_loses_all) (simp_all add: two_answers_facts)

theorem link_test_well_typed_witness:
  "\<exists>s'. probe 77 two_answers (init_statistics \<lparr>sendpacket = replicate 4096 0, temp_rtt = [], all_time = 0, nsend = 0, nreceived = 0\<rparr>
      \<lparr>nsend := 1\<rparr>) = Some s' \<and> test_ok s' \<and> nsend s' = 2 \<and> nreceived s' = 1"
proof -
  let ?s = "init_statistics \<lparr>sendpacket = replicate 4096 0, temp_rtt = [], all_time = 0, nsend = 0, nreceived = 0\<rparr>\<lparr>nsend := 1\<rparr>"
  have s: "test_ok ?s" "nsend ?s = 1" "nreceived ?s = 0" "nsend ?s < MAX_NO_PACKETS"
    by (simp_all add: test_ok_def init_statistics_def samples_def MAX_NO_PACKETS_def)
  have "heard 77 2 (snd (two_answers 2)) = Some (\<lparr>tv_sec = 9, tv_usec = 2500\<rparr>, \<lparr>tv_sec = 9, tv_usec = 500\<rparr>)"
    by (simp add: two_answers_def matches_def echo_reply_fields ICMP_ECHOREPLY_def)
  moreover have "tv_sub \<lparr>tv_sec = 9, tv_usec = 2500\<rparr> \<lparr>tv_sec = 9, tv_usec = 500\<rparr> \<noteq> None"
    by (simp add: tv_sub_def fits_long_def)
  ultimately show ?thesis
    using link_test_well_typed [OF s(1,4) two_answers_facts(1), of 77] unfolding s(2,3)
    by (auto simp: numeral_2_eq_2)
qed

end
