(* ===== verification/Stats_Store.thy ===== *)
theory Stats_Store
  imports C_Text Port_Monitor Link_Stats
begin

text \<open>
  The database of a monitoring station, \<open>mysql_operate.c\<close>: a table of the host, and for each port a table of the counters
  of the last hour, with the queries for a point in time and for a period that answer the requests of a manager.
  The build leaves this file out and its calls are commented out.

  The MySQL client library is an argument: the state of the server, whether a connection is made, whether a statement
  fails, and the result that \<open>mysql_store_result\<close> gives, of which the code reads the first column of the first row.
  Statements are texts, built as \<open>sprintf\<close> builds them; a text that does not fit its array is undefined. The texts of
  floating point numbers are the argument \<open>fmt\<close>, and floating point numbers are rationals, without rounding.
  Memory and the closing of connections are left out.
\<close>

section \<open>Texts\<close>

definition dec :: "int \<Rightarrow> string" where
  "dec n = (if n < 0 then CHR ''-'' # numeral_of 10 (nat (- n)) else numeral_of 10 (nat n))"

definition sprintf :: "nat \<Rightarrow> string list \<Rightarrow> string option" where
  "sprintf n ss = (if length (concat ss) < n then Some (concat ss) else None)"

definition quoted :: "string \<Rightarrow> string" where
  "quoted s = CHR 0x27 # s @ [CHR 0x27]"

definition tabs :: string where
  "tabs = replicate 3 (CHR 0x09)"

fun commas :: "string list \<Rightarrow> string" where
  "commas [] = []"
| "commas [s] = s"
| "commas (s # ss) = s @ '', '' @ commas ss"

section \<open>The server\<close>

type_synonym result = "string option list option"

record 's mysql =
  real_connect :: "string option \<Rightarrow> 's \<Rightarrow> bool \<times> 's"
  query :: "string \<Rightarrow> 's \<Rightarrow> bool \<times> 's"
  store_result :: "'s \<Rightarrow> result"

text \<open>Statements one after the other, each of which must succeed.\<close>

fun must :: "'s mysql \<Rightarrow> string option list \<Rightarrow> 's \<Rightarrow> (int \<times> 's) option" where
  "must ops [] s = Some (0, s)"
| "must ops (c # cs) s = do {
     command \<leftarrow> c;
     let (failed, s) = query ops command s;
     if failed then Some (-1, s) else must ops cs s }"

record host_info =
  hi_host_name :: string
  sysname :: string
  nodename :: string
  release_ver :: string
  version :: string
  machine :: string
  domain_name :: string
  port_count :: int

definition mysql_insert_host :: "'s mysql \<Rightarrow> string \<Rightarrow> host_info \<Rightarrow> 's \<Rightarrow> (int \<times> 's) option" where
  "mysql_insert_host ops host h s = (let (connected, s) = real_connect ops None s in
     if connected then do {
       command \<leftarrow> sprintf 1024 [''drop database stats_'', host];
       let s = snd (query ops command s);
       must ops
         [sprintf 1024 [''create database stats_'', host],
          sprintf 1024 [''use stats_'', host],
          sprintf 1024 [''create table host_info('', ''host_name varchar('', dec 32, ''), sysname varchar('', dec 65, ''),'',
            take 2 tabs, '' nodename varchar('', dec 65, ''), release_ver varchar('', dec 65, ''), version varchar('', dec 65,
            ''), machine varchar('', dec 65, ''), domain_name varchar('', dec 65, ''), port_amount int)''],
          sprintf 1024 [''insert into host_info(host_name, sysname, nodename, release_ver, version, machine, domain_name, port_amount) '',
            tabs, ''values('', commas (map quoted [hi_host_name h, sysname h, nodename h, release_ver h, version h, machine h,
              domain_name h] @ [dec (port_count h)]), '')''],
          sprintf 1024 [''create table port_index(_port_num int, _port_ip varchar(16))'']] s }
     else Some (-1, s))"

section \<open>The tables of a port\<close>

record adapter =
  supported :: u32
  advertising :: u32
  speed :: u16
  duplex :: int
  ad_port :: int
  transceiver :: int
  autoneg :: u8

record dev_info =
  dev_name :: string
  dev_mac :: bytes
  dev_ip :: string
  dev_broad_addr :: string
  dev_subnet_mask :: string
  mtu :: int
  dev_adapter :: adapter

text \<open>\<open>struct PORT_INFO\<close>; a destination has its address and the results of the link test.\<close>

record port_stats =
  ps_dev :: dev_info
  ps_port_type :: int
  ps_link :: int
  bandwidth :: rat
  packets :: pack_count
  ps_rates :: rates
  dests :: "(string \<times> rat \<times> rtt_stats) list"

definition hex2 :: "u8 \<Rightarrow> string" where
  "hex2 w = [digit_char (unat w div 16), digit_char (unat w mod 16)]"

text \<open>\<open>snprintf\<close> into an array of 18 characters.\<close>

definition mac_text :: "bytes \<Rightarrow> string" where
  "mac_text m = take 17 (hex2 (m ! 0) @ '':'' @ hex2 (m ! 1) @ '':'' @ hex2 (m ! 2) @ '':'' @ hex2 (m ! 3) @ '':'' @ hex2 (m ! 4)
     @ '':'' @ hex2 (m ! 5) @ [NL])"

text \<open>An unsigned number printed with \<open>%d\<close>.\<close>

definition dec32 :: "u32 \<Rightarrow> string" where
  "dec32 w = dec (sint w)"

definition database :: "string \<Rightarrow> string option" where
  "database host = sprintf 50 [''stats_'', host]"

definition mysql_create_port_database :: "'s mysql \<Rightarrow> string \<Rightarrow> port_stats \<Rightarrow> int \<Rightarrow> 's \<Rightarrow> (int \<times> 's) option" where
  "mysql_create_port_database ops host p i s = do {
     let d = ps_dev p;
     let a = dev_adapter d;
     guard (6 \<le> length (dev_mac d));
     database_name \<leftarrow> database host;
     let (connected, s) = real_connect ops (Some database_name) s;
     if connected then do {
       command \<leftarrow> sprintf 1024 [''drop table port_info_'', dec i];
       let s = snd (query ops command s);
       command \<leftarrow> sprintf 1024 [''drop table port_stats_'', dec i];
       let s = snd (query ops command s);
       must ops
         [sprintf 1024 [''create table port_info_'', dec i, ''(_dev_name varchar(16), _port_type smallint, _mac char(18), _ip varchar(16), _broad_addr varchar(16), _subnet_mask varchar(16), '',
            tabs, ''_mtu int, _support int, _advertise int, _speed smallint, _duplex int, _port int, _transceiver int, _autoneg int)''],
          sprintf 1024 [''insert into port_info_'', dec i, ''(_dev_name, _port_type, _mac, _ip, _broad_addr, _subnet_mask, _mtu, _support, _advertise, _speed, _duplex, _port, _transceiver, _autoneg) '',
            tabs, ''values('', commas [quoted (dev_name d), dec (ps_port_type p), quoted (mac_text (dev_mac d)), quoted (dev_ip d),
              quoted (dev_broad_addr d), quoted (dev_subnet_mask d), dec (mtu d), dec32 (supported a), dec32 (advertising a),
              dec (uint (speed a)), dec (duplex a), dec (ad_port a), dec (transceiver a), dec (uint (autoneg a))], '')''],
          sprintf 1024 [''insert into port_index(_port_num, _port_ip) '', tabs, ''values('', commas [dec i, quoted (dev_ip d)], '')''],
          sprintf 1024 [''create table port_stats_'', dec i, ''(_time_id int, _date date, _time time, _connected smallint, _bandwidth float, '',
            tabs, ''_total_packets bigint, _total_bytes bigint, _tx_packets bigint, _tx_bytes bigint, '',
            tabs, ''_rx_packets bigint, _rx_bytes bigint, _total_packets_ps double, _total_bytes_ps double, _tx_packets_ps double, _tx_bytes_ps double, '',
            tabs, ''_rx_packets_ps double, _rx_bytes_ps double, _packet_loss float, _rtt_avg float, _rtt_min float, _rtt_max float, _rtt_mdev float)'']] s }
     else Some (-1, s) }"

definition MAX_REC :: nat where "MAX_REC = 60 * 60 div INTERVAL"

definition delete_text :: "int \<Rightarrow> nat \<Rightarrow> string option" where
  "delete_text i t = sprintf 1024 [''delete from port_stats_'', dec i, '' where _time_id = '', dec (int t)]"

definition insert_columns :: string where
  "insert_columns = ''_time_id, _date, _time, _connected, _bandwidth, ''
     @ tabs @ ''_total_packets, _total_bytes, _tx_packets, _tx_bytes, _rx_packets, _rx_bytes, ''
     @ tabs @ ''_total_packets_ps, _total_bytes_ps, _tx_packets_ps, _tx_bytes_ps, _rx_packets_ps, _rx_bytes_ps, ''
     @ tabs @ ''_packet_loss, _rtt_avg, _rtt_min, _rtt_max, _rtt_mdev) '' @ take 2 tabs"

definition insert_text :: "(rat \<Rightarrow> string) \<Rightarrow> int \<Rightarrow> nat \<Rightarrow> port_stats \<Rightarrow> string option" where
  "insert_text fmt i t p = (case dests p of [] \<Rightarrow> None | (_, loss, rtt) # _ \<Rightarrow>
     sprintf 1024 [''insert into port_stats_'', dec i, ''('', insert_columns, ''values('', commas ([dec (int t), ''current_date()'', ''current_time()'', dec (ps_link p), fmt (bandwidth p)]
         @ map dec [total_packets (packets p), total_bytes (packets p), tx_packets (packets p), tx_bytes (packets p),
             rx_packets (packets p), rx_bytes (packets p)]
         @ map fmt [total_packets_ps (ps_rates p), total_bytes_ps (ps_rates p), tx_packets_ps (ps_rates p), tx_bytes_ps (ps_rates p),
             rx_packets_ps (ps_rates p), rx_bytes_ps (ps_rates p), loss, rtt_avg rtt, rtt_min rtt, rtt_max rtt, rtt_mdev rtt]), '')''])"

text \<open>\<open>time_id\<close> is static: it keeps its value between the calls of a process. Each port is watched by a process of its own,
  so that in the program a counter serves one port; the model lets a process insert for any ports. The failure of the
  deletion is not noticed.\<close>

definition mysql_insert_port_stats :: "(rat \<Rightarrow> string) \<Rightarrow> 's mysql \<Rightarrow> string \<Rightarrow> port_stats \<Rightarrow> int \<Rightarrow> nat \<times> 's \<Rightarrow> (int \<times> nat \<times> 's) option" where
  "mysql_insert_port_stats fmt ops host p i st = do {
     let (time_id, s) = st;
     database_name \<leftarrow> database host;
     let (connected, s) = real_connect ops (Some database_name) s;
     if connected then do {
       let time_id = (if MAX_REC \<le> time_id then 0 else time_id);
       command \<leftarrow> delete_text i time_id;
       let s = snd (query ops command s);
       command \<leftarrow> insert_text fmt i time_id p;
       let (failed, s) = query ops command s;
       if failed then Some (-1, time_id, s) else Some (0, time_id + 1, s) }
     else Some (-1, time_id, s) }"

section \<open>Queries\<close>

definition mysql_get_port_num :: "'s mysql \<Rightarrow> string \<Rightarrow> string \<Rightarrow> 's \<Rightarrow> (int \<times> 's) option" where
  "mysql_get_port_num ops host ip s = do {
     database_name \<leftarrow> database host;
     let (connected, s) = real_connect ops (Some database_name) s;
     if connected then do {
       command \<leftarrow> sprintf 1024 [''select _port_num from port_index where _port_ip = '', quoted ip];
       let (failed, s) = query ops command s;
       if failed then Some (-1, s)
       else (case store_result ops s of
           None \<Rightarrow> Some (-1, s)
         | Some [] \<Rightarrow> Some (-1, s)
         | Some (v # _) \<Rightarrow> do { v \<leftarrow> v; n \<leftarrow> atoi v; Some (n, s) }) }
     else Some (-1, s) }"

text \<open>\<open>a_to_num\<close>: whole numbers up to a point, which is looked for behind the first character only. The new value of
  the flag \<open>type\<close> says which member of the union is set.\<close>

datatype num = Whole int | Float rat

definition char_value :: "char \<Rightarrow> int" where
  "char_value c = (if code c < 128 then int (code c) else int (code c) - 256)"

fun whole_part :: "string \<Rightarrow> int \<Rightarrow> bool \<Rightarrow> (int \<times> string \<times> bool) option" where
  "whole_part [] l t = Some (l, [], t)"
| "whole_part (c # cs) l t = do {
     l \<leftarrow> fits_long (l * 10);
     l \<leftarrow> fits_long (l + char_value c);
     let l = l - 48;
     (case cs of
        d # ds \<Rightarrow> if d = CHR ''.'' then Some (l, ds, True) else whole_part cs l t
      | [] \<Rightarrow> Some (l, [], t)) }"

fun fraction :: "string \<Rightarrow> rat \<Rightarrow> rat \<Rightarrow> rat \<times> rat" where
  "fraction [] f pow = (f, pow)"
| "fraction (c # cs) f pow = fraction cs (f * 10 + of_int (char_value c - 48)) (pow * 10)"

definition a_to_num :: "string \<Rightarrow> bool \<Rightarrow> (num \<times> bool) option" where
  "a_to_num input t = do {
     (l, input, t) \<leftarrow> whole_part input 0 t;
     if t then let (f, pow) = fraction input 0 1 in Some (Float (f / pow + of_int l), True)
     else Some (Whole l, False) }"

text \<open>The first column of the first row in an array of 16 characters, and the value that is returned: \<open>_value\<close> as it was after
  every failure. A value that is NULL is undefined.\<close>

definition fetch_value :: "'s mysql \<Rightarrow> 's \<Rightarrow> num \<Rightarrow> num option" where
  "fetch_value ops s value = (case store_result ops s of
     None \<Rightarrow> Some value
   | Some [] \<Rightarrow> Some value
   | Some (v # _) \<Rightarrow> do { v \<leftarrow> v; (x, _) \<leftarrow> a_to_num (take 15 v) False; Some x })"

record tm =
  tm_sec :: int
  tm_min :: int
  tm_hour :: int
  tm_mday :: int
  tm_mon :: int
  tm_year :: int

definition time_text :: "int \<Rightarrow> int \<Rightarrow> int \<Rightarrow> string option" where
  "time_text h m s = sprintf 16 [dec h, '':'', dec m, '':'', dec s]"

definition date_text :: "tm \<Rightarrow> string option" where
  "date_text t = sprintf 16 [dec (tm_year t), ''-'', dec (tm_mon t), ''-'', dec (tm_mday t)]"

text \<open>The second before and the second after.\<close>

definition time1 :: "tm \<Rightarrow> string option" where
  "time1 t =
     (if tm_sec t \<noteq> 0 then
        (if tm_min t \<noteq> 0 then time_text (tm_hour t - 1) 59 59 else time_text (tm_hour t) (tm_min t - 1) 59)
      else time_text (tm_hour t) (tm_min t) (tm_sec t - 1))"

definition time3 :: "tm \<Rightarrow> string option" where
  "time3 t =
     (if tm_sec t = 59 then
        (if tm_min t = 59 then time_text (tm_hour t + 1) 0 0 else time_text (tm_hour t) (tm_min t + 1) 0)
      else time_text (tm_hour t) (tm_min t) (tm_sec t + 1))"

definition mysql_fetch_point_stats :: "'s mysql \<Rightarrow> string \<Rightarrow> string \<Rightarrow> tm \<Rightarrow> int \<Rightarrow> num \<Rightarrow> 's \<Rightarrow> (num \<times> 's) option" where
  "mysql_fetch_point_stats ops host elem start i value s = do {
     start_date \<leftarrow> date_text start;
     t2 \<leftarrow> time_text (tm_hour start) (tm_min start) (tm_sec start);
     t1 \<leftarrow> time1 start;
     t3 \<leftarrow> time3 start;
     database_name \<leftarrow> database host;
     let (connected, s) = real_connect ops (Some database_name) s;
     if connected then do {
       command \<leftarrow> sprintf 1024 [''select '', elem, '' from port_stats_'', dec i, '' where _date = '', quoted start_date,
         '' and (_time = '', quoted t1, '' or _time = '', quoted t2, '' or _time = '', quoted t3, '')''];
       let (failed, s) = query ops command s;
       if failed then Some (value, s) else do { x \<leftarrow> fetch_value ops s value; Some (x, s) } }
     else Some (value, s) }"

definition duration_texts :: "string \<Rightarrow> int \<Rightarrow> string \<Rightarrow> string \<Rightarrow> string \<Rightarrow> string \<Rightarrow> string list" where
  "duration_texts sub i d1 d2 t1 t2 = [''select '', sub, '' from port_stats_'', dec i, '' where ''] @
     (if d1 = d2 then [''_date = '', quoted d1, '' and (_time >= '', quoted t1, '' and _time <= '', quoted t2, '')'']
      else [''(_date = '', quoted d1, '' and _time >= '', quoted t1, '') or (_date = '', quoted d2, '' and _time <= '', quoted t2, '')''])"

definition mysql_fetch_duration_stats ::
  "'s mysql \<Rightarrow> string \<Rightarrow> string \<Rightarrow> int \<Rightarrow> tm \<Rightarrow> tm \<Rightarrow> int \<Rightarrow> num \<Rightarrow> 's \<Rightarrow> (num \<times> 's) option" where
  "mysql_fetch_duration_stats ops host elem content_type start stop i value s =
     (if content_type \<in> {1, 2, 3} then do {
        sub \<leftarrow> sprintf 32 [if content_type = 1 then ''avg('' else if content_type = 2 then ''max('' else ''min('', elem, '')''];
        start_date \<leftarrow> date_text start;
        end_date \<leftarrow> date_text stop;
        start_time \<leftarrow> time_text (tm_hour start) (tm_min start) (tm_sec start);
        end_time \<leftarrow> time_text (tm_hour stop) (tm_min stop) (tm_sec stop);
        database_name \<leftarrow> database host;
        let (connected, s) = real_connect ops (Some database_name) s;
        if connected then do {
          command \<leftarrow> sprintf 1024 (duration_texts sub i start_date end_date start_time end_time);
          let (failed, s) = query ops command s;
          if failed then Some (value, s) else do { x \<leftarrow> fetch_value ops s value; Some (x, s) } }
        else Some (value, s) }
      else Some (value, s))"

section \<open>Texts of numbers\<close>

lemma numeral_inject: "numeral_of 10 m = numeral_of 10 n \<longleftrightarrow> m = n"
proof
  assume "numeral_of 10 m = numeral_of 10 n"
  then have "digits 10 (numeral_of 10 m) 0 = digits 10 (numeral_of 10 n) 0" by simp
  then show "m = n" by (simp add: digits_numeral)
qed simp

lemma numeral_sign: "CHR ''-'' \<notin> set (numeral_of 10 n)"
  using numeral_digits [of 10 n] by (auto simp: digit_val_def code_def)

lemma dec_inject: "dec m = dec n \<longleftrightarrow> m = n"
proof -
  have "CHR ''-'' # w \<noteq> numeral_of 10 k" "numeral_of 10 k \<noteq> CHR ''-'' # w" for w k
    using numeral_sign [of k] by (metis list.set_intros(1))+
  then show ?thesis by (auto simp: dec_def numeral_inject)
qed

lemma dec_plain: "\<not> digit_val c < 10 \<Longrightarrow> c \<noteq> CHR ''-'' \<Longrightarrow> c \<notin> set (dec n)"
  using numeral_digits [of 10 "nat n"] numeral_digits [of 10 "nat (- n)"] by (auto simp: dec_def)

lemma split_at_char: "a @ x # u = b @ x # v \<Longrightarrow> x \<notin> set a \<Longrightarrow> x \<notin> set b \<Longrightarrow> a = b \<and> u = v"
proof (induction a arbitrary: b)
  case Nil
  then show ?case by (cases b) auto
next
  case (Cons y a)
  then show ?case by (cases b) auto
qed

lemma dec_split:
  assumes "dec i @ c # u = dec j @ c # v" and "c \<in> {CHR '' '', CHR ''('', CHR '','', CHR '':''}"
  shows "i = j \<and> u = v"
proof -
  have "c \<notin> set (dec k)" for k using assms(2) by (intro dec_plain) (auto simp: digit_val_def code_def)
  with split_at_char [OF assms(1)] show ?thesis by (simp add: dec_inject)
qed

lemma delete_text_inject: "delete_text i t = Some c \<Longrightarrow> delete_text j u = Some c \<Longrightarrow> i = j \<and> t = u"
proof -
  assume "delete_text i t = Some c" "delete_text j u = Some c"
  then have "dec i @ CHR '' '' # ''where _time_id = '' @ dec (int t) = dec j @ CHR '' '' # ''where _time_id = '' @ dec (int u)"
    by (auto simp: delete_text_def sprintf_def split: if_splits)
  from dec_split [OF this] show ?thesis by (simp add: dec_inject)
qed

lemma insert_text_inject: "insert_text fmt i t p = Some c \<Longrightarrow> insert_text fmt j u q = Some c \<Longrightarrow> i = j \<and> t = u"
proof -
  assume c: "insert_text fmt i t p = Some c" "insert_text fmt j u q = Some c"
  have shape: "\<exists>x. c = ''insert into port_stats_'' @ dec i @ CHR ''('' # insert_columns @ ''values('' @ dec (int t) @ CHR '','' # x"
    if "insert_text fmt i t p = Some c" for i t p
    using that by (auto simp: insert_text_def sprintf_def split: if_splits list.splits)
  obtain x y where "''insert into port_stats_'' @ dec i @ CHR ''('' # insert_columns @ ''values('' @ dec (int t) @ CHR '','' # x
      = ''insert into port_stats_'' @ dec j @ CHR ''('' # insert_columns @ ''values('' @ dec (int u) @ CHR '','' # y"
    using shape [OF c(1)] shape [OF c(2)] by metis
  then have e: "dec i @ CHR ''('' # insert_columns @ ''values('' @ dec (int t) @ CHR '','' # x
      = dec j @ CHR ''('' # insert_columns @ ''values('' @ dec (int u) @ CHR '','' # y" by simp
  from dec_split [OF this] have "i = j" "dec (int t) @ CHR '','' # x = dec (int u) @ CHR '','' # y" by simp_all
  with dec_split [OF this(2)] show ?thesis by simp
qed

lemma delete_not_insert: "delete_text i t = Some c \<Longrightarrow> insert_text fmt j u q \<noteq> Some c"
  by (auto simp: delete_text_def insert_text_def sprintf_def split: if_splits list.splits)

section \<open>The second before is never asked for\<close>

lemma dec_short:
  assumes "-100 < n" and "n < 100"
  shows "length (dec n) \<le> 3"
proof -
  have "nat n < 10 ^ 2" "nat (- n) < 10 ^ 2" using assms by auto
  with numeral_length [of "nat n" 2] numeral_length [of "nat (- n)" 2] show ?thesis by (simp add: dec_def)
qed

lemma time_text_Some:
  assumes "-100 < h" "h < 100" "-100 < m" "m < 100" "-100 < s" "s < 100"
  shows "time_text h m s = Some (dec h @ '':'' @ dec m @ '':'' @ dec s)"
  using dec_short [OF assms(1,2)] dec_short [OF assms(3,4)] dec_short [OF assms(5,6)]
  by (simp add: time_text_def sprintf_def)

lemma time_text_inject:
  assumes "-100 < h" "h < 100" "-100 < m" "m < 100" "-100 < s" "s < 100"
    and "-100 < h'" "h' < 100" "-100 < m'" "m' < 100" "-100 < s'" "s' < 100"
  shows "time_text h m s = time_text h' m' s' \<longleftrightarrow> h = h' \<and> m = m' \<and> s = s'"
proof
  assume "time_text h m s = time_text h' m' s'"
  then have e: "dec h @ CHR '':'' # dec m @ CHR '':'' # dec s = dec h' @ CHR '':'' # dec m' @ CHR '':'' # dec s'"
    using time_text_Some [OF assms(1-6)] time_text_Some [OF assms(7-12)] by simp
  from dec_split [OF e] have "h = h'" "dec m @ CHR '':'' # dec s = dec m' @ CHR '':'' # dec s'" by simp_all
  with dec_split [OF this(2)] show "h = h' \<and> m = m' \<and> s = s'" by (simp add: dec_inject)
qed simp

text \<open>The time of day of a number of seconds after midnight.\<close>

definition clock :: "int \<Rightarrow> string option" where
  "clock n = time_text (n div 3600) (n div 60 mod 60) (n mod 60)"

text \<open>C38: A query for a point in time is meant to accept the second before and the second after. The second before is never right: the two
  cases are the wrong way round, so that the text names another time or a negative number. The second after is
  right for every time but the last second of the day, for which it is the time 24:0:0 of the same day.\<close>

theorem point_query_misses_second_before:
  assumes "0 \<le> tm_hour t" "tm_hour t < 24" "0 \<le> tm_min t" "tm_min t < 60" "0 \<le> tm_sec t" "tm_sec t < 60"
    and "n = 3600 * tm_hour t + 60 * tm_min t + tm_sec t"
  shows "time_text (tm_hour t) (tm_min t) (tm_sec t) = clock n
    \<and> time1 t \<noteq> clock (n - 1)
    \<and> (n < 86399 \<longrightarrow> time3 t = clock (n + 1)) \<and> (n = 86399 \<longrightarrow> time3 t = Some ''24:0:0'')"
proof (intro conjI impI)
  let ?h = "tm_hour t" and ?m = "tm_min t" and ?s = "tm_sec t"
  have parts: "(3600 * a + 60 * b + c) div 3600 = a" "(3600 * a + 60 * b + c) div 60 mod 60 = b" "(3600 * a + 60 * b + c) mod 60 = c"
    if "0 \<le> b" "b < 60" "0 \<le> c" "c < 60" for a b c :: int
  proof -
    have e: "3600 * a + 60 * b + c = c + 60 * (b + 60 * a)" by simp
    have d: "(3600 * a + 60 * b + c) div 60 = b + 60 * a" unfolding e using that by (subst div_mult_self2) simp_all
    show "(3600 * a + 60 * b + c) mod 60 = c" unfolding e mod_mult_self2 using that by simp
    show "(3600 * a + 60 * b + c) div 60 mod 60 = b" unfolding d mod_mult_self2 using that by simp
    have "(3600 * a + 60 * b + c) div (60 * 60) = (3600 * a + 60 * b + c) div 60 div 60" by (rule zdiv_zmult2_eq) simp
    also have "\<dots> = a" unfolding d using that by (subst div_mult_self2) simp_all
    finally show "(3600 * a + 60 * b + c) div 3600 = a" by simp
  qed
  have clock: "clock (3600 * a + 60 * b + c) = time_text a b c" if "0 \<le> b" "b < 60" "0 \<le> c" "c < 60" for a b c
    unfolding clock_def parts [OF that] by (rule refl)
  show "time_text ?h ?m ?s = clock n" using assms clock by simp
  show "time1 t \<noteq> clock (n - 1)"
  proof (cases "?s = 0")
    case False
    have e: "n - 1 = 3600 * ?h + 60 * ?m + (?s - 1)" using assms(7) by simp
    have c: "clock (n - 1) = time_text ?h ?m (?s - 1)" unfolding e using assms(1-6) False by (intro clock) simp_all
    show ?thesis unfolding c time1_def using assms False by (cases "?m = 0") (simp_all add: time_text_inject)
  next
    case s: True
    show ?thesis
    proof (cases "?m = 0")
      case False
      have e: "n - 1 = 3600 * ?h + 60 * (?m - 1) + 59" using assms(7) s by simp
      have c: "clock (n - 1) = time_text ?h (?m - 1) 59" unfolding e using assms(1-6) False by (intro clock) simp_all
      show ?thesis unfolding c time1_def using assms s by (simp add: time_text_inject)
    next
      case True
      have e: "n - 1 = 3600 * (?h - 1) + 60 * 59 + 59" using assms(7) s True by simp
      have c: "clock (n - 1) = time_text (?h - 1) 59 59" unfolding e by (intro clock) simp_all
      show ?thesis unfolding c time1_def using assms s True by (simp add: time_text_inject)
    qed
  qed
  show "time3 t = clock (n + 1)" if "n < 86399"
  proof -
    consider "?s \<noteq> 59" | "?s = 59" "?m \<noteq> 59" | "?s = 59" "?m = 59" by blast
    then show ?thesis
    proof cases
      case 1
      have e: "n + 1 = 3600 * ?h + 60 * ?m + (?s + 1)" using assms(7) by simp
      have "clock (n + 1) = time_text ?h ?m (?s + 1)" unfolding e using assms(1-6) 1 by (intro clock) simp_all
      with 1 show ?thesis by (simp add: time3_def)
    next
      case 2
      have e: "n + 1 = 3600 * ?h + 60 * (?m + 1) + 0" using assms(7) 2 by simp
      have "clock (n + 1) = time_text ?h (?m + 1) 0" unfolding e using assms(1-6) 2 by (intro clock) simp_all
      with 2 show ?thesis by (simp add: time3_def)
    next
      case 3
      have e: "n + 1 = 3600 * (?h + 1) + 60 * 0 + 0" using assms(7) 3 by simp
      have "clock (n + 1) = time_text (?h + 1) 0 0" unfolding e by (intro clock) simp_all
      with 3 show ?thesis by (simp add: time3_def)
    qed
  qed
  show "time3 t = Some ''24:0:0''" if "n = 86399"
  proof -
    have bounds: "?h \<le> 23" "?m \<le> 59" "?s \<le> 59" using assms(2,4,6) by simp_all
    have sum: "3600 * ?h + 60 * ?m + ?s = 86399" using that assms(7) by simp
    from bounds sum have "?h = 23" by linarith
    moreover from this bounds sum have "?m = 59" by linarith
    ultimately have e: "?h = 23 \<and> ?m = 59 \<and> ?s = 59" using sum by simp
    have "time_text 24 0 0 = Some ''24:0:0''" by code_simp
    with e show ?thesis by (simp add: time3_def)
  qed
qed

theorem point_query_misses_second_before_witness:
  "time1 \<lparr>tm_sec = 5, tm_min = 7, tm_hour = 9, tm_mday = 1, tm_mon = 2, tm_year = 2014\<rparr> \<noteq> clock 32824
    \<and> time3 \<lparr>tm_sec = 5, tm_min = 7, tm_hour = 9, tm_mday = 1, tm_mon = 2, tm_year = 2014\<rparr> = clock 32826"
  using point_query_misses_second_before [of "\<lparr>tm_sec = 5, tm_min = 7, tm_hour = 9, tm_mday = 1, tm_mon = 2, tm_year = 2014\<rparr>" 32825]
  by simp

section \<open>Reading a value\<close>

fun horner :: "nat list \<Rightarrow> nat \<Rightarrow> nat" where
  "horner [] n = n"
| "horner (d # ds) n = horner ds (n * 10 + d)"

lemma horner_mono: "n \<le> horner ds n"
proof (induction ds arbitrary: n)
  case (Cons d ds)
  have "n \<le> n * 10 + d" by simp
  also have "\<dots> \<le> horner ds (n * 10 + d)" by (rule Cons.IH)
  finally show ?case by simp
qed simp

lemma digits_horner: "\<forall>d \<in> set ds. d < 10 \<Longrightarrow> digits 10 (map digit_char ds) n = (horner ds n, [])"
  by (induction ds arbitrary: n) (simp_all add: digit_val_char)

lemma char_value_digit: "d < 10 \<Longrightarrow> char_value (digit_char d) = int d + 48"
  by (simp add: char_value_def digit_char_def code_def)

lemma digit_not_point: "d < 10 \<Longrightarrow> digit_char d \<noteq> CHR ''.''"
  using digit_val_char [of d] by (auto simp: digit_val_def code_def)

lemma whole_part_digits:
  "\<lbrakk>\<forall>d \<in> set ds. d < 10; ds \<noteq> []; horner ds n < 2 ^ 58\<rbrakk> \<Longrightarrow>
   whole_part (map digit_char ds) (int n) t = Some (int (horner ds n), [], t)
   \<and> whole_part (map digit_char ds @ CHR ''.'' # cs) (int n) t = Some (int (horner ds n), cs, True)"
proof (induction ds arbitrary: n)
  case (Cons d ds)
  have "n * 10 + d < 2 ^ 58" using Cons.prems(3) horner_mono [of "n * 10 + d" ds] by simp
  then have fit: "fits_long (int n * 10) = Some (int n * 10)"
    "fits_long (int n * 10 + char_value (digit_char d)) = Some (int n * 10 + (int d + 48))"
    using Cons.prems(1) by (simp_all add: fits_long_def char_value_digit)
  have next_n: "int n * 10 + (int d + 48) - 48 = int (n * 10 + d)" by simp
  show ?case
  proof (cases ds)
    case Nil
    with fit next_n show ?thesis by (simp add: Let_def)
  next
    case (Cons e es)
    with Cons.prems have "digit_char e \<noteq> CHR ''.''" by (intro digit_not_point) simp
    with Cons.IH [of "n * 10 + d"] Cons.prems fit next_n \<open>ds = e # es\<close> show ?thesis by (simp add: Let_def)
  qed
qed simp

lemma fraction_digits:
  "\<forall>d \<in> set ds. d < 10 \<Longrightarrow> fraction (map digit_char ds) (of_nat n) p = (of_nat (horner ds n), p * 10 ^ length ds)"
proof (induction ds arbitrary: n p)
  case (Cons d ds)
  have "of_nat n * 10 + of_int (char_value (digit_char d) - 48) = (of_nat (n * 10 + d) :: rat)"
    using Cons.prems by (simp add: char_value_digit)
  then show ?case using Cons.IH [of "n * 10 + d" "p * 10"] Cons.prems by (simp add: mult.assoc)
qed simp

text \<open>The reader of values. A whole number is read as what it is, and so is a decimal fraction with any number of
  places, each in its own member of the union.\<close>

theorem values_read_back:
  assumes "n < 2 ^ 58" and "\<forall>d \<in> set ds. d < 10"
  shows "a_to_num (numeral_of 10 n) False = Some (Whole (int n), False)
    \<and> a_to_num (numeral_of 10 n @ CHR ''.'' # map digit_char ds) t
      = Some (Float (of_nat n + of_nat (horner ds 0) / 10 ^ length ds), True)"
proof -
  obtain es where es: "numeral_of 10 n = map digit_char es" "\<forall>d \<in> set es. d < 10" using numeral_as_digits by blast
  then have "es \<noteq> []" using numeral_nonempty(1) [of 10 n] by auto
  have "horner es 0 = n" using digits_horner [OF es(2), of 0] digits_numeral [of 10 n] es(1) by simp
  then have "horner es 0 < 2 ^ 58" using assms(1) by simp
  note w = whole_part_digits [OF es(2) \<open>es \<noteq> []\<close> this]
  show ?thesis
    using w [of False] w [of t "map digit_char ds"] fraction_digits [OF assms(2), of 0 1] es(1) \<open>horner es 0 = n\<close>
    by (simp add: a_to_num_def add.commute)
qed

theorem values_read_back_witness:
  "a_to_num ''12'' False = Some (Whole 12, False) \<and> a_to_num ''12.05'' False = Some (Float (12 + 5 / 100), True)"
proof -
  have "numeral_of 10 12 = ''12''" "map digit_char [0, 5] = ''05''" "horner [0, 5] 0 = 5" by code_simp+
  with values_read_back [of 12 "[0, 5]" False] show ?thesis by simp
qed

section \<open>The last hour of a port\<close>

text \<open>What MySQL makes of the two statements, by the numbers of the rows in the tables of the ports: a deletion that does not fail
  removes the rows with the number, an insertion that does not fail adds one, and a statement that fails changes nothing.\<close>

definition server_law :: "(rat \<Rightarrow> string) \<Rightarrow> 's mysql \<Rightarrow> ('s \<Rightarrow> int \<Rightarrow> nat list) \<Rightarrow> bool" where
  "server_law fmt ops ids \<longleftrightarrow>
     (\<forall>db s. ids (snd (real_connect ops db s)) = ids s)
     \<and> (\<forall>i t c s. delete_text i t = Some c \<longrightarrow> ids (snd (query ops c s)) =
          (if fst (query ops c s) then ids s else (ids s)(i := filter (\<lambda>x. x \<noteq> t) (ids s i))))
     \<and> (\<forall>i t p c s. insert_text fmt i t p = Some c \<longrightarrow> ids (snd (query ops c s)) =
          (if fst (query ops c s) then ids s else (ids s)(i := ids s i @ [t])))"

definition deletes :: "'s mysql \<Rightarrow> bool" where
  "deletes ops \<longleftrightarrow> (\<forall>i t c s. delete_text i t = Some c \<longrightarrow> \<not> fst (query ops c s))"

definition last_hour :: "('s \<Rightarrow> int \<Rightarrow> nat list) \<Rightarrow> nat \<times> 's \<Rightarrow> bool" where
  "last_hour ids st \<longleftrightarrow> (\<forall>i. distinct (ids (snd st) i) \<and> (\<forall>t \<in> set (ids (snd st) i). t < MAX_REC))"

fun insert_run :: "(rat \<Rightarrow> string) \<Rightarrow> 's mysql \<Rightarrow> string \<Rightarrow> (int \<times> port_stats) list \<Rightarrow> nat \<times> 's \<Rightarrow> (nat \<times> 's) option" where
  "insert_run fmt ops host [] st = Some st"
| "insert_run fmt ops host ((i, p) # ips) st = do {
     (r, st) \<leftarrow> mysql_insert_port_stats fmt ops host p i st;
     insert_run fmt ops host ips st }"

lemma insert_keeps:
  assumes "server_law fmt ops ids" and "deletes ops" and "last_hour ids st"
    and "mysql_insert_port_stats fmt ops host p i st = Some (r, st')"
  shows "last_hour ids st'"
proof -
  obtain t s where st: "st = (t, s)" by (cases st)
  from assms(4) obtain db where db: "database host = Some db"
    by (auto simp: mysql_insert_port_stats_def bind_eq_Some_conv split_beta)
  obtain ok s1 where c: "real_connect ops (Some db) s = (ok, s1)" by force
  have ids1: "ids s1 = ids s" using assms(1) c unfolding server_law_def by (metis snd_conv)
  show ?thesis
  proof (cases ok)
    case False
    with assms(4) have "st' = (t, s1)" by (simp add: mysql_insert_port_stats_def st db c)
    with ids1 assms(3) st show ?thesis by (simp add: last_hour_def)
  next
    case True
    let ?t = "if MAX_REC \<le> t then 0 else t"
    have t: "?t < MAX_REC" by (simp add: MAX_REC_def INTERVAL_def)
    from assms(4) True st c obtain d q where
      d: "delete_text i ?t = Some d" and q: "insert_text fmt i ?t p = Some q"
      and st': "snd st' = snd (query ops q (snd (query ops d s1)))"
      by (auto simp: mysql_insert_port_stats_def bind_eq_Some_conv Let_def db split_beta split: if_splits)
    let ?s2 = "snd (query ops d s1)"
    have "\<not> fst (query ops d s1)" using assms(2) d unfolding deletes_def by blast
    moreover have "ids ?s2 = (if fst (query ops d s1) then ids s1 else (ids s1)(i := filter (\<lambda>x. x \<noteq> ?t) (ids s1 i)))"
      using assms(1) d unfolding server_law_def by blast
    ultimately have ids2: "ids ?s2 = (ids s)(i := filter (\<lambda>x. x \<noteq> ?t) (ids s i))" by (simp only: ids1 if_False)
    have "ids (snd (query ops q ?s2)) = (if fst (query ops q ?s2) then ids ?s2 else (ids ?s2)(i := ids ?s2 i @ [?t]))"
      using assms(1) q unfolding server_law_def by blast
    then have ids3: "ids (snd st') = (if fst (query ops q ?s2) then ids ?s2 else (ids ?s2)(i := ids ?s2 i @ [?t]))"
      by (simp only: st')
    have old: "distinct (ids s j)" "\<forall>x \<in> set (ids s j). x < MAX_REC" for j
      using assms(3) st by (simp_all add: last_hour_def)
    have "distinct (ids (snd st') j) \<and> (\<forall>x \<in> set (ids (snd st') j). x < MAX_REC)" for j
      unfolding ids3 ids2 using old [of j] old [of i] t by (cases "j = i") (auto simp: distinct_filter)
    then show ?thesis by (simp add: last_hour_def)
  qed
qed

text \<open>C24: The tables stay small. However the ports and the failures alternate, as long as deletions do not fail no table has two rows with the same number
  and none more than 360 rows, one hour's worth: the counter of the process wraps and the row with the
  number is deleted before it is written anew.\<close>

theorem tables_hold_an_hour:
  assumes "server_law fmt ops ids" and "deletes ops" and "last_hour ids st" and "insert_run fmt ops host ips st = Some st'"
  shows "last_hour ids st' \<and> length (ids (snd st') i) \<le> 360"
proof -
  have "last_hour ids st'"
    using assms(3,4)
  proof (induction ips arbitrary: st)
    case (Cons ip ips)
    obtain i p where ip: "ip = (i, p)" by (cases ip)
    with Cons.prems(2) obtain r st1 where "mysql_insert_port_stats fmt ops host p i st = Some (r, st1)"
      "insert_run fmt ops host ips st1 = Some st'" by (auto simp: bind_eq_Some_conv)
    with Cons.IH insert_keeps [OF assms(1,2) Cons.prems(1)] show ?case by blast
  qed simp
  then have d: "distinct (ids (snd st') i)" "set (ids (snd st') i) \<subseteq> {..<360}"
    by (auto simp: last_hour_def MAX_REC_def INTERVAL_def)
  have "length (ids (snd st') i) = card (set (ids (snd st') i))" using d(1) by (simp add: distinct_card)
  also have "\<dots> \<le> card {..<360 :: nat}" using d(2) by (intro card_mono) simp_all
  finally show ?thesis using \<open>last_hour ids st'\<close> by simp
qed

text \<open>A server that keeps the numbers, and on which nothing fails.\<close>

definition number_server :: "(rat \<Rightarrow> string) \<Rightarrow> (int \<Rightarrow> nat list) mysql" where
  "number_server fmt = \<lparr>real_connect = \<lambda>db s. (True, s),
     query = \<lambda>c s. (False, \<lambda>i. if \<exists>t. delete_text i t = Some c then filter (\<lambda>x. delete_text i x \<noteq> Some c) (s i)
       else if \<exists>t p. insert_text fmt i t p = Some c then s i @ [THE t. \<exists>p. insert_text fmt i t p = Some c] else s i),
     store_result = \<lambda>s. None\<rparr>"

lemma number_server_law: "server_law fmt (number_server fmt) (\<lambda>s. s)" "deletes (number_server fmt)"
proof -
  have del: "snd (query (number_server fmt) c s) = s(i := filter (\<lambda>x. x \<noteq> t) (s i))" if c: "delete_text i t = Some c" for i t c s
  proof
    fix j
    have other: "(\<exists>u. delete_text j u = Some c) \<longleftrightarrow> j = i" using c delete_text_inject [of i t c j] by metis
    have "delete_text i x = Some c \<longleftrightarrow> x = t" for x using c delete_text_inject [of i t c i x] by metis
    moreover have "\<not> (\<exists>u p. insert_text fmt j u p = Some c)" using delete_not_insert [OF c] by blast
    ultimately show "snd (query (number_server fmt) c s) j = (s(i := filter (\<lambda>x. x \<noteq> t) (s i))) j"
      using other by (auto simp: number_server_def)
  qed
  have ins: "snd (query (number_server fmt) c s) = s(i := s i @ [t])" if c: "insert_text fmt i t p = Some c" for i t p c s
  proof
    fix j
    have "\<not> (\<exists>u. delete_text j u = Some c)" using c delete_not_insert by blast
    moreover have "(\<exists>u q. insert_text fmt j u q = Some c) \<longleftrightarrow> j = i" using c insert_text_inject [of fmt i t p c j] by metis
    moreover have "(THE u. \<exists>q. insert_text fmt i u q = Some c) = t"
      using c insert_text_inject [of fmt i t p c i] by (intro the_equality) blast+
    ultimately show "snd (query (number_server fmt) c s) j = (s(i := s i @ [t])) j" by (auto simp: number_server_def)
  qed
  have "\<not> fst (query (number_server fmt) c s)" "snd (real_connect (number_server fmt) db s) = s" for c s db
    by (simp_all add: number_server_def)
  then show "server_law fmt (number_server fmt) (\<lambda>s. s)" "deletes (number_server fmt)"
    using del ins by (simp_all add: server_law_def deletes_def)
qed

definition sample_port :: port_stats where
  "sample_port = \<lparr>ps_dev = \<lparr>dev_name = ''eth0'', dev_mac = replicate 7 0, dev_ip = [], dev_broad_addr = [], dev_subnet_mask = [],
       mtu = 1500,
       dev_adapter = \<lparr>supported = 0, advertising = 0, speed = 0, duplex = 0, ad_port = 0, transceiver = 0, autoneg = 0\<rparr>\<rparr>,
     ps_port_type = 1, ps_link = 1, bandwidth = 0,
     packets = \<lparr>tx_packets = 0, rx_packets = 0, total_packets = 0, tx_bytes = 0, rx_bytes = 0, total_bytes = 0\<rparr>,
     ps_rates = \<lparr>total_packets_ps = 0, tx_packets_ps = 0, rx_packets_ps = 0, total_bytes_ps = 0, tx_bytes_ps = 0, rx_bytes_ps = 0\<rparr>,
     dests = [([], 0, \<lparr>rtt_min = 0, rtt_max = 0, rtt_avg = 0, rtt_mdev = 0\<rparr>)]\<rparr>"

theorem tables_hold_an_hour_witness:
  "\<exists>st. insert_run (\<lambda>_. ''0'') (number_server (\<lambda>_. ''0'')) ''pc'' [(1, sample_port), (2, sample_port)] (359, \<lambda>_. []) = Some st
    \<and> length (snd st 1) \<le> 360"
proof -
  let ?f = "\<lambda>_ :: rat. ''0''"
  have texts: "delete_text 1 359 \<noteq> None" "insert_text ?f 1 359 sample_port \<noteq> None" "delete_text 2 0 \<noteq> None"
    "insert_text ?f 2 0 sample_port \<noteq> None" "database ''pc'' \<noteq> None" by code_simp+
  have m: "\<not> MAX_REC \<le> 359" "MAX_REC \<le> 360" by (simp_all add: MAX_REC_def INTERVAL_def)
  have srv: "real_connect (number_server ?f) db s = (True, s)" "fst (query (number_server ?f) c s) = False" for db s c
    by (simp_all add: number_server_def)
  have "\<exists>st. insert_run ?f (number_server ?f) ''pc'' [(1, sample_port), (2, sample_port)] (359, \<lambda>_. []) = Some st"
    using texts m srv by (auto simp: mysql_insert_port_stats_def Let_def split_beta)
  then obtain st where st: "insert_run ?f (number_server ?f) ''pc'' [(1, sample_port), (2, sample_port)] (359, \<lambda>_. []) = Some st" by blast
  have "last_hour (\<lambda>s. s) (359 :: nat, \<lambda>_ :: int. [])" by (simp add: last_hour_def)
  from tables_hold_an_hour [OF number_server_law this st, of 1] st show ?thesis by blast
qed

end
