(* ===== verification/Station_Report.thy ===== *)
theory Station_Report
  imports Stats_Store As_Config
begin

text \<open>
  What a monitoring station finds out about its ports when it starts, and the files it writes about them: \<open>get_host_info.c\<close>
  (\<open>get_host_info\<close>, \<open>get_port_index\<close>), \<open>get_adapter.c\<close> and the functions of \<open>dump.c\<close>.

  The answers of the kernel to each \<open>ioctl\<close> are arguments, \<open>None\<close> for a call that fails. A file is the text that is printed
  to it; a file that cannot be opened is a null pointer, to which printing is undefined. The texts of floating point
  numbers are the argument \<open>fmt\<close>.
\<close>

section \<open>The adapter\<close>

text \<open>\<open>struct ethtool_cmd\<close>, as the driver fills it.\<close>

record ethtool_cmd =
  et_supported :: u32
  et_advertising :: u32
  et_speed :: u16
  et_duplex :: u8
  et_port :: u8
  et_transceiver :: u8
  et_autoneg :: u8

definition adapter_duplex :: "ethtool_cmd \<Rightarrow> int" where
  "adapter_duplex ep = (if et_duplex ep = 0 then 1 else if et_duplex ep = 1 then 2 else 0)"

definition adapter_port :: "ethtool_cmd \<Rightarrow> int" where
  "adapter_port ep = (if et_port ep = 0 then 1 else if et_port ep = 1 then 2 else if et_port ep = 4 then 3
     else if et_port ep = 2 then 4 else if et_port ep = 3 then 5 else 0)"

definition adapter_transceiver :: "ethtool_cmd \<Rightarrow> int" where
  "adapter_transceiver ep = (if et_transceiver ep = 0 then 1 else if et_transceiver ep = 1 then 2 else 0)"

definition dump_ecmd :: "ethtool_cmd \<Rightarrow> adapter" where
  "dump_ecmd ep = \<lparr>supported = et_supported ep, advertising = et_advertising ep, speed = et_speed ep,
     duplex = adapter_duplex ep, ad_port = adapter_port ep, transceiver = adapter_transceiver ep, autoneg = et_autoneg ep\<rparr>"

text \<open>\<open>do_gset\<close>: the result, the adapter (what the stack holds if the driver does not answer) and the static \<open>link_detect\<close>.\<close>

definition do_gset :: "ethtool_cmd option \<Rightarrow> u32 option \<Rightarrow> adapter \<Rightarrow> int \<Rightarrow> int \<times> adapter \<times> int" where
  "do_gset gset glink junk ld =
     (let adapter = (case gset of Some ep \<Rightarrow> dump_ecmd ep | None \<Rightarrow> junk);
          ld = (case glink of Some d \<Rightarrow> if d \<noteq> 0 then 1 else 0 | None \<Rightarrow> ld)
      in (if gset = None \<and> glink = None then 75 else 0, adapter, ld))"

definition get_adapter :: "ethtool_cmd option \<Rightarrow> u32 option \<Rightarrow> adapter \<Rightarrow> int \<times> port_stats \<Rightarrow> int \<times> int \<times> port_stats" where
  "get_adapter gset glink junk st = (case st of (ld, p) \<Rightarrow>
     (case do_gset gset glink junk ld of (ret, adapter, ld) \<Rightarrow>
       (ret, ld, p\<lparr>ps_dev := (ps_dev p)\<lparr>dev_adapter := adapter\<rparr>, ps_link := ld\<rparr>)))"

section \<open>The report of an adapter\<close>

abbreviation TAB :: char where "TAB \<equiv> CHR 0x09"

definition opt_text :: "bool \<Rightarrow> string \<Rightarrow> string" where
  "opt_text c s = (if c then s else [])"

definition gap :: string where
  "gap = NL # TAB # replicate 24 (CHR '' '')"

text \<open>The modes of a mask. Only the report of what is supported lacks the blank behind the last mode.\<close>

definition link_modes :: "string \<Rightarrow> (nat \<Rightarrow> bool) \<Rightarrow> string" where
  "link_modes blank b =
     opt_text (b 0) ''10baseT/Half '' @ opt_text (b 1) ''10baseT/Full ''
     @ opt_text ((b 0 \<or> b 1) \<and> (b 2 \<or> b 3)) gap
     @ opt_text (b 2) ''100baseT/Half '' @ opt_text (b 3) ''100baseT/Full ''
     @ opt_text ((b 0 \<or> b 1 \<or> b 2 \<or> b 3) \<and> (b 4 \<or> b 5)) gap
     @ opt_text (b 4) ''1000baseT/Half '' @ opt_text (b 5) ''1000baseT/Full ''
     @ opt_text (b 12) (NL # ''10000baseT/Full'' @ blank)
     @ opt_text (\<not> (b 0 \<or> b 1 \<or> b 2 \<or> b 3 \<or> b 4 \<or> b 5 \<or> b 12)) ''Not reported''"

definition dump_supported :: "adapter \<Rightarrow> string" where
  "dump_supported ep = (let b = bit (supported ep) in
     TAB # ''Supported ports: [ '' @ opt_text (b 7) ''TP '' @ opt_text (b 8) ''AUI '' @ opt_text (b 11) ''BNC ''
     @ opt_text (b 9) ''MII '' @ opt_text (b 10) ''FIBRE '' @ '']'' @ [NL]
     @ TAB # ''Supported link modes:   '' @ link_modes [] b @ [NL]
     @ TAB # ''Supports auto-negotiation: '' @ (if b 6 then ''Yes'' else ''No'') @ [NL])"

definition dump_advertised :: "adapter \<Rightarrow> string" where
  "dump_advertised ep = (let b = bit (advertising ep) in
     TAB # ''Advertised link modes:  '' @ link_modes '' '' b @ [NL]
     @ TAB # ''Advertised auto-negotiation: '' @ (if b 6 then ''Yes'' else ''No'') @ [NL])"

definition unknown :: "int \<Rightarrow> string" where
  "unknown n = ''Unknown! ('' @ dec n @ '')''"

definition dump_speed :: "adapter \<Rightarrow> string \<times> int" where
  "dump_speed ep = (let s = uint (speed ep);
       (t, ret) = (if s = 10 then (''10Mb/s'', 10) else if s = 100 then (''100Mb/s'', 100) else if s = 1000 then (''1000Mb/s'', 1000)
         else if s = 10000 then (''10000Mb/s'', 10000) else (unknown s, 0))
     in (TAB # ''Speed: '' @ t @ [NL], ret))"

definition dump_duplex :: "adapter \<Rightarrow> string" where
  "dump_duplex ep = TAB # ''Duplex: ''
     @ (if duplex ep = 1 then ''Half'' else if duplex ep = 2 then ''Full'' else unknown (duplex ep)) @ [NL]"

definition dump_port :: "adapter \<Rightarrow> string" where
  "dump_port ep = TAB # ''Port: ''
     @ (if ad_port ep = 1 then ''Twisted Pair'' else if ad_port ep = 2 then ''AUI'' else if ad_port ep = 3 then ''BNC''
        else if ad_port ep = 4 then ''MII'' else if ad_port ep = 5 then ''FIBRE'' else unknown (ad_port ep)) @ [NL]"

definition dump_transceiver :: "adapter \<Rightarrow> string" where
  "dump_transceiver ep = TAB # ''Transceiver: ''
     @ (if transceiver ep = 1 then ''internal'' else if transceiver ep = 2 then ''external'' else ''Unknown!'') @ [NL]"

definition dump_autoneg :: "adapter \<Rightarrow> string" where
  "dump_autoneg ep = TAB # ''Auto-negotiation: '' @ (if autoneg ep = 0 then ''off'' else ''on'') @ [NL]"

definition dump_adapter :: "adapter \<Rightarrow> string" where
  "dump_adapter a = dump_supported a @ dump_advertised a @ fst (dump_speed a) @ dump_duplex a @ dump_port a
     @ dump_transceiver a @ dump_autoneg a"

section \<open>The other reports\<close>

definition line :: "string \<Rightarrow> string \<Rightarrow> string" where
  "line label s = label @ '' : '' @ s @ [NL]"

definition rule_off :: "nat \<Rightarrow> string" where
  "rule_off n = replicate n (CHR ''-'') @ [NL, NL]"

definition dump_host_info :: "host_info \<Rightarrow> string" where
  "dump_host_info h = line ''host name'' (hi_host_name h) @ line ''sysname'' (sysname h) @ line ''nodename'' (nodename h)
     @ line ''release'' (release_ver h) @ line ''version'' (version h) @ line ''machin'' (machine h)
     @ line ''domainname'' (domain_name h) @ line ''port amount'' (dec (port_count h)) @ [NL, NL] @ rule_off 70"

definition mac_line :: "bytes \<Rightarrow> string" where
  "mac_line m = hex2 (m ! 0) @ '':'' @ hex2 (m ! 1) @ '':'' @ hex2 (m ! 2) @ '':'' @ hex2 (m ! 3) @ '':'' @ hex2 (m ! 4)
     @ '':'' @ hex2 (m ! 5)"

definition dump_dev_info :: "dev_info \<Rightarrow> string" where
  "dump_dev_info d = line ''dev_name'' (dev_name d) @ line ''dev_mac'' (mac_line (dev_mac d)) @ line ''dev_ip'' (dev_ip d)
     @ line ''dev_broad_addr'' (dev_broad_addr d) @ line ''dev_subnet_mask'' (dev_subnet_mask d) @ line ''MTU'' (dec (mtu d))
     @ dump_adapter (dev_adapter d) @ [NL, NL] @ rule_off 70"

definition dump_link_stats :: "(rat \<Rightarrow> string) \<Rightarrow> (string \<times> rat \<times> rtt_stats) list \<Rightarrow> string" where
  "dump_link_stats fmt ds = concat (map (\<lambda>(ip, loss, r). line ''dest ip'' ip @ [NL, NL] @ line ''packet loss'' (fmt loss)
     @ line ''avg rtt'' (fmt (rtt_avg r)) @ line ''min rtt'' (fmt (rtt_min r)) @ line ''max rtt'' (fmt (rtt_max r))
     @ line ''mdev rtt'' (fmt (rtt_mdev r)) @ [NL] @ rule_off 61) ds)"

definition dump_get_pack :: "pack_count \<Rightarrow> string" where
  "dump_get_pack c = ''get packets count'' @ [NL, NL] @ line ''total packets'' (dec (total_packets c))
     @ line ''packets send'' (dec (tx_packets c)) @ line ''packets recieve'' (dec (rx_packets c))
     @ line ''total bytes'' (dec (total_bytes c)) @ line ''bytes send'' (dec (tx_bytes c)) @ line ''bytes receive'' (dec (rx_bytes c))"

definition dump_data_pack :: "pack_count \<Rightarrow> string" where
  "dump_data_pack c = ''data packets count'' @ [NL, NL] @ line ''total packets'' (dec (total_packets c))
     @ line ''packets send'' (dec (tx_packets c)) @ line ''packets receive'' (dec (rx_packets c))
     @ line ''total bytes'' (dec (total_bytes c)) @ line ''bytes send'' (dec (tx_bytes c)) @ line ''bytes receive'' (dec (rx_bytes c))"

text \<open>Of the counters only the number of bytes is left uncommented.\<close>

definition dump_stats_info :: "pack_count \<Rightarrow> string" where
  "dump_stats_info c = dec (total_bytes c) @ [NL]"

definition dump_efficiency :: "(rat \<Rightarrow> string) \<Rightarrow> rat \<Rightarrow> string" where
  "dump_efficiency fmt w = ''the efficiency of the bandwidth is : '' @ fmt w @ '' '' @ [NL]"

definition dump_port_info :: "port_stats \<Rightarrow> string" where
  "dump_port_info p = dump_stats_info (packets p)"

section \<open>The ports of the host\<close>

text \<open>\<open>get_host_info\<close>, given what \<open>uname\<close> fills in; the number of ports is left as it was.\<close>

definition get_host_info :: "host_info option \<Rightarrow> string \<Rightarrow> host_info \<Rightarrow> (int \<times> host_info) option" where
  "get_host_info uname name h = do {
     guard (length name < 32);
     let h = h\<lparr>hi_host_name := name\<rparr>;
     (case uname of
        None \<Rightarrow> Some (-1, h)
      | Some u \<Rightarrow> Some (0, u\<lparr>hi_host_name := name, port_count := port_count h\<rparr>)) }"

text \<open>What the kernel says of an interface, and whether the file of the port can be written.\<close>

record interface =
  if_mac :: "bytes option"
  if_name :: string
  if_ip :: "string option"
  if_broad :: "string option"
  if_mask :: "string option"
  if_mtu :: "int option"
  if_gset :: "ethtool_cmd option"
  if_glink :: "u32 option"
  if_writable :: bool

text \<open>One interface: skipped, refused or found, with the file that is written. \<open>p\<close> is the element of \<open>port_info\<close> before.\<close>

datatype scan = Skipped | Refused | Found int port_stats "string \<times> string"

definition scan_interface :: "adapter \<Rightarrow> string \<Rightarrow> interface \<Rightarrow> int \<Rightarrow> port_stats \<Rightarrow> scan option" where
  "scan_interface junk dir f ld p =
     (case if_mac f of
        None \<Rightarrow> Some Refused
      | Some mac \<Rightarrow>
          if mac_line mac = ''00:00:00:00:00:00'' then Some Skipped
          else (case (if_ip f, if_broad f, if_mask f, if_mtu f) of
            (Some ip, Some broad, Some netmask, Some n) \<Rightarrow>
              (case get_adapter (if_gset f) (if_glink f) junk (ld, p\<lparr>ps_dev := (ps_dev p)\<lparr>dev_name := if_name f,
                  dev_mac := take 6 mac @ drop 6 (dev_mac (ps_dev p)), dev_ip := ip, dev_broad_addr := broad,
                  dev_subnet_mask := netmask, mtu := n\<rparr>\<rparr>) of (_, ld, p) \<Rightarrow> do {
                guard (if_writable f);
                Some (Found ld p (take 199 (dir @ ''/log/port_'' @ if_name f), dump_dev_info (ps_dev p))) })
          | _ \<Rightarrow> Some Refused))"

text \<open>The loop, from the last interface to the first. The result is -1 or the ports and files; \<open>ps\<close> is the rest of the array.\<close>

fun scan_loop :: "adapter \<Rightarrow> string \<Rightarrow> interface list \<Rightarrow> int \<Rightarrow> port_stats list \<Rightarrow>
    (port_stats list \<times> (string \<times> string) list) option option" where
  "scan_loop junk dir [] ld ps = Some (Some ([], []))"
| "scan_loop junk dir (f # fs) ld ps = (case ps of [] \<Rightarrow> None | p # ps' \<Rightarrow> do {
     r \<leftarrow> scan_interface junk dir f ld p;
     (case r of
        Skipped \<Rightarrow> scan_loop junk dir fs ld ps
      | Refused \<Rightarrow> Some None
      | Found ld p file \<Rightarrow> do {
          r \<leftarrow> scan_loop junk dir fs ld ps';
          Some (map_option (\<lambda>(qs, files). (p # qs, file # files)) r) }) })"

text \<open>\<open>ifc\<close> is the list of interfaces; without a socket or a list the result is -1. On success the number of ports is set.\<close>

definition get_port_index :: "bool \<Rightarrow> interface list option \<Rightarrow> adapter \<Rightarrow> string \<Rightarrow> int \<Rightarrow> port_stats list \<Rightarrow> host_info \<Rightarrow>
    (int \<times> host_info \<times> (port_stats list \<times> (string \<times> string) list) option) option" where
  "get_port_index sock ifc junk dir ld ps h =
     (if \<not> sock then Some (-1, h, None)
      else (case ifc of
        None \<Rightarrow> Some (-1, h, None)
      | Some fs \<Rightarrow> do {
          guard (length fs \<le> 64);
          r \<leftarrow> scan_loop junk dir (rev fs) ld ps;
          (case r of
             None \<Rightarrow> Some (-1, h, None)
           | Some (qs, files) \<Rightarrow> Some (0, h\<lparr>port_count := int (length qs)\<rparr>, Some (qs, files))) }))"

section \<open>What a reader of the reports learns\<close>

definition blank_out :: "string \<Rightarrow> string" where
  "blank_out s = map (\<lambda>c. if c = NL \<or> c = TAB then CHR '' '' else c) s"

definition words_of :: "string \<Rightarrow> string list" where
  "words_of s = tokens (CHR '' '') (blank_out s)"

definition mode_names :: "(nat \<times> string) list" where
  "mode_names = [(0, ''10baseT/Half''), (1, ''10baseT/Full''), (2, ''100baseT/Half''), (3, ''100baseT/Full''),
     (4, ''1000baseT/Half''), (5, ''1000baseT/Full''), (12, ''10000baseT/Full'')]"

definition modes_of :: "(nat \<Rightarrow> bool) \<Rightarrow> string list" where
  "modes_of b = map snd (filter (\<lambda>(i, _). b i) mode_names)"

definition shown_modes :: "(nat \<Rightarrow> bool) \<Rightarrow> string list" where
  "shown_modes b = (if modes_of b = [] then [''Not'', ''reported''] else modes_of b)"

text \<open>A text of words, each with its blanks.\<close>

lemma tokens_blank: "tokens (CHR '' '') (CHR '' '' # s) = tokens (CHR '' '') s"
  by (simp add: tokens.simps [of "CHR '' ''" "CHR '' '' # s"] tokens.simps [of "CHR '' ''" s])

lemma tokens_blanks: "tokens (CHR '' '') (replicate n (CHR '' '') @ s) = tokens (CHR '' '') s"
  by (induction n) (simp_all add: tokens_blank)

lemma words_blank [simp]:
  "words_of (CHR '' '' # s) = words_of s" "words_of (NL # s) = words_of s" "words_of (TAB # s) = words_of s"
  "words_of (gap @ s) = words_of s" "words_of [] = []"
  by (simp_all add: words_of_def blank_out_def tokens_blank gap_def tokens_blanks tokens.simps [of "CHR '' ''" "[]"])

definition one_word :: "string \<Rightarrow> bool" where
  "one_word w \<longleftrightarrow> w \<noteq> [] \<and> (\<forall>c \<in> set w. c \<noteq> CHR '' '' \<and> c \<noteq> NL \<and> c \<noteq> TAB)"

lemma words_word:
  assumes "one_word w"
  shows "words_of (w @ CHR '' '' # s) = w # words_of s" and "words_of (w @ NL # s) = w # words_of s" and "words_of w = [w]"
proof -
  have "map (\<lambda>c. if c = NL \<or> c = TAB then CHR '' '' else c) w = w" using assms by (intro map_idI) (auto simp: one_word_def)
  then have b: "blank_out (w @ t) = w @ blank_out t" for t unfolding blank_out_def map_append by (rule arg_cong)
  have w: "CHR '' '' \<notin> set w" "w \<noteq> []" using assms by (auto simp: one_word_def)
  have c: "blank_out (CHR '' '' # s) = CHR '' '' # blank_out s" "blank_out (NL # s) = CHR '' '' # blank_out s" "blank_out [] = []"
    by (simp_all add: blank_out_def)
  show "words_of (w @ CHR '' '' # s) = w # words_of s" "words_of (w @ NL # s) = w # words_of s"
    unfolding words_of_def b c by (rule tokens_word(2) [OF w])+
  show "words_of w = [w]" using tokens_word(1) [OF w] b [of "[]"] unfolding words_of_def c by simp
qed

lemma words_opt:
  assumes "one_word w"
  shows "words_of (opt_text c (w @ '' '') @ s) = (if c then [w] else []) @ words_of s"
  using words_word(1) [OF assms, of s] by (simp add: opt_text_def)

lemma words_gap: "words_of (opt_text c gap @ s) = words_of s"
  by (simp add: opt_text_def)

lemma words_link_modes:
  assumes "u \<in> {[], '' ''}"
  shows "words_of (link_modes u b @ NL # s) = shown_modes b @ words_of s"
proof -
  have modes: "one_word ''10baseT/Half''" "one_word ''10baseT/Full''" "one_word ''100baseT/Half''" "one_word ''100baseT/Full''"
    "one_word ''1000baseT/Half''" "one_word ''1000baseT/Full''" "one_word ''10000baseT/Full''" "one_word ''Not''" "one_word ''reported''"
    by (simp_all add: one_word_def)
  have fast: "words_of (opt_text c (NL # ''10000baseT/Full'' @ u) @ NL # s) = (if c then [''10000baseT/Full''] else []) @ words_of s" for c s
    using assms words_word(1,2) [OF modes(7)] by (auto simp: opt_text_def)
  have fast2: "words_of (opt_text c (NL # ''10000baseT/Full'' @ u) @ opt_text (\<not> d) ''Not reported'' @ NL # s)
      = (if c then [''10000baseT/Full''] else []) @ (if d then [] else [''Not'', ''reported'']) @ words_of s" if "c \<longrightarrow> d" for c d s
  proof (cases d)
    case True
    then show ?thesis using fast [of c s] by (simp add: opt_text_def)
  next
    case False
    with that have "\<not> c" by simp
    then show ?thesis using False words_word(1) [OF modes(8), of "''reported'' @ NL # s"] words_word(2) [OF modes(9), of s]
      by (simp add: opt_text_def)
  qed
  define d where "d \<longleftrightarrow> b 0 \<or> b 1 \<or> b 2 \<or> b 3 \<or> b 4 \<or> b 5 \<or> b 12"
  have w: "words_of (opt_text c ''10baseT/Half '' @ s) = (if c then [''10baseT/Half''] else []) @ words_of s"
    "words_of (opt_text c ''10baseT/Full '' @ s) = (if c then [''10baseT/Full''] else []) @ words_of s"
    "words_of (opt_text c ''100baseT/Half '' @ s) = (if c then [''100baseT/Half''] else []) @ words_of s"
    "words_of (opt_text c ''100baseT/Full '' @ s) = (if c then [''100baseT/Full''] else []) @ words_of s"
    "words_of (opt_text c ''1000baseT/Half '' @ s) = (if c then [''1000baseT/Half''] else []) @ words_of s"
    "words_of (opt_text c ''1000baseT/Full '' @ s) = (if c then [''1000baseT/Full''] else []) @ words_of s" for c s
    using words_opt [OF modes(1), of c s] words_opt [OF modes(2), of c s] words_opt [OF modes(3), of c s]
      words_opt [OF modes(4), of c s] words_opt [OF modes(5), of c s] words_opt [OF modes(6), of c s] by simp_all
  have end_: "words_of (opt_text (b 12) (NL # ''10000baseT/Full'' @ u) @ opt_text (\<not> d) ''Not reported'' @ NL # s)
      = (if b 12 then [''10000baseT/Full''] else []) @ (if d then [] else [''Not'', ''reported'']) @ words_of s"
    by (rule fast2) (simp add: d_def)
  have "words_of (link_modes u b @ NL # s)
      = (if b 0 then [''10baseT/Half''] else []) @ (if b 1 then [''10baseT/Full''] else [])
      @ (if b 2 then [''100baseT/Half''] else []) @ (if b 3 then [''100baseT/Full''] else [])
      @ (if b 4 then [''1000baseT/Half''] else []) @ (if b 5 then [''1000baseT/Full''] else [])
      @ (if b 12 then [''10000baseT/Full''] else []) @ (if d then [] else [''Not'', ''reported'']) @ words_of s"
    unfolding link_modes_def d_def [symmetric] append_assoc w words_gap end_ by (rule refl)
  also have "\<dots> = shown_modes b @ words_of s"
    by (auto simp: shown_modes_def modes_of_def mode_names_def d_def)
  finally show ?thesis .
qed

lemma words_words:
  "\<forall>w \<in> set ws. one_word w \<Longrightarrow> words_of (concat (map (\<lambda>w. w @ '' '') ws) @ s) = ws @ words_of s"
proof (induction ws)
  case (Cons w ws)
  then show ?case using words_word(1) [of w "concat (map (\<lambda>w. w @ '' '') ws) @ s"] by simp
qed simp

lemma labels:
  "words_of (''Supported ports: [ '' @ s) = [''Supported'', ''ports:'', ''[''] @ words_of s"
  "words_of (''Supported link modes:   '' @ s) = [''Supported'', ''link'', ''modes:''] @ words_of s"
  "words_of (''Supports auto-negotiation: '' @ s) = [''Supports'', ''auto-negotiation:''] @ words_of s"
  "words_of (''Advertised link modes:  '' @ s) = [''Advertised'', ''link'', ''modes:''] @ words_of s"
  "words_of (''Advertised auto-negotiation: '' @ s) = [''Advertised'', ''auto-negotiation:''] @ words_of s"
  "words_of (''Speed: '' @ s) = [''Speed:''] @ words_of s" "words_of (''Duplex: '' @ s) = [''Duplex:''] @ words_of s"
  "words_of (''Port: '' @ s) = [''Port:''] @ words_of s" "words_of (''Transceiver: '' @ s) = [''Transceiver:''] @ words_of s"
  "words_of (''Auto-negotiation: '' @ s) = [''Auto-negotiation:''] @ words_of s"
  using words_words [of "[''Supported'', ''ports:'', ''['']" s] words_words [of "[''Supported'', ''link'', ''modes:'']" "''  '' @ s"]
    words_words [of "[''Supports'', ''auto-negotiation:'']" s] words_words [of "[''Advertised'', ''link'', ''modes:'']" "'' '' @ s"]
    words_words [of "[''Advertised'', ''auto-negotiation:'']" s] words_words [of "[''Speed:'']" s] words_words [of "[''Duplex:'']" s]
    words_words [of "[''Port:'']" s] words_words [of "[''Transceiver:'']" s] words_words [of "[''Auto-negotiation:'']" s]
  by (simp_all add: one_word_def)

lemma words_line: "\<forall>w \<in> set ws. one_word w \<Longrightarrow> one_word v \<Longrightarrow>
    words_of (concat (map (\<lambda>w. w @ '' '') ws) @ v @ NL # s) = ws @ v # words_of s"
  by (simp only: words_words words_word)

lemma dec_word: "one_word (CHR ''('' # dec n @ '')'')"
  using dec_plain [of "CHR '' ''" n] dec_plain [of NL n] dec_plain [of TAB n]
  by (auto simp: one_word_def digit_val_def code_def)

definition unknown_words :: "int \<Rightarrow> string list" where
  "unknown_words n = [''Unknown!'', CHR ''('' # dec n @ '')'']"

lemma words_unknown: "words_of (unknown n @ NL # s) = unknown_words n @ words_of s"
proof -
  have "unknown n @ NL # s = concat (map (\<lambda>w. w @ '' '') [''Unknown!'']) @ (CHR ''('' # dec n @ '')'') @ NL # s"
    by (simp add: unknown_def)
  then show ?thesis using words_line [of "[''Unknown!'']" "CHR ''('' # dec n @ '')''" s] dec_word
    by (simp add: unknown_words_def one_word_def)
qed

text \<open>The words of an answer of the driver.\<close>

definition connector :: "u8 \<Rightarrow> string list" where
  "connector c = (if c = 0 then [''Twisted'', ''Pair''] else if c = 1 then [''AUI''] else if c = 2 then [''MII'']
     else if c = 3 then [''FIBRE''] else if c = 4 then [''BNC''] else unknown_words 0)"

definition speed_words :: "u16 \<Rightarrow> string list" where
  "speed_words v = (if uint v = 10 then [''10Mb/s''] else if uint v = 100 then [''100Mb/s'']
     else if uint v = 1000 then [''1000Mb/s''] else if uint v = 10000 then [''10000Mb/s''] else unknown_words (uint v))"

definition port_types :: "(nat \<Rightarrow> bool) \<Rightarrow> string list" where
  "port_types b = map snd (filter (\<lambda>(i, _). b i) [(7, ''TP''), (8, ''AUI''), (11, ''BNC''), (9, ''MII''), (10, ''FIBRE'')])"

lemma words_supported:
  "words_of (dump_supported a @ s) = [''Supported'', ''ports:'', ''[''] @ port_types (bit (supported a)) @ ['']'', ''Supported'', ''link'', ''modes:'']
     @ shown_modes (bit (supported a)) @ [''Supports'', ''auto-negotiation:'', if bit (supported a) 6 then ''Yes'' else ''No''] @ words_of s"
proof -
  let ?b = "bit (supported a)"
  have p: "one_word ''TP''" "one_word ''AUI''" "one_word ''BNC''" "one_word ''MII''" "one_word ''FIBRE''" "one_word '']''"
    "one_word ''Yes''" "one_word ''No''" by (simp_all add: one_word_def)
  have w: "words_of (opt_text c ''TP '' @ s) = (if c then [''TP''] else []) @ words_of s"
    "words_of (opt_text c ''AUI '' @ s) = (if c then [''AUI''] else []) @ words_of s"
    "words_of (opt_text c ''BNC '' @ s) = (if c then [''BNC''] else []) @ words_of s"
    "words_of (opt_text c ''MII '' @ s) = (if c then [''MII''] else []) @ words_of s"
    "words_of (opt_text c ''FIBRE '' @ s) = (if c then [''FIBRE''] else []) @ words_of s" for c s
    using words_opt [OF p(1), of c s] words_opt [OF p(2), of c s] words_opt [OF p(3), of c s]
      words_opt [OF p(4), of c s] words_opt [OF p(5), of c s] by simp_all
  have close: "words_of ('']'' @ [NL] @ s) = ['']''] @ words_of s" for s using words_word(2) [OF p(6), of s] by simp
  have yes: "words_of ((if c then ''Yes'' else ''No'') @ [NL] @ s) = [if c then ''Yes'' else ''No''] @ words_of s" for c s
    using words_word(2) [OF p(7), of s] words_word(2) [OF p(8), of s] by simp
  have modes: "words_of (link_modes [] b @ [NL] @ s) = shown_modes b @ words_of s" for b s
    using words_link_modes [of "[]" b s] by simp
  have ports: "port_types ?b = (if ?b 7 then [''TP''] else []) @ (if ?b 8 then [''AUI''] else []) @ (if ?b 11 then [''BNC''] else [])
      @ (if ?b 9 then [''MII''] else []) @ (if ?b 10 then [''FIBRE''] else [])"
    by (simp add: port_types_def)
  have e1: "dump_supported a @ s = (TAB # ''Supported ports: [ '') @ opt_text (?b 7) ''TP '' @ opt_text (?b 8) ''AUI '' @ opt_text (?b 11) ''BNC ''
     @ opt_text (?b 9) ''MII '' @ opt_text (?b 10) ''FIBRE '' @ '']'' @ [NL]
     @ (TAB # ''Supported link modes:   '') @ link_modes [] ?b @ [NL]
     @ (TAB # ''Supports auto-negotiation: '') @ (if ?b 6 then ''Yes'' else ''No'') @ [NL] @ s"
    by (simp only: dump_supported_def Let_def append_assoc append.simps)
  show ?thesis unfolding e1
    by (simp only: words_blank labels [unfolded append.simps] w close [unfolded append.simps] modes [unfolded append.simps] yes [unfolded append.simps] ports append_assoc append.simps)
qed

lemma words_advertised:
  "words_of (dump_advertised a @ s) = [''Advertised'', ''link'', ''modes:''] @ shown_modes (bit (advertising a))
     @ [''Advertised'', ''auto-negotiation:'', if bit (advertising a) 6 then ''Yes'' else ''No''] @ words_of s"
proof -
  let ?b = "bit (advertising a)"
  have p: "one_word ''Yes''" "one_word ''No''" by (simp_all add: one_word_def)
  have yes: "words_of ((if c then ''Yes'' else ''No'') @ [NL] @ s) = [if c then ''Yes'' else ''No''] @ words_of s" for c s
    using words_word(2) [OF p(1), of s] words_word(2) [OF p(2), of s] by simp
  have modes: "words_of (link_modes '' '' b @ [NL] @ s) = shown_modes b @ words_of s" for b s
    using words_link_modes [of "'' ''" b s] by simp
  have e1: "dump_advertised a @ s = (TAB # ''Advertised link modes:  '') @ link_modes '' '' ?b @ [NL]
     @ (TAB # ''Advertised auto-negotiation: '') @ (if ?b 6 then ''Yes'' else ''No'') @ [NL] @ s"
    by (simp only: dump_advertised_def Let_def append_assoc append.simps)
  show ?thesis unfolding e1
    by (simp only: words_blank labels [unfolded append.simps] modes [unfolded append.simps] yes [unfolded append.simps] append_assoc append.simps)
qed

lemma words_if:
  "words_of ((if c then t else u) @ s) = (if c then words_of (t @ s) else words_of (u @ s))"
  by simp

lemma words_unknown_line: "words_of (unknown n @ [NL] @ s) = unknown_words n @ words_of s"
  using words_unknown by simp

lemma words_of_values:
  "words_of (''10Mb/s'' @ [NL] @ s) = [''10Mb/s''] @ words_of s" "words_of (''100Mb/s'' @ [NL] @ s) = [''100Mb/s''] @ words_of s"
  "words_of (''1000Mb/s'' @ [NL] @ s) = [''1000Mb/s''] @ words_of s" "words_of (''10000Mb/s'' @ [NL] @ s) = [''10000Mb/s''] @ words_of s"
  "words_of (''Half'' @ [NL] @ s) = [''Half''] @ words_of s" "words_of (''Full'' @ [NL] @ s) = [''Full''] @ words_of s"
  "words_of (''Twisted Pair'' @ [NL] @ s) = [''Twisted'', ''Pair''] @ words_of s" "words_of (''AUI'' @ [NL] @ s) = [''AUI''] @ words_of s"
  "words_of (''BNC'' @ [NL] @ s) = [''BNC''] @ words_of s" "words_of (''MII'' @ [NL] @ s) = [''MII''] @ words_of s"
  "words_of (''FIBRE'' @ [NL] @ s) = [''FIBRE''] @ words_of s" "words_of (''internal'' @ [NL] @ s) = [''internal''] @ words_of s"
  "words_of (''external'' @ [NL] @ s) = [''external''] @ words_of s" "words_of (''Unknown!'' @ [NL] @ s) = [''Unknown!''] @ words_of s"
  "words_of (''off'' @ [NL] @ s) = [''off''] @ words_of s" "words_of (''on'' @ [NL] @ s) = [''on''] @ words_of s"
  using words_word(2) [of "''10Mb/s''" s] words_word(2) [of "''100Mb/s''" s] words_word(2) [of "''1000Mb/s''" s]
    words_word(2) [of "''10000Mb/s''" s] words_word(2) [of "''Half''" s] words_word(2) [of "''Full''" s]
    words_line [of "[''Twisted'']" "''Pair''" s] words_word(2) [of "''AUI''" s] words_word(2) [of "''BNC''" s]
    words_word(2) [of "''MII''" s] words_word(2) [of "''FIBRE''" s] words_word(2) [of "''internal''" s]
    words_word(2) [of "''external''" s] words_word(2) [of "''Unknown!''" s] words_word(2) [of "''off''" s] words_word(2) [of "''on''" s]
  by (simp_all add: one_word_def)

lemma words_speed: "words_of (fst (dump_speed a) @ s) = [''Speed:''] @ speed_words (speed a) @ words_of s"
proof -
  have e1: "fst (dump_speed a) @ s = TAB # ''Speed: '' @ (if uint (speed a) = 10 then ''10Mb/s'' else if uint (speed a) = 100
      then ''100Mb/s'' else if uint (speed a) = 1000 then ''1000Mb/s'' else if uint (speed a) = 10000 then ''10000Mb/s''
      else unknown (uint (speed a))) @ [NL] @ s"
    by (simp add: dump_speed_def)
  show ?thesis unfolding e1 words_blank labels words_if words_of_values words_unknown_line speed_words_def by simp
qed

lemma words_duplex:
  "words_of (dump_duplex a @ s) = [''Duplex:''] @ (if duplex a = 1 then [''Half''] else if duplex a = 2 then [''Full'']
     else unknown_words (duplex a)) @ words_of s"
proof -
  have e1: "dump_duplex a @ s = TAB # ''Duplex: '' @ (if duplex a = 1 then ''Half'' else if duplex a = 2 then ''Full''
     else unknown (duplex a)) @ [NL] @ s"
    unfolding dump_duplex_def append_assoc append_Cons append_Nil by (rule refl)
  show ?thesis unfolding e1 words_blank labels words_if words_of_values words_unknown_line by simp
qed

lemma words_port:
  "words_of (dump_port a @ s) = [''Port:''] @ (if ad_port a = 1 then [''Twisted'', ''Pair''] else if ad_port a = 2 then [''AUI'']
     else if ad_port a = 3 then [''BNC''] else if ad_port a = 4 then [''MII''] else if ad_port a = 5 then [''FIBRE'']
     else unknown_words (ad_port a)) @ words_of s"
proof -
  have e1: "dump_port a @ s = TAB # ''Port: '' @ (if ad_port a = 1 then ''Twisted Pair'' else if ad_port a = 2 then ''AUI''
     else if ad_port a = 3 then ''BNC'' else if ad_port a = 4 then ''MII'' else if ad_port a = 5 then ''FIBRE''
     else unknown (ad_port a)) @ [NL] @ s"
    unfolding dump_port_def append_assoc append_Cons append_Nil by (rule refl)
  show ?thesis unfolding e1 words_blank labels words_if words_of_values words_unknown_line by simp
qed

lemma words_transceiver:
  "words_of (dump_transceiver a @ s) = [''Transceiver:''] @ (if transceiver a = 1 then [''internal'']
     else if transceiver a = 2 then [''external''] else [''Unknown!'']) @ words_of s"
proof -
  have e1: "dump_transceiver a @ s = TAB # ''Transceiver: '' @ (if transceiver a = 1 then ''internal''
     else if transceiver a = 2 then ''external'' else ''Unknown!'') @ [NL] @ s"
    unfolding dump_transceiver_def append_assoc append_Cons append_Nil by (rule refl)
  show ?thesis unfolding e1 words_blank labels words_if words_of_values by simp
qed

lemma words_autoneg:
  "words_of (dump_autoneg a) = [''Auto-negotiation:'', if autoneg a = 0 then ''off'' else ''on'']"
proof -
  have e1: "dump_autoneg a = TAB # ''Auto-negotiation: '' @ (if autoneg a = 0 then ''off'' else ''on'') @ [NL] @ []"
    unfolding dump_autoneg_def append_Nil2 by (rule refl)
  show ?thesis unfolding e1 words_blank labels words_if words_of_values by simp
qed

lemma codes:
  "(if adapter_duplex ep = 1 then [''Half''] else if adapter_duplex ep = 2 then [''Full''] else unknown_words (adapter_duplex ep))
     = (if et_duplex ep = 0 then [''Half''] else if et_duplex ep = 1 then [''Full''] else unknown_words 0)"
  "(if adapter_port ep = 1 then [''Twisted'', ''Pair''] else if adapter_port ep = 2 then [''AUI'']
     else if adapter_port ep = 3 then [''BNC''] else if adapter_port ep = 4 then [''MII''] else if adapter_port ep = 5 then [''FIBRE'']
     else unknown_words (adapter_port ep)) = connector (et_port ep)"
  "(if adapter_transceiver ep = 1 then [''internal''] else if adapter_transceiver ep = 2 then [''external''] else [''Unknown!''])
     = (if et_transceiver ep = 0 then [''internal''] else if et_transceiver ep = 1 then [''external''] else [''Unknown!''])"
  by (simp_all add: adapter_duplex_def adapter_port_def adapter_transceiver_def connector_def)

text \<open>C23: The report of an adapter says what the driver said: read word by word, it has the connectors and the link modes of
  the two masks, each exactly when its bit is set (``Not reported'' when none is), and the speed, duplex, connector,
  transceiver and auto-negotiation of the driver's answer, through the two renumberings of the codes; a value the program has
  no name for is reported as unknown, for all but the speed without the value.\<close>

theorem adapter_report_truthful:
  "words_of (dump_adapter (dump_ecmd ep))
     = [''Supported'', ''ports:'', ''[''] @ port_types (bit (et_supported ep)) @ ['']'', ''Supported'', ''link'', ''modes:'']
     @ shown_modes (bit (et_supported ep)) @ [''Supports'', ''auto-negotiation:'', if bit (et_supported ep) 6 then ''Yes'' else ''No'']
     @ [''Advertised'', ''link'', ''modes:''] @ shown_modes (bit (et_advertising ep))
     @ [''Advertised'', ''auto-negotiation:'', if bit (et_advertising ep) 6 then ''Yes'' else ''No'']
     @ [''Speed:''] @ speed_words (et_speed ep)
     @ [''Duplex:''] @ (if et_duplex ep = 0 then [''Half''] else if et_duplex ep = 1 then [''Full''] else unknown_words 0)
     @ [''Port:''] @ connector (et_port ep)
     @ [''Transceiver:''] @ (if et_transceiver ep = 0 then [''internal''] else if et_transceiver ep = 1 then [''external'']
         else [''Unknown!''])
     @ [''Auto-negotiation:'', if et_autoneg ep = 0 then ''off'' else ''on'']"
proof -
  have f: "supported (dump_ecmd ep) = et_supported ep" "advertising (dump_ecmd ep) = et_advertising ep" "speed (dump_ecmd ep) = et_speed ep"
    "duplex (dump_ecmd ep) = adapter_duplex ep" "ad_port (dump_ecmd ep) = adapter_port ep"
    "transceiver (dump_ecmd ep) = adapter_transceiver ep" "autoneg (dump_ecmd ep) = et_autoneg ep"
    by (simp_all add: dump_ecmd_def)
  show ?thesis
    unfolding dump_adapter_def words_supported words_advertised words_speed words_duplex words_port words_transceiver words_autoneg
      f codes append_assoc append_Cons append_Nil by (rule refl)
qed

section \<open>The ports that are found\<close>

definition loopback :: "interface \<Rightarrow> bool" where
  "loopback f \<longleftrightarrow> (case if_mac f of None \<Rightarrow> False | Some m \<Rightarrow> mac_line m = ''00:00:00:00:00:00'')"

definition answered :: "interface \<Rightarrow> bool" where
  "answered f \<longleftrightarrow> if_ip f \<noteq> None \<and> if_broad f \<noteq> None \<and> if_mask f \<noteq> None \<and> if_mtu f \<noteq> None"

definition usable :: "interface \<Rightarrow> bool" where
  "usable f \<longleftrightarrow> (\<exists>m. if_mac f = Some m \<and> 6 \<le> length m) \<and> (loopback f \<or> answered f \<and> if_writable f)"

definition refused :: "interface \<Rightarrow> bool" where
  "refused f \<longleftrightarrow> if_mac f = None \<or> \<not> loopback f \<and> \<not> answered f"

text \<open>What the kernel said of the interface is in the element of the array.\<close>

definition port_of :: "interface \<Rightarrow> port_stats \<Rightarrow> bool" where
  "port_of f q \<longleftrightarrow> dev_name (ps_dev q) = if_name f \<and> map_option mac_line (if_mac f) = Some (mac_line (dev_mac (ps_dev q)))
     \<and> if_ip f = Some (dev_ip (ps_dev q)) \<and> if_broad f = Some (dev_broad_addr (ps_dev q))
     \<and> if_mask f = Some (dev_subnet_mask (ps_dev q)) \<and> if_mtu f = Some (mtu (ps_dev q))
     \<and> (case if_gset f of None \<Rightarrow> True | Some ep \<Rightarrow> dev_adapter (ps_dev q) = dump_ecmd ep)
     \<and> (case if_glink f of None \<Rightarrow> True | Some d \<Rightarrow> ps_link q = (if d \<noteq> 0 then 1 else 0))"

definition file_of :: "string \<Rightarrow> port_stats \<Rightarrow> string \<times> string" where
  "file_of dir q = (take 199 (dir @ ''/log/port_'' @ dev_name (ps_dev q)), dump_dev_info (ps_dev q))"

lemma mac_line_take: "6 \<le> length m \<Longrightarrow> mac_line (take 6 m @ d) = mac_line m"
  by (simp add: mac_line_def nth_append)

lemma scan_found:
  assumes "usable f" and "\<not> loopback f"
  shows "\<exists>ld' q. scan_interface junk dir f ld p = Some (Found ld' q (file_of dir q)) \<and> port_of f q"
proof -
  obtain m where m: "if_mac f = Some m" "6 \<le> length m" using assms(1) by (auto simp: usable_def)
  have l: "mac_line m \<noteq> ''00:00:00:00:00:00''" using assms(2) m(1) by (simp add: loopback_def)
  obtain a b c d where a: "if_ip f = Some a" "if_broad f = Some b" "if_mask f = Some c" "if_mtu f = Some d"
    using assms by (auto simp: usable_def answered_def)
  have w: "if_writable f" using assms by (simp add: usable_def)
  show ?thesis
    using l by (simp add: scan_interface_def m a w get_adapter_def split_beta file_of_def port_of_def mac_line_take do_gset_def Let_def
        split: option.split)
qed

lemma scan_skipped: "usable f \<Longrightarrow> loopback f \<Longrightarrow> scan_interface junk dir f ld p = Some Skipped"
  by (auto simp: usable_def loopback_def scan_interface_def)

lemma scan_refused: "refused f \<Longrightarrow> scan_interface junk dir f ld p = Some Refused"
  by (auto simp: refused_def loopback_def answered_def scan_interface_def split: option.splits)

lemma scan_loop_found:
  assumes "\<forall>f \<in> set fs. usable f" and "length fs \<le> length ps"
  shows "\<exists>qs. scan_loop junk dir fs ld ps = Some (Some (qs, map (file_of dir) qs))
    \<and> list_all2 port_of (filter (\<lambda>f. \<not> loopback f) fs) qs"
  using assms
proof (induction fs arbitrary: ld ps)
  case (Cons f fs)
  from Cons.prems(2) obtain p ps' where ps: "ps = p # ps'" "length fs \<le> length ps'" by (cases ps) auto
  have u: "usable f" and us: "\<forall>f \<in> set fs. usable f" using Cons.prems(1) by simp_all
  show ?case
  proof (cases "loopback f")
    case True
    then show ?thesis using Cons.IH [OF us, of ps ld] scan_skipped [OF u True] ps by simp
  next
    case False
    obtain ld' q where q: "scan_interface junk dir f ld p = Some (Found ld' q (file_of dir q))" "port_of f q"
      using scan_found [OF u False] by blast
    obtain qs where "scan_loop junk dir fs ld' ps' = Some (Some (qs, map (file_of dir) qs))"
      "list_all2 port_of (filter (\<lambda>f. \<not> loopback f) fs) qs" using Cons.IH [OF us ps(2)] by blast
    then show ?thesis using q False by (intro exI [of _ "q # qs"]) (simp add: ps(1))
  qed
qed simp

lemma scan_loop_refused:
  assumes "\<forall>f \<in> set fs. usable f" and "refused g" and "length (fs @ g # gs) \<le> length ps"
  shows "scan_loop junk dir (fs @ g # gs) ld ps = Some None"
  using assms
proof (induction fs arbitrary: ld ps)
  case Nil
  then show ?case by (cases ps) (simp_all add: scan_refused)
next
  case (Cons f fs)
  from Cons.prems(3) obtain p ps' where ps: "ps = p # ps'" "length (fs @ g # gs) \<le> length ps'" by (cases ps) auto
  have u: "usable f" and us: "\<forall>f \<in> set fs. usable f" using Cons.prems(1) by simp_all
  show ?case
  proof (cases "loopback f")
    case True
    then show ?thesis using Cons.IH [OF us Cons.prems(2), of ps ld] scan_skipped [OF u True] ps by simp
  next
    case False
    obtain ld' q where "scan_interface junk dir f ld p = Some (Found ld' q (file_of dir q))"
      using scan_found [OF u False] by blast
    then show ?thesis using Cons.IH [OF us Cons.prems(2) ps(2), of ld'] by (simp add: ps(1))
  qed
qed

text \<open>C22: The search for ports. When the kernel answers for every interface, the array holds the interfaces other than those
  with the zero MAC address, in the reverse order of the kernel's list, each with what the kernel and the driver said of it, the
  number of ports is their number and each has its report written to the file named after it. An interface of which any
  question is refused ends the search with -1: the number of ports is left as it was, whatever was found before.\<close>

theorem ports_found:
  assumes "\<forall>f \<in> set gs. usable f" and "length gs \<le> 64" and "length gs \<le> length ps"
  shows "(\<exists>qs. get_port_index True (Some gs) junk dir ld ps h
      = Some (0, h\<lparr>port_count := int (length qs)\<rparr>, Some (qs, map (file_of dir) qs))
    \<and> list_all2 port_of (filter (\<lambda>f. \<not> loopback f) (rev gs)) qs)
    \<and> (\<forall>fs g. refused g \<and> length (fs @ g # gs) \<le> 64 \<and> length (fs @ g # gs) \<le> length ps
        \<longrightarrow> get_port_index True (Some (fs @ g # gs)) junk dir ld ps h = Some (-1, h, None))"
proof (intro conjI allI impI)
  obtain qs where "scan_loop junk dir (rev gs) ld ps = Some (Some (qs, map (file_of dir) qs))"
    "list_all2 port_of (filter (\<lambda>f. \<not> loopback f) (rev gs)) qs" using scan_loop_found [of "rev gs" ps junk dir ld] assms by auto
  then show "\<exists>qs. get_port_index True (Some gs) junk dir ld ps h
      = Some (0, h\<lparr>port_count := int (length qs)\<rparr>, Some (qs, map (file_of dir) qs))
    \<and> list_all2 port_of (filter (\<lambda>f. \<not> loopback f) (rev gs)) qs"
    using assms(2) by (intro exI [of _ qs]) (simp add: get_port_index_def)
next
  fix fs g
  assume a: "refused g \<and> length (fs @ g # gs) \<le> 64 \<and> length (fs @ g # gs) \<le> length ps"
  have "scan_loop junk dir (rev gs @ g # rev fs) ld ps = Some None"
    using a assms(1) by (intro scan_loop_refused) auto
  then show "get_port_index True (Some (fs @ g # gs)) junk dir ld ps h = Some (-1, h, None)"
    using a by (simp add: get_port_index_def)
qed

definition sample_interfaces :: "interface list" where
  "sample_interfaces =
    [\<lparr>if_mac = Some [0, 0, 0, 0, 0, 0], if_name = ''lo'', if_ip = Some ''127.0.0.1'', if_broad = None, if_mask = None,
       if_mtu = Some 65536, if_gset = None, if_glink = Some 1, if_writable = False\<rparr>,
     \<lparr>if_mac = Some [2, 0, 0, 0, 0, 1], if_name = ''eth0'', if_ip = Some ''10.0.0.1'', if_broad = Some ''10.0.0.255'',
       if_mask = Some ''255.255.255.0'', if_mtu = Some 1500, if_gset = Some \<lparr>et_supported = 0x6F, et_advertising = 0x6F,
         et_speed = 1000, et_duplex = 1, et_port = 0, et_transceiver = 0, et_autoneg = 1\<rparr>, if_glink = Some 1, if_writable = True\<rparr>,
     \<lparr>if_mac = Some [2, 0, 0, 0, 0, 2], if_name = ''eth1'', if_ip = Some ''10.0.1.1'', if_broad = Some ''10.0.1.255'',
       if_mask = Some ''255.255.255.0'', if_mtu = Some 1500, if_gset = None, if_glink = None, if_writable = True\<rparr>]"

lemma ports_found_witness:
  "\<forall>junk h p. (\<exists>q1 q2. get_port_index True (Some sample_interfaces) junk ''/d'' 0 (replicate 4 p) h
      = Some (0, h\<lparr>port_count := 2\<rparr>, Some ([q1, q2], map (file_of ''/d'') [q1, q2]))
      \<and> dev_name (ps_dev q1) = ''eth1'' \<and> dev_name (ps_dev q2) = ''eth0'')
    \<and> get_port_index True (Some ((sample_interfaces ! 1)\<lparr>if_broad := None\<rparr> # sample_interfaces)) junk ''/d'' 0 (replicate 4 p) h
      = Some (-1, h, None)"
proof (intro allI)
  fix junk :: adapter and h :: host_info and p :: port_stats
  have l: "map loopback sample_interfaces = [True, False, False]" by code_simp
  have l': "loopback (sample_interfaces ! 0)" "\<not> loopback (sample_interfaces ! 1)" "\<not> loopback (sample_interfaces ! 2)"
    using l by (simp_all add: sample_interfaces_def)
  have s: "sample_interfaces = [sample_interfaces ! 0, sample_interfaces ! 1, sample_interfaces ! 2]"
    by (simp add: sample_interfaces_def)
  have u: "\<forall>f \<in> set sample_interfaces. usable f"
    using l' unfolding usable_def answered_def by (simp add: sample_interfaces_def)
  have r: "refused ((sample_interfaces ! 1)\<lparr>if_broad := None\<rparr>)"
    using l'(2) by (simp add: refused_def answered_def loopback_def)
  have n: "length sample_interfaces = 3" by (simp add: sample_interfaces_def)
  have len: "length sample_interfaces \<le> 64" "length sample_interfaces \<le> length (replicate 4 p)" by (simp_all add: n)
  have found: "\<exists>qs. get_port_index True (Some sample_interfaces) junk ''/d'' 0 (replicate 4 p) h
      = Some (0, h\<lparr>port_count := int (length qs)\<rparr>, Some (qs, map (file_of ''/d'') qs))
      \<and> list_all2 port_of (filter (\<lambda>f. \<not> loopback f) (rev sample_interfaces)) qs"
    and lost: "\<forall>fs g. refused g \<and> length (fs @ g # sample_interfaces) \<le> 64 \<and> length (fs @ g # sample_interfaces) \<le> length (replicate 4 p)
        \<longrightarrow> get_port_index True (Some (fs @ g # sample_interfaces)) junk ''/d'' 0 (replicate 4 p) h = Some (-1, h, None)"
    using ports_found [OF u len, of junk "''/d''" 0 h] by blast+
  have kept: "filter (\<lambda>f. \<not> loopback f) (rev sample_interfaces) = [sample_interfaces ! 2, sample_interfaces ! 1]"
    by (subst s) (simp add: l' l'(2) [unfolded One_nat_def])
  obtain qs where qs: "get_port_index True (Some sample_interfaces) junk ''/d'' 0 (replicate 4 p) h
      = Some (0, h\<lparr>port_count := int (length qs)\<rparr>, Some (qs, map (file_of ''/d'') qs))"
    "list_all2 port_of [sample_interfaces ! 2, sample_interfaces ! 1] qs" using found unfolding kept by blast
  from qs(2) obtain q1 q2 where q: "qs = [q1, q2]" "port_of (sample_interfaces ! 2) q1" "port_of (sample_interfaces ! 1) q2"
    by (auto simp: list_all2_Cons1)
  have names: "dev_name (ps_dev q1) = ''eth1''" "dev_name (ps_dev q2) = ''eth0''"
    using q(2,3) by (simp_all add: port_of_def sample_interfaces_def)
  show "(\<exists>q1 q2. get_port_index True (Some sample_interfaces) junk ''/d'' 0 (replicate 4 p) h
      = Some (0, h\<lparr>port_count := 2\<rparr>, Some ([q1, q2], map (file_of ''/d'') [q1, q2]))
      \<and> dev_name (ps_dev q1) = ''eth1'' \<and> dev_name (ps_dev q2) = ''eth0'')
    \<and> get_port_index True (Some ((sample_interfaces ! 1)\<lparr>if_broad := None\<rparr> # sample_interfaces)) junk ''/d'' 0 (replicate 4 p) h
      = Some (-1, h, None)"
  proof
    show "\<exists>q1 q2. get_port_index True (Some sample_interfaces) junk ''/d'' 0 (replicate 4 p) h
      = Some (0, h\<lparr>port_count := 2\<rparr>, Some ([q1, q2], map (file_of ''/d'') [q1, q2]))
      \<and> dev_name (ps_dev q1) = ''eth1'' \<and> dev_name (ps_dev q2) = ''eth0''"
      using qs(1) names unfolding q(1) by (intro exI [of _ q1] exI [of _ q2]) simp
    show "get_port_index True (Some ((sample_interfaces ! 1)\<lparr>if_broad := None\<rparr> # sample_interfaces)) junk ''/d'' 0 (replicate 4 p) h
      = Some (-1, h, None)"
      using spec [OF spec [OF lost, of "[]"], of "(sample_interfaces ! 1)\<lparr>if_broad := None\<rparr>"] r by (simp add: n)
  qed
qed

end
