(* ===== verification/Spec2Isabelle.thy ===== *)
theory Spec2Isabelle
  imports Click_Client Core_Timers Flow_Gen Forward Inform Main_Loop Ndn_Routers Ntp Port_Lists Rm_Main Station_Main Station_Report
begin

text \<open>
  Verification of the CoLoR prototype: the C code of the resource manager (\<open>src/RM\<close>), of the
  monitoring stations (\<open>src/NetworkMonitoringTools\<close>) and of the server's flow generator
  (\<open>src/server\<close>), and the C++ code of the Click elements of the border routers and the client
  (\<open>src/border_router\<close>, \<open>src/IPN\<close>, \<open>src/client\<close>).

  THE PROGRAM. A resource manager (RM) is a packet processor on top of DPDK. Its worker cores run
  \<open>main_loop\<close> (\<open>RM/main.c\<close>): they receive frames, answer the monitoring stations, append path
  identifiers (PIDs) to CoLoR requests and send them on one of three paths, and negotiate with the
  managers of neighbouring domains which identifiers the paths between them have. The tables are in
  \<open>RM/wenxingbeng.c\<close>, which \<open>main.c\<close> includes. A monitoring station
  (\<open>stats_send_ver_test1\<close>) starts and ends, by timers, a process per network port that captures and
  counts frames, watches the link and the use of the bandwidth, and reports them to the manager. A
  server answers the requests that the manager forwards with flows of data packets. A client in the domain
  makes the requests; the border routers carry requests, data and control packets between the manager and the
  neighbouring domains, along the identifiers that the managers announce to them.

  THEORIES, in the order of the code.
  \<^item> \<open>Prelude\<close>: machine words, byte buffers with bounds-checked little-endian access, byte order, the
    option monad (\<open>None\<close> is undefined behaviour), the collections \<open>buf_simps\<close> (loads from stored
    buffers), \<open>within_simps\<close> (parts of stored blocks) and \<open>ub_elims\<close> (inversion).
  \<^item> \<open>Nid_Table\<close>: the path table \<open>nid_ip_nid_ip_nid_array\<close>, \<open>compare_nid\<close>, \<open>aligment_configure\<close>,
    \<open>find_ip_or_pid\<close>, \<open>update_nid_ip_nid_ip_nid\<close>.
  \<^item> \<open>Pid_Chain\<close>: the chain of neighbours, \<open>get_item\<close>, \<open>search\<close>,
    \<open>read_configuration_init_pid_change_wxb\<close>; abstract specification \<open>chain_spec\<close>. \<open>As_Config\<close>: the
    older construction from the file \<open>as_configuration.txt\<close>, with its \<open>strtok\<close> loops.
  \<^item> \<open>Pid_Select\<close>: the round robin and random path selectors; interface \<open>selector\<close>.
  \<^item> \<open>Packet\<close>: packet buffers, the RFC 1812 checks, appending of identifiers, \<open>get_packets_forward\<close>.
  \<^item> \<open>Cksum\<close>: the IPv4 checksum functions.
  \<^item> \<open>Tx_Buffer\<close>: the transmit buffers; interface \<open>packet_sink\<close>.
  \<^item> \<open>Lookup\<close>, \<open>Lookup6\<close>: the route tables over DPDK's hash (a parameter with the laws \<open>hash_laws\<close>)
    for IPv4, services and IPv6.
  \<^item> \<open>Forward\<close>: \<open>l3fwd_simple_forward\<close>.
  \<^item> \<open>Trap_Rm\<close>: the messages of the monitoring stations.
  \<^item> \<open>Control_Msg\<close>: construction, sending and reading of control messages.
  \<^item> \<open>Negotiation\<close>: the handlers of the negotiation, the announcements, the reachable states
    (\<open>managed\<close>).
  \<^item> \<open>Main_Loop\<close>: drain, dispatch and rounds of a worker core (\<open>core_run\<close>, with all it received and all it sent); \<open>Core_Timers\<close>: the start
    of a worker, the timer part of a round with \<open>timer0_cb\<close>, the alarm of \<open>set_timer\<close>.
  \<^item> \<open>C_Text\<close>: \<open>strtoul\<close>, \<open>atoi\<close>, \<open>strchr\<close> of the C library; \<open>Rm_Args\<close>: the command line;
    \<open>Rm_Start\<close>: checks, queues, memory and tables per socket, the wait for the links; \<open>Rm_Main\<close>:
    \<open>MAIN\<close>, as the calls it makes to the devices and the state it leaves for the cores.
  \<^item> \<open>Timer_List\<close>: the doubly linked list of timers (\<open>local_timer.c\<close>) on an explicit store, refining
    a list of timers and freeing the nodes that leave it; \<open>Station_Timers\<close>: the signal handler, timer messages (\<open>local_comm.c\<close>).
  \<^item> \<open>Station_Main\<close>: the processes of the ports, which \<open>main.c\<close> of the station starts, kills and waits for,
    as a step relation (\<open>process_step\<close>) between the places of its loop, at each of which a timer may fire.
  \<^item> \<open>Wire_Records\<close>: interface \<open>wire_records\<close> of messages that hold records of one size;
    \<open>Timer_Sender\<close>: \<open>local_sender.c\<close>, up to the timers the station then has; \<open>Inform\<close>: the requests of
    \<open>local_inform.c\<close>, the answers of \<open>local_comm.c\<close> and the thread that listens.
  \<^item> \<open>Link_Stats\<close>: the link test (\<open>get_link_stats.c\<close>); \<open>Port_Lists\<close>: the lists of destinations and of
    reporting ports (\<open>list_handle.c\<close>, \<open>get_host_info.c\<close>), interface \<open>new_at_end\<close>; \<open>Ntp\<close>: the clock (\<open>ntp.c\<close>).
    Their calls are comments in this version of the station's \<open>main.c\<close>.
  \<^item> \<open>Trap_Station\<close>: the messages of a station (\<open>trap.c\<close>); \<open>Capture\<close>: the capture thread;
    \<open>Trap_Protocol\<close>: the exchange between station and manager, from end to end; \<open>Port_Monitor\<close>: the
    monitoring loop \<open>get_port_info\<close>.
  \<^item> \<open>Station_Report\<close>: what a station finds out about its ports and writes down (\<open>get_host_info.c\<close>, \<open>get_adapter.c\<close>,
    \<open>dump.c\<close>); \<open>Stats_Store\<close>: its database (\<open>mysql_operate.c\<close>), over a server that is an argument.
  \<^item> \<open>Flow_Gen\<close>: the flow generator, its threads as interleaved steps (\<open>gen_step\<close>).
  \<^item> \<open>Border_Router\<close>: the element \<open>IPBorderRouter\<close>, over Click's hash map (a parameter with the laws \<open>click_laws\<close>);
    \<open>Click_Client\<close>: the element \<open>color_get_new\<close>, and the way of its request through a border router, the manager and a
    border router again; \<open>Ndn_Routers\<close>: the small elements of the experiments, interface \<open>bridge\<close>.

  CORRESPONDENCE. A C structure is a record with the source's field names, the packet data a byte
  list, integers are words of the source's width. Global variables are fields of state records
  that the operations take and return. DPDK (hash tables, buffer pools, drivers) and the random
  values are arguments, and so are the outcomes of system calls and the times; floating-point numbers
  are exact; an operation on packets gives the list of what it did with the buffers
  (sent, freed, queued). A read of uninitialised memory, an access out of bounds and a dereference
  of \<open>NULL\<close> give \<open>None\<close>, and so do overflows of signed integers where values from outside can reach them (the numbers of a
  timer file, the times in an answer to the link test, the count of the children); errors the code reports are values.

  WHAT THE LEMMAS SHOW. The chain is built as specified and always agrees with the path table,
  whatever messages arrive; a completed exchange leaves both managers with the same identifiers; the
  search for free identifiers ends within 5100 shifts; what is sent is what is read; the transmit
  buffers lose and reorder nothing; look-ups follow the route arrays; the checksum verifies; the
  selectors are fair. The files and messages of a station are read as they were written: a
  timer file, a port file, a request and its answer. The report of an adapter says what the driver said. The tables
  of a border router hold what the last announcements said, and packets leave by the interface of the address they name;
  a request of the client leaves the domain along the identifier that the manager appended. They also show where the code is wrong: lengths that grow by 1024, buffers
  used after they were given away, packets nobody frees, messages that dereference \<open>NULL\<close>.

  BOUNDS AND FUEL. Loops over strings and packets recurse on what is left of them. The shifts of \<open>avoid\<close>, the
  walks through linked nodes, the repeated link test, the timer handler and the tries of the monitoring loop are
  partial functions with \<open>None\<close> for not returning; where they return it is proved. \<open>probe_loop\<close> has
  five units of fuel, the packets of a test. A configuration file is read once: the static index of
  \<open>As_Config\<close> is part of its model, and a second call is undefined.

  NOT MODELLED. Printing on the terminal and the log files; the hash functions handed to DPDK; the element \<open>trap_rm.cc\<close>,
  which does not compile (the declarations it needs are comments); the Click configurations, which are not C; the test
  programs of the station and DPDK's timer sample, which are not part of the program; the kernel's constants in
  \<open>getnet.h\<close>.
\<close>

end
